(* ===== verification/Prelude.thy ===== *)
theory Prelude
  imports Main "HOL-Library.Word"
begin

text \<open>
  Shared vocabulary of the development: the machine types of \<^verbatim>\<open>kernel/types.h\<close>, the
  outcome of a kernel function (it returns, it goes to sleep in \<^verbatim>\<open>sleep()\<close>, or it
  calls \<^verbatim>\<open>panic()\<close>) with its sequencing operator and its weakest-precondition
  calculus, C-style unsigned counters, little-endian encodings of 16, 32 and 64 bit
  integers, and the list and word lemmas the components share.
\<close>

unbundle bit_operations_syntax

section \<open>Machine types\<close>

text \<open>\<^verbatim>\<open>uchar\<close>, \<^verbatim>\<open>ushort\<close>, \<^verbatim>\<open>uint\<close> and \<^verbatim>\<open>uint64\<close>; a byte string is a list of bytes.\<close>

type_synonym u8 = "8 word"
type_synonym u16 = "16 word"
type_synonym u32 = "32 word"
type_synonym u64 = "64 word"
type_synonym bytes = "u8 list"
type_synonym memory = "u64 \<Rightarrow> u8"

named_theorems wp \<open>weakest-precondition equations of the kernel's operations\<close>
named_theorems frame \<open>state components an operation leaves alone\<close>
named_theorems codec \<open>facts on the byte layout of on-disk structures\<close>

section \<open>Outcomes of kernel functions\<close>

text \<open>
  A kernel function takes the state and either returns a value with the new state,
  or gives up the CPU inside \<^verbatim>\<open>sleep()\<close> (the state then has the caller marked
  \<^verbatim>\<open>SLEEPING\<close>), or halts the machine in \<^verbatim>\<open>panic(msg)\<close>.
\<close>

datatype ('a, 's) kout = Ok 'a 's | Sleep 's | Panic string

fun kbind :: "('a, 's) kout \<Rightarrow> ('a \<Rightarrow> 's \<Rightarrow> ('b, 's) kout) \<Rightarrow> ('b, 's) kout" where
  "kbind (Ok x s) f = f x s"
| "kbind (Sleep s) f = Sleep s"
| "kbind (Panic m) f = Panic m"

text \<open>
  \<open>returns m Q\<close>: the call returns (it neither panics nor sleeps) and its value and final
  state satisfy \<open>Q\<close>. \<open>may_return m Q\<close>: if it returns, they satisfy \<open>Q\<close>.
\<close>

fun returns :: "('a, 's) kout \<Rightarrow> ('a \<Rightarrow> 's \<Rightarrow> bool) \<Rightarrow> bool" where
  "returns (Ok x s) Q = Q x s"
| "returns (Sleep s) Q = False"
| "returns (Panic m) Q = False"

fun may_return :: "('a, 's) kout \<Rightarrow> ('a \<Rightarrow> 's \<Rightarrow> bool) \<Rightarrow> bool" where
  "may_return (Ok x s) Q = Q x s"
| "may_return (Sleep s) Q = True"
| "may_return (Panic m) Q = True"

lemma returns_kbind [wp]:
  "returns (kbind m f) Q \<longleftrightarrow> returns m (\<lambda>x s. returns (f x s) Q)"
  by (cases m) auto

lemma may_return_kbind [wp]:
  "may_return (kbind m f) Q \<longleftrightarrow> may_return m (\<lambda>x s. may_return (f x s) Q)"
  by (cases m) auto

lemma returns_mono:
  "returns m Q \<Longrightarrow> (\<And>x s. m = Ok x s \<Longrightarrow> Q x s \<Longrightarrow> R x s) \<Longrightarrow> returns m R"
  by (cases m) auto

lemma may_return_mono:
  "may_return m Q \<Longrightarrow> (\<And>x s. m = Ok x s \<Longrightarrow> Q x s \<Longrightarrow> R x s) \<Longrightarrow> may_return m R"
  by (cases m) auto

lemma returns_iff: "returns m Q \<longleftrightarrow> (\<exists>x s. m = Ok x s \<and> Q x s)"
  by (cases m) auto

lemma may_return_iff: "may_return m Q \<longleftrightarrow> (\<forall>x s. m = Ok x s \<longrightarrow> Q x s)"
  by (cases m) auto

lemma returns_conj:
  "returns m (\<lambda>x s. P x s \<and> Q x s) \<longleftrightarrow> returns m P \<and> returns m Q"
  by (cases m) auto

lemma returns_may_return: "returns m P \<Longrightarrow> may_return m Q \<Longrightarrow> returns m (\<lambda>x s. P x s \<and> Q x s)"
  by (cases m) auto

lemma kbind_Ok_iff:
  "kbind m f = Ok y t \<longleftrightarrow> (\<exists>x s. m = Ok x s \<and> f x s = Ok y t)"
  by (cases m) auto

lemma kbind_Sleep_iff: "kbind m f = Sleep t \<longleftrightarrow> m = Sleep t \<or> (\<exists>x u. m = Ok x u \<and> f x u = Sleep t)"
  by (cases m) auto

lemma kbind_OkE [elim!]:
  assumes "kbind m f = Ok y t"
  obtains x s where "m = Ok x s" and "f x s = Ok y t"
  using assms by (auto simp: kbind_Ok_iff)

text \<open>A loop body is only run after the calls before it have returned.\<close>

lemma kbind_cong [fundef_cong]:
  "m = m' \<Longrightarrow> (\<And>x s. m' = Ok x s \<Longrightarrow> f x s = g x s) \<Longrightarrow> kbind m f = kbind m' g"
  by (cases m') auto

lemma kbind_assoc: "kbind (kbind m f) g = kbind m (\<lambda>x s. kbind (f x s) g)"
  by (cases m) auto

lemma kbind_Ok [simp]: "kbind m Ok = m" "kbind m' (\<lambda>_. Ok ()) = m'"
  by (cases m, auto) (cases m', auto)

section \<open>C unsigned counters\<close>

text \<open>
  A \<^verbatim>\<open>uint\<close> counter kept as a natural number: increment and decrement wrap at
  \<open>2 ^ 32\<close> as the C type does.
\<close>

definition uint_inc :: "nat \<Rightarrow> nat" where
  "uint_inc n = (n + 1) mod 2 ^ 32"

definition uint_dec :: "nat \<Rightarrow> nat" where
  "uint_dec n = (if n = 0 then 2 ^ 32 - 1 else n - 1)"

lemma uint_inc_small [simp]: "n < 2 ^ 32 - 1 \<Longrightarrow> uint_inc n = Suc n"
  by (simp add: uint_inc_def)

lemma uint_dec_Suc [simp]: "uint_dec (Suc n) = n"
  by (simp add: uint_dec_def)

section \<open>Lists\<close>

text \<open>Overwrite the bytes of \<open>xs\<close> from position \<open>i\<close> on with \<open>ys\<close>.\<close>

definition put_at :: "nat \<Rightarrow> 'a list \<Rightarrow> 'a list \<Rightarrow> 'a list" where
  "put_at i ys xs = take i xs @ ys @ drop (i + length ys) xs"

text \<open>The part of \<open>n\<close> elements from position \<open>i\<close> on.\<close>

definition get_at :: "nat \<Rightarrow> nat \<Rightarrow> 'a list \<Rightarrow> 'a list" where
  "get_at i n xs = take n (drop i xs)"

lemma length_put_at [simp]:
  "i + length ys \<le> length xs \<Longrightarrow> length (put_at i ys xs) = length xs"
  by (simp add: put_at_def)

lemma length_get_at [simp]: "i + n \<le> length xs \<Longrightarrow> length (get_at i n xs) = n"
  by (simp add: get_at_def)

lemma get_put_same:
  "i + length ys \<le> length xs \<Longrightarrow> get_at i (length ys) (put_at i ys xs) = ys"
  by (simp add: put_at_def get_at_def)

lemma nth_put_at:
  "i + length ys \<le> length xs \<Longrightarrow> j < length xs \<Longrightarrow>
    put_at i ys xs ! j = (if i \<le> j \<and> j < i + length ys then ys ! (j - i) else xs ! j)"
  by (auto simp: put_at_def nth_append min_def)

lemma nth_get_at: "i + n \<le> length xs \<Longrightarrow> j < n \<Longrightarrow> get_at i n xs ! j = xs ! (i + j)"
  by (simp add: get_at_def)

lemma get_put_other:
  assumes "i + length ys \<le> length xs" and "j + n \<le> length xs"
    and "j + n \<le> i \<or> i + length ys \<le> j"
  shows "get_at j n (put_at i ys xs) = get_at j n xs"
  by (rule nth_equalityI) (use assms in \<open>auto simp: nth_get_at nth_put_at\<close>)

lemma put_get_id: "i + n \<le> length xs \<Longrightarrow> put_at i (get_at i n xs) xs = xs"
  by (rule nth_equalityI) (auto simp: nth_put_at nth_get_at)

lemma get_at_all [simp]: "get_at 0 (length xs) xs = xs"
  by (simp add: get_at_def)

lemma find_SomeD: "find Q xs = Some x \<Longrightarrow> Q x \<and> x \<in> set xs"
  by (auto simp: find_Some_iff)

lemma find_upt_first:
  assumes "find P [a..<b] = Some p" and "a \<le> i" and "i < p"
  shows "\<not> P i"
proof -
  obtain k where k: "k < b - a" "p = a + k" "\<forall>j<k. \<not> P (a + j)"
    using assms(1) by (fastforce simp: find_Some_iff)
  then show ?thesis using spec [OF k(3), of "i - a"] assms(2,3) by simp
qed

section \<open>Loops with a fixed range\<close>

text \<open>\<open>kfor xs f\<close>: run \<open>f\<close> on each element of \<open>xs\<close> in turn, until one of the calls does not return.\<close>

fun kfor :: "'i list \<Rightarrow> ('i \<Rightarrow> 's \<Rightarrow> (unit, 's) kout) \<Rightarrow> 's \<Rightarrow> (unit, 's) kout" where
  "kfor [] f s = Ok () s"
| "kfor (x # xs) f s = kbind (f x s) (\<lambda>_ s. kfor xs f s)"

lemma returns_kfor_upt:
  assumes "I a s" and "\<And>i t. a \<le> i \<Longrightarrow> i < b \<Longrightarrow> I i t \<Longrightarrow> returns (f i t) (\<lambda>_. I (Suc i))" and "a \<le> b"
  shows "returns (kfor [a..<b] f s) (\<lambda>_. I b)"
  using assms
proof (induction "b - a" arbitrary: a s)
  case 0
  then show ?case by simp
next
  case (Suc k)
  then have ab: "a < b" by simp
  have "returns (f a s) (\<lambda>_ t. returns (kfor [Suc a..<b] f t) (\<lambda>_. I b))"
    by (rule returns_mono [OF Suc.prems(2) [OF le_refl ab Suc.prems(1)]])
      (use Suc ab in auto)
  then show ?case using ab by (simp add: upt_conv_Cons wp)
qed

end
