(* ===== verification/Bytes.thy ===== *)
theory Bytes
  imports Prelude
begin

text \<open>
  The byte level of the machine: little-endian encodings of C integers (the layout the
  on-disk structures of \<^verbatim>\<open>kernel/fs.h\<close> and the page-table entries rely on), signed
  \<^verbatim>\<open>short\<close> values, and reading and writing runs of bytes in physical memory.
\<close>

section \<open>Little-endian integers\<close>

fun le_bytes :: "nat \<Rightarrow> nat \<Rightarrow> bytes" where
  "le_bytes 0 n = []"
| "le_bytes (Suc k) n = of_nat n # le_bytes k (n div 256)"

fun le_val :: "bytes \<Rightarrow> nat" where
  "le_val [] = 0"
| "le_val (b # bs) = unat b + 256 * le_val bs"

lemma length_le_bytes [simp, codec]: "length (le_bytes k n) = k"
  by (induction k arbitrary: n) auto

lemma le_val_bytes: "le_val (le_bytes k n) = n mod 256 ^ k"
proof (induction k arbitrary: n)
  case 0
  then show ?case by simp
next
  case (Suc k)
  have "le_val (le_bytes (Suc k) n) = n mod 256 + 256 * (n div 256 mod 256 ^ k)"
    by (simp add: Suc.IH unat_of_nat)
  also have "\<dots> = n mod (256 * 256 ^ k)"
    by (simp add: mod_mult2_eq)
  finally show ?case by simp
qed

lemma le_val_bytes_small [codec]: "n < 256 ^ k \<Longrightarrow> le_val (le_bytes k n) = n"
  by (simp add: le_val_bytes)

lemma le_val_bound: "le_val bs < 256 ^ length bs"
proof (induction bs)
  case Nil
  then show ?case by simp
next
  case (Cons b bs)
  have "unat b < 256" using unsigned_less [of b] by simp
  with Cons.IH show ?case by auto
qed

lemma le_bytes_val [codec]: "le_bytes (length bs) (le_val bs) = bs"
proof (induction bs)
  case Nil
  then show ?case by simp
next
  case (Cons b bs)
  have b: "unat b < 256" using unsigned_less [of b] by simp
  have "(of_nat (unat b + 256 * le_val bs) :: u8) = b"
    using b by (simp add: word_unat_eq_iff unat_of_nat unat_word_ariths)
  moreover have "(unat b + 256 * le_val bs) div 256 = le_val bs"
    using b by simp
  ultimately show ?case using Cons.IH by simp
qed

lemma le_val_inject: "length xs = length ys \<Longrightarrow> le_val xs = le_val ys \<Longrightarrow> xs = ys"
  by (metis le_bytes_val)

lemma le_val_zeros [simp]: "le_val (replicate n 0) = 0"
  by (induction n) auto

lemma le_bytes_zero [simp]: "le_bytes k 0 = replicate k 0"
  by (induction k) auto

section \<open>Signed shorts\<close>

text \<open>A C \<^verbatim>\<open>short\<close> is an integer in \<open>{-2 ^ 15 ..< 2 ^ 15}\<close>; conversion keeps the low 16 bits.\<close>

definition to_short :: "int \<Rightarrow> int" where
  "to_short x = (x + 2 ^ 15) mod 2 ^ 16 - 2 ^ 15"

definition is_short :: "int \<Rightarrow> bool" where
  "is_short x \<longleftrightarrow> - (2 ^ 15) \<le> x \<and> x < 2 ^ 15"

definition short_bytes :: "int \<Rightarrow> bytes" where
  "short_bytes x = le_bytes 2 (nat (x mod 2 ^ 16))"

definition short_val :: "bytes \<Rightarrow> int" where
  "short_val bs = to_short (int (le_val bs))"

lemma to_short_id [simp]: "is_short x \<Longrightarrow> to_short x = x"
  by (simp add: is_short_def to_short_def)

lemma is_short_to_short [simp]: "is_short (to_short x)"
  using pos_mod_bound [of "2 ^ 16" "x + 2 ^ 15"] pos_mod_sign [of "2 ^ 16" "x + 2 ^ 15"]
  by (simp add: is_short_def to_short_def)

lemma length_short_bytes [simp, codec]: "length (short_bytes x) = 2"
  by (simp add: short_bytes_def)

lemma short_val_bytes [codec]: "is_short x \<Longrightarrow> short_val (short_bytes x) = x"
proof -
  assume x: "is_short x"
  have "nat (x mod 2 ^ 16) < 256 ^ 2"
    using pos_mod_bound [of "2 ^ 16" x] by simp
  then have "le_val (short_bytes x) = nat (x mod 2 ^ 16)"
    unfolding short_bytes_def by (rule le_val_bytes_small)
  then have "short_val (short_bytes x) = to_short (x mod 2 ^ 16)"
    by (simp add: short_val_def)
  also have "\<dots> = to_short x"
    by (simp add: to_short_def mod_simps)
  finally show ?thesis using x by simp
qed

lemma short_bytes_val [codec]: "length bs = 2 \<Longrightarrow> short_bytes (short_val bs) = bs"
proof -
  assume l: "length bs = 2"
  have b: "le_val bs < 2 ^ 16" using le_val_bound [of bs] by (simp add: l)
  have "short_val bs mod 2 ^ 16 = int (le_val bs)"
    using b by (simp add: short_val_def to_short_def mod_simps)
  then show ?thesis
    using le_bytes_val [of bs] by (simp add: short_bytes_def l)
qed

lemma is_short_val [simp]: "is_short (short_val bs)"
  by (simp add: short_val_def)

section \<open>Runs of bytes in memory\<close>

definition mem_bytes :: "memory \<Rightarrow> u64 \<Rightarrow> nat \<Rightarrow> bytes" where
  "mem_bytes m a n = map (\<lambda>i. m (a + of_nat i)) [0..<n]"

definition mem_put :: "memory \<Rightarrow> u64 \<Rightarrow> bytes \<Rightarrow> memory" where
  "mem_put m a bs = (\<lambda>x. if unat (x - a) < length bs then bs ! unat (x - a) else m x)"

definition load64 :: "memory \<Rightarrow> u64 \<Rightarrow> u64" where
  "load64 m a = of_nat (le_val (mem_bytes m a 8))"

definition store64 :: "memory \<Rightarrow> u64 \<Rightarrow> u64 \<Rightarrow> memory" where
  "store64 m a v = mem_put m a (le_bytes 8 (unat v))"

text \<open>The \<open>n\<close> bytes from \<open>a\<close> on and the \<open>k\<close> bytes from \<open>b\<close> on do not overlap.\<close>

definition disjoint_runs :: "u64 \<Rightarrow> nat \<Rightarrow> u64 \<Rightarrow> nat \<Rightarrow> bool" where
  "disjoint_runs a n b k \<longleftrightarrow> (\<forall>i<n. k \<le> unat (a + of_nat i - b))"

lemma length_mem_bytes [simp]: "length (mem_bytes m a n) = n"
  by (simp add: mem_bytes_def)

lemma nth_mem_bytes [simp]: "i < n \<Longrightarrow> mem_bytes m a n ! i = m (a + of_nat i)"
  by (simp add: mem_bytes_def)

lemma unat_of_nat_u64 [simp]: "i < 2 ^ 64 \<Longrightarrow> unat (of_nat i :: u64) = i"
  by (simp add: unat_of_nat)

lemma eq_plus_of_nat:
  fixes a d :: u64
  assumes "n < 2 ^ 64"
  shows "a = d + of_nat n \<longleftrightarrow> unat (a - d) = n"
  using unat_of_nat_u64 [OF assms]
  by (metis add.commute add_diff_cancel_right' diff_add_cancel word_unat_eq_iff)

lemma mem_bytes_put_same:
  assumes "length bs \<le> 2 ^ 64"
  shows "mem_bytes (mem_put m a bs) a (length bs) = bs"
proof (rule nth_equalityI)
  fix i assume i: "i < length (mem_bytes (mem_put m a bs) a (length bs))"
  then have "unat (of_nat i :: u64) = i" using assms by (intro unat_of_nat_u64) simp
  then show "mem_bytes (mem_put m a bs) a (length bs) ! i = bs ! i"
    using i by (simp add: mem_put_def)
qed simp

lemma mem_bytes_put_other:
  "disjoint_runs a n b (length bs) \<Longrightarrow> mem_bytes (mem_put m b bs) a n = mem_bytes m a n"
  by (rule nth_equalityI) (auto simp: mem_put_def disjoint_runs_def leD)

lemma load64_store64_same [simp]: "load64 (store64 m a v) a = v"
proof -
  have "mem_bytes (store64 m a v) a (length (le_bytes 8 (unat v))) = le_bytes 8 (unat v)"
    unfolding store64_def by (rule mem_bytes_put_same) simp
  moreover have "unat v < 256 ^ 8" using unsigned_less [of v] by simp
  ultimately show ?thesis
    by (simp add: load64_def le_val_bytes_small)
qed

lemma load64_store64_other:
  "disjoint_runs a 8 b 8 \<Longrightarrow> load64 (store64 m b v) a = load64 m a"
  by (simp add: load64_def store64_def mem_bytes_put_other)

lemma load64_put_other:
  "disjoint_runs a 8 b (length bs) \<Longrightarrow> load64 (mem_put m b bs) a = load64 m a"
  by (simp add: load64_def mem_bytes_put_other)

section \<open>Arrays of 32-bit words\<close>

text \<open>Word \<open>i\<close> of a block read as an array of \<^verbatim>\<open>uint\<close>, and a store to it.\<close>

definition get32 :: "nat \<Rightarrow> bytes \<Rightarrow> nat" where
  "get32 i d = le_val (get_at (4 * i) 4 d)"

definition put32 :: "nat \<Rightarrow> nat \<Rightarrow> bytes \<Rightarrow> bytes" where
  "put32 i v d = put_at (4 * i) (le_bytes 4 v) d"

text \<open>The bit pattern of an \<^verbatim>\<open>int\<close> read as a signed number, and back.\<close>

definition int_val :: "nat \<Rightarrow> int" where
  "int_val v = (if v < 2 ^ 31 then int v else int v - 2 ^ 32)"

definition int_pat :: "int \<Rightarrow> nat" where
  "int_pat x = nat (x mod 2 ^ 32)"

lemma length_put32 [simp]: "4 * i + 4 \<le> length d \<Longrightarrow> length (put32 i v d) = length d"
  by (simp add: put32_def)

lemma get32_put32_same [simp, codec]:
  "4 * i + 4 \<le> length d \<Longrightarrow> v < 2 ^ 32 \<Longrightarrow> get32 i (put32 i v d) = v"
  using get_put_same [of "4 * i" "le_bytes 4 v" d] by (simp add: get32_def put32_def le_val_bytes)

lemma get32_put32_other [simp, codec]:
  "4 * i + 4 \<le> length d \<Longrightarrow> 4 * j + 4 \<le> length d \<Longrightarrow> i \<noteq> j \<Longrightarrow> get32 j (put32 i v d) = get32 j d"
  unfolding get32_def put32_def by (subst get_put_other) (auto simp: get_at_def)

lemma get32_bound: "4 * i + 4 \<le> length d \<Longrightarrow> get32 i d < 2 ^ 32"
  using le_val_bound [of "get_at (4 * i) 4 d"] by (simp add: get32_def)

lemma int_val_pat [simp]: "- (2 ^ 31) \<le> x \<Longrightarrow> x < 2 ^ 31 \<Longrightarrow> int_val (int_pat x) = x"
proof (cases "0 \<le> x")
  case False
  moreover assume "- (2 ^ 31) \<le> x"
  ultimately have "x mod 2 ^ 32 = x + 2 ^ 32"
    using mod_add_self2 [of x "2 ^ 32"] mod_pos_pos_trivial [of "x + 2 ^ 32" "2 ^ 32"] by simp
  then show ?thesis using False \<open>- (2 ^ 31) \<le> x\<close> by (simp add: int_val_def int_pat_def)
qed (simp add: int_val_def int_pat_def)

lemma int_pat_nonneg: "0 \<le> x \<Longrightarrow> x < 2 ^ 31 \<Longrightarrow> int_pat x = nat x"
  by (simp add: int_pat_def)

end
