(* ===== verification/Cstring.thy ===== *)
theory Cstring
  imports Bytes
begin

text \<open>
  The routines of \<^verbatim>\<open>kernel/string.c\<close>. \<^verbatim>\<open>memset\<close> and \<^verbatim>\<open>memmove\<close> work on physical
  memory through pointers. The string routines work on byte lists: a C string is the
  list of its bytes and a byte read past the end of the list is the terminating NUL.
\<close>

section \<open>memset, memmove\<close>

text \<open>\<^verbatim>\<open>for(i = 0; i < n; i++) cdst[i] = c;\<close>\<close>

fun memset_loop :: "memory \<Rightarrow> u64 \<Rightarrow> u8 \<Rightarrow> nat \<Rightarrow> nat \<Rightarrow> memory" where
  "memset_loop m dst c i 0 = m"
| "memset_loop m dst c i (Suc k) = memset_loop (m(dst + of_nat i := c)) dst c (Suc i) k"

definition memset :: "memory \<Rightarrow> u64 \<Rightarrow> u8 \<Rightarrow> nat \<Rightarrow> memory" where
  "memset m dst c n = memset_loop m dst c 0 n"

text \<open>\<^verbatim>\<open>while(n-- > 0) *d++ = *s++;\<close>\<close>

fun copy_up :: "memory \<Rightarrow> u64 \<Rightarrow> u64 \<Rightarrow> nat \<Rightarrow> memory" where
  "copy_up m d s 0 = m"
| "copy_up m d s (Suc n) = copy_up (m(d := m s)) (d + 1) (s + 1) n"

text \<open>\<^verbatim>\<open>while(n-- > 0) *--d = *--s;\<close>\<close>

fun copy_down :: "memory \<Rightarrow> u64 \<Rightarrow> u64 \<Rightarrow> nat \<Rightarrow> memory" where
  "copy_down m d s 0 = m"
| "copy_down m d s (Suc n) = copy_down (m(d - 1 := m (s - 1))) (d - 1) (s - 1) n"

definition memmove :: "memory \<Rightarrow> u64 \<Rightarrow> u64 \<Rightarrow> nat \<Rightarrow> memory" where
  "memmove m dst src n =
    (if n = 0 then m
     else if src < dst \<and> src + of_nat n > dst
       then copy_down m (dst + of_nat n) (src + of_nat n) n
       else copy_up m dst src n)"

definition memcpy :: "memory \<Rightarrow> u64 \<Rightarrow> u64 \<Rightarrow> nat \<Rightarrow> memory" where
  "memcpy m dst src n = memmove m dst src n"

text \<open>The bytes a pointer loop reaches.\<close>

lemma unat_diff_of_nat_less:
  fixes a d :: u64
  assumes "n \<le> 2 ^ 64"
  shows "(\<exists>i<n. a = d + of_nat i) \<longleftrightarrow> unat (a - d) < n"
proof
  assume "\<exists>i<n. a = d + of_nat i"
  then show "unat (a - d) < n" using assms by auto
next
  assume *: "unat (a - d) < n"
  have "a = d + of_nat (unat (a - d))" by simp
  with * show "\<exists>i<n. a = d + of_nat i" by blast
qed

lemma memset_loop_eq:
  "i + k \<le> 2 ^ 64 \<Longrightarrow> memset_loop m dst c i k =
    (\<lambda>a. if i \<le> unat (a - dst) \<and> unat (a - dst) < i + k then c else m a)"
proof (induction k arbitrary: i m)
  case 0
  then show ?case by (auto simp: fun_eq_iff)
next
  case (Suc k)
  have "i < 2 ^ 64" using Suc.prems by simp
  then have eq: "(a = dst + of_nat i) \<longleftrightarrow> unat (a - dst) = i" for a
    by (rule eq_plus_of_nat)
  show ?case
    using Suc.prems by (auto simp: Suc.IH fun_eq_iff eq)
qed

lemma memset_eq:
  "n \<le> 2 ^ 64 \<Longrightarrow> memset m dst c n = (\<lambda>a. if unat (a - dst) < n then c else m a)"
  by (simp add: memset_def memset_loop_eq)

lemma memset_put: "n \<le> 2 ^ 64 \<Longrightarrow> memset m dst c n = mem_put m dst (replicate n c)"
  by (auto simp: memset_eq mem_put_def fun_eq_iff)

text \<open>
  Copying upwards is right when no write lands on a byte still to be read, and so is
  copying downwards in the other direction.
\<close>

lemma unat_diff_Suc:
  fixes a d :: u64
  assumes "Suc n \<le> 2 ^ 64"
  shows "unat (a - d) < Suc n \<longleftrightarrow> a = d \<or> unat (a - (d + 1)) < n"
proof -
  have "(\<exists>i<Suc n. a = d + of_nat i) \<longleftrightarrow> a = d \<or> (\<exists>i<n. a = (d + 1) + of_nat i)"
    by (auto simp: less_Suc_eq_0_disj add.assoc)
  then show ?thesis
    using unat_diff_of_nat_less [of "Suc n" a d] unat_diff_of_nat_less [of n a "d + 1"] assms
    by simp
qed

lemma copy_up_eq:
  assumes "n \<le> 2 ^ 64"
    and "\<And>i j. i < j \<Longrightarrow> j < n \<Longrightarrow> d + of_nat i \<noteq> s + of_nat j"
  shows "copy_up m d s n = (\<lambda>a. if unat (a - d) < n then m (s + (a - d)) else m a)"
  using assms
proof (induction n arbitrary: m d s)
  case 0
  then show ?case by auto
next
  case (Suc n)
  have apart: "(d + 1) + of_nat i \<noteq> (s + 1) + of_nat j" if "i < j" "j < n" for i j
    using Suc.prems(2) [of "Suc i" "Suc j"] that by (simp add: add.assoc)
  have "copy_up m d s (Suc n) = (\<lambda>a. if unat (a - (d + 1)) < n
      then (m(d := m s)) ((s + 1) + (a - (d + 1))) else (m(d := m s)) a)"
    using Suc.IH [OF _ apart] Suc.prems(1) by simp
  also have "\<dots> = (\<lambda>a. if unat (a - d) < Suc n then m (s + (a - d)) else m a)"
  proof
    fix a
    have "s + (a - d) \<noteq> d" if "unat (a - (d + 1)) < n"
    proof -
      have "\<exists>i<n. a = (d + 1) + of_nat i"
        using that Suc.prems(1) by (subst unat_diff_of_nat_less) auto
      then obtain i where "i < n" and a: "a = (d + 1) + of_nat i" by blast
      then have "s + (a - d) = s + of_nat (Suc i)" by (simp add: add.assoc)
      with Suc.prems(2) [of 0 "Suc i"] \<open>i < n\<close> show ?thesis by simp
    qed
    then show "(if unat (a - (d + 1)) < n then (m(d := m s)) ((s + 1) + (a - (d + 1)))
          else (m(d := m s)) a) = (if unat (a - d) < Suc n then m (s + (a - d)) else m a)"
      using unat_diff_Suc [OF Suc.prems(1), of a d] by (auto simp: algebra_simps)
  qed
  finally show ?case .
qed

lemma copy_down_eq:
  assumes "n \<le> 2 ^ 64"
    and "\<And>i j. j < i \<Longrightarrow> i < n \<Longrightarrow> d + of_nat i \<noteq> s + of_nat j"
  shows "copy_down m (d + of_nat n) (s + of_nat n) n =
    (\<lambda>a. if unat (a - d) < n then m (s + (a - d)) else m a)"
  using assms
proof (induction n arbitrary: m)
  case 0
  then show ?case by auto
next
  case (Suc n)
  let ?m = "m(d + of_nat n := m (s + of_nat n))"
  have "copy_down m (d + of_nat (Suc n)) (s + of_nat (Suc n)) (Suc n) =
      copy_down ?m (d + of_nat n) (s + of_nat n) n"
    by (simp add: algebra_simps)
  also have "\<dots> = (\<lambda>a. if unat (a - d) < n then ?m (s + (a - d)) else ?m a)"
    using Suc.IH Suc.prems by simp
  also have "\<dots> = (\<lambda>a. if unat (a - d) < Suc n then m (s + (a - d)) else m a)"
  proof
    fix a
    have "s + (a - d) \<noteq> d + of_nat n" if "unat (a - d) < n"
      using Suc.prems(2) [of "unat (a - d)" n] that by simp
    moreover have "a = d + of_nat n \<longleftrightarrow> unat (a - d) = n"
      using Suc.prems(1) by (intro eq_plus_of_nat) simp
    ultimately show "(if unat (a - d) < n then ?m (s + (a - d)) else ?m a) =
        (if unat (a - d) < Suc n then m (s + (a - d)) else m a)"
      by (auto simp: less_Suc_eq)
  qed
  finally show ?case .
qed

text \<open>
  \<^verbatim>\<open>memmove\<close> copies correctly whether or not the source and the destination overlap,
  for buffers that do not reach the end of the address space.
\<close>

lemma memmove_eq:
  assumes "unat dst + n < 2 ^ 64" and "unat src + n < 2 ^ 64"
  shows "memmove m dst src n =
    (\<lambda>a. if unat (a - dst) < n then m (src + (a - dst)) else m a)"
proof -
  have addr: "unat (dst + of_nat i) = unat dst + i" "unat (src + of_nat i) = unat src + i"
    if "i \<le> n" for i
    using that assms by (simp_all add: unat_word_ariths)
  have meet: "unat dst + i = unat src + j" if "dst + of_nat i = src + of_nat j" "i < n" "j < n" for i j
    using that addr by (metis less_imp_le)
  show ?thesis
  proof (cases "src < dst \<and> dst < src + of_nat n")
    case True
    have "unat src < unat dst" using True by (simp add: word_less_nat_alt)
    then have "dst + of_nat i \<noteq> src + of_nat j" if "j < i" "i < n" for i j
      using meet [of i j] that by auto
    then have "copy_down m (dst + of_nat n) (src + of_nat n) n =
        (\<lambda>a. if unat (a - dst) < n then m (src + (a - dst)) else m a)"
      using assms(1) by (intro copy_down_eq) auto
    with True show ?thesis by (auto simp: memmove_def)
  next
    case False
    have "\<not> (unat src < unat dst \<and> unat dst < unat src + n)"
      using False addr(2) [of n] by (auto simp: word_less_nat_alt)
    then have "dst + of_nat i \<noteq> src + of_nat j" if "i < j" "j < n" for i j
      using meet [of i j] that by auto
    then have "copy_up m dst src n =
        (\<lambda>a. if unat (a - dst) < n then m (src + (a - dst)) else m a)"
      using assms(1) by (intro copy_up_eq) auto
    with False show ?thesis by (auto simp: memmove_def)
  qed
qed

section \<open>Strings\<close>

text \<open>The byte at a pointer and the pointer moved on by one.\<close>

definition chd :: "bytes \<Rightarrow> u8" where
  "chd p = (case p of [] \<Rightarrow> 0 | b # _ \<Rightarrow> b)"

lemma chd_simps [simp]: "chd [] = 0" "chd (b # bs) = b"
  by (simp_all add: chd_def)

fun memcmp :: "bytes \<Rightarrow> bytes \<Rightarrow> nat \<Rightarrow> int" where
  "memcmp s1 s2 0 = 0"
| "memcmp s1 s2 (Suc n) =
    (if chd s1 \<noteq> chd s2 then uint (chd s1) - uint (chd s2)
     else memcmp (tl s1) (tl s2) n)"

fun strncmp :: "bytes \<Rightarrow> bytes \<Rightarrow> nat \<Rightarrow> int" where
  "strncmp p q 0 = 0"
| "strncmp p q (Suc n) =
    (if chd p \<noteq> 0 \<and> chd p = chd q then strncmp (tl p) (tl q) n
     else uint (chd p) - uint (chd q))"

text \<open>The \<open>n\<close> bytes \<^verbatim>\<open>strncpy(s, t, n)\<close> leaves at \<^verbatim>\<open>s\<close>.\<close>

fun strncpy :: "bytes \<Rightarrow> nat \<Rightarrow> bytes" where
  "strncpy t 0 = []"
| "strncpy t (Suc n) =
    (if chd t \<noteq> 0 then chd t # strncpy (tl t) n else 0 # replicate n 0)"

text \<open>
  The array \<open>s\<close> after \<^verbatim>\<open>safestrcpy(s, t, n)\<close>; the loop \<^verbatim>\<open>while(--n > 0 && (*s++ = *t++) != 0)\<close>
  stores at most \<open>n - 1\<close> bytes and the final \<^verbatim>\<open>*s = 0\<close> terminates them.
\<close>

fun safestrcpy_loop :: "bytes \<Rightarrow> nat \<Rightarrow> bytes" where
  "safestrcpy_loop t 0 = [0]"
| "safestrcpy_loop t (Suc n) =
    (if chd t \<noteq> 0 then chd t # safestrcpy_loop (tl t) n else [0, 0])"

definition safestrcpy :: "bytes \<Rightarrow> bytes \<Rightarrow> nat \<Rightarrow> bytes" where
  "safestrcpy s t n = (if n = 0 then s else put_at 0 (safestrcpy_loop t (n - 1)) s)"

fun strlen :: "bytes \<Rightarrow> nat" where
  "strlen [] = 0"
| "strlen (c # cs) = (if c = 0 then 0 else Suc (strlen cs))"

text \<open>The string a pointer denotes: the bytes before the first NUL.\<close>

definition cstr :: "bytes \<Rightarrow> bytes" where
  "cstr s = takeWhile (\<lambda>c. c \<noteq> 0) s"

lemma strlen_cstr: "strlen s = length (cstr s)"
  by (induction s) (auto simp: cstr_def)

lemma cstr_Cons: "cstr (c # cs) = (if c = 0 then [] else c # cstr cs)"
  by (simp add: cstr_def)

lemma cstr_Nil [simp]: "cstr [] = []"
  by (simp add: cstr_def)

lemma cstr_chd: "cstr p = (if chd p = 0 then [] else chd p # cstr (tl p))"
  by (cases p) (auto simp: cstr_Cons)

lemma length_strncpy [simp]: "length (strncpy t n) = n"
  by (induction n arbitrary: t) auto

text \<open>Two names are equal to \<^verbatim>\<open>strncmp\<close> exactly when their first \<open>n\<close> characters are.\<close>

lemma strncmp_eq_0: "strncmp p q n = 0 \<longleftrightarrow> take n (cstr p) = take n (cstr q)"
proof (induction p q n rule: strncmp.induct)
  case (1 p q)
  then show ?case by simp
next
  case (2 p q n)
  have "uint (chd p) - uint (chd q) = 0 \<longleftrightarrow> chd p = chd q"
    by (simp add: word_uint_eq_iff)
  then show ?case
    using "2.IH" by (auto simp: cstr_chd [of p] cstr_chd [of q])
qed

lemma cstr_strncpy: "cstr (strncpy t n) = take n (cstr t)"
proof (induction t n rule: strncpy.induct)
  case (1 t)
  then show ?case by simp
next
  case (2 t n)
  then show ?case by (auto simp: cstr_Cons cstr_chd [of t])
qed

lemma memcmp_eq_0:
  "n \<le> length s1 \<Longrightarrow> n \<le> length s2 \<Longrightarrow> memcmp s1 s2 n = 0 \<longleftrightarrow> take n s1 = take n s2"
proof (induction s1 s2 n rule: memcmp.induct)
  case (1 s1 s2)
  then show ?case by simp
next
  case (2 s1 s2 n)
  then obtain a as b bs where "s1 = a # as" "s2 = b # bs"
    by (cases s1; cases s2) auto
  with 2 show ?case by (auto simp: word_uint_eq_iff)
qed

lemma safestrcpy_loop_cstr: "cstr (safestrcpy_loop t n @ r) = take n (cstr t)"
proof (induction t n rule: safestrcpy_loop.induct)
  case (1 t)
  then show ?case by (simp add: cstr_Cons)
next
  case (2 t n)
  then show ?case by (auto simp: cstr_Cons cstr_chd [of t])
qed

lemma length_safestrcpy_loop: "length (safestrcpy_loop t n) \<le> Suc n"
  by (induction t n rule: safestrcpy_loop.induct) auto

text \<open>
  \<^verbatim>\<open>safestrcpy\<close> never writes past the buffer and leaves in it the longest prefix of the
  source that fits with its NUL.
\<close>

lemma safestrcpy_correct:
  assumes "0 < n" and "n \<le> length s"
  shows "length (safestrcpy s t n) = length s"
    and "cstr (safestrcpy s t n) = take (n - 1) (cstr t)"
    and "drop n (safestrcpy s t n) = drop n s"
proof -
  let ?l = "safestrcpy_loop t (n - 1)"
  have l: "length ?l \<le> n" using length_safestrcpy_loop [of t "n - 1"] assms by simp
  have eq: "safestrcpy s t n = ?l @ drop (length ?l) s"
    using assms by (simp add: safestrcpy_def put_at_def)
  show "length (safestrcpy s t n) = length s" using eq l assms by simp
  show "cstr (safestrcpy s t n) = take (n - 1) (cstr t)"
    by (simp add: eq safestrcpy_loop_cstr)
  show "drop n (safestrcpy s t n) = drop n s" using l by (simp add: eq)
qed

section \<open>Properties\<close>

text \<open>
  (C30) \<^verbatim>\<open>memmove\<close>, with its two copying loops, is the simultaneous assignment of the \<open>n\<close> source bytes
  as they were before the call, also when the buffers overlap in either direction.
\<close>

theorem memmove_simultaneous:
  assumes "unat dst + n < 2 ^ 64" and "unat src + n < 2 ^ 64"
  shows "memmove m dst src n = mem_put m dst (mem_bytes m src n)"
  using memmove_eq [OF assms, of m] by (auto simp: mem_put_def fun_eq_iff)

theorem memmove_simultaneous_witness:
  "mem_bytes (memmove (mem_put (\<lambda>_. 0) 4096 [1, 2, 3]) 4097 4096 3) 4097 3 = [1, 2, 3]"
  using memmove_simultaneous [of 4097 3 4096 "mem_put (\<lambda>_. 0) 4096 [1, 2, 3]"]
  by (simp add: mem_put_def mem_bytes_def upt_conv_Cons)

text \<open>
  (C31) \<^verbatim>\<open>safestrcpy(s, t, n)\<close> writes nothing past the \<open>n\<close> bytes of its buffer, terminates the string in
  it, and keeps the longest prefix of the source that fits.
\<close>

theorem safestrcpy_bounded:
  assumes "0 < n" and "n \<le> length s"
  shows "length (safestrcpy s t n) = length s \<and> drop n (safestrcpy s t n) = drop n s \<and>
    cstr (safestrcpy s t n) = take (n - 1) (cstr t) \<and> strlen (safestrcpy s t n) < n"
  using safestrcpy_correct [OF assms, of t] assms by (simp add: strlen_cstr)

theorem safestrcpy_bounded_witness:
  "cstr (safestrcpy [9, 9, 9, 9] [104, 101, 108, 108, 111, 0] 3) = [104, 101]"
  using safestrcpy_bounded [of 3 "[9, 9, 9, 9]" "[104, 101, 108, 108, 111, 0]"] by (simp add: cstr_def)


end
