(* ===== verification/Layout.thy ===== *)
theory Layout
  imports Cstring
begin

text \<open>
  The constants and macros of the kernel's headers: page arithmetic of \<^verbatim>\<open>riscv.h\<close>, the
  memory map of \<^verbatim>\<open>memlayout.h\<close>, the limits of \<^verbatim>\<open>param.h\<close> and the disk layout of \<^verbatim>\<open>fs.h\<close>.
\<close>

section \<open>param.h\<close>

definition NPROC :: nat where "NPROC = 64"
definition NOFILE :: nat where "NOFILE = 16"
definition NFILE :: nat where "NFILE = 100"
definition NINODE :: nat where "NINODE = 50"
abbreviation (input) NDEV :: int where "NDEV \<equiv> 10"
definition ROOTDEV :: nat where "ROOTDEV = 1"
abbreviation (input) MAXOPBLOCKS :: nat where "MAXOPBLOCKS \<equiv> 10"
definition LOGBLOCKS :: nat where "LOGBLOCKS = 30"
definition NBUF :: nat where "NBUF = 30"
abbreviation (input) FSSIZE :: nat where "FSSIZE \<equiv> 2000"

lemmas param_defs = ROOTDEV_def NPROC_def NOFILE_def NFILE_def NINODE_def LOGBLOCKS_def NBUF_def

section \<open>fs.h\<close>

abbreviation (input) BSIZE :: nat where "BSIZE \<equiv> 1024"
abbreviation (input) ROOTINO :: nat where "ROOTINO \<equiv> 1"
abbreviation (input) NDIRECT :: nat where "NDIRECT \<equiv> 12"
abbreviation (input) NINDIRECT :: nat where "NINDIRECT \<equiv> 256"
abbreviation (input) MAXFILE :: nat where "MAXFILE \<equiv> 268"
abbreviation (input) IPB :: nat where "IPB \<equiv> 16"
abbreviation (input) BPB :: nat where "BPB \<equiv> 8192"
abbreviation (input) DIRSIZ :: nat where "DIRSIZ \<equiv> 14"
abbreviation (input) FSMAGIC :: nat where "FSMAGIC \<equiv> 0x10203040"

record superblock =
  sb_magic :: nat
  sb_size :: nat
  sb_nblocks :: nat
  sb_ninodes :: nat
  sb_nlog :: nat
  sb_logstart :: nat
  sb_inodestart :: nat
  sb_bmapstart :: nat

definition IBLOCK :: "nat \<Rightarrow> superblock \<Rightarrow> nat" where
  "IBLOCK i sb = i div IPB + sb_inodestart sb"

definition BBLOCK :: "nat \<Rightarrow> superblock \<Rightarrow> nat" where
  "BBLOCK b sb = b div BPB + sb_bmapstart sb"

section \<open>Pages\<close>

abbreviation (input) PGSIZE :: u64 where
  "PGSIZE \<equiv> 4096"

definition PGROUNDDOWN :: "u64 \<Rightarrow> u64" where
  "PGROUNDDOWN a = a AND NOT (PGSIZE - 1)"

definition PGROUNDUP :: "u64 \<Rightarrow> u64" where
  "PGROUNDUP sz = (sz + PGSIZE - 1) AND NOT (PGSIZE - 1)"

definition KERNBASE :: u64 where
  "KERNBASE = 0x80000000"

definition PHYSTOP :: u64 where
  "PHYSTOP = KERNBASE + 128 * 1024 * 1024"

lemma PHYSTOP_eq: "PHYSTOP = 0x88000000"
  by (simp add: PHYSTOP_def KERNBASE_def)

lemma and_not_pagemask: "(a :: u64) AND NOT (PGSIZE - 1) = a - a mod PGSIZE"
proof -
  have m: "(PGSIZE - 1 :: u64) = mask 12" by (simp add: mask_eq_exp_minus_1)
  have "a = push_bit 12 (drop_bit 12 a) + take_bit 12 a" by (rule bits_ident [symmetric])
  moreover have "a AND NOT (mask 12) = push_bit 12 (drop_bit 12 a)"
    by (rule bit_eqI) (auto simp: bit_simps)
  moreover have "take_bit 12 a = a mod 4096" by (simp add: take_bit_eq_mod)
  ultimately show ?thesis unfolding m by (metis add_diff_cancel_right')
qed

lemma unat_PGROUNDDOWN: "unat (PGROUNDDOWN a) = unat a div 4096 * 4096"
proof -
  have "a mod 4096 \<le> a" by (simp add: word_le_nat_alt unat_mod)
  then have "unat (a - a mod 4096) = unat a - unat a mod 4096"
    using unat_sub [of "a mod 4096" a] by (simp add: unat_mod)
  then show ?thesis
    unfolding PGROUNDDOWN_def and_not_pagemask by (simp only: minus_mod_eq_div_mult)
qed

lemma PGROUNDUP_PGROUNDDOWN: "PGROUNDUP sz = PGROUNDDOWN (sz + 4095)"
  by (simp add: PGROUNDUP_def PGROUNDDOWN_def add_diff_eq [symmetric])

lemma unat_PGROUNDUP:
  assumes "unat sz + 4095 < 2 ^ 64"
  shows "unat (PGROUNDUP sz) = (unat sz + 4095) div 4096 * 4096"
proof -
  have "unat (sz + 4095) = unat sz + 4095"
    using assms by (simp add: unat_word_ariths)
  then show ?thesis by (simp add: PGROUNDUP_PGROUNDDOWN unat_PGROUNDDOWN)
qed

text \<open>Page-aligned addresses, as the test \<^verbatim>\<open>(uint64)pa % PGSIZE == 0\<close> of the code.\<close>

definition page_aligned :: "u64 \<Rightarrow> bool" where
  "page_aligned a \<longleftrightarrow> a mod PGSIZE = 0"

lemma page_aligned_unat: "page_aligned a \<longleftrightarrow> unat a mod 4096 = 0"
proof -
  have "a mod 4096 = 0 \<longleftrightarrow> unat (a mod 4096) = 0" by (simp add: unat_eq_0)
  then show ?thesis by (simp add: page_aligned_def unat_mod)
qed

lemma page_aligned_PGROUNDDOWN [simp]: "page_aligned (PGROUNDDOWN a)"
  by (simp add: page_aligned_unat unat_PGROUNDDOWN)

lemma page_aligned_PGROUNDUP [simp]: "page_aligned (PGROUNDUP a)"
  by (simp add: PGROUNDUP_PGROUNDDOWN)

lemma page_aligned_room: "page_aligned a \<Longrightarrow> unat a + 4096 \<le> 2 ^ 64"
proof -
  assume "page_aligned a"
  then have "4096 dvd unat a" by (simp add: page_aligned_unat dvd_eq_mod_eq_0)
  then obtain k where k: "unat a = 4096 * k" ..
  moreover have "unat a < 2 ^ 64" using unsigned_less [of a] by simp
  ultimately show ?thesis by simp
qed

text \<open>Addresses in different pages are at least a page apart.\<close>

lemma pages_apart:
  assumes "page_aligned a" and "page_aligned b" and "a \<noteq> b" and "i < 4096"
  shows "4096 \<le> unat (a + of_nat i - b)"
proof (rule ccontr)
  define r where "r = unat (a + of_nat i - b)"
  assume "\<not> 4096 \<le> unat (a + of_nat i - b)"
  then have r: "r < 4096" by (simp add: r_def)
  have "a + of_nat i = b + of_nat r" by (simp add: r_def)
  moreover have "unat (a + of_nat i) = unat a + i"
    using page_aligned_room [OF assms(1)] assms(4) by (simp add: unat_word_ariths)
  moreover have "unat (b + of_nat r) = unat b + r"
    using page_aligned_room [OF assms(2)] r by (simp add: unat_word_ariths)
  ultimately have "unat a + i = unat b + r" by simp
  moreover have "(unat a + i) div 4096 = unat a div 4096" "(unat b + r) div 4096 = unat b div 4096"
    using assms(1,2,4) r by (auto simp: page_aligned_unat)
  ultimately have "unat a div 4096 = unat b div 4096" by simp
  then have "unat a = unat b"
    using assms(1,2) by (metis page_aligned_unat div_mult_mod_eq)
  with assms(3) show False by (simp add: word_unat_eq_iff)
qed

text \<open>A run of bytes inside one page does not meet another page.\<close>

lemma page_runs_disjoint:
  assumes "page_aligned a" and "page_aligned b" and "a \<noteq> b" and "i + n \<le> 4096" and "k \<le> 4096"
  shows "disjoint_runs (a + of_nat i) n b k"
  unfolding disjoint_runs_def
proof (intro allI impI)
  fix j assume "j < n"
  then have "4096 \<le> unat (a + of_nat (i + j) - b)"
    using assms by (intro pages_apart) auto
  then show "k \<le> unat (a + of_nat i + of_nat j - b)"
    using assms(5) by (simp add: add.assoc)
qed

end
