(* ===== verification/Kalloc.thy ===== *)
theory Kalloc
  imports Layout
begin

text \<open>
  The physical page allocator, \<^verbatim>\<open>kernel/kalloc.c\<close>. The free list is threaded through the
  free pages themselves: the first eight bytes of a free page hold the address of the
  next one (\<^verbatim>\<open>struct run\<close>). The state is the physical memory, the list head
  \<^verbatim>\<open>kmem.freelist\<close> and the linker symbol \<^verbatim>\<open>end\<close>. Each function runs under \<^verbatim>\<open>kmem.lock\<close>
  for its list accesses, so it is one atomic step here.
\<close>

record kmem_state =
  mem :: memory
  freelist :: u64
  k_end :: u64

section \<open>The allocator\<close>

definition kfree :: "u64 \<Rightarrow> 'z kmem_state_scheme \<Rightarrow> (unit, 'z kmem_state_scheme) kout" where
  "kfree pa s =
    (if pa mod PGSIZE \<noteq> 0 \<or> pa < k_end s \<or> pa \<ge> PHYSTOP then Panic ''kfree''
     else
       \<comment> \<open>fill with junk to catch dangling refs\<close>
       let m = memset (mem s) pa 1 4096 in
       \<comment> \<open>\<^verbatim>\<open>r->next = kmem.freelist; kmem.freelist = r\<close>\<close>
       Ok () (s\<lparr>mem := store64 m pa (freelist s), freelist := pa\<rparr>))"

definition kalloc :: "'z kmem_state_scheme \<Rightarrow> (u64, 'z kmem_state_scheme) kout" where
  "kalloc s =
    (let r = freelist s in
     if r \<noteq> 0 then
       let next = load64 (mem s) r in
       Ok r (s\<lparr>freelist := next, mem := memset (mem s) r 5 4096\<rparr>)
     else Ok r s)"

text \<open>\<^verbatim>\<open>for(; p + PGSIZE <= pa_end; p += PGSIZE) kfree(p);\<close> with wrapping pointer arithmetic.\<close>

function freerange_loop ::
  "u64 \<Rightarrow> u64 \<Rightarrow> 'z kmem_state_scheme \<Rightarrow> (unit, 'z kmem_state_scheme) kout" where
  "freerange_loop p pa_end s =
    (if p + PGSIZE \<le> pa_end
     then kbind (kfree p s) (\<lambda>_ s. freerange_loop (p + PGSIZE) pa_end s)
     else Ok () s)"
  by pat_completeness auto
termination
proof (relation "measure (\<lambda>(p, pa_end, s). unat PHYSTOP - unat p)")
  fix p pa_end x s and s' :: "'z kmem_state_scheme"
  assume "kfree p s = Ok x s'"
  then have "p < PHYSTOP" by (auto simp: kfree_def Let_def split: if_splits)
  then have "unat p < unat PHYSTOP" by (simp add: word_less_nat_alt)
  moreover have "unat PHYSTOP + 4096 < 2 ^ 64" by (simp add: PHYSTOP_eq)
  ultimately show "((p + PGSIZE, pa_end, s'), p, pa_end, s)
      \<in> measure (\<lambda>(p, pa_end, s). unat PHYSTOP - unat p)"
    by (simp add: unat_word_ariths)
qed simp

declare freerange_loop.simps [simp del]

definition freerange ::
  "u64 \<Rightarrow> u64 \<Rightarrow> 'z kmem_state_scheme \<Rightarrow> (unit, 'z kmem_state_scheme) kout" where
  "freerange pa_start pa_end s = freerange_loop (PGROUNDUP pa_start) pa_end s"

definition kinit :: "'z kmem_state_scheme \<Rightarrow> (unit, 'z kmem_state_scheme) kout" where
  "kinit s = freerange (k_end s) PHYSTOP s"

section \<open>The free list as a list of pages\<close>

text \<open>The list of pages a chain of \<^verbatim>\<open>next\<close> pointers goes through.\<close>

fun free_path :: "memory \<Rightarrow> u64 \<Rightarrow> u64 list \<Rightarrow> bool" where
  "free_path m r [] \<longleftrightarrow> r = 0"
| "free_path m r (a # as) \<longleftrightarrow> r = a \<and> a \<noteq> 0 \<and> free_path m (load64 m a) as"

definition phys_page :: "u64 \<Rightarrow> u64 \<Rightarrow> bool" where
  "phys_page e a \<longleftrightarrow> page_aligned a \<and> e \<le> a \<and> a < PHYSTOP"

text \<open>
  \<open>kmem_rep s xs\<close>: the free list of \<open>s\<close> is the list \<open>xs\<close> of distinct, aligned pages
  between \<^verbatim>\<open>end\<close> and \<^verbatim>\<open>PHYSTOP\<close>.
\<close>

definition kmem_rep :: "'z kmem_state_scheme \<Rightarrow> u64 list \<Rightarrow> bool" where
  "kmem_rep s xs \<longleftrightarrow> free_path (mem s) (freelist s) xs \<and> distinct xs \<and> 0 < k_end s \<and>
     (\<forall>a\<in>set xs. phys_page (k_end s) a)"

lemma free_path_cong:
  "(\<And>a. a \<in> set xs \<Longrightarrow> load64 m' a = load64 m a) \<Longrightarrow> free_path m' r xs = free_path m r xs"
  by (induction xs arbitrary: r) auto

lemma free_path_unique: "free_path m r xs \<Longrightarrow> free_path m r ys \<Longrightarrow> xs = ys"
proof (induction xs arbitrary: r ys)
  case Nil
  then show ?case by (cases ys) auto
next
  case (Cons a xs)
  then show ?case by (cases ys) auto
qed

lemma kmem_rep_unique: "kmem_rep s xs \<Longrightarrow> kmem_rep s ys \<Longrightarrow> xs = ys"
  by (auto simp: kmem_rep_def intro: free_path_unique)

lemma load64_memset_other_page:
  "page_aligned a \<Longrightarrow> page_aligned b \<Longrightarrow> a \<noteq> b \<Longrightarrow> load64 (memset m b c 4096) a = load64 m a"
  using page_runs_disjoint [of a b 0 8 4096] by (simp add: memset_put load64_put_other)

lemma load64_store64_other_page:
  "page_aligned a \<Longrightarrow> page_aligned b \<Longrightarrow> a \<noteq> b \<Longrightarrow> load64 (store64 m b v) a = load64 m a"
  using page_runs_disjoint [of a b 0 8 8] by (simp add: load64_store64_other)

text \<open>Bytes outside the page \<open>a\<close> are those of \<open>m\<close>.\<close>

definition same_outside :: "u64 \<Rightarrow> memory \<Rightarrow> memory \<Rightarrow> bool" where
  "same_outside a m m' \<longleftrightarrow> (\<forall>x. 4096 \<le> unat (x - a) \<longrightarrow> m' x = m x)"

lemma same_outside_memset: "same_outside a m (memset m a c 4096)"
  by (simp add: same_outside_def memset_eq)

lemma same_outside_kfree: "same_outside a m (store64 (memset m a c 4096) a v)"
  by (simp add: same_outside_def memset_eq store64_def mem_put_def)

text \<open>\<^verbatim>\<open>kalloc\<close> pops the list, and nothing outside the page it hands out changes.\<close>

lemma kalloc_Nil: "kmem_rep s [] \<Longrightarrow> kalloc s = Ok 0 s"
  by (simp add: kmem_rep_def kalloc_def)

lemma kalloc_Cons:
  assumes "kmem_rep s (a # xs)"
  obtains f where "kalloc s = Ok a (s\<lparr>freelist := f, mem := memset (mem s) a 5 4096\<rparr>)"
    and "kmem_rep (s\<lparr>freelist := f, mem := memset (mem s) a 5 4096\<rparr>) xs"
proof (rule that)
  let ?s = "s\<lparr>freelist := load64 (mem s) a, mem := memset (mem s) a 5 4096\<rparr>"
  have al: "page_aligned a" "\<And>x. x \<in> set xs \<Longrightarrow> page_aligned x \<and> x \<noteq> a"
    using assms by (auto simp: kmem_rep_def phys_page_def)
  have "free_path (mem ?s) (load64 (mem s) a) xs = free_path (mem s) (load64 (mem s) a) xs"
    by (rule free_path_cong) (simp add: load64_memset_other_page al)
  then show "kmem_rep ?s xs"
    using assms by (simp add: kmem_rep_def)
  show "kalloc s = Ok a ?s"
    using assms by (auto simp: kmem_rep_def kalloc_def Let_def)
qed

text \<open>\<^verbatim>\<open>kfree\<close> of an aligned page in range pushes it.\<close>

lemma kfree_Ok:
  assumes "kmem_rep s xs" and "phys_page (k_end s) a" and "a \<notin> set xs"
  obtains m where "kfree a s = Ok () (s\<lparr>mem := m, freelist := a\<rparr>)"
    and "kmem_rep (s\<lparr>mem := m, freelist := a\<rparr>) (a # xs)" and "same_outside a (mem s) m"
proof (rule that)
  let ?m = "store64 (memset (mem s) a 1 4096) a (freelist s)"
  have al: "page_aligned a" "\<And>x. x \<in> set xs \<Longrightarrow> page_aligned x \<and> x \<noteq> a"
    using assms by (auto simp: kmem_rep_def phys_page_def)
  have "free_path ?m (freelist s) xs = free_path (mem s) (freelist s) xs"
    by (rule free_path_cong)
      (simp add: load64_memset_other_page load64_store64_other_page al)
  moreover have "a \<noteq> 0" using assms by (auto simp: phys_page_def kmem_rep_def)
  ultimately show "kmem_rep (s\<lparr>mem := ?m, freelist := a\<rparr>) (a # xs)"
    using assms by (simp add: kmem_rep_def)
  show "kfree a s = Ok () (s\<lparr>mem := ?m, freelist := a\<rparr>)"
    using assms(2) by (auto simp: kfree_def Let_def phys_page_def page_aligned_def)
qed (rule same_outside_kfree)

lemma kfree_Panic_iff: "kfree a s = Panic ''kfree'' \<longleftrightarrow> \<not> phys_page (k_end s) a"
  by (auto simp: kfree_def Let_def phys_page_def page_aligned_def)

section \<open>Boot: freeing a range\<close>

definition pages_from :: "u64 \<Rightarrow> nat \<Rightarrow> u64 list" where
  "pages_from p n = map (\<lambda>i. p + of_nat (4096 * i)) [0..<n]"

lemma pages_from_0 [simp]: "pages_from p 0 = []"
  by (simp add: pages_from_def)

lemma pages_from_Suc: "pages_from p (Suc n) = p # pages_from (p + PGSIZE) n"
  unfolding pages_from_def by (subst upt_conv_Cons) (simp_all add: map_Suc_upt [symmetric] algebra_simps del: upt_Suc)

lemma mem_pages_from:
  assumes "unat p + 4096 * n < 2 ^ 64" and "page_aligned p"
  shows "a \<in> set (pages_from p n) \<longleftrightarrow> page_aligned a \<and> p \<le> a \<and> unat a < unat p + 4096 * n"
proof
  assume "a \<in> set (pages_from p n)"
  then obtain i where i: "i < n" and a: "a = p + of_nat (4096 * i)"
    by (auto simp: pages_from_def)
  have "unat a = unat p + 4096 * i"
    using i assms(1) unfolding a by (subst unat_word_ariths) (simp add: unat_of_nat_u64 del: of_nat_mult)
  then show "page_aligned a \<and> p \<le> a \<and> unat a < unat p + 4096 * n"
    using i assms(2) by (simp add: page_aligned_unat word_le_nat_alt)
next
  assume *: "page_aligned a \<and> p \<le> a \<and> unat a < unat p + 4096 * n"
  then have "unat p \<le> unat a" by (simp add: word_le_nat_alt)
  moreover have "4096 dvd unat a - unat p"
    using * assms(2) by (simp add: page_aligned_unat dvd_eq_mod_eq_0 [symmetric])
  ultimately obtain i where i: "unat a = unat p + 4096 * i"
    by (metis dvdE le_add_diff_inverse)
  then have "a = p + of_nat (4096 * i)"
    using assms(1) * by (subst word_unat_eq_iff, subst unat_word_ariths)
      (simp add: unat_of_nat_u64 del: of_nat_mult)
  moreover have "i < n" using i * by simp
  ultimately show "a \<in> set (pages_from p n)"
    by (auto simp: pages_from_def)
qed

lemma freerange_loop_Ok:
  assumes "kmem_rep s xs" and "page_aligned p" and "k_end s \<le> p" and "pa_end \<le> PHYSTOP"
    and "unat p + 4096 * n \<le> unat pa_end \<or> n = 0" and "unat pa_end < unat p + 4096 * Suc n"
    and "unat p + 4096 * Suc n < 2 ^ 64" and "set xs \<inter> set (pages_from p n) = {}"
  shows "\<exists>s'. freerange_loop p pa_end s = Ok () s' \<and> k_end s' = k_end s \<and>
    kmem_rep s' (rev (pages_from p n) @ xs)"
  using assms
proof (induction n arbitrary: p s xs)
  case 0
  have "\<not> p + PGSIZE \<le> pa_end"
    using 0 by (simp add: word_le_nat_alt unat_word_ariths)
  then show ?case using 0 by (subst freerange_loop.simps) auto
next
  case (Suc n)
  have p4: "unat (p + PGSIZE) = unat p + 4096"
    using Suc.prems(7) by (simp add: unat_word_ariths)
  have le: "p + PGSIZE \<le> pa_end" using Suc.prems(5) p4 by (simp add: word_le_nat_alt)
  have "unat pa_end \<le> unat PHYSTOP" using Suc.prems(4) by (simp add: word_le_nat_alt)
  then have "phys_page (k_end s) p"
    using Suc.prems by (auto simp: phys_page_def word_less_nat_alt)
  moreover have "p \<notin> set xs" using Suc.prems(8) by (auto simp: pages_from_Suc)
  ultimately obtain m where m: "kfree p s = Ok () (s\<lparr>mem := m, freelist := p\<rparr>)"
    "kmem_rep (s\<lparr>mem := m, freelist := p\<rparr>) (p # xs)"
    using kfree_Ok [OF Suc.prems(1)] by metis
  define s' where "s' = s\<lparr>mem := m, freelist := p\<rparr>"
  have s': "kfree p s = Ok () s'" "kmem_rep s' (p # xs)" and k: "k_end s' = k_end s"
    using m by (simp_all add: s'_def)
  have al: "page_aligned (p + PGSIZE)"
    using Suc.prems(2) by (simp add: page_aligned_unat p4)
  have up: "k_end s' \<le> p + PGSIZE"
    using Suc.prems(3) p4 k by (simp add: word_le_nat_alt)
  have out: "p \<notin> set (pages_from (p + PGSIZE) n)"
    using Suc.prems(7) p4 al by (subst mem_pages_from) (auto simp: word_le_nat_alt)
  have "\<exists>s''. freerange_loop (p + PGSIZE) pa_end s' = Ok () s'' \<and> k_end s'' = k_end s' \<and>
      kmem_rep s'' (rev (pages_from (p + PGSIZE) n) @ p # xs)"
    using Suc.prems p4 out by (intro Suc.IH s'(2) al up) (auto simp: pages_from_Suc)
  then show ?case
    using le s'(1) k by (subst freerange_loop.simps) (auto simp: pages_from_Suc)
qed

lemma kinit_Ok:
  assumes "kmem_rep s []" and "k_end s \<le> PHYSTOP"
  shows "\<exists>s' xs. kinit s = Ok () s' \<and> k_end s' = k_end s \<and> kmem_rep s' xs \<and>
    (\<forall>a. a \<in> set xs \<longleftrightarrow> phys_page (k_end s) a)"
proof -
  define p where "p = PGROUNDUP (k_end s)"
  define q where "q = (unat (k_end s) + 4095) div 4096"
  have top: "unat PHYSTOP = 4096 * 0x88000" by (simp add: PHYSTOP_eq)
  have e: "unat (k_end s) \<le> 4096 * 0x88000"
    using assms(2) by (simp add: PHYSTOP_eq word_le_nat_alt)
  then have p: "unat p = 4096 * q"
    unfolding p_def q_def by (subst unat_PGROUNDUP) simp_all
  have "unat (k_end s) + 4095 = q * 4096 + (unat (k_end s) + 4095) mod 4096"
    unfolding q_def by (rule div_mult_mod_eq [symmetric])
  moreover have "(unat (k_end s) + 4095) mod 4096 < 4096" by simp
  ultimately have q: "4096 * q \<le> unat (k_end s) + 4095" "unat (k_end s) \<le> 4096 * q"
    by linarith+
  then have qb: "q \<le> 0x88000" using e by linarith
  define n where "n = 0x88000 - q"
  have n: "unat p + 4096 * n = unat PHYSTOP"
    using qb by (simp add: n_def p top diff_mult_distrib2)
  have al: "page_aligned p" by (simp add: p_def)
  have "\<exists>s'. freerange_loop p PHYSTOP s = Ok () s' \<and> k_end s' = k_end s \<and>
      kmem_rep s' (rev (pages_from p n) @ [])"
    using assms(1) al q n top by (intro freerange_loop_Ok) (auto simp: word_le_nat_alt p)
  then obtain s' where s': "kinit s = Ok () s'" "k_end s' = k_end s" "kmem_rep s' (rev (pages_from p n))"
    by (auto simp: kinit_def freerange_def p_def)
  have "a \<in> set (pages_from p n) \<longleftrightarrow> phys_page (k_end s) a" for a
  proof -
    have "a \<in> set (pages_from p n) \<longleftrightarrow> page_aligned a \<and> p \<le> a \<and> unat a < unat p + 4096 * n"
      using n top al by (intro mem_pages_from) auto
    also have "\<dots> \<longleftrightarrow> page_aligned a \<and> unat p \<le> unat a \<and> unat a < unat PHYSTOP"
      by (simp add: n word_le_nat_alt)
    also have "\<dots> \<longleftrightarrow> page_aligned a \<and> unat (k_end s) \<le> unat a \<and> unat a < unat PHYSTOP"
    proof -
      have "4096 * q \<le> unat a \<longleftrightarrow> unat (k_end s) \<le> unat a" if "page_aligned a"
      proof -
        have "4096 dvd unat a" using that by (simp add: page_aligned_unat mod_eq_0_iff_dvd)
        then obtain k where "unat a = 4096 * k" ..
        moreover have "q \<le> k" if "unat (k_end s) \<le> 4096 * k"
          using that q(1) by (intro leI notI) linarith
        ultimately show ?thesis using q by (auto intro: order_trans)
      qed
      then show ?thesis by (auto simp: p)
    qed
    also have "\<dots> \<longleftrightarrow> phys_page (k_end s) a"
      by (simp add: phys_page_def word_le_nat_alt word_less_nat_alt)
    finally show ?thesis .
  qed
  with s' show ?thesis by (intro exI [of _ s'] exI [of _ "rev (pages_from p n)"]) simp
qed

section \<open>The allocator as a pool of pages\<close>

text \<open>
  What the clients of the allocator (page tables, user memory, pipes, trapframes) rely
  on: a call hands out a page of the pool or 0, a page can be given back, and the pool
  is a duplicate-free list of usable pages.
\<close>

locale page_pool =
  fixes alloc :: "'s \<Rightarrow> (u64, 's) kout"
    and dealloc :: "u64 \<Rightarrow> 's \<Rightarrow> (unit, 's) kout"
    and rep :: "'s \<Rightarrow> u64 list \<Rightarrow> bool"
    and usable :: "'s \<Rightarrow> u64 \<Rightarrow> bool"
  assumes alloc_empty: "rep s [] \<Longrightarrow> alloc s = Ok 0 s"
    and alloc_pop: "rep s (a # xs) \<Longrightarrow> \<exists>s'. alloc s = Ok a s' \<and> rep s' xs \<and> usable s' = usable s"
    and dealloc_push: "rep s xs \<Longrightarrow> usable s a \<Longrightarrow> a \<notin> set xs \<Longrightarrow>
      \<exists>s'. dealloc a s = Ok () s' \<and> rep s' (a # xs) \<and> usable s' = usable s"
    and rep_distinct: "rep s xs \<Longrightarrow> distinct xs"
    and rep_usable: "rep s xs \<Longrightarrow> a \<in> set xs \<Longrightarrow> usable s a \<and> a \<noteq> 0"
begin

text \<open>The clients own the pages \<open>own\<close>: these and the free pages partition the usable ones.\<close>

definition owns :: "'s \<Rightarrow> u64 list \<Rightarrow> bool" where
  "owns s own \<longleftrightarrow> (\<exists>xs. rep s xs \<and> distinct (own @ xs) \<and>
     (\<forall>a. usable s a \<longleftrightarrow> a \<in> set own \<or> a \<in> set xs))"

lemma owns_distinct: "owns s own \<Longrightarrow> distinct own"
  by (auto simp: owns_def)

lemma owns_usable: "owns s own \<Longrightarrow> a \<in> set own \<Longrightarrow> usable s a"
  by (auto simp: owns_def)

lemma owns_alloc:
  assumes "owns s own"
  obtains s' r where "alloc s = Ok r s'" and "usable s' = usable s"
    and "r \<noteq> 0 \<Longrightarrow> owns s' (r # own)" and "r \<noteq> 0 \<Longrightarrow> r \<notin> set own"
    and "r = 0 \<Longrightarrow> owns s' own \<and> (\<forall>a. usable s a \<longleftrightarrow> a \<in> set own)"
proof -
  obtain xs where xs: "rep s xs" "distinct (own @ xs)"
    "\<And>a. usable s a \<longleftrightarrow> a \<in> set own \<or> a \<in> set xs"
    using assms by (auto simp: owns_def)
  show thesis
  proof (cases xs)
    case Nil
    with xs alloc_empty show thesis by (intro that [of 0 s]) (auto simp: owns_def)
  next
    case (Cons a ys)
    with xs alloc_pop obtain s' where s': "alloc s = Ok a s'" "rep s' ys" "usable s' = usable s"
      by blast
    have "a \<noteq> 0" using rep_usable xs Cons by auto
    moreover have "owns s' (a # own)"
      unfolding owns_def using s' xs Cons by (intro exI [of _ ys]) auto
    ultimately show thesis using s' xs Cons by (intro that [of a s']) auto
  qed
qed

lemma owns_dealloc:
  assumes "owns s own" and "a \<in> set own"
  obtains s' where "dealloc a s = Ok () s'" and "usable s' = usable s" and "owns s' (remove1 a own)"
proof -
  obtain xs where xs: "rep s xs" "distinct (own @ xs)"
    "\<And>a. usable s a \<longleftrightarrow> a \<in> set own \<or> a \<in> set xs"
    using assms by (auto simp: owns_def)
  then obtain s' where s': "dealloc a s = Ok () s'" "rep s' (a # xs)" "usable s' = usable s"
    using dealloc_push [of s xs a] assms(2) by auto
  have "owns s' (remove1 a own)"
    unfolding owns_def using s' xs assms(2) by (intro exI [of _ "a # xs"]) auto
  with s' show thesis by (intro that) auto
qed

end

interpretation kpool: page_pool kalloc kfree kmem_rep "\<lambda>s. phys_page (k_end s)"
proof unfold_locales
  fix s :: "'a kmem_state_scheme" and a xs
  show "kmem_rep s [] \<Longrightarrow> kalloc s = Ok 0 s" by (rule kalloc_Nil)
  show "\<exists>s'. kalloc s = Ok a s' \<and> kmem_rep s' xs \<and> phys_page (k_end s') = phys_page (k_end s)"
    if "kmem_rep s (a # xs)"
    by (rule kalloc_Cons [OF that]) auto
  show "\<exists>s'. kfree a s = Ok () s' \<and> kmem_rep s' (a # xs) \<and> phys_page (k_end s') = phys_page (k_end s)"
    if "kmem_rep s xs" "phys_page (k_end s) a" "a \<notin> set xs"
    by (rule kfree_Ok [OF that]) auto
  show "kmem_rep s xs \<Longrightarrow> distinct xs" by (simp add: kmem_rep_def)
  show "phys_page (k_end s) a \<and> a \<noteq> 0" if "kmem_rep s xs" "a \<in> set xs"
    using that by (auto simp: kmem_rep_def phys_page_def)
qed

section \<open>Runs of allocations\<close>

text \<open>
  The kernel between boot and now: clients allocate pages and free pages they own. The
  second component is the list of pages handed out and not yet freed.
\<close>

inductive page_run :: "kmem_state \<Rightarrow> kmem_state \<Rightarrow> u64 list \<Rightarrow> bool" for s0 where
  boot: "kinit s0 = Ok () s \<Longrightarrow> page_run s0 s []"
| alloc: "page_run s0 s own \<Longrightarrow> kalloc s = Ok r s' \<Longrightarrow> r \<noteq> 0 \<Longrightarrow> page_run s0 s' (r # own)"
| alloc_none: "page_run s0 s own \<Longrightarrow> kalloc s = Ok 0 s' \<Longrightarrow> page_run s0 s' own"
| free: "page_run s0 s own \<Longrightarrow> a \<in> set own \<Longrightarrow> kfree a s = Ok () s' \<Longrightarrow>
    page_run s0 s' (remove1 a own)"

lemma page_run_owns:
  assumes "page_run s0 s own" and "kmem_rep s0 []" and "k_end s0 \<le> PHYSTOP"
  shows "kpool.owns s own \<and> phys_page (k_end s) = phys_page (k_end s0)"
  using assms
proof (induction rule: page_run.induct)
  case (boot s)
  then show ?case
    using kinit_Ok [of s0] kmem_rep_def [of s] by (auto simp: kpool.owns_def)
next
  case (alloc s own r s')
  then show ?case using kpool.owns_alloc [of s own] by (metis kout.inject(1))
next
  case (alloc_none s own s')
  then show ?case using kpool.owns_alloc [of s own] by (metis kout.inject(1))
next
  case (free s own a s')
  then show ?case using kpool.owns_dealloc [of s own a] by (metis kout.inject(1))
qed

section \<open>Properties\<close>

text \<open>
  (C26) After \<^verbatim>\<open>kinit\<close> the pages that are free are exactly the page-aligned addresses from
  the end of the kernel image up to \<^verbatim>\<open>PHYSTOP\<close>: boot neither loses a page nor frees one
  outside that range, and it returns.
\<close>

theorem kinit_frees_all_pages:
  assumes "kmem_rep s []" and "k_end s \<le> PHYSTOP"
  shows "returns (kinit s) (\<lambda>_ s'. \<exists>xs. kmem_rep s' xs \<and> set xs = {a. phys_page (k_end s) a})"
  using kinit_Ok [OF assms] by (auto simp: returns_iff)

definition kmem_boot :: kmem_state where
  "kmem_boot = \<lparr>mem = (\<lambda>_. 0), freelist = 0, k_end = 0x87FFE123\<rparr>"

lemma kmem_boot_rep: "kmem_rep kmem_boot []" "k_end kmem_boot \<le> PHYSTOP"
  by (simp_all add: kmem_rep_def kmem_boot_def PHYSTOP_eq)

theorem kinit_frees_all_pages_witness:
  "kmem_rep kmem_boot [] \<and> k_end kmem_boot \<le> PHYSTOP \<and>
   returns (kinit kmem_boot)
     (\<lambda>_ s'. \<exists>xs. kmem_rep s' xs \<and> set xs = {a. phys_page (k_end kmem_boot) a}) \<and>
   phys_page (k_end kmem_boot) 0x87FFF000"
  using kinit_frees_all_pages [OF kmem_boot_rep] kmem_boot_rep
  by (simp add: phys_page_def page_aligned_def kmem_boot_def PHYSTOP_eq)

text \<open>
  (C4) No page is ever handed out twice and none is lost: in every run of \<^verbatim>\<open>kalloc\<close> and
  \<^verbatim>\<open>kfree\<close> after boot, where clients free only pages they own, the pages owned are
  distinct usable pages, the next \<^verbatim>\<open>kalloc\<close> returns a page nobody owns or, exactly when
  every page is owned, 0, and \<^verbatim>\<open>kfree\<close> of any owned page succeeds.
\<close>

theorem kalloc_exclusive:
  assumes "page_run s0 s own" and "kmem_rep s0 []" and "k_end s0 \<le> PHYSTOP"
  shows "distinct own \<and> (\<forall>a\<in>set own. phys_page (k_end s0) a \<and> returns (kfree a s) (\<lambda>_ _. True)) \<and>
    returns (kalloc s) (\<lambda>r s'.
      if r = 0 then set own = {a. phys_page (k_end s0) a}
      else phys_page (k_end s0) r \<and> r \<notin> set own)"
proof -
  have o: "kpool.owns s own" and e: "phys_page (k_end s) = phys_page (k_end s0)"
    using page_run_owns [OF assms] by auto
  obtain r s' where r: "kalloc s = Ok r s'" "phys_page (k_end s') = phys_page (k_end s)"
    "r \<noteq> 0 \<Longrightarrow> kpool.owns s' (r # own)" "r \<noteq> 0 \<Longrightarrow> r \<notin> set own"
    "r = 0 \<Longrightarrow> \<forall>a. phys_page (k_end s) a \<longleftrightarrow> a \<in> set own"
    using kpool.owns_alloc [OF o] by metis
  have "returns (kfree a s) (\<lambda>_ _. True)" if "a \<in> set own" for a
    using kpool.owns_dealloc [OF o that] by (metis returns.simps(1))
  moreover have "r \<noteq> 0 \<Longrightarrow> phys_page (k_end s) r"
    using r(2,3) kpool.owns_usable [of s' "r # own" r] by simp
  ultimately show ?thesis
    using o e r kpool.owns_distinct [OF o] kpool.owns_usable [OF o] by auto
qed

definition kmem_two :: kmem_state where
  "kmem_two = (case kinit kmem_boot of Ok _ s \<Rightarrow> s | _ \<Rightarrow> kmem_boot)"

lemma kinit_kmem_boot: "kinit kmem_boot = Ok () kmem_two"
  using kinit_Ok [OF kmem_boot_rep] by (auto simp: kmem_two_def)

theorem kalloc_exclusive_witness:
  "page_run kmem_boot kmem_two [] \<and>
   returns (kalloc kmem_two) (\<lambda>r s'.
      if r = 0 then set [] = {a. phys_page (k_end kmem_boot) a}
      else phys_page (k_end kmem_boot) r \<and> r \<notin> set [])"
proof -
  have run: "page_run kmem_boot kmem_two []"
    by (rule page_run.boot [OF kinit_kmem_boot])
  show ?thesis using kalloc_exclusive [OF run kmem_boot_rep] run by blast
qed

end
