(* ===== verification/Proc_Core.thy ===== *)
theory Proc_Core
  imports Kalloc
begin

text \<open>
  The process table and the parts of \<^verbatim>\<open>kernel/proc.c\<close> every other component uses: sleeping
  on a channel, waking the sleepers of a channel, killing, and the sleep locks of
  \<^verbatim>\<open>kernel/sleeplock.c\<close>. A process is named by its index in \<^verbatim>\<open>proc[NPROC]\<close>; the index
  \<open>NPROC\<close> stands for the null pointer. \<open>cur\<close> is \<^verbatim>\<open>mycpu()->proc\<close>. The fields of a
  process are changed under \<^verbatim>\<open>p->lock\<close>, so each loop body below is atomic.
\<close>

datatype procstate = UNUSED | USED | SLEEPING | RUNNABLE | RUNNING | ZOMBIE

text \<open>
  The channels the kernel sleeps on, one constructor per kind of address: a process, the
  sleep lock of a buffer or inode, a buffer under disk I/O, the free descriptors of the
  disk, the log, the two ends of a pipe (a pipe is named by its page), the clock, the
  console input and the UART transmitter. \<open>Chan_none\<close> is 0.
\<close>

datatype chan = Chan_none | Chan_proc nat | Chan_buf nat | Chan_inode nat | Chan_io nat
  | Chan_desc | Chan_log | Chan_nread u64 | Chan_nwrite u64 | Chan_ticks | Chan_cons | Chan_tx

record kcontext =
  c_ra :: u64
  c_sp :: u64
  c_s :: "u64 list"

record proc =
  p_state :: procstate
  p_chan :: chan
  p_killed :: int
  p_xstate :: int
  p_pid :: int
  p_parent :: nat
  p_kstack :: u64
  p_sz :: u64
  p_pagetable :: u64
  p_trapframe :: u64
  p_context :: kcontext
  p_ofile :: "nat option list"
  p_cwd :: "nat option"
  p_name :: bytes

record proc_state = kmem_state +
  procs :: "proc list"
  cur :: nat
  nextpid :: int
  initproc :: nat

definition upd_proc :: "nat \<Rightarrow> (proc \<Rightarrow> proc) \<Rightarrow> 'z proc_state_scheme \<Rightarrow> 'z proc_state_scheme" where
  "upd_proc i f s = s\<lparr>procs := (procs s)[i := f (procs s ! i)]\<rparr>"

abbreviation myproc :: "'z proc_state_scheme \<Rightarrow> proc" where
  "myproc s \<equiv> procs s ! cur s"

section \<open>Sleeping and waking\<close>

text \<open>\<^verbatim>\<open>sched()\<close>: switch to the scheduler; the caller must have left the \<^verbatim>\<open>RUNNING\<close> state.\<close>

definition sched :: "'z proc_state_scheme \<Rightarrow> ('a, 'z proc_state_scheme) kout" where
  "sched s = (if p_state (myproc s) = RUNNING then Panic ''sched RUNNING'' else Sleep s)"

definition sleep :: "chan \<Rightarrow> 'z proc_state_scheme \<Rightarrow> ('a, 'z proc_state_scheme) kout" where
  "sleep ch s = sched (upd_proc (cur s) (\<lambda>p. p\<lparr>p_chan := ch, p_state := SLEEPING\<rparr>) s)"

text \<open>What \<^verbatim>\<open>sleep()\<close> does once the scheduler has switched back: \<^verbatim>\<open>p->chan = 0\<close>.\<close>

definition sleep_tail :: "'z proc_state_scheme \<Rightarrow> 'z proc_state_scheme" where
  "sleep_tail s = upd_proc (cur s) (\<lambda>p. p\<lparr>p_chan := Chan_none\<rparr>) s"

definition yield :: "'z proc_state_scheme \<Rightarrow> ('a, 'z proc_state_scheme) kout" where
  "yield s = sched (upd_proc (cur s) (\<lambda>p. p\<lparr>p_state := RUNNABLE\<rparr>) s)"

definition wake_one :: "chan \<Rightarrow> nat \<Rightarrow> nat \<Rightarrow> proc \<Rightarrow> proc" where
  "wake_one ch me i p =
    (if i \<noteq> me \<and> p_state p = SLEEPING \<and> p_chan p = ch then p\<lparr>p_state := RUNNABLE\<rparr> else p)"

definition wakeup :: "chan \<Rightarrow> 'z proc_state_scheme \<Rightarrow> 'z proc_state_scheme" where
  "wakeup ch s = s\<lparr>procs := map (\<lambda>(i, p). wake_one ch (cur s) i p) (enumerate 0 (procs s))\<rparr>"

section \<open>Killing\<close>

text \<open>The loop of \<^verbatim>\<open>kkill\<close> over the table, from index \<open>i\<close> on.\<close>

fun kkill_loop :: "int \<Rightarrow> proc list \<Rightarrow> (proc list) option" where
  "kkill_loop pid [] = None"
| "kkill_loop pid (p # ps) =
    (if p_pid p = pid
     then Some ((let p = p\<lparr>p_killed := 1\<rparr> in
                 if p_state p = SLEEPING then p\<lparr>p_state := RUNNABLE\<rparr> else p) # ps)
     else map_option ((#) p) (kkill_loop pid ps))"

definition kkill :: "int \<Rightarrow> 'z proc_state_scheme \<Rightarrow> (int, 'z proc_state_scheme) kout" where
  "kkill pid s =
    (case kkill_loop pid (procs s) of
       Some ps \<Rightarrow> Ok 0 (s\<lparr>procs := ps\<rparr>)
     | None \<Rightarrow> Ok (-1) s)"

definition setkilled :: "nat \<Rightarrow> 'z proc_state_scheme \<Rightarrow> 'z proc_state_scheme" where
  "setkilled i s = upd_proc i (\<lambda>p. p\<lparr>p_killed := 1\<rparr>) s"

definition killed :: "nat \<Rightarrow> 'z proc_state_scheme \<Rightarrow> bool" where
  "killed i s \<longleftrightarrow> p_killed (procs s ! i) \<noteq> 0"

definition allocpid :: "'z proc_state_scheme \<Rightarrow> int \<times> 'z proc_state_scheme" where
  "allocpid s = (nextpid s, s\<lparr>nextpid := nextpid s + 1\<rparr>)"

section \<open>Sleep locks\<close>

record sleeplock =
  sl_locked :: bool
  sl_pid :: int

definition initsleeplock :: sleeplock where
  "initsleeplock = \<lparr>sl_locked = False, sl_pid = 0\<rparr>"

text \<open>
  The lock is embedded in a buffer or an inode: the functions take its value and its
  channel and return its new value. A caller that finds the lock taken goes to sleep and
  tries again, from the head of its \<^verbatim>\<open>while\<close> loop, when it is woken.
\<close>

definition acquiresleep ::
  "chan \<Rightarrow> sleeplock \<Rightarrow> 'z proc_state_scheme \<Rightarrow> (sleeplock, 'z proc_state_scheme) kout" where
  "acquiresleep ch lk s =
    (if sl_locked lk then sleep ch s
     else Ok \<lparr>sl_locked = True, sl_pid = p_pid (myproc s)\<rparr> s)"

definition releasesleep ::
  "chan \<Rightarrow> sleeplock \<Rightarrow> 'z proc_state_scheme \<Rightarrow> (sleeplock, 'z proc_state_scheme) kout" where
  "releasesleep ch lk s = Ok \<lparr>sl_locked = False, sl_pid = 0\<rparr> (wakeup ch s)"

definition holdingsleep :: "sleeplock \<Rightarrow> 'z proc_state_scheme \<Rightarrow> bool" where
  "holdingsleep lk s \<longleftrightarrow> sl_locked lk \<and> sl_pid lk = p_pid (myproc s)"

section \<open>Lemmas\<close>

lemma length_procs_wakeup [simp]: "length (procs (wakeup ch s)) = length (procs s)"
  by (simp add: wakeup_def)

lemma nth_procs_wakeup:
  "i < length (procs s) \<Longrightarrow> procs (wakeup ch s) ! i = wake_one ch (cur s) i (procs s ! i)"
  by (simp add: wakeup_def nth_enumerate_eq)

lemma wake_one_fields [simp]:
  "p_pid (wake_one ch me i p) = p_pid p" "p_chan (wake_one ch me i p) = p_chan p"
  "p_killed (wake_one ch me i p) = p_killed p" "p_parent (wake_one ch me i p) = p_parent p"
  "p_sz (wake_one ch me i p) = p_sz p" "p_pagetable (wake_one ch me i p) = p_pagetable p"
  "p_trapframe (wake_one ch me i p) = p_trapframe p" "p_ofile (wake_one ch me i p) = p_ofile p"
  "p_cwd (wake_one ch me i p) = p_cwd p" "wake_one ch i i p = p"
  by (simp_all add: wake_one_def)

lemma wakeup_fields [simp, frame]:
  "mem (wakeup ch s) = mem s" "freelist (wakeup ch s) = freelist s" "k_end (wakeup ch s) = k_end s"
  "cur (wakeup ch s) = cur s" "nextpid (wakeup ch s) = nextpid s" "initproc (wakeup ch s) = initproc s"
  "proc_state.more (wakeup ch s) = proc_state.more s"
  by (simp_all add: wakeup_def)

lemma myproc_wakeup [simp, frame]:
  "cur s < length (procs s) \<Longrightarrow> myproc (wakeup ch s) = myproc s"
  by (simp add: nth_procs_wakeup)

lemma upd_proc_fields [simp, frame]:
  "mem (upd_proc i f s) = mem s" "freelist (upd_proc i f s) = freelist s"
  "k_end (upd_proc i f s) = k_end s" "cur (upd_proc i f s) = cur s"
  "nextpid (upd_proc i f s) = nextpid s" "initproc (upd_proc i f s) = initproc s"
  "length (procs (upd_proc i f s)) = length (procs s)"
  "proc_state.more (upd_proc i f s) = proc_state.more s"
  by (simp_all add: upd_proc_def)

text \<open>\<^verbatim>\<open>sleep\<close> never returns to its caller in the same step, and never panics.\<close>

lemma sleep_Sleep:
  assumes "cur s < length (procs s)"
  shows "sleep ch s = Sleep (upd_proc (cur s) (\<lambda>p. p\<lparr>p_chan := ch, p_state := SLEEPING\<rparr>) s)"
  using assms by (simp add: sleep_def sched_def upd_proc_def)

lemma sleep_not_Ok [simp]: "sleep ch s \<noteq> Ok x t"
  by (simp add: sleep_def sched_def)

lemma returns_sleep [simp, wp]: "\<not> returns (sleep ch s) Q"
  by (simp add: sleep_def sched_def)

lemma may_return_sleep [simp, wp]: "may_return (sleep ch s) Q"
  by (simp add: sleep_def sched_def)

lemma returns_acquiresleep [wp]:
  "returns (acquiresleep ch lk s) Q \<longleftrightarrow>
    \<not> sl_locked lk \<and> Q \<lparr>sl_locked = True, sl_pid = p_pid (myproc s)\<rparr> s"
  by (simp add: acquiresleep_def)

lemma returns_releasesleep [wp]:
  "returns (releasesleep ch lk s) Q \<longleftrightarrow> Q \<lparr>sl_locked = False, sl_pid = 0\<rparr> (wakeup ch s)"
  by (simp add: releasesleep_def)

end
