(* ===== verification/Bio.thy ===== *)
theory Bio
  imports Proc_Core
begin

text \<open>
  The buffer cache, \<^verbatim>\<open>kernel/bio.c\<close>. The array \<^verbatim>\<open>bcache.buf\<close> is the list \<open>bufs\<close>; the
  circular list through \<^verbatim>\<open>prev\<close>/\<^verbatim>\<open>next\<close> is the list \<open>lru\<close> of buffer indices, most recently
  used first (theory \<open>Bcache_List\<close> shows that the pointer code implements it). The disk
  is a map from block numbers to blocks; \<open>disk_writes\<close> records every block the device has
  been given to write, oldest first, which is what survives a crash.
\<close>

record buf =
  b_valid :: bool
  b_disk :: bool
  b_dev :: nat
  b_blockno :: nat
  b_lock :: sleeplock
  b_refcnt :: nat
  b_data :: bytes

record bio_state = proc_state +
  disk :: "nat \<Rightarrow> bytes"
  disk_writes :: "(nat \<times> bytes) list"
  bufs :: "buf list"
  lru :: "nat list"

definition upd_buf :: "nat \<Rightarrow> (buf \<Rightarrow> buf) \<Rightarrow> 'z bio_state_scheme \<Rightarrow> 'z bio_state_scheme" where
  "upd_buf i f s = s\<lparr>bufs := (bufs s)[i := f (bufs s ! i)]\<rparr>"

section \<open>Operations\<close>

text \<open>The contract of the disk driver: \<^verbatim>\<open>virtio_disk_rw\<close> returns when the transfer is done.\<close>

definition disk_rw :: "nat \<Rightarrow> bool \<Rightarrow> 'z bio_state_scheme \<Rightarrow> 'z bio_state_scheme" where
  "disk_rw i write s =
    (let b = bufs s ! i in
     if write
     then s\<lparr>disk := (disk s)(b_blockno b := b_data b),
            disk_writes := disk_writes s @ [(b_blockno b, b_data b)]\<rparr>
     else upd_buf i (\<lambda>b. b\<lparr>b_data := disk s (b_blockno b)\<rparr>) s)"

text \<open>\<^verbatim>\<open>for(b = bcache.buf; b < bcache.buf+NBUF; b++)\<close>: insert each buffer at the list head.\<close>

definition binit :: "'z bio_state_scheme \<Rightarrow> 'z bio_state_scheme" where
  "binit s = s\<lparr>lru := foldl (\<lambda>l b. b # l) [] [0..<NBUF],
               bufs := map (\<lambda>b. b\<lparr>b_lock := initsleeplock\<rparr>) (bufs s)\<rparr>"

definition lock_buf :: "nat \<Rightarrow> 'z bio_state_scheme \<Rightarrow> (unit, 'z bio_state_scheme) kout" where
  "lock_buf i s =
    kbind (acquiresleep (Chan_buf i) (b_lock (bufs s ! i)) s) (\<lambda>lk s.
    Ok () (upd_buf i (\<lambda>b. b\<lparr>b_lock := lk\<rparr>) s))"

definition bget :: "nat \<Rightarrow> nat \<Rightarrow> 'z bio_state_scheme \<Rightarrow> (nat, 'z bio_state_scheme) kout" where
  "bget dev blockno s =
    \<comment> \<open>Is the block already cached?\<close>
    (case find (\<lambda>i. b_dev (bufs s ! i) = dev \<and> b_blockno (bufs s ! i) = blockno) (lru s) of
       Some i \<Rightarrow>
         let s = upd_buf i (\<lambda>b. b\<lparr>b_refcnt := uint_inc (b_refcnt b)\<rparr>) s in
         kbind (lock_buf i s) (\<lambda>_ s. Ok i s)
     | None \<Rightarrow>
         \<comment> \<open>Recycle the least recently used unused buffer.\<close>
         (case find (\<lambda>i. b_refcnt (bufs s ! i) = 0) (rev (lru s)) of
            Some i \<Rightarrow>
              let s = upd_buf i (\<lambda>b. b\<lparr>b_dev := dev, b_blockno := blockno, b_valid := False,
                                       b_refcnt := 1\<rparr>) s in
              kbind (lock_buf i s) (\<lambda>_ s. Ok i s)
          | None \<Rightarrow> Panic ''bget: no buffers''))"

definition bread :: "nat \<Rightarrow> nat \<Rightarrow> 'z bio_state_scheme \<Rightarrow> (nat, 'z bio_state_scheme) kout" where
  "bread dev blockno s =
    kbind (bget dev blockno s) (\<lambda>b s.
    if \<not> b_valid (bufs s ! b)
    then Ok b (upd_buf b (\<lambda>b. b\<lparr>b_valid := True\<rparr>) (disk_rw b False s))
    else Ok b s)"

definition bwrite :: "nat \<Rightarrow> 'z bio_state_scheme \<Rightarrow> (unit, 'z bio_state_scheme) kout" where
  "bwrite b s =
    (if \<not> holdingsleep (b_lock (bufs s ! b)) s then Panic ''bwrite''
     else Ok () (disk_rw b True s))"

definition brelse :: "nat \<Rightarrow> 'z bio_state_scheme \<Rightarrow> (unit, 'z bio_state_scheme) kout" where
  "brelse b s =
    (if \<not> holdingsleep (b_lock (bufs s ! b)) s then Panic ''brelse''
     else
       kbind (releasesleep (Chan_buf b) (b_lock (bufs s ! b)) s) (\<lambda>lk s.
       let s = upd_buf b (\<lambda>b. b\<lparr>b_lock := lk\<rparr>) s;
           s = upd_buf b (\<lambda>b. b\<lparr>b_refcnt := uint_dec (b_refcnt b)\<rparr>) s
       in if b_refcnt (bufs s ! b) = 0
          then Ok () (s\<lparr>lru := b # remove1 b (lru s)\<rparr>) \<comment> \<open>no one is waiting for it\<close>
          else Ok () s))"

definition bpin :: "nat \<Rightarrow> 'z bio_state_scheme \<Rightarrow> 'z bio_state_scheme" where
  "bpin b s = upd_buf b (\<lambda>b. b\<lparr>b_refcnt := uint_inc (b_refcnt b)\<rparr>) s"

definition bunpin :: "nat \<Rightarrow> 'z bio_state_scheme \<Rightarrow> 'z bio_state_scheme" where
  "bunpin b s = upd_buf b (\<lambda>b. b\<lparr>b_refcnt := uint_dec (b_refcnt b)\<rparr>) s"

text \<open>A client's store into \<^verbatim>\<open>bp->data\<close>.\<close>

definition set_data :: "nat \<Rightarrow> bytes \<Rightarrow> 'z bio_state_scheme \<Rightarrow> 'z bio_state_scheme" where
  "set_data i d s = upd_buf i (\<lambda>b. b\<lparr>b_data := d\<rparr>) s"

abbreviation bdata :: "nat \<Rightarrow> 'z bio_state_scheme \<Rightarrow> bytes" where
  "bdata i s \<equiv> b_data (bufs s ! i)"

section \<open>Invariant and contents\<close>

text \<open>
  The block a client sees: the cached copy if there is one, else the disk. \<open>bio_inv P s\<close>
  is the invariant of the cache between operations, with \<open>P\<close> the set of pinned blocks:
  a buffer of the root device holds a valid block, its reference count is one per pin and
  one for the process holding its lock, and a buffer without references agrees with the
  disk; no block is cached twice; pinned blocks are cached.
\<close>

definition blk :: "'z bio_state_scheme \<Rightarrow> nat \<Rightarrow> bytes" where
  "blk s b =
    (case find (\<lambda>i. b_dev (bufs s ! i) = ROOTDEV \<and> b_blockno (bufs s ! i) = b) [0..<length (bufs s)] of
       Some i \<Rightarrow> bdata i s
     | None \<Rightarrow> disk s b)"

definition buf_ok :: "nat set \<Rightarrow> (nat \<Rightarrow> bytes) \<Rightarrow> buf \<Rightarrow> bool" where
  "buf_ok P d b \<longleftrightarrow>
    (if b_dev b = ROOTDEV
     then b_valid b \<and> length (b_data b) = BSIZE \<and>
       b_refcnt b = of_bool (b_blockno b \<in> P) + of_bool (sl_locked (b_lock b)) \<and>
       (b_refcnt b = 0 \<longrightarrow> b_data b = d (b_blockno b))
     else b_dev b = 0 \<and> b_refcnt b = 0 \<and> \<not> sl_locked (b_lock b))"

definition cached_at :: "'z bio_state_scheme \<Rightarrow> nat \<Rightarrow> nat \<Rightarrow> bool" where
  "cached_at s i b \<longleftrightarrow> i < NBUF \<and> b_dev (bufs s ! i) = ROOTDEV \<and> b_blockno (bufs s ! i) = b"

definition bio_inv :: "nat set \<Rightarrow> 'z bio_state_scheme \<Rightarrow> bool" where
  "bio_inv P s \<longleftrightarrow>
    length (bufs s) = NBUF \<and> distinct (lru s) \<and> set (lru s) = {..<NBUF} \<and>
    cur s < length (procs s) \<and> (\<forall>b. length (disk s b) = BSIZE) \<and>
    (\<forall>i<NBUF. buf_ok P (disk s) (bufs s ! i)) \<and>
    (\<forall>i j b. cached_at s i b \<longrightarrow> cached_at s j b \<longrightarrow> i = j) \<and>
    (\<forall>b\<in>P. \<exists>i. cached_at s i b)"

lemma bio_invD:
  assumes "bio_inv P s"
  shows bio_inv_len: "length (bufs s) = NBUF"
    and bio_inv_lru: "distinct (lru s)" "set (lru s) = {..<NBUF}"
    and bio_inv_cur: "cur s < length (procs s)"
    and bio_inv_disk: "length (disk s b) = BSIZE"
    and bio_inv_buf: "i < NBUF \<Longrightarrow> buf_ok P (disk s) (bufs s ! i)"
    and bio_inv_uniq: "cached_at s i b \<Longrightarrow> cached_at s j b \<Longrightarrow> i = j"
    and bio_inv_pinned: "b \<in> P \<Longrightarrow> \<exists>i. cached_at s i b"
  using assms unfolding bio_inv_def by blast+

lemma blk_cached:
  assumes "bio_inv P s" and "cached_at s i b"
  shows "blk s b = bdata i s"
proof -
  have len: "length (bufs s) = NBUF" and uniq: "\<And>j. cached_at s j b \<Longrightarrow> j = i"
    using bio_inv_len [OF assms(1)] bio_inv_uniq [OF assms(1)] assms(2) by blast+
  have "\<not> (b_dev (bufs s ! j) = ROOTDEV \<and> b_blockno (bufs s ! j) = b)" if "j < i" for j
    using uniq [of j] that assms(2) by (auto simp: cached_at_def)
  then have "find (\<lambda>i. b_dev (bufs s ! i) = ROOTDEV \<and> b_blockno (bufs s ! i) = b) [0..<NBUF] = Some i"
    unfolding find_Some_iff using assms(2) by (intro exI [of _ i]) (simp add: cached_at_def)
  then show ?thesis by (simp add: blk_def len)
qed

lemma blk_uncached: "bio_inv P s \<Longrightarrow> (\<And>i. \<not> cached_at s i b) \<Longrightarrow> blk s b = disk s b"
proof -
  assume "bio_inv P s" and "\<And>i. \<not> cached_at s i b"
  then have "find (\<lambda>i. b_dev (bufs s ! i) = ROOTDEV \<and> b_blockno (bufs s ! i) = b) [0..<length (bufs s)] = None"
    unfolding find_None_iff by (auto simp: bio_inv_def cached_at_def)
  then show "blk s b = disk s b" by (simp add: blk_def)
qed

text \<open>Replacing one buffer (and the list order, and waking processes).\<close>

lemma bio_inv_replace:
  assumes inv: "bio_inv P s" and i: "i < NBUF"
    and L: "distinct L" "set L = {..<NBUF}" and PS: "length PS = length (procs s)"
    and ok: "buf_ok P (disk s) c"
    and uniq: "\<And>j. b_dev c = ROOTDEV \<Longrightarrow> j \<noteq> i \<Longrightarrow> \<not> cached_at s j (b_blockno c)"
    and keep: "\<And>b. cached_at s i b \<Longrightarrow> b \<in> P \<Longrightarrow> b_dev c = ROOTDEV \<and> b_blockno c = b"
  shows "bio_inv P (s\<lparr>bufs := (bufs s)[i := c], lru := L, procs := PS\<rparr>)"
proof -
  let ?s = "s\<lparr>bufs := (bufs s)[i := c], lru := L, procs := PS\<rparr>"
  have len: "length (bufs s) = NBUF" using inv by (simp add: bio_inv_def)
  have at: "cached_at ?s j b \<longleftrightarrow> (if j = i then b_dev c = ROOTDEV \<and> b_blockno c = b else cached_at s j b)" for j b
    using i len by (auto simp: cached_at_def)
  have "\<exists>j. cached_at ?s j b" if b: "b \<in> P" for b
  proof -
    obtain j where "cached_at s j b" using bio_inv_pinned [OF inv b] by blast
    then show ?thesis using keep b by (cases "j = i") (auto simp: at)
  qed
  moreover have "j = k" if "cached_at ?s j b" "cached_at ?s k b" for j k b
    using that bio_inv_uniq [OF inv] uniq by (auto simp: at split: if_splits)
  moreover have "buf_ok P (disk s) ((bufs s)[i := c] ! j)" if "j < NBUF" for j
    using bio_inv_buf [OF inv that] ok len that by (cases "j = i") auto
  ultimately show ?thesis
    using bio_invD [OF inv] L PS unfolding bio_inv_def by simp
qed

lemma blk_replace:
  assumes inv: "bio_inv P s" and inv': "bio_inv P (s\<lparr>bufs := (bufs s)[i := c], lru := L, procs := PS\<rparr>)"
    and i: "i < NBUF"
  shows "blk (s\<lparr>bufs := (bufs s)[i := c], lru := L, procs := PS\<rparr>) b =
    (if b_dev c = ROOTDEV \<and> b_blockno c = b then b_data c
     else if cached_at s i b then disk s b else blk s b)"
proof -
  let ?s = "s\<lparr>bufs := (bufs s)[i := c], lru := L, procs := PS\<rparr>"
  have len: "length (bufs s) = NBUF" by (rule bio_inv_len [OF inv])
  have at: "cached_at ?s j b \<longleftrightarrow> (if j = i then b_dev c = ROOTDEV \<and> b_blockno c = b else cached_at s j b)" for j
    using i len by (auto simp: cached_at_def)
  show ?thesis
  proof (cases "\<exists>j. cached_at ?s j b")
    case True
    then obtain j where j: "cached_at ?s j b" ..
    then have "blk ?s b = bdata j ?s" by (rule blk_cached [OF inv'])
    moreover have "bdata j ?s = (if j = i then b_data c else bdata j s)"
      using i len by simp
    moreover have "blk s b = bdata j s \<and> \<not> (b_dev c = ROOTDEV \<and> b_blockno c = b) \<and> \<not> cached_at s i b" if "j \<noteq> i"
    proof -
      have js: "cached_at s j b" using j at [of j] that by simp
      have "\<not> cached_at ?s i b" using bio_inv_uniq [OF inv' j] that by blast
      moreover have "\<not> cached_at s i b" using bio_inv_uniq [OF inv js] that by blast
      ultimately show ?thesis using blk_cached [OF inv js] at [of i] by simp
    qed
    moreover have "b_dev c = ROOTDEV \<and> b_blockno c = b" if "j = i"
      using j at [of j] that by simp
    ultimately show ?thesis by (cases "j = i") auto
  next
    case False
    then have "blk ?s b = disk s b" using blk_uncached [OF inv', of b] by simp
    moreover have "blk s b = disk s b" if "\<not> cached_at s i b"
    proof (rule blk_uncached [OF inv])
      fix j show "\<not> cached_at s j b" using False at [of j] that by (cases "j = i") auto
    qed
    ultimately show ?thesis using False at [of i] by auto
  qed
qed

section \<open>Contracts of the operations\<close>

text \<open>
  \<open>holding s i b\<close>: the running process has block \<open>b\<close> locked, in buffer \<open>i\<close>; \<open>held s\<close> are
  the blocks locked by any process. \<open>woken me ps qs\<close>: between \<open>ps\<close> and \<open>qs\<close> some sleeping
  processes other than \<open>me\<close> have been made runnable and nothing else has happened.
\<close>

definition holding :: "'z bio_state_scheme \<Rightarrow> nat \<Rightarrow> nat \<Rightarrow> bool" where
  "holding s i b \<longleftrightarrow> cached_at s i b \<and> holdingsleep (b_lock (bufs s ! i)) s"

definition held :: "'z bio_state_scheme \<Rightarrow> nat set" where
  "held s = {b. \<exists>i. cached_at s i b \<and> sl_locked (b_lock (bufs s ! i))}"

lemma holding_held: "holding s i b \<Longrightarrow> b \<in> held s"
  by (auto simp: holding_def held_def holdingsleep_def)

lemma holding_lt: "holding s i b \<Longrightarrow> i < NBUF"
  by (simp add: holding_def cached_at_def)

lemma holding_dev: "holding s i b \<Longrightarrow> b_dev (bufs s ! i) = ROOTDEV \<and> b_blockno (bufs s ! i) = b"
  by (simp add: holding_def cached_at_def)

lemma bdata_holding: "bio_inv P s \<Longrightarrow> holding s i b \<Longrightarrow> bdata i s = blk s b"
  using blk_cached holding_def by metis

lemma holding_uniq: "bio_inv P s \<Longrightarrow> holding s i b \<Longrightarrow> cached_at s j b \<Longrightarrow> j = i"
  using bio_inv_uniq holding_def by metis

lemma blk_clean: 
  assumes "bio_inv P s" "b \<notin> P" "b \<notin> held s" shows "blk s b = disk s b"
proof (cases "\<exists>i. cached_at s i b")
  case True
  then obtain i where i: "cached_at s i b" ..
  then have "buf_ok P (disk s) (bufs s ! i)" using bio_inv_buf [OF assms(1), of i] by (simp add: cached_at_def)
  then show ?thesis using i assms(2,3) blk_cached [OF assms(1) i]
    by (auto simp: buf_ok_def held_def cached_at_def)
next
  case False then show ?thesis using blk_uncached [OF assms(1)] by blast
qed

lemma length_blk [simp]: "bio_inv P s \<Longrightarrow> length (blk s b) = BSIZE"
proof -
  assume inv: "bio_inv P s"
  show ?thesis
  proof (cases "\<exists>i. cached_at s i b")
    case True
    then obtain i where i: "cached_at s i b" ..
    then have "buf_ok P (disk s) (bufs s ! i)" using bio_inv_buf [OF inv, of i] by (simp add: cached_at_def)
    then show ?thesis using i blk_cached [OF inv i] by (auto simp: buf_ok_def cached_at_def)
  next
    case False then show ?thesis using blk_uncached [OF inv] bio_inv_disk [OF inv] by metis
  qed
qed

definition woken :: "nat \<Rightarrow> proc list \<Rightarrow> proc list \<Rightarrow> bool" where
  "woken me ps qs \<longleftrightarrow> length qs = length ps \<and>
    (\<forall>i<length ps. qs ! i = ps ! i \<or>
       (i \<noteq> me \<and> p_state (ps ! i) = SLEEPING \<and> qs ! i = (ps ! i)\<lparr>p_state := RUNNABLE\<rparr>))"

lemma woken_refl [simp]: "woken me ps ps"
  by (simp add: woken_def)

lemma woken_trans: "woken me ps qs \<Longrightarrow> woken me qs rs \<Longrightarrow> woken me ps rs"
  unfolding woken_def by (metis (no_types, lifting) proc.select_convs(1) proc.surjective proc.update_convs(1) procstate.distinct)

lemma woken_me: "woken me ps qs \<Longrightarrow> me < length ps \<Longrightarrow> qs ! me = ps ! me"
  by (auto simp: woken_def)

lemma woken_len: "woken me ps qs \<Longrightarrow> length qs = length ps"
  by (simp add: woken_def)

lemma woken_wakeup: "woken (cur s) (procs s) (procs (wakeup ch s))"
  by (auto simp: woken_def nth_procs_wakeup wake_one_def)

lemma wakeup_eq: "wakeup ch s = s\<lparr>procs := procs (wakeup ch s)\<rparr>"
  by (simp add: wakeup_def)

text \<open>What the operations of the cache may change besides the disk.\<close>

definition bio_ext :: "'z bio_state_scheme \<Rightarrow> 'z bio_state_scheme \<Rightarrow> bool" where
  "bio_ext s t \<longleftrightarrow> (\<exists>B L Ps. t = s\<lparr>bufs := B, lru := L, procs := Ps\<rparr> \<and> woken (cur s) (procs s) Ps)"

lemma bio_ext_refl [simp]: "bio_ext s s"
  unfolding bio_ext_def by (rule exI [of _ "bufs s"], rule exI [of _ "lru s"], rule exI [of _ "procs s"]) simp

lemma bio_ext_trans: "bio_ext s t \<Longrightarrow> bio_ext t u \<Longrightarrow> bio_ext s u"
  unfolding bio_ext_def by (elim exE conjE) (auto dest: woken_trans)

lemma bio_ext_disk: "bio_ext s t \<Longrightarrow> disk t = disk s \<and> disk_writes t = disk_writes s"
  by (auto simp: bio_ext_def)

lemma bio_ext_cur: "bio_ext s t \<Longrightarrow> cur t = cur s"
  by (auto simp: bio_ext_def)

lemma bio_ext_myproc: "bio_ext s t \<Longrightarrow> cur s < length (procs s) \<Longrightarrow> myproc t = myproc s"
  by (auto simp: bio_ext_def woken_me)

lemma cached_replace:
  "length (bufs s) = NBUF \<Longrightarrow> i < NBUF \<Longrightarrow>
    cached_at (s\<lparr>bufs := (bufs s)[i := c], lru := L, procs := PS\<rparr>) j b \<longleftrightarrow>
      (if j = i then b_dev c = ROOTDEV \<and> b_blockno c = b else cached_at s j b)"
  by (auto simp: cached_at_def)

lemma held_replace:
  assumes inv: "bio_inv P s" and i: "i < NBUF"
  shows "held (s\<lparr>bufs := (bufs s)[i := c], lru := L, procs := PS\<rparr>) =
    {b \<in> held s. \<not> cached_at s i b} \<union>
    (if b_dev c = ROOTDEV \<and> sl_locked (b_lock c) then {b_blockno c} else {})"
    (is "held ?s = ?R")
proof (rule set_eqI)
  fix b
  have at: "cached_at ?s j b \<longleftrightarrow> (if j = i then b_dev c = ROOTDEV \<and> b_blockno c = b else cached_at s j b)" for j
    by (rule cached_replace [OF bio_inv_len [OF inv] i])
  have bf: "bufs ?s ! j = (if j = i then c else bufs s ! j)" for j
    using i bio_inv_len [OF inv] by simp
  have "(\<exists>j. j \<noteq> i \<and> cached_at s j b \<and> sl_locked (b_lock (bufs s ! j))) \<longleftrightarrow> b \<in> held s \<and> \<not> cached_at s i b"
    unfolding held_def mem_Collect_eq using bio_inv_uniq [OF inv] by metis
  moreover have "b \<in> held ?s \<longleftrightarrow> (\<exists>j. j \<noteq> i \<and> cached_at s j b \<and> sl_locked (b_lock (bufs s ! j))) \<or>
      (b_dev c = ROOTDEV \<and> b_blockno c = b \<and> sl_locked (b_lock c))"
    unfolding held_def mem_Collect_eq at bf by auto
  ultimately show "b \<in> held ?s \<longleftrightarrow> b \<in> ?R" by auto
qed

lemma holding_replace:
  assumes inv: "bio_inv P s" and i: "i < NBUF" and PS: "woken (cur s) (procs s) PS"
  shows "holding (s\<lparr>bufs := (bufs s)[i := c], lru := L, procs := PS\<rparr>) j b \<longleftrightarrow>
    (if j = i then b_dev c = ROOTDEV \<and> b_blockno c = b \<and> holdingsleep (b_lock c) s else holding s j b)"
  using i bio_inv_len [OF inv] woken_me [OF PS bio_inv_cur [OF inv]]
  by (auto simp: holding_def cached_replace [OF bio_inv_len [OF inv] i] holdingsleep_def)

lemma bio_ext_replace:
  "woken (cur s) (procs s) PS \<Longrightarrow> bio_ext s (s\<lparr>bufs := B, lru := L, procs := PS\<rparr>)"
  unfolding bio_ext_def by (rule exI [of _ B], rule exI [of _ L], rule exI [of _ PS]) simp

lemma replace_id: "s\<lparr>bufs := B\<rparr> = s\<lparr>bufs := B, lru := lru s, procs := procs s\<rparr>"
  by (rule bio_state.equality) simp_all

text \<open>There is a buffer to recycle unless the pinned and the locked blocks fill the cache.\<close>

lemma free_buffer:
  assumes inv: "bio_inv P s" and room: "card (P \<union> held s) < NBUF"
  shows "\<exists>i<NBUF. b_refcnt (bufs s ! i) = 0"
proof (rule ccontr)
  let ?f = "\<lambda>i. b_blockno (bufs s ! i)"
  assume "\<not> ?thesis"
  then have busy: "b_refcnt (bufs s ! i) \<noteq> 0" if "i < NBUF" for i using that by simp
  have root: "cached_at s i (?f i)" if "i < NBUF" for i
    using bio_inv_buf [OF inv that] busy [OF that] that unfolding buf_ok_def cached_at_def by presburger
  have used: "?f i \<in> P \<union> held s" if "i < NBUF" for i
    using bio_inv_buf [OF inv that] busy [OF that] root [OF that]
    by (cases "sl_locked (b_lock (bufs s ! i))") (auto simp: buf_ok_def held_def cached_at_def)
  have inj: "inj_on ?f {..<NBUF}"
  proof (rule inj_onI)
    fix i j assume "i \<in> {..<NBUF}" "j \<in> {..<NBUF}" "?f i = ?f j"
    then show "i = j" using bio_inv_uniq [OF inv, of i "?f i" j] root [of i] root [of j] by simp
  qed
  have "P \<union> held s \<subseteq> ?f ` {..<NBUF}"
    using bio_inv_pinned [OF inv] by (fastforce simp: held_def cached_at_def)
  then have "finite (P \<union> held s)" using finite_surj by blast
  then have "card (?f ` {..<NBUF}) \<le> card (P \<union> held s)" using used by (intro card_mono) auto
  then show False using room card_image [OF inj] by simp
qed

lemma bget_cached:
  assumes inv: "bio_inv P s" and c: "cached_at s i b" and free: "b \<notin> held s"
  shows "bget ROOTDEV b s = Ok i (s\<lparr>bufs := (bufs s)[i := (bufs s ! i)\<lparr>
      b_refcnt := Suc (b_refcnt (bufs s ! i)), b_lock := \<lparr>sl_locked = True, sl_pid = p_pid (myproc s)\<rparr>\<rparr>]\<rparr>)"
proof -
  let ?Q = "\<lambda>i. b_dev (bufs s ! i) = ROOTDEV \<and> b_blockno (bufs s ! i) = b"
  have i: "i < NBUF" "?Q i" using c by (auto simp: cached_at_def)
  have "\<exists>k. find ?Q (lru s) = Some k"
    using i bio_inv_lru [OF inv] by (cases "find ?Q (lru s)") (auto simp: find_None_iff)
  then obtain k where k: "find ?Q (lru s) = Some k" ..
  note find_SomeD [OF k]
  then have "k = i" using bio_inv_uniq [OF inv _ c, of k] bio_inv_lru [OF inv] by (auto simp: cached_at_def)
  moreover have "\<not> sl_locked (b_lock (bufs s ! i))" using free c by (auto simp: held_def)
  moreover have "b_refcnt (bufs s ! i) \<le> 1" using bio_inv_buf [OF inv i(1)] i calculation(2) by (simp add: buf_ok_def)
  ultimately show ?thesis using k i bio_inv_len [OF inv]
    by (simp add: bget_def lock_buf_def acquiresleep_def upd_buf_def)
qed

lemma bget_recycle:
  assumes inv: "bio_inv P s" and c: "\<And>i. \<not> cached_at s i b" and room: "card (P \<union> held s) < NBUF"
  obtains i where "i < NBUF" "b_refcnt (bufs s ! i) = 0"
    "bget ROOTDEV b s = Ok i (s\<lparr>bufs := (bufs s)[i := (bufs s ! i)\<lparr>b_dev := ROOTDEV, b_blockno := b,
       b_valid := False, b_refcnt := 1, b_lock := \<lparr>sl_locked = True, sl_pid = p_pid (myproc s)\<rparr>\<rparr>]\<rparr>)"
proof -
  let ?Q = "\<lambda>i. b_dev (bufs s ! i) = ROOTDEV \<and> b_blockno (bufs s ! i) = b"
  have none: "find ?Q (lru s) = None"
    using c bio_inv_lru [OF inv] by (auto simp: find_None_iff cached_at_def)
  have "\<exists>k. find (\<lambda>i. b_refcnt (bufs s ! i) = 0) (rev (lru s)) = Some k"
    using free_buffer [OF inv room] bio_inv_lru [OF inv]
    by (cases "find (\<lambda>i. b_refcnt (bufs s ! i) = 0) (rev (lru s))") (auto simp: find_None_iff)
  then obtain i where k: "find (\<lambda>i. b_refcnt (bufs s ! i) = 0) (rev (lru s)) = Some i" ..
  then have "i < NBUF" and z: "b_refcnt (bufs s ! i) = 0"
    using bio_inv_lru [OF inv] find_SomeD [OF k] by simp_all
  moreover have "\<not> sl_locked (b_lock (bufs s ! i))"
    using bio_inv_buf [OF inv \<open>i < NBUF\<close>] z by (auto simp: buf_ok_def split: if_splits)
  ultimately show ?thesis using that k none bio_inv_len [OF inv]
    by (simp add: bget_def lock_buf_def acquiresleep_def upd_buf_def)
qed

text \<open>\<open>bread\<close> locks a buffer for its block and leaves every block's contents as they were.\<close>

definition bread_post :: "nat set \<Rightarrow> nat \<Rightarrow> 'z bio_state_scheme \<Rightarrow> nat \<Rightarrow> 'z bio_state_scheme \<Rightarrow> bool" where
  "bread_post P b s i t \<longleftrightarrow> bio_inv P t \<and> holding t i b \<and> held t = insert b (held s) \<and>
    blk t = blk s \<and> bio_ext s t \<and> (\<forall>j c. holding s j c \<longrightarrow> holding t j c)"

lemma bread_post_replace:
  assumes inv: "bio_inv P s" and i: "i < NBUF" and c: "b_dev c = ROOTDEV" "b_blockno c = b"
      "b_data c = blk s b" "b_lock c = \<lparr>sl_locked = True, sl_pid = p_pid (myproc s)\<rparr>" "buf_ok P (disk s) c"
    and was: "\<And>j. cached_at s j b \<Longrightarrow> j = i" "\<And>d. cached_at s i d \<Longrightarrow> d \<noteq> b \<Longrightarrow> b_refcnt (bufs s ! i) = 0"
      "\<not> sl_locked (b_lock (bufs s ! i))"
  shows "bread_post P b s i (s\<lparr>bufs := (bufs s)[i := c]\<rparr>)"
proof -
  define t where "t = s\<lparr>bufs := (bufs s)[i := c], lru := lru s, procs := procs s\<rparr>"
  have old: "d \<notin> P \<and> blk s d = disk s d" if "cached_at s i d" "d \<noteq> b" for d
    using was(2) [OF that] bio_inv_buf [OF inv i] that blk_cached [OF inv that(1)]
    by (auto simp: buf_ok_def cached_at_def)
  have inv': "bio_inv P t" unfolding t_def
    using c was(1) old bio_inv_lru [OF inv] by (intro bio_inv_replace [OF inv i]) auto
  have "blk t = blk s"
  proof
    fix d show "blk t d = blk s d"
      unfolding t_def blk_replace [OF inv inv' [unfolded t_def] i] using c old [of d] by auto
  qed
  moreover have "{d \<in> held s. \<not> cached_at s i d} = held s"
    using was(3) bio_inv_uniq [OF inv] unfolding held_def by blast
  then have "held t = insert b (held s)"
    unfolding t_def held_replace [OF inv i] using c by simp
  moreover have hold: "holding t j d \<longleftrightarrow> (if j = i then d = b else holding s j d)" for j d
    unfolding t_def holding_replace [OF inv i woken_refl] using c by (auto simp: holdingsleep_def)
  moreover have "holding t j d" if "holding s j d" for j d
    using that was(3) hold [of j d] by (cases "j = i") (auto simp: holding_def holdingsleep_def)
  moreover have "bio_ext s t" unfolding t_def by (rule bio_ext_replace) simp
  moreover have "s\<lparr>bufs := (bufs s)[i := c]\<rparr> = t" unfolding t_def by (rule replace_id)
  ultimately show ?thesis using inv' unfolding bread_post_def by simp
qed

lemma returns_bread:
  assumes inv: "bio_inv P s" and free: "b \<notin> held s" and room: "b \<in> P \<or> card (P \<union> held s) < NBUF"
  shows "returns (bread ROOTDEV b s) (bread_post P b s)"
proof (cases "\<exists>i. cached_at s i b")
  case True
  then obtain i where c: "cached_at s i b" ..
  then have i: "i < NBUF" and ii: "b_dev (bufs s ! i) = ROOTDEV" "b_blockno (bufs s ! i) = b"
    by (auto simp: cached_at_def)
  note ok = bio_inv_buf [OF inv i]
  have nl: "\<not> sl_locked (b_lock (bufs s ! i))" using free c by (auto simp: held_def)
  have "bread ROOTDEV b s = bget ROOTDEV b s"
    using ok ii i bio_inv_len [OF inv] by (simp add: bread_def bget_cached [OF inv c free] buf_ok_def)
  moreover have "bread_post P b s i (s\<lparr>bufs := (bufs s)[i := (bufs s ! i)\<lparr>
      b_refcnt := Suc (b_refcnt (bufs s ! i)), b_lock := \<lparr>sl_locked = True, sl_pid = p_pid (myproc s)\<rparr>\<rparr>]\<rparr>)"
  proof (rule bread_post_replace [OF inv i])
    show "j = i" if "cached_at s j b" for j by (rule bio_inv_uniq [OF inv that c])
    show "b_refcnt (bufs s ! i) = 0" if "cached_at s i d" "d \<noteq> b" for d
      using that ii by (simp add: cached_at_def)
  qed (use ok ii nl blk_cached [OF inv c] in \<open>simp_all add: buf_ok_def\<close>)
  ultimately show ?thesis unfolding bget_cached [OF inv c free] by simp
next
  case False
  then have nc: "\<And>i. \<not> cached_at s i b" by simp
  then have room: "card (P \<union> held s) < NBUF" using room bio_inv_pinned [OF inv] by auto
  show ?thesis
  proof (rule bget_recycle [OF inv nc room])
    fix i assume i: "i < NBUF" and z: "b_refcnt (bufs s ! i) = 0"
      and g: "bget ROOTDEV b s = Ok i (s\<lparr>bufs := (bufs s)[i := (bufs s ! i)\<lparr>b_dev := ROOTDEV, b_blockno := b,
        b_valid := False, b_refcnt := 1, b_lock := \<lparr>sl_locked = True, sl_pid = p_pid (myproc s)\<rparr>\<rparr>]\<rparr>)"
    let ?c = "(bufs s ! i)\<lparr>b_dev := ROOTDEV, b_blockno := b, b_refcnt := 1,
      b_lock := \<lparr>sl_locked = True, sl_pid = p_pid (myproc s)\<rparr>, b_data := disk s b, b_valid := True\<rparr>"
    have r: "bread ROOTDEV b s = Ok i (s\<lparr>bufs := (bufs s)[i := ?c]\<rparr>)"
      using i bio_inv_len [OF inv] by (simp add: bread_def g disk_rw_def upd_buf_def)
    have "b \<notin> P" using nc bio_inv_pinned [OF inv] by auto
    moreover have "\<not> sl_locked (b_lock (bufs s ! i))"
      using bio_inv_buf [OF inv i] z by (auto simp: buf_ok_def split: if_splits)
    ultimately show "returns (bread ROOTDEV b s) (bread_post P b s)"
      unfolding r returns.simps using nc z blk_uncached [OF inv nc] bio_inv_disk [OF inv]
      by (intro bread_post_replace [OF inv i]) (simp_all add: buf_ok_def)
  qed
qed

text \<open>A store into a locked buffer changes the contents of that block only.\<close>

lemma set_data_ok:
  assumes inv: "bio_inv P s" and h: "holding s i b" and d: "length d = BSIZE"
  shows "bio_inv P (set_data i d s)" and "blk (set_data i d s) = (blk s)(b := d)"
    and "holding (set_data i d s) j c \<longleftrightarrow> holding s j c" and "held (set_data i d s) = held s"
    and "bio_ext s (set_data i d s)"
proof -
  let ?c = "(bufs s ! i)\<lparr>b_data := d\<rparr>"
  define t where "t = s\<lparr>bufs := (bufs s)[i := ?c], lru := lru s, procs := procs s\<rparr>"
  have t: "set_data i d s = t"
    unfolding t_def set_data_def upd_buf_def by (rule replace_id)
  note i = holding_lt [OF h] and dev = holding_dev [OF h]
  have at: "cached_at s i b" and l: "sl_locked (b_lock (bufs s ! i))"
    using h by (auto simp: holding_def holdingsleep_def)
  have inv': "bio_inv P t" unfolding t_def
  proof (rule bio_inv_replace [OF inv i])
    show "buf_ok P (disk s) ?c"
      using bio_inv_buf [OF inv i] dev d l by (simp add: buf_ok_def)
    show "\<not> cached_at s j (b_blockno ?c)" if "j \<noteq> i" for j
      using that holding_uniq [OF inv h, of j] dev by auto
  qed (use bio_inv_lru [OF inv] in \<open>auto simp: cached_at_def\<close>)
  then show "bio_inv P (set_data i d s)" by (simp add: t)
  have "cached_at s i c \<longleftrightarrow> c = b" for c using at by (auto simp: cached_at_def)
  then show "blk (set_data i d s) = (blk s)(b := d)"
    unfolding t t_def fun_eq_iff blk_replace [OF inv inv' [unfolded t_def] i] using dev by simp
  show "held (set_data i d s) = held s"
    unfolding t t_def held_replace [OF inv i] using dev l at holding_held [OF h] by (auto simp: cached_at_def)
  show "holding (set_data i d s) j c \<longleftrightarrow> holding s j c"
    unfolding t t_def holding_replace [OF inv i woken_refl] using dev h i by (auto simp: holding_def cached_at_def)
  show "bio_ext s (set_data i d s)"
    unfolding t t_def by (rule bio_ext_replace) simp
qed

text \<open>
  A locked buffer may be released when its block is pinned or was not changed; the contents
  of every block stay.
\<close>

definition brelse_post :: "nat set \<Rightarrow> nat \<Rightarrow> 'z bio_state_scheme \<Rightarrow> 'z bio_state_scheme \<Rightarrow> bool" where
  "brelse_post P b s t \<longleftrightarrow> bio_inv P t \<and> held t = held s - {b} \<and> blk t = blk s \<and> bio_ext s t \<and>
    (\<forall>j c. c \<noteq> b \<longrightarrow> holding s j c \<longrightarrow> holding t j c)"

lemma brelse_eq:
  assumes inv: "bio_inv P s" and h: "holding s i b"
  obtains L where "distinct L" "set L = {..<NBUF}"
    "brelse i s = Ok () (s\<lparr>bufs := (bufs s)[i := (bufs s ! i)\<lparr>b_lock := \<lparr>sl_locked = False, sl_pid = 0\<rparr>,
       b_refcnt := of_bool (b \<in> P)\<rparr>], lru := L, procs := procs (wakeup (Chan_buf i) s)\<rparr>)"
proof -
  note i = holding_lt [OF h] and dev = holding_dev [OF h]
  have l: "sl_locked (b_lock (bufs s ! i))" using h by (simp add: holding_def holdingsleep_def)
  have r: "b_refcnt (bufs s ! i) = Suc (of_bool (b \<in> P))"
    using bio_inv_buf [OF inv i] dev l by (simp add: buf_ok_def)
  let ?L = "if b \<in> P then lru s else i # remove1 i (lru s)"
  have "distinct ?L" "set ?L = {..<NBUF}"
    using bio_inv_lru [OF inv] i by auto
  moreover have "brelse i s = Ok () (s\<lparr>bufs := (bufs s)[i := (bufs s ! i)\<lparr>b_lock := \<lparr>sl_locked = False, sl_pid = 0\<rparr>,
       b_refcnt := of_bool (b \<in> P)\<rparr>], lru := ?L, procs := procs (wakeup (Chan_buf i) s)\<rparr>)"
    using h i bio_inv_len [OF inv] r
    by (simp add: brelse_def releasesleep_def upd_buf_def holding_def wakeup_def)
  ultimately show ?thesis by (rule that)
qed

lemma returns_brelse:
  assumes inv: "bio_inv P s" and h: "holding s i b" and clean: "b \<in> P \<or> blk s b = disk s b"
  shows "returns (brelse i s) (\<lambda>_. brelse_post P b s)"
proof (rule brelse_eq [OF inv h])
  fix L
  let ?c = "(bufs s ! i)\<lparr>b_lock := \<lparr>sl_locked = False, sl_pid = 0\<rparr>, b_refcnt := of_bool (b \<in> P)\<rparr>"
  let ?t = "s\<lparr>bufs := (bufs s)[i := ?c], lru := L, procs := procs (wakeup (Chan_buf i) s)\<rparr>"
  assume L: "distinct L" "set L = {..<NBUF}" and r: "brelse i s = Ok () ?t"
  note i = holding_lt [OF h] and dev = holding_dev [OF h] and W = woken_wakeup [of s "Chan_buf i"]
  have at: "cached_at s i c \<longleftrightarrow> c = b" for c using h by (auto simp: holding_def cached_at_def)
  have inv': "bio_inv P ?t"
  proof (rule bio_inv_replace [OF inv i L])
    show "buf_ok P (disk s) ?c"
      using bio_inv_buf [OF inv i] dev clean bdata_holding [OF inv h] by (auto simp: buf_ok_def)
    show "\<not> cached_at s j (b_blockno ?c)" if "j \<noteq> i" for j
      using that holding_uniq [OF inv h, of j] dev by auto
  qed (use dev at in auto)
  have "blk ?t = blk s"
    unfolding fun_eq_iff blk_replace [OF inv inv' i] using dev bdata_holding [OF inv h] at by simp
  moreover have "held ?t = held s - {b}"
    unfolding held_replace [OF inv i] using at by auto
  moreover have "holding ?t j c" if "c \<noteq> b" "holding s j c" for j c
    unfolding holding_replace [OF inv i W] using that dev holding_dev [OF that(2)] by auto
  moreover have "bio_ext s ?t" by (rule bio_ext_replace [OF W])
  ultimately show ?thesis unfolding r returns.simps brelse_post_def using inv' by simp
qed

lemma bio_ext_bufs: "bio_ext s (s\<lparr>bufs := B\<rparr>)"
  by (rule ssubst [OF replace_id]) (rule bio_ext_replace [OF woken_refl])

text \<open>\<open>bwrite\<close> makes the disk agree with a locked buffer, with one write to the device.\<close>

lemma bwrite_ok:
  assumes inv: "bio_inv P s" and h: "holding s i b"
  defines "t \<equiv> s\<lparr>disk := (disk s)(b := blk s b), disk_writes := disk_writes s @ [(b, blk s b)]\<rparr>"
  shows "bwrite i s = Ok () t" and "bio_inv P t" and "blk t = blk s" and "held t = held s"
    and "holding t j c \<longleftrightarrow> holding s j c"
proof -
  note i = holding_lt [OF h] and dev = holding_dev [OF h] and d = bdata_holding [OF inv h]
  have at: "cached_at t j c \<longleftrightarrow> cached_at s j c" for j c by (simp add: t_def cached_at_def)
  have l: "sl_locked (b_lock (bufs s ! i))" using h by (simp add: holding_def holdingsleep_def)
  show "bwrite i s = Ok () t"
    using h dev d by (simp add: bwrite_def disk_rw_def holding_def t_def)
  have "buf_ok P (disk t) (bufs s ! j)" if j: "j < NBUF" for j
  proof (cases "j = i")
    case True then show ?thesis using bio_inv_buf [OF inv i] dev d l by (simp add: buf_ok_def)
  next
    case False
    then have "b_dev (bufs s ! j) = ROOTDEV \<longrightarrow> b_blockno (bufs s ! j) \<noteq> b"
      using holding_uniq [OF inv h, of j] j by (auto simp: cached_at_def)
    then show ?thesis using bio_inv_buf [OF inv j] by (auto simp: buf_ok_def t_def)
  qed
  then show inv': "bio_inv P t"
    using bio_invD [OF inv] length_blk [OF inv] unfolding bio_inv_def at by (simp add: t_def)
  show "blk t = blk s"
  proof
    fix c show "blk t c = blk s c"
    proof (cases "\<exists>j. cached_at s j c")
      case True
      then obtain j where j: "cached_at s j c" ..
      then show ?thesis using blk_cached [OF inv j] blk_cached [OF inv', of j c] at by (simp add: t_def)
    next
      case False
      then have "c \<noteq> b" using h by (auto simp: holding_def)
      then show ?thesis using False blk_uncached [OF inv, of c] blk_uncached [OF inv', of c] at by (simp add: t_def)
    qed
  qed
  show "held t = held s" unfolding held_def at by (simp add: t_def)
  show "holding t j c \<longleftrightarrow> holding s j c" unfolding holding_def at by (simp add: t_def holdingsleep_def)
qed

text \<open>Pinning a locked block, and taking the pin away again.\<close>

lemma repin:
  assumes inv: "bio_inv P s" and h: "holding s i b" and Q: "Q - {b} = P - {b}"
    and r: "r = Suc (of_bool (b \<in> Q))"
  defines "t \<equiv> s\<lparr>bufs := (bufs s)[i := (bufs s ! i)\<lparr>b_refcnt := r\<rparr>]\<rparr>"
  shows "bio_inv Q t" and "blk t = blk s" and "held t = held s"
    and "holding t j c \<longleftrightarrow> holding s j c" and "bio_ext s t"
proof -
  note i = holding_lt [OF h] and dev = holding_dev [OF h] and len = bio_inv_len [OF inv]
  have l: "sl_locked (b_lock (bufs s ! i))" using h by (simp add: holding_def holdingsleep_def)
  have bf: "bufs t ! j = (if j = i then (bufs s ! i)\<lparr>b_refcnt := r\<rparr> else bufs s ! j)" for j
    using i len by (simp add: t_def)
  have at: "cached_at t j c \<longleftrightarrow> cached_at s j c" for j c by (simp add: bf cached_at_def)
  have lk: "b_lock (bufs t ! j) = b_lock (bufs s ! j)" "b_data (bufs t ! j) = b_data (bufs s ! j)" for j by (simp_all add: bf)
  have mem: "c \<in> Q \<longleftrightarrow> c \<in> P" if "c \<noteq> b" for c using Q that by blast
  have "buf_ok Q (disk s) (bufs t ! j)" if j: "j < NBUF" for j
  proof (cases "j = i")
    case True then show ?thesis using bio_inv_buf [OF inv i] dev l r bf [of i] by (simp add: buf_ok_def)
  next
    case False
    then have "b_dev (bufs s ! j) = ROOTDEV \<longrightarrow> b_blockno (bufs s ! j) \<noteq> b"
      using holding_uniq [OF inv h, of j] j by (auto simp: cached_at_def)
    then show ?thesis using bio_inv_buf [OF inv j] False mem [of "b_blockno (bufs s ! j)"] by (simp add: bf buf_ok_def)
  qed
  moreover have "\<exists>j. cached_at s j c" if "c \<in> Q" for c
    using that mem [of c] bio_inv_pinned [OF inv, of c] h by (cases "c = b") (auto simp: holding_def)
  ultimately show inv': "bio_inv Q t"
    using bio_invD [OF inv] i unfolding bio_inv_def at by (simp add: t_def)
  show "blk t = blk s"
  proof
    fix c show "blk t c = blk s c"
    proof (cases "\<exists>j. cached_at s j c")
      case True
      then obtain j where j: "cached_at s j c" ..
      then show ?thesis using blk_cached [OF inv j] blk_cached [OF inv', of j c] at by (simp add: lk)
    next
      case False
      then show ?thesis using blk_uncached [OF inv, of c] blk_uncached [OF inv', of c] at by (simp add: t_def)
    qed
  qed
  show "held t = held s" unfolding held_def at lk ..
  show "holding t j c \<longleftrightarrow> holding s j c" unfolding holding_def at lk by (simp add: t_def holdingsleep_def)
  show "bio_ext s t" unfolding t_def by (rule bio_ext_bufs)
qed

lemma bpin_eq:
  assumes inv: "bio_inv P s" and h: "holding s i b" and "b \<notin> P"
  shows "bpin i s = s\<lparr>bufs := (bufs s)[i := (bufs s ! i)\<lparr>b_refcnt := Suc (of_bool (b \<in> insert b P))\<rparr>]\<rparr>"
  using bio_inv_buf [OF inv holding_lt [OF h]] h assms(3)
  by (auto simp: bpin_def upd_buf_def buf_ok_def holding_def cached_at_def holdingsleep_def)

lemma bunpin_eq:
  assumes inv: "bio_inv P s" and h: "holding s i b" and "b \<in> P"
  shows "bunpin i s = s\<lparr>bufs := (bufs s)[i := (bufs s ! i)\<lparr>b_refcnt := Suc (of_bool (b \<in> P - {b}))\<rparr>]\<rparr>"
  using bio_inv_buf [OF inv holding_lt [OF h]] h assms(3)
  by (auto simp: bunpin_def upd_buf_def buf_ok_def holding_def cached_at_def holdingsleep_def)

lemma bpin_ok:
  assumes inv: "bio_inv P s" and h: "holding s i b" and new: "b \<notin> P"
  shows "bio_inv (insert b P) (bpin i s)" and "blk (bpin i s) = blk s" and "held (bpin i s) = held s"
    and "holding (bpin i s) j c \<longleftrightarrow> holding s j c" and "bio_ext s (bpin i s)"
  unfolding bpin_eq [OF inv h new] by (rule repin [OF inv h _ refl], blast)+

lemma bunpin_ok:
  assumes inv: "bio_inv P s" and h: "holding s i b" and old: "b \<in> P"
  shows "bio_inv (P - {b}) (bunpin i s)" and "blk (bunpin i s) = blk s" and "held (bunpin i s) = held s"
    and "holding (bunpin i s) j c \<longleftrightarrow> holding s j c" and "bio_ext s (bunpin i s)"
  unfolding bunpin_eq [OF inv h old] by (rule repin [OF inv h _ refl], blast)+

text \<open>\<open>binit\<close>, run at boot on the zeroed array, establishes the invariant with nothing pinned.\<close>

definition buf0 :: buf where
  "buf0 = \<lparr>b_valid = False, b_disk = False, b_dev = 0, b_blockno = 0, b_lock = initsleeplock,
    b_refcnt = 0, b_data = replicate BSIZE 0\<rparr>"

lemma foldl_Cons: "foldl (\<lambda>l b. b # l) acc xs = rev xs @ acc"
  by (induction xs arbitrary: acc) auto

lemma binit_ok:
  assumes "bufs s = replicate NBUF buf0" and "cur s < length (procs s)" and "\<And>b. length (disk s b) = BSIZE"
  shows "bio_inv {} (binit s)" and "blk (binit s) = disk s" and "held (binit s) = {}"
proof -
  have d: "b_dev (bufs (binit s) ! i) = 0" "b_refcnt (bufs (binit s) ! i) = 0"
    "\<not> sl_locked (b_lock (bufs (binit s) ! i))" if "i < NBUF" for i
    using that by (simp_all add: binit_def assms buf0_def initsleeplock_def)
  have r: "ROOTDEV \<noteq> 0" by (simp add: param_defs)
  have at: "\<not> cached_at (binit s) i b" for i b using d r by (auto simp: cached_at_def)
  show inv: "bio_inv {} (binit s)"
    using assms d r at unfolding bio_inv_def by (auto simp: buf_ok_def binit_def foldl_Cons)
  show "blk (binit s) = disk s" using blk_uncached [OF inv at] by (auto simp: binit_def)
  show "held (binit s) = {}" using at by (simp add: held_def)
qed

end
