(* ===== verification/Log.thy ===== *)
theory Log
  imports Bio
begin

text \<open>
  The write-ahead log, \<^verbatim>\<open>kernel/log.c\<close>. \<open>lh_n\<close> and \<open>lh_block\<close> are the in-memory header
  \<^verbatim>\<open>log.lh\<close>; the on-disk header is block \<^verbatim>\<open>log.start\<close> read as an array of 32-bit words.
  The main theorems: \<open>commit\<close> moves the contents of every logged block to the disk, a crash
  after any prefix of its disk writes leaves a disk from which recovery produces either all
  of the transaction or nothing of it, and recovery itself may crash at any point.
\<close>

record log_state = bio_state +
  lg_start :: nat
  lg_outstanding :: int
  lg_committing :: bool
  lg_dev :: nat
  lh_n :: int
  lh_block :: "nat list"

section \<open>Operations\<close>

text \<open>\<^verbatim>\<open>memmove(dst->data, src->data, BSIZE)\<close> between two buffers of the cache.\<close>

definition copy_data :: "nat \<Rightarrow> nat \<Rightarrow> 'z bio_state_scheme \<Rightarrow> 'z bio_state_scheme" where
  "copy_data dst src s = set_data dst (bdata src s) s"

text \<open>
  The body of the loop of \<^verbatim>\<open>install_trans\<close>. The block number comes from the header read at
  boot; an index past the array is undefined in C and halts the model.
\<close>

definition install_one :: "bool \<Rightarrow> nat \<Rightarrow> 'z log_state_scheme \<Rightarrow> (unit, 'z log_state_scheme) kout" where
  "install_one recovering tail s =
    (if tail \<ge> length (lh_block s) then Panic ''log.lh.block''
     else
       kbind (bread (lg_dev s) (lg_start s + tail + 1) s) (\<lambda>lbuf s.
       kbind (bread (lg_dev s) (lh_block s ! tail) s) (\<lambda>dbuf s.
       let s = copy_data dbuf lbuf s in
       kbind (bwrite dbuf s) (\<lambda>_ s.
       let s = (if \<not> recovering then bunpin dbuf s else s) in
       kbind (brelse lbuf s) (\<lambda>_ s.
       brelse dbuf s)))))"

definition install_trans :: "bool \<Rightarrow> 'z log_state_scheme \<Rightarrow> (unit, 'z log_state_scheme) kout" where
  "install_trans recovering s = kfor [0..<nat (lh_n s)] (install_one recovering) s"

text \<open>\<open>head_n\<close> and \<open>head_block\<close> read \<^verbatim>\<open>struct logheader\<close> from a block, \<open>head_put\<close> stores it.\<close>

definition head_n :: "bytes \<Rightarrow> int" where
  "head_n d = int_val (get32 0 d)"

definition head_block :: "bytes \<Rightarrow> nat \<Rightarrow> nat" where
  "head_block d i = get32 (i + 1) d"

definition read_head :: "'z log_state_scheme \<Rightarrow> (unit, 'z log_state_scheme) kout" where
  "read_head s =
    kbind (bread (lg_dev s) (lg_start s) s) (\<lambda>buf s.
    let s = s\<lparr>lh_n := head_n (bdata buf s)\<rparr> in
    if nat (lh_n s) > length (lh_block s) then Panic ''log.lh.block''
    else
      let s = foldl (\<lambda>s i. s\<lparr>lh_block := (lh_block s)[i := head_block (bdata buf s) i]\<rparr>) s [0..<nat (lh_n s)]
      in brelse buf s)"

definition head_put :: "int \<Rightarrow> nat list \<Rightarrow> bytes \<Rightarrow> bytes" where
  "head_put n bl d = foldl (\<lambda>d i. put32 (i + 1) (bl ! i) d) (put32 0 (int_pat n) d) [0..<nat n]"

definition write_head :: "'z log_state_scheme \<Rightarrow> (unit, 'z log_state_scheme) kout" where
  "write_head s =
    kbind (bread (lg_dev s) (lg_start s) s) (\<lambda>buf s.
    let s = set_data buf (head_put (lh_n s) (lh_block s) (bdata buf s)) s in
    kbind (bwrite buf s) (\<lambda>_ s.
    brelse buf s))"

definition recover_from_log :: "'z log_state_scheme \<Rightarrow> (unit, 'z log_state_scheme) kout" where
  "recover_from_log s =
    kbind (read_head s) (\<lambda>_ s.
    kbind (install_trans True s) (\<lambda>_ s.
    write_head (s\<lparr>lh_n := 0\<rparr>)))"

text \<open>\<^verbatim>\<open>sizeof(struct logheader)\<close> is 124, below \<^verbatim>\<open>BSIZE\<close>.\<close>

definition initlog :: "nat \<Rightarrow> superblock \<Rightarrow> 'z log_state_scheme \<Rightarrow> (unit, 'z log_state_scheme) kout" where
  "initlog dev sb s =
    (if 4 + 4 * LOGBLOCKS \<ge> BSIZE then Panic ''initlog: too big logheader''
     else recover_from_log (s\<lparr>lg_start := sb_logstart sb, lg_dev := dev\<rparr>))"

definition begin_op :: "'z log_state_scheme \<Rightarrow> (unit, 'z log_state_scheme) kout" where
  "begin_op s =
    (if lg_committing s then sleep Chan_log s
     else if lh_n s + (lg_outstanding s + 1) * int MAXOPBLOCKS > int LOGBLOCKS then sleep Chan_log s
     else Ok () (s\<lparr>lg_outstanding := lg_outstanding s + 1\<rparr>))"

definition write_log_one :: "nat \<Rightarrow> 'z log_state_scheme \<Rightarrow> (unit, 'z log_state_scheme) kout" where
  "write_log_one tail s =
    (if tail \<ge> length (lh_block s) then Panic ''log.lh.block''
     else
       kbind (bread (lg_dev s) (lg_start s + tail + 1) s) (\<lambda>to s.
       kbind (bread (lg_dev s) (lh_block s ! tail) s) (\<lambda>from s.
       let s = copy_data to from s in
       kbind (bwrite to s) (\<lambda>_ s.
       kbind (brelse from s) (\<lambda>_ s.
       brelse to s)))))"

definition write_log :: "'z log_state_scheme \<Rightarrow> (unit, 'z log_state_scheme) kout" where
  "write_log s = kfor [0..<nat (lh_n s)] write_log_one s"

definition commit :: "'z log_state_scheme \<Rightarrow> (unit, 'z log_state_scheme) kout" where
  "commit s =
    (if lh_n s > 0
     then
       kbind (write_log s) (\<lambda>_ s.
       kbind (write_head s) (\<lambda>_ s.
       kbind (install_trans False s) (\<lambda>_ s.
       write_head (s\<lparr>lh_n := 0\<rparr>))))
     else Ok () s)"

definition end_op :: "'z log_state_scheme \<Rightarrow> (unit, 'z log_state_scheme) kout" where
  "end_op s =
    (let s = s\<lparr>lg_outstanding := lg_outstanding s - 1\<rparr> in
     if lg_committing s then Panic ''log.committing''
     else if lg_outstanding s = 0
     then kbind (commit (s\<lparr>lg_committing := True\<rparr>)) (\<lambda>_ s. Ok () (wakeup Chan_log (s\<lparr>lg_committing := False\<rparr>)))
     else Ok () (wakeup Chan_log s))"

text \<open>The index at which \<^verbatim>\<open>log_write\<close>'s search stops: that of the block, or \<^verbatim>\<open>log.lh.n\<close>.\<close>

fun absorb_index :: "nat \<Rightarrow> nat list \<Rightarrow> nat \<Rightarrow> nat \<Rightarrow> nat" where
  "absorb_index blockno bl i 0 = i"
| "absorb_index blockno bl i (Suc k) =
    (if bl ! i = blockno then i else absorb_index blockno bl (Suc i) k)"

definition log_write :: "nat \<Rightarrow> 'z log_state_scheme \<Rightarrow> (unit, 'z log_state_scheme) kout" where
  "log_write b s =
    (if lh_n s \<ge> int LOGBLOCKS then Panic ''too big a transaction''
     else if lg_outstanding s < 1 then Panic ''log_write outside of trans''
     else
       let i = absorb_index (b_blockno (bufs s ! b)) (lh_block s) 0 (nat (lh_n s));
           s = s\<lparr>lh_block := (lh_block s)[i := b_blockno (bufs s ! b)]\<rparr>
       in if int i = lh_n s then Ok () (let s = bpin b s in s\<lparr>lh_n := lh_n s + 1\<rparr>)
          else Ok () s)"

section \<open>Contracts\<close>

text \<open>What \<open>disk_ext\<close> allows to change: the cache, the list of processes woken, and the disk.\<close>

definition disk_ext :: "'z bio_state_scheme \<Rightarrow> 'z bio_state_scheme \<Rightarrow> bool" where
  "disk_ext s t \<longleftrightarrow> (\<exists>B L Ps D W. t = s\<lparr>procs := Ps, disk := D, disk_writes := W, bufs := B, lru := L\<rparr> \<and>
     woken (cur s) (procs s) Ps)"

lemma disk_extI:
  "woken (cur s) (procs s) Ps \<Longrightarrow> disk_ext s (s\<lparr>procs := Ps, disk := D, disk_writes := W, bufs := B, lru := L\<rparr>)"
  unfolding disk_ext_def
  by (rule exI [of _ B], rule exI [of _ L], rule exI [of _ Ps], rule exI [of _ D], rule exI [of _ W]) simp

lemma disk_ext_eqI:
  assumes "t = s\<lparr>procs := Ps, disk := D, disk_writes := W, bufs := B, lru := L\<rparr>"
    and "woken (cur s) (procs s) Ps"
  shows "disk_ext s t"
  unfolding assms(1) by (rule disk_extI [OF assms(2)])

lemma disk_ext_refl [simp]: "disk_ext s s"
  by (rule disk_ext_eqI [where Ps = "procs s" and D = "disk s" and W = "disk_writes s" and B = "bufs s" and L = "lru s"])
    (rule bio_state.equality, simp_all)

lemma write_disk_ext: "disk_ext s (s\<lparr>disk := D, disk_writes := W\<rparr>)"
  by (rule disk_ext_eqI [where Ps = "procs s" and D = D and W = W and B = "bufs s" and L = "lru s"])
    (rule bio_state.equality, simp_all)

lemma bio_disk_ext:
  assumes "bio_ext s t" shows "disk_ext s t"
proof -
  obtain B L Ps where t: "t = s\<lparr>bufs := B, lru := L, procs := Ps\<rparr>" and w: "woken (cur s) (procs s) Ps"
    using assms unfolding bio_ext_def by (elim exE conjE)
  show ?thesis
    by (rule disk_ext_eqI [OF _ w, where D = "disk s" and W = "disk_writes s" and B = B and L = L])
      (rule bio_state.equality, simp_all add: t)
qed

lemma disk_extE:
  assumes "disk_ext s t"
  obtains Ps D W B L where "t = s\<lparr>procs := Ps, disk := D, disk_writes := W, bufs := B, lru := L\<rparr>"
    and "woken (cur s) (procs s) Ps"
  using assms unfolding disk_ext_def by (elim exE conjE)

lemma disk_ext_trans:
  assumes "disk_ext s t" and "disk_ext t u"
  shows "disk_ext s u"
proof (rule disk_extE [OF assms(1)], rule disk_extE [OF assms(2)])
  fix Ps D W B L Ps' D' W' B' L'
  assume t: "t = s\<lparr>procs := Ps, disk := D, disk_writes := W, bufs := B, lru := L\<rparr>" and w: "woken (cur s) (procs s) Ps"
    and u: "u = t\<lparr>procs := Ps', disk := D', disk_writes := W', bufs := B', lru := L'\<rparr>" and w': "woken (cur t) (procs t) Ps'"
  have "woken (cur s) (procs s) Ps'" using woken_trans [OF w] w' by (simp add: t)
  moreover have "u = s\<lparr>procs := Ps', disk := D', disk_writes := W', bufs := B', lru := L'\<rparr>" by (simp add: t u)
  ultimately show ?thesis by (rule disk_ext_eqI [rotated])
qed

lemma disk_ext_log:
  "disk_ext s t \<Longrightarrow> lg_start t = lg_start s \<and> lg_dev t = lg_dev s \<and> lh_n t = lh_n s \<and> lh_block t = lh_block s \<and>
    lg_outstanding t = lg_outstanding s \<and> lg_committing t = lg_committing s"
  by (rule disk_extE [of s t]) simp_all

lemma breadE:
  assumes "bio_inv P s" and "b \<notin> held s" and "b \<in> P \<or> card (P \<union> held s) < NBUF"
  obtains i t where "bread ROOTDEV b s = Ok i t" and "bread_post P b s i t"
  using returns_bread [OF assms] by (auto simp: returns_iff)

lemma brelseE:
  assumes "bio_inv P s" and "holding s i b" and "b \<in> P \<or> blk s b = disk s b"
  obtains t where "brelse i s = Ok () t" and "brelse_post P b s t"
  using returns_brelse [OF assms] by (auto simp: returns_iff)

text \<open>
  Copying block \<open>src\<close> to block \<open>dst\<close> and writing \<open>dst\<close> to the disk, as \<open>install_trans\<close> and
  \<open>write_log\<close> do it, the locks being taken in the order of the callers.
\<close>

lemma copy_write:
  assumes inv: "bio_inv P s" and hd: "holding s i dst" and hs: "holding s j src" and ne: "dst \<noteq> src"
  obtains t where "bwrite i (copy_data i j s) = Ok () t" and "bio_inv P t"
    and "blk t = (blk s)(dst := blk s src)" and "disk t = (disk s)(dst := blk s src)"
    and "disk_writes t = disk_writes s @ [(dst, blk s src)]"
    and "held t = held s" and "\<And>k c. holding t k c \<longleftrightarrow> holding s k c" and "disk_ext s t"
proof -
  let ?s = "copy_data i j s"
  have d: "bdata j s = blk s src" by (rule bdata_holding [OF inv hs])
  have cd: "?s = set_data i (blk s src) s" by (simp add: copy_data_def d)
  note sd = set_data_ok [OF inv hd length_blk [OF inv], of src, folded cd]
  have hd': "holding ?s i dst" using sd(3) hd by simp
  note bw = bwrite_ok [OF sd(1) hd']
  have dk: "disk ?s = disk s" "disk_writes ?s = disk_writes s" using bio_ext_disk [OF sd(5)] by auto
  show ?thesis
  proof (rule that [OF bw(1,2)])
    show "disk_ext s (?s\<lparr>disk := (disk ?s)(dst := blk ?s dst), disk_writes := disk_writes ?s @ [(dst, blk ?s dst)]\<rparr>)"
      by (rule disk_ext_trans [OF bio_disk_ext [OF sd(5)] write_disk_ext])
  qed (use bw sd dk in \<open>simp_all\<close>)
qed

text \<open>\<open>wrote P b d s t\<close>: from \<open>s\<close> to \<open>t\<close> the only device write is \<open>d\<close> to block \<open>b\<close>, which is also its contents.\<close>

definition wrote :: "nat set \<Rightarrow> nat \<Rightarrow> bytes \<Rightarrow> 'z bio_state_scheme \<Rightarrow> 'z bio_state_scheme \<Rightarrow> bool" where
  "wrote P b d s t \<longleftrightarrow> bio_inv P t \<and> blk t = (blk s)(b := d) \<and> disk t = (disk s)(b := d) \<and>
    disk_writes t = disk_writes s @ [(b, d)] \<and> held t = held s \<and> disk_ext s t"

lemma release2:
  assumes inv: "bio_inv P s" and h: "holding s i b" "holding s j c" and ne: "b \<noteq> c"
    and clean: "b \<in> P \<or> blk s b = disk s b" "c \<in> P \<or> blk s c = disk s c"
  shows "returns (kbind (brelse i s) (\<lambda>_ s. brelse j s)) (\<lambda>_ t. bio_inv P t \<and> blk t = blk s \<and> disk t = disk s \<and>
    disk_writes t = disk_writes s \<and> held t = held s - {b, c} \<and> disk_ext s t)"
proof (rule brelseE [OF inv h(1) clean(1)])
  fix t assume t: "brelse i s = Ok () t" and p: "brelse_post P b s t"
  note p = p [unfolded brelse_post_def]
  have dt: "disk t = disk s" "disk_writes t = disk_writes s" using p bio_ext_disk by metis+
  have "holding t j c" using p h ne by auto
  moreover have "c \<in> P \<or> blk t c = disk t c" using p clean(2) dt by simp
  ultimately show ?thesis
  proof (rule brelseE [of P t j c, rotated])
    fix u assume u: "brelse j t = Ok () u" and q: "brelse_post P c t u"
    note q = q [unfolded brelse_post_def]
    have "disk u = disk t" "disk_writes u = disk_writes t" using q bio_ext_disk by metis+
    moreover have "held u = held s - {b, c}" using p q by auto
    moreover have "disk_ext s u" using p q bio_disk_ext disk_ext_trans by metis
    ultimately show ?thesis using p q t u dt by simp
  qed (use p in simp)
qed

lemma bread2E:
  assumes inv: "bio_inv P s" and ne: "b \<noteq> c" and nh: "b \<notin> held s" "c \<notin> held s"
    and room: "b \<in> P \<or> card (P \<union> held s) < NBUF" "c \<in> P \<or> card (P \<union> insert b (held s)) < NBUF"
  obtains i j t u where "bread ROOTDEV b s = Ok i t" and "bread ROOTDEV c t = Ok j u" and "bio_inv P u"
    and "holding u i b" and "holding u j c" and "held u = insert c (insert b (held s))" and "blk u = blk s"
    and "bio_ext s t" and "bio_ext t u" and "disk u = disk s" and "disk_writes u = disk_writes s"
proof (rule breadE [OF inv nh(1) room(1)])
  fix i t assume t: "bread ROOTDEV b s = Ok i t" and p: "bread_post P b s i t"
  note p = p [unfolded bread_post_def]
  show thesis
  proof (rule breadE [of P t c])
    fix j u assume u: "bread ROOTDEV c t = Ok j u" and q: "bread_post P c t j u"
    note q = q [unfolded bread_post_def]
    show thesis
      by (rule that [OF t u]) (use p q bio_ext_disk [of s t] bio_ext_disk [of t u] in auto)
  qed (use p nh ne room(2) in auto)
qed

lemma returns_write_log_one:
  assumes inv: "bio_inv P s" and dev: "lg_dev s = ROOTDEV" and len: "tail < length (lh_block s)"
    and src: "lh_block s ! tail \<in> P" "lh_block s ! tail \<notin> held s"
    and dst: "lg_start s + tail + 1 \<notin> P" "lg_start s + tail + 1 \<notin> held s"
    and room: "card (P \<union> held s) < NBUF"
  shows "returns (write_log_one tail s) (\<lambda>_. wrote P (lg_start s + tail + 1) (blk s (lh_block s ! tail)) s)"
proof (rule bread2E [OF inv _ dst(2) src(2)])
  let ?dst = "lg_start s + tail + 1" and ?src = "lh_block s ! tail"
  fix i j t u
  assume t: "bread ROOTDEV ?dst s = Ok i t" and u: "bread ROOTDEV ?src t = Ok j u" and inv_u: "bio_inv P u"
    and hu: "holding u i ?dst" "holding u j ?src" "held u = insert ?src (insert ?dst (held s))" and bu: "blk u = blk s"
    and e: "bio_ext s t" "bio_ext t u" and du: "disk u = disk s" "disk_writes u = disk_writes s"
  have ne: "?dst \<noteq> ?src" using src dst by auto
  show ?thesis
  proof (rule copy_write [OF inv_u hu(1,2) ne])
    fix v
    assume v: "bwrite i (copy_data i j u) = Ok () v" and inv_v: "bio_inv P v" and bv: "blk v = (blk u)(?dst := blk u ?src)"
      and dv: "disk v = (disk u)(?dst := blk u ?src)" "disk_writes v = disk_writes u @ [(?dst, blk u ?src)]" "held v = held u"
      and hv: "\<And>k c. holding v k c \<longleftrightarrow> holding u k c" and ev: "disk_ext u v"
    have "returns (kbind (brelse j v) (\<lambda>_ s. brelse i s)) (\<lambda>_ t. bio_inv P t \<and> blk t = blk v \<and> disk t = disk v \<and>
        disk_writes t = disk_writes v \<and> held t = held v - {?src, ?dst} \<and> disk_ext v t)"
      by (rule release2 [OF inv_v]) (use hv hu ne src bv dv in auto)
    then have "returns (kbind (brelse j v) (\<lambda>_ s. brelse i s)) (\<lambda>_. wrote P ?dst (blk s ?src) s)"
      by (rule returns_mono)
        (use bv bu dv du hu src dst disk_ext_trans [OF disk_ext_trans [OF disk_ext_trans [OF bio_disk_ext bio_disk_ext] ev], OF e]
         in \<open>auto simp: wrote_def\<close>)
    then show ?thesis
      using len dev disk_ext_log [OF bio_disk_ext [OF e(1)]] t u v
      by (simp add: write_log_one_def wp)
  qed
qed (use src dst room in auto)

lemma returns_install_one:
  assumes inv: "bio_inv P s" and dev: "lg_dev s = ROOTDEV" and len: "tail < length (lh_block s)"
    and dst: "lh_block s ! tail \<notin> held s" "recovering \<longleftrightarrow> lh_block s ! tail \<notin> P"
    and src: "lg_start s + tail + 1 \<notin> held s" and ne: "lg_start s + tail + 1 \<noteq> lh_block s ! tail"
    and cl: "lg_start s + tail + 1 \<notin> P"
    and room: "card (P \<union> held s) < NBUF" "recovering \<Longrightarrow> card (P \<union> insert (lg_start s + tail + 1) (held s)) < NBUF"
  shows "returns (install_one recovering tail s)
    (\<lambda>_. wrote (P - {lh_block s ! tail}) (lh_block s ! tail) (blk s (lg_start s + tail + 1)) s)"
proof (rule bread2E [OF inv ne src dst(1)])
  let ?src = "lg_start s + tail + 1" and ?dst = "lh_block s ! tail"
  fix j i t u
  assume t: "bread ROOTDEV ?src s = Ok j t" and u: "bread ROOTDEV ?dst t = Ok i u" and inv_u: "bio_inv P u"
    and hu: "holding u j ?src" "holding u i ?dst" "held u = insert ?dst (insert ?src (held s))" and bu: "blk u = blk s"
    and e: "bio_ext s t" "bio_ext t u" and du: "disk u = disk s" "disk_writes u = disk_writes s"
  have cs: "blk s ?src = disk s ?src" by (rule blk_clean [OF inv cl src])
  show ?thesis
  proof (rule copy_write [OF inv_u hu(2,1) ne [symmetric]])
    fix v
    assume v: "bwrite i (copy_data i j u) = Ok () v" and inv_v: "bio_inv P v" and bv: "blk v = (blk u)(?dst := blk u ?src)"
      and dv: "disk v = (disk u)(?dst := blk u ?src)" "disk_writes v = disk_writes u @ [(?dst, blk u ?src)]" "held v = held u"
      and hv: "\<And>k c. holding v k c \<longleftrightarrow> holding u k c" and ev: "disk_ext u v"
    define w where "w = (if \<not> recovering then bunpin i v else v)"
    have w: "bio_inv (P - {?dst}) w" "blk w = blk v" "held w = held v" "bio_ext v w"
      "\<And>k c. holding w k c \<longleftrightarrow> holding v k c"
      using bunpin_ok [OF inv_v, of i ?dst] hv hu dst(2) inv_v by (auto simp: w_def)
    note dw = bio_ext_disk [OF w(4)]
    have "returns (kbind (brelse j w) (\<lambda>_ s. brelse i s)) (\<lambda>_ t. bio_inv (P - {?dst}) t \<and> blk t = blk w \<and> disk t = disk w \<and>
        disk_writes t = disk_writes w \<and> held t = held w - {?src, ?dst} \<and> disk_ext w t)"
      by (rule release2 [OF w(1)]) (use w(2,5) dw hv hu ne bv bu dv du cs in auto)
    then have "returns (kbind (brelse j w) (\<lambda>_ s. brelse i s)) (\<lambda>_. wrote (P - {?dst}) ?dst (blk s ?src) s)"
      by (rule returns_mono)
        (use w bv bu dv du dw hu src dst disk_ext_trans [OF disk_ext_trans [OF disk_ext_trans [OF
           disk_ext_trans [OF bio_disk_ext bio_disk_ext] ev] bio_disk_ext], OF e w(4)]
         in \<open>auto simp: wrote_def\<close>)
    then show ?thesis
      using len dev disk_ext_log [OF bio_disk_ext [OF e(1)]] t u v
      by (simp add: install_one_def wp w_def [symmetric])
  qed
qed (use dst room in auto)

lemma returns_write_head:
  assumes inv: "bio_inv P s" and dev: "lg_dev s = ROOTDEV" and h: "lg_start s \<notin> held s" "lg_start s \<notin> P"
    and room: "card (P \<union> held s) < NBUF"
    and len: "length (head_put (lh_n s) (lh_block s) (blk s (lg_start s))) = BSIZE"
  shows "returns (write_head s)
    (\<lambda>_. wrote P (lg_start s) (head_put (lh_n s) (lh_block s) (blk s (lg_start s))) s)"
proof (rule breadE [OF inv h(1)])
  let ?b = "lg_start s" and ?d = "head_put (lh_n s) (lh_block s) (blk s (lg_start s))"
  fix i t assume t: "bread ROOTDEV ?b s = Ok i t" and p: "bread_post P ?b s i t"
  note p = p [unfolded bread_post_def]
  have inv_t: "bio_inv P t" and ht: "holding t i ?b" and e: "bio_ext s t" using p by auto
  have f: "lh_n t = lh_n s" "lh_block t = lh_block s" "bdata i t = blk s ?b"
    using disk_ext_log [OF bio_disk_ext [OF e]] bdata_holding [OF inv_t ht] p by auto
  define u where "u = set_data i ?d t"
  note sd = set_data_ok [OF inv_t ht len, folded u_def]
  have hu: "holding u i ?b" using sd(3) ht by simp
  note bw = bwrite_ok [OF sd(1) hu]
  let ?v = "u\<lparr>disk := (disk u)(?b := blk u ?b), disk_writes := disk_writes u @ [(?b, blk u ?b)]\<rparr>"
  have du: "disk u = disk s" "disk_writes u = disk_writes s"
    using bio_ext_disk [OF sd(5)] bio_ext_disk [OF e] by auto
  have "holding ?v i ?b" using bw(5) hu by simp
  moreover have "?b \<in> P \<or> blk ?v ?b = disk ?v ?b" using bw(3) by simp
  ultimately show ?thesis
  proof (rule brelseE [OF bw(2)])
    fix x assume x: "brelse i ?v = Ok () x" and q: "brelse_post P ?b ?v x"
    note q = q [unfolded brelse_post_def]
    have dx: "disk x = disk ?v" "disk_writes x = disk_writes ?v"
      using q bio_ext_disk [of ?v x] by simp_all
    have "disk_ext s x"
      by (rule disk_ext_trans [OF bio_disk_ext [OF e] disk_ext_trans [OF bio_disk_ext [OF sd(5)]
            disk_ext_trans [OF write_disk_ext bio_disk_ext]]]) (use q in blast)
    then have "wrote P ?b ?d s x"
      using q p bw(3,4) sd(2,4) dx du h unfolding wrote_def by auto
    then show ?thesis
      using x bw(1) by (simp add: write_head_def dev t f u_def wp)
  qed
qed (use room in auto)

section \<open>Sequences of device writes\<close>

definition apply_writes :: "(nat \<times> bytes) list \<Rightarrow> (nat \<Rightarrow> bytes) \<Rightarrow> nat \<Rightarrow> bytes" where
  "apply_writes ws d = foldl (\<lambda>d (b, x). d(b := x)) d ws"

definition wrote_all :: "nat set \<Rightarrow> (nat \<times> bytes) list \<Rightarrow> 'z bio_state_scheme \<Rightarrow> 'z bio_state_scheme \<Rightarrow> bool" where
  "wrote_all P ws s t \<longleftrightarrow> bio_inv P t \<and> blk t = apply_writes ws (blk s) \<and> disk t = apply_writes ws (disk s) \<and>
    disk_writes t = disk_writes s @ ws \<and> held t = held s \<and> disk_ext s t"

lemma apply_writes_Nil [simp]: "apply_writes [] d = d"
  by (simp add: apply_writes_def)

lemma apply_writes_append [simp]: "apply_writes (us @ vs) d = apply_writes vs (apply_writes us d)"
  by (simp add: apply_writes_def)

lemma apply_writes_Cons [simp]: "apply_writes ((b, x) # ws) d = apply_writes ws (d(b := x))"
  by (simp add: apply_writes_def)

lemma apply_writes_other: "b \<notin> fst ` set ws \<Longrightarrow> apply_writes ws d b = d b"
  by (induction ws arbitrary: d) auto

text \<open>Writes of a function of the block do not depend on their order.\<close>

lemma apply_writes_fun:
  "(\<And>b x. (b, x) \<in> set ws \<Longrightarrow> x = f b) \<Longrightarrow> apply_writes ws d b = (if b \<in> fst ` set ws then f b else d b)"
proof (induction ws arbitrary: d)
  case (Cons w ws)
  obtain c x where w: "w = (c, x)" by fastforce
  have "apply_writes ws (d(c := x)) b = (if b \<in> fst ` set ws then f b else (d(c := x)) b)"
    using Cons.prems by (intro Cons.IH) auto
  then show ?case using Cons.prems [of c x] w by auto
qed simp

lemma wrote_all_Nil: "bio_inv P s \<Longrightarrow> wrote_all P [] s s"
  by (simp add: wrote_all_def)

lemma wrote_all_snoc: "wrote_all P ws s t \<Longrightarrow> wrote Q b d t u \<Longrightarrow> wrote_all Q (ws @ [(b, d)]) s u"
  unfolding wrote_all_def wrote_def using disk_ext_trans by auto

lemma wrote_all_append: "wrote_all P us s t \<Longrightarrow> wrote_all Q vs t u \<Longrightarrow> wrote_all Q (us @ vs) s u"
  unfolding wrote_all_def using disk_ext_trans by auto

section \<open>The header block\<close>

lemma head_put_words:
  fixes bl :: "nat list"
  assumes "length d = BSIZE" and "k \<le> LOGBLOCKS"
  defines "e \<equiv> foldl (\<lambda>d i. put32 (i + 1) (bl ! i) d) d [0..<k]"
  shows "length e = BSIZE" and "get32 0 e = get32 0 d"
    and "(\<And>i. i < k \<Longrightarrow> bl ! i < 2 ^ 32) \<Longrightarrow> i < k \<Longrightarrow> get32 (i + 1) e = bl ! i"
proof -
  have "length e = BSIZE \<and> get32 0 e = get32 0 d \<and>
      ((\<forall>i<k. bl ! i < 2 ^ 32) \<longrightarrow> (\<forall>i<k. get32 (i + 1) e = bl ! i))"
    using assms(2) unfolding e_def
  proof (induction k)
    case (Suc k)
    have "4 * Suc k + 4 \<le> BSIZE" using Suc.prems by (simp add: LOGBLOCKS_def)
    then show ?case using Suc by (auto simp: less_Suc_eq)
  qed (use assms(1) in simp)
  then show "length e = BSIZE" and "get32 0 e = get32 0 d"
    and "(\<And>i. i < k \<Longrightarrow> bl ! i < 2 ^ 32) \<Longrightarrow> i < k \<Longrightarrow> get32 (i + 1) e = bl ! i" by auto
qed

lemma head_put_ok:
  assumes "length d = BSIZE" and "0 \<le> n" and "n \<le> int LOGBLOCKS"
  shows "length (head_put n bl d) = BSIZE" and "head_n (head_put n bl d) = n"
    and "(\<And>i. i < nat n \<Longrightarrow> bl ! i < 2 ^ 32) \<Longrightarrow> i < nat n \<Longrightarrow> head_block (head_put n bl d) i = bl ! i"
proof -
  let ?d = "put32 0 (int_pat n) d"
  have l: "length ?d = BSIZE" using assms(1) by simp
  have k: "nat n \<le> LOGBLOCKS" using assms by simp
  have b: "n < 2 ^ 31" using assms by (simp add: LOGBLOCKS_def)
  have "get32 0 ?d = int_pat n" using assms(1) b assms(2) by (simp add: int_pat_nonneg)
  then show "head_n (head_put n bl d) = n"
    using head_put_words(2) [OF l k] b assms(2) by (simp add: head_n_def head_put_def)
  show "length (head_put n bl d) = BSIZE" unfolding head_put_def by (rule head_put_words(1) [OF l k])
  show "head_block (head_put n bl d) i = bl ! i" if "\<And>i. i < nat n \<Longrightarrow> bl ! i < 2 ^ 32" "i < nat n"
    unfolding head_put_def head_block_def by (rule head_put_words(3) [OF l k that])
qed

section \<open>The invariant of the log\<close>

text \<open>
  The logged blocks, the blocks the log occupies on the disk, and the invariant between the
  operations of the log: the blocks in the header are distinct, they are the pinned blocks,
  none is in the log itself, and the header on the disk is empty.
\<close>

definition logged :: "'z log_state_scheme \<Rightarrow> nat set" where
  "logged s = set (take (nat (lh_n s)) (lh_block s))"

definition log_area :: "nat \<Rightarrow> nat set" where
  "log_area start = {start..start + LOGBLOCKS}"

definition log_inv :: "'z log_state_scheme \<Rightarrow> bool" where
  "log_inv s \<longleftrightarrow> bio_inv (logged s) s \<and> lg_dev s = ROOTDEV \<and> length (lh_block s) = LOGBLOCKS \<and>
    0 \<le> lh_n s \<and> lh_n s \<le> int LOGBLOCKS \<and> distinct (take (nat (lh_n s)) (lh_block s)) \<and>
    logged s \<inter> log_area (lg_start s) = {} \<and> (\<forall>b\<in>logged s. b < 2 ^ 32) \<and>
    head_n (disk s (lg_start s)) = 0"

lemma log_invD:
  assumes "log_inv s"
  shows log_inv_bio: "bio_inv (logged s) s" and log_inv_dev: "lg_dev s = ROOTDEV"
    and log_inv_len: "length (lh_block s) = LOGBLOCKS" and log_inv_n: "0 \<le> lh_n s" "lh_n s \<le> int LOGBLOCKS"
    and log_inv_distinct: "distinct (take (nat (lh_n s)) (lh_block s))"
    and log_inv_area: "logged s \<inter> log_area (lg_start s) = {}" and log_inv_bound: "b \<in> logged s \<Longrightarrow> b < 2 ^ 32"
    and log_inv_head: "head_n (disk s (lg_start s)) = 0"
  using assms unfolding log_inv_def by auto

lemma logged_eq: "log_inv s \<Longrightarrow> logged s = (\<lambda>i. lh_block s ! i) ` {..<nat (lh_n s)}"
  using log_inv_len [of s] log_inv_n [of s] nth_image [of "nat (lh_n s)" "lh_block s"]
  by (simp add: logged_def atLeast0LessThan)

lemma log_nth:
  assumes "log_inv s" and "i < nat (lh_n s)"
  shows "lh_block s ! i \<in> logged s" and "i < length (lh_block s)"
  using assms log_inv_len [of s] log_inv_n [of s] by (auto simp: logged_eq)

lemma log_nth_distinct:
  assumes "log_inv s" and "i < nat (lh_n s)" and "j < nat (lh_n s)" and "lh_block s ! i = lh_block s ! j"
  shows "i = j"
  using log_inv_distinct [OF assms(1)] assms(2-4) log_nth(2) [OF assms(1)] log_inv_len [OF assms(1)] log_inv_n [OF assms(1)]
  by (auto simp: distinct_conv_nth)

lemma card_logged: "log_inv s \<Longrightarrow> card (logged s) = nat (lh_n s)"
  using log_inv_distinct [of s] log_inv_len [of s] log_inv_n [of s] by (simp add: logged_def distinct_card)

section \<open>Commit\<close>

text \<open>
  \<open>log_ready s\<close>: nobody else holds a logged block or a block of the log, and a buffer is left
  for one more block. The device writes of \<open>commit\<close> then are: the logged blocks to the log,
  the header, the logged blocks to their home locations, the empty header.
\<close>

definition log_ready :: "'z log_state_scheme \<Rightarrow> bool" where
  "log_ready s \<longleftrightarrow> held s \<inter> (logged s \<union> log_area (lg_start s)) = {} \<and> card (logged s \<union> held s) < NBUF"

definition log_copies :: "'z log_state_scheme \<Rightarrow> nat \<Rightarrow> (nat \<times> bytes) list" where
  "log_copies s k = map (\<lambda>i. (lg_start s + i + 1, blk s (lh_block s ! i))) [0..<k]"

definition home_copies :: "'z log_state_scheme \<Rightarrow> nat \<Rightarrow> (nat \<times> bytes) list" where
  "home_copies s k = map (\<lambda>i. (lh_block s ! i, blk s (lh_block s ! i))) [0..<k]"

definition full_head :: "'z log_state_scheme \<Rightarrow> bytes" where
  "full_head s = head_put (lh_n s) (lh_block s) (blk s (lg_start s))"

definition commit_writes :: "'z log_state_scheme \<Rightarrow> (nat \<times> bytes) list" where
  "commit_writes s = (if lh_n s > 0 then
     log_copies s (nat (lh_n s)) @ [(lg_start s, full_head s)] @ home_copies s (nat (lh_n s)) @
     [(lg_start s, head_put 0 (lh_block s) (full_head s))] else [])"

lemma in_log_area: "i \<le> LOGBLOCKS \<Longrightarrow> lg_start s + i \<in> log_area (lg_start s)"
  by (simp add: log_area_def)

lemma log_slot:
  assumes inv: "log_inv s" and ready: "log_ready s" and i: "i < nat (lh_n s)"
  shows "lg_start s + i + 1 \<notin> logged s" and "lg_start s + i + 1 \<notin> held s" and "lh_block s ! i \<notin> held s"
    and "lg_start s + i + 1 \<noteq> lh_block s ! j \<or> nat (lh_n s) \<le> j"
proof -
  have "lg_start s + (i + 1) \<in> log_area (lg_start s)"
    using i log_inv_n [OF inv] by (intro in_log_area) auto
  then show "lg_start s + i + 1 \<notin> logged s" and "lg_start s + i + 1 \<notin> held s"
    and "lg_start s + i + 1 \<noteq> lh_block s ! j \<or> nat (lh_n s) \<le> j"
    using log_inv_area [OF inv] ready log_nth(1) [OF inv, of j] unfolding log_ready_def by force+
  show "lh_block s ! i \<notin> held s" using ready log_nth(1) [OF inv i] unfolding log_ready_def by auto
qed

lemma blk_log_copies:
  assumes "log_inv s" and "log_ready s" and "k \<le> nat (lh_n s)" and "b \<in> logged s"
  shows "apply_writes (log_copies s k) d b = d b"
  by (rule apply_writes_other) (use assms log_slot(1) [OF assms(1,2)] in \<open>fastforce simp: log_copies_def\<close>)

lemma returns_write_log:
  assumes inv: "log_inv s" and ready: "log_ready s"
  shows "returns (write_log s) (\<lambda>_. wrote_all (logged s) (log_copies s (nat (lh_n s))) s)"
  unfolding write_log_def
proof (rule returns_kfor_upt [where I = "\<lambda>i. wrote_all (logged s) (log_copies s i) s"])
  show "wrote_all (logged s) (log_copies s 0) s s"
    by (simp add: log_copies_def wrote_all_Nil log_inv_bio [OF inv])
next
  fix i t assume i: "i < nat (lh_n s)" and t: "wrote_all (logged s) (log_copies s i) s t"
  note t' = t [unfolded wrote_all_def]
  have f: "lg_start t = lg_start s" "lg_dev t = lg_dev s" "lh_block t = lh_block s" "held t = held s"
    using disk_ext_log [of s t] t' by auto
  have "blk t (lh_block s ! i) = blk s (lh_block s ! i)"
    using t' blk_log_copies [OF inv ready _ log_nth(1) [OF inv i], of i] i by simp
  then show "returns (write_log_one i t) (\<lambda>_. wrote_all (logged s) (log_copies s (Suc i)) s)"
    using returns_mono [OF returns_write_log_one [of "logged s" t i] wrote_all_snoc [OF t]]
      log_slot [OF inv ready i] log_nth [OF inv i] ready t'
    by (simp add: f log_inv_dev [OF inv] log_copies_def log_ready_def)
qed simp

lemma finite_held: "finite (held s)"
  by (rule finite_subset [of _ "(\<lambda>i. b_blockno (bufs s ! i)) ` {..<NBUF}"]) (auto simp: held_def cached_at_def)

lemma fst_home_copies: "fst ` set (home_copies s k) = (\<lambda>i. lh_block s ! i) ` {..<k}"
  by (simp add: home_copies_def image_image atLeast0LessThan)

lemma home_copies_area:
  assumes "log_inv s" and "k \<le> nat (lh_n s)" and "b \<in> log_area (lg_start s)"
  shows "apply_writes (home_copies s k) d b = d b"
proof (rule apply_writes_other)
  have "lh_block s ! i \<noteq> b" if "i < k" for i
  proof -
    have "lh_block s ! i \<in> logged s" using that assms(2) by (intro log_nth(1) [OF assms(1)]) simp
    then show ?thesis using assms(3) log_inv_area [OF assms(1)] by blast
  qed
  then show "b \<notin> fst ` set (home_copies s k)" unfolding fst_home_copies by blast
qed

lemma returns_install:
  assumes inv: "log_inv s" and ready: "log_ready s"
    and t: "bio_inv (logged s) t" "held t = held s" "disk_ext s t"
    and logs: "\<And>i. i < nat (lh_n s) \<Longrightarrow> blk t (lg_start s + i + 1) = blk s (lh_block s ! i)"
  shows "returns (install_trans False t) (\<lambda>_. wrote_all {} (home_copies s (nat (lh_n s))) t)"
proof -
  let ?n = "nat (lh_n s)" and ?P = "\<lambda>i. logged s - (\<lambda>j. lh_block s ! j) ` {..<i}"
  note ft = disk_ext_log [OF t(3)]
  have "returns (kfor [0..<?n] (install_one False) t) (\<lambda>_. wrote_all (?P ?n) (home_copies s ?n) t)"
  proof (rule returns_kfor_upt [where I = "\<lambda>i. wrote_all (?P i) (home_copies s i) t"])
    show "wrote_all (?P 0) (home_copies s 0) t t" by (simp add: home_copies_def wrote_all_Nil t)
  next
    fix i u assume i: "i < ?n" and u: "wrote_all (?P i) (home_copies s i) t u"
    note u' = u [unfolded wrote_all_def]
    have f: "lg_start u = lg_start s" "lg_dev u = ROOTDEV" "lh_block u = lh_block s" "held u = held s"
      using disk_ext_log [of t u] ft u' t(2) log_inv_dev [OF inv] by auto
    have area: "lg_start s + i + 1 \<in> log_area (lg_start s)"
      using in_log_area [of "i + 1" s] i log_inv_n [OF inv] by simp
    have b: "blk u (lg_start s + i + 1) = blk s (lh_block s ! i)"
      using u' home_copies_area [OF inv _ area, of i "blk t"] i logs [OF i] by simp
    have "finite (logged s \<union> held s)" by (simp add: logged_def finite_held)
    then have "card (?P i \<union> held s) \<le> card (logged s \<union> held s)" by (intro card_mono) auto
    then have room: "card (?P i \<union> held s) < NBUF" using ready by (simp add: log_ready_def)
    have mem: "lh_block s ! i \<in> ?P i"
    proof -
      have "lh_block s ! i \<noteq> lh_block s ! j" if "j < i" for j
        using log_nth_distinct [OF inv i, of j] that i by fastforce
      then show ?thesis using log_nth(1) [OF inv i] by blast
    qed
    have P: "?P i - {lh_block s ! i} = ?P (Suc i)" unfolding lessThan_Suc by blast
    have "returns (install_one False i u) (\<lambda>_. wrote (?P (Suc i)) (lh_block s ! i) (blk s (lh_block s ! i)) u)"
      using returns_install_one [of "?P i" u i False] u' room mem log_slot(1-3) [OF inv ready i]
        log_slot(4) [OF inv ready i, of i] log_nth(2) [OF inv i] i
      unfolding f b P by simp
    then show "returns (install_one False i u) (\<lambda>_. wrote_all (?P (Suc i)) (home_copies s (Suc i)) t)"
      by (rule returns_mono) (use wrote_all_snoc [OF u] in \<open>simp add: home_copies_def\<close>)
  qed simp
  moreover have "?P ?n = {}" by (simp add: logged_eq [OF inv])
  ultimately show ?thesis using ft by (simp add: install_trans_def)
qed

text \<open>The cache does not depend on the fields of the log.\<close>

lemma log_fields_bio [simp, frame]:
  "bio_inv P (s\<lparr>lh_n := x\<rparr>) \<longleftrightarrow> bio_inv P s" "bio_inv P (s\<lparr>lh_block := bl\<rparr>) \<longleftrightarrow> bio_inv P s"
  "bio_inv P (s\<lparr>lg_outstanding := ou\<rparr>) \<longleftrightarrow> bio_inv P s" "bio_inv P (s\<lparr>lg_committing := c\<rparr>) \<longleftrightarrow> bio_inv P s"
  "bio_inv P (s\<lparr>lg_start := st\<rparr>) \<longleftrightarrow> bio_inv P s" "bio_inv P (s\<lparr>lg_dev := dv\<rparr>) \<longleftrightarrow> bio_inv P s"
  by (simp_all add: bio_inv_def cached_at_def)

lemma log_fields_blk [simp, frame]:
  "blk (s\<lparr>lh_n := x\<rparr>) = blk s" "blk (s\<lparr>lh_block := bl\<rparr>) = blk s"
  "blk (s\<lparr>lg_outstanding := ou\<rparr>) = blk s" "blk (s\<lparr>lg_committing := c\<rparr>) = blk s"
  "blk (s\<lparr>lg_start := st\<rparr>) = blk s" "blk (s\<lparr>lg_dev := dv\<rparr>) = blk s"
  by (simp_all add: fun_eq_iff blk_def split: option.split)

lemma log_fields_held [simp, frame]:
  "held (s\<lparr>lh_n := x\<rparr>) = held s" "held (s\<lparr>lh_block := bl\<rparr>) = held s"
  "held (s\<lparr>lg_outstanding := ou\<rparr>) = held s" "held (s\<lparr>lg_committing := c\<rparr>) = held s"
  "held (s\<lparr>lg_start := st\<rparr>) = held s" "held (s\<lparr>lg_dev := dv\<rparr>) = held s"
  by (simp_all add: held_def cached_at_def)

lemma log_fields_holding [simp, frame]:
  "holding (s\<lparr>lh_n := x\<rparr>) i b \<longleftrightarrow> holding s i b" "holding (s\<lparr>lh_block := bl\<rparr>) i b \<longleftrightarrow> holding s i b"
  "holding (s\<lparr>lg_outstanding := ou\<rparr>) i b \<longleftrightarrow> holding s i b" "holding (s\<lparr>lg_committing := c\<rparr>) i b \<longleftrightarrow> holding s i b"
  "holding (s\<lparr>lg_start := st\<rparr>) i b \<longleftrightarrow> holding s i b" "holding (s\<lparr>lg_dev := dv\<rparr>) i b \<longleftrightarrow> holding s i b"
  by (simp_all add: holding_def cached_at_def holdingsleep_def)

lemma disk_ext_clear:
  assumes "disk_ext s t" and "disk_ext (t\<lparr>lh_n := 0\<rparr>) u"
  shows "disk_ext s (u\<lparr>lh_n := lh_n s\<rparr>)"
proof (rule disk_ext_trans [OF assms(1)], rule disk_extE [OF assms(2)])
  fix Ps D W B L
  assume u: "u = t\<lparr>lh_n := 0, procs := Ps, disk := D, disk_writes := W, bufs := B, lru := L\<rparr>"
    and w: "woken (cur (t\<lparr>lh_n := 0\<rparr>)) (procs (t\<lparr>lh_n := 0\<rparr>)) Ps"
  have "u\<lparr>lh_n := lh_n s\<rparr> = t\<lparr>procs := Ps, disk := D, disk_writes := W, bufs := B, lru := L\<rparr>"
    using disk_ext_log [OF assms(1)] by (intro log_state.equality) (simp_all add: u)
  then show "disk_ext t (u\<lparr>lh_n := lh_n s\<rparr>)" using w by (intro disk_ext_eqI) simp_all
qed

lemma wrote_all_clear:
  assumes t: "wrote_all P us s t" and u: "wrote Q b d (t\<lparr>lh_n := 0\<rparr>) u"
  shows "wrote_all Q (us @ [(b, d)]) s (u\<lparr>lh_n := lh_n s\<rparr>) \<and> lh_n u = 0"
  using t u disk_ext_clear [of s t u] disk_ext_log [of "t\<lparr>lh_n := 0\<rparr>" u]
  unfolding wrote_all_def wrote_def by simp

lemma log_start_free:
  assumes inv: "log_inv s" and ready: "log_ready s"
  shows "lg_start s \<notin> held s" and "lg_start s \<notin> logged s" and "card (held s) < NBUF"
    and "length (full_head s) = BSIZE"
proof -
  have "lg_start s \<in> log_area (lg_start s)" using in_log_area [of 0 s] by simp
  then show "lg_start s \<notin> held s" and "lg_start s \<notin> logged s"
    using ready log_inv_area [OF inv] unfolding log_ready_def by blast+
  show "length (full_head s) = BSIZE"
    unfolding full_head_def by (rule head_put_ok(1) [OF length_blk [OF log_inv_bio [OF inv]] log_inv_n [OF inv]])
  show "card (held s) < NBUF"
    using ready card_mono [of "logged s \<union> held s" "held s"] by (simp add: log_ready_def logged_def finite_held)
qed

lemma fst_log_copies: "fst ` set (log_copies s k) = (\<lambda>i. lg_start s + i + 1) ` {..<k}"
  by (simp add: log_copies_def image_image atLeast0LessThan)

text \<open>Up to the commit point: the logged blocks and the header are in the log.\<close>

lemma returns_commit_point:
  assumes inv: "log_inv s" and ready: "log_ready s"
  defines "us \<equiv> log_copies s (nat (lh_n s)) @ [(lg_start s, full_head s)]"
  shows "returns (kbind (write_log s) (\<lambda>_ s. write_head s)) (\<lambda>_. wrote_all (logged s) us s)"
  unfolding returns_kbind
proof (rule returns_mono [OF returns_write_log [OF inv ready]])
  fix x t assume t: "wrote_all (logged s) (log_copies s (nat (lh_n s))) s t"
  note t' = t [unfolded wrote_all_def] and ft = disk_ext_log [of s t]
  have "blk t (lg_start s) = blk s (lg_start s)"
    using t' apply_writes_other [of "lg_start s" "log_copies s (nat (lh_n s))"] by (simp add: fst_log_copies image_iff)
  then show "returns (write_head t) (\<lambda>_. wrote_all (logged s) us s)"
    using returns_mono [OF returns_write_head [of "logged s" t] wrote_all_snoc [OF t]]
      t' ft log_start_free [OF inv ready] ready
    by (simp add: us_def full_head_def log_inv_dev [OF inv] log_ready_def)
qed

text \<open>After it: the home locations, and the empty header.\<close>

lemma blk_commit_point:
  assumes "log_inv s" and "log_ready s" and "i < nat (lh_n s)"
  shows "apply_writes (log_copies s (nat (lh_n s)) @ [(lg_start s, full_head s)]) d (lg_start s + i + 1) = blk s (lh_block s ! i)"
proof -
  let ?f = "\<lambda>b. blk s (lh_block s ! (b - lg_start s - 1))"
  have "apply_writes (log_copies s (nat (lh_n s))) d (lg_start s + i + 1) = ?f (lg_start s + i + 1)"
    using assms(3) by (subst apply_writes_fun [where f = ?f]) (auto simp: log_copies_def image_iff)
  then show ?thesis by simp
qed

lemma returns_commit_tail:
  assumes inv: "log_inv s" and ready: "log_ready s"
  defines "us \<equiv> log_copies s (nat (lh_n s)) @ [(lg_start s, full_head s)]"
  assumes u: "wrote_all (logged s) us s u" and n: "lh_n s > 0"
  shows "returns (kbind (install_trans False u) (\<lambda>_ s. write_head (s\<lparr>lh_n := 0\<rparr>)))
    (\<lambda>_ t. wrote_all {} (commit_writes s) s (t\<lparr>lh_n := lh_n s\<rparr>) \<and> lh_n t = 0)"
  unfolding returns_kbind
proof (rule returns_mono [OF returns_install [OF inv ready]])
  note u' = u [unfolded wrote_all_def]
  show "bio_inv (logged s) u" "held u = held s" "disk_ext s u" using u' by simp_all
  show "blk u (lg_start s + i + 1) = blk s (lh_block s ! i)" if "i < nat (lh_n s)" for i
    using u' blk_commit_point [OF inv ready that] by (simp add: us_def)
  fix x v assume "wrote_all {} (home_copies s (nat (lh_n s))) u v"
  then have v: "wrote_all {} (us @ home_copies s (nat (lh_n s))) s v" by (rule wrote_all_append [OF u])
  note v' = v [unfolded wrote_all_def] and fv = disk_ext_log [of s v]
  have "lg_start s \<in> log_area (lg_start s)" using in_log_area [of 0 s] by simp
  then have b: "blk v (lg_start s) = full_head s"
    using v' home_copies_area [OF inv order.refl] by (simp add: us_def)
  have l: "length (head_put 0 (lh_block s) (full_head s)) = BSIZE"
    by (rule head_put_ok) (simp_all add: log_start_free [OF inv ready])
  show "returns (write_head (v\<lparr>lh_n := 0\<rparr>))
      (\<lambda>_ t. wrote_all {} (commit_writes s) s (t\<lparr>lh_n := lh_n s\<rparr>) \<and> lh_n t = 0)"
    using returns_mono [OF returns_write_head [of "{}" "v\<lparr>lh_n := 0\<rparr>"] wrote_all_clear [OF v]]
      v' fv log_start_free [OF inv ready] b l n
    by (simp add: log_inv_dev [OF inv] commit_writes_def us_def)
qed

lemma returns_commit:
  assumes inv: "log_inv s" and ready: "log_ready s"
  shows "returns (commit s) (\<lambda>_ t. wrote_all {} (commit_writes s) s (t\<lparr>lh_n := lh_n s\<rparr>) \<and> lh_n t = 0)"
proof (cases "lh_n s > 0")
  case False
  then have "lh_n s = 0" using log_inv_n [OF inv] by simp
  moreover from this have "wrote_all {} (commit_writes s) s s"
    using log_inv_bio [OF inv] by (simp add: commit_writes_def logged_def wrote_all_Nil)
  then have "wrote_all {} (commit_writes s) s (s\<lparr>lh_n := lh_n s\<rparr>)" by simp
  ultimately show ?thesis by (simp add: commit_def)
next
  case True
  have "commit s = kbind (kbind (write_log s) (\<lambda>_ s. write_head s)) (\<lambda>_ s. kbind (install_trans False s) (\<lambda>_ s. write_head (s\<lparr>lh_n := 0\<rparr>)))"
    using True by (simp add: commit_def kbind_assoc)
  then show ?thesis
    using returns_mono [OF returns_commit_point [OF inv ready] returns_commit_tail [OF inv ready _ True]]
    by (simp only: returns_kbind)
qed

section \<open>What the log may change\<close>

text \<open>\<open>log_ext\<close>: only the cache, the disk, woken processes and the fields of the log differ.\<close>

definition log_ext :: "'z log_state_scheme \<Rightarrow> 'z log_state_scheme \<Rightarrow> bool" where
  "log_ext s t \<longleftrightarrow> disk_ext (s\<lparr>lg_start := lg_start t, lg_outstanding := lg_outstanding t, lg_committing := lg_committing t,
     lg_dev := lg_dev t, lh_n := lh_n t, lh_block := lh_block t\<rparr>) t"

lemma log_extE:
  assumes "log_ext s t"
  obtains Ps D W B L st ou co dv n bl where
    "t = s\<lparr>procs := Ps, disk := D, disk_writes := W, bufs := B, lru := L, lg_start := st, lg_outstanding := ou,
      lg_committing := co, lg_dev := dv, lh_n := n, lh_block := bl\<rparr>" and "woken (cur s) (procs s) Ps"
proof (rule disk_extE [OF assms [unfolded log_ext_def]])
  fix Ps D W B L
  let ?s = "s\<lparr>lg_start := lg_start t, lg_outstanding := lg_outstanding t, lg_committing := lg_committing t,
     lg_dev := lg_dev t, lh_n := lh_n t, lh_block := lh_block t\<rparr>"
  assume t: "t = ?s\<lparr>procs := Ps, disk := D, disk_writes := W, bufs := B, lru := L\<rparr>"
    and w: "woken (cur ?s) (procs ?s) Ps"
  have "t = s\<lparr>procs := Ps, disk := D, disk_writes := W, bufs := B, lru := L, lg_start := lg_start t,
      lg_outstanding := lg_outstanding t, lg_committing := lg_committing t, lg_dev := lg_dev t, lh_n := lh_n t,
      lh_block := lh_block t\<rparr>"
    by (subst t) simp
  moreover have "woken (cur s) (procs s) Ps" using w by simp
  ultimately show thesis by (rule that)
qed

lemma log_extI:
  assumes t: "t = s\<lparr>procs := Ps, disk := D, disk_writes := W, bufs := B, lru := L, lg_start := st, lg_outstanding := ou,
      lg_committing := co, lg_dev := dv, lh_n := n, lh_block := bl\<rparr>" and w: "woken (cur s) (procs s) Ps"
  shows "log_ext s t"
  unfolding log_ext_def
proof (rule disk_ext_eqI)
  show "t = s\<lparr>lg_start := lg_start t, lg_outstanding := lg_outstanding t, lg_committing := lg_committing t,
     lg_dev := lg_dev t, lh_n := lh_n t, lh_block := lh_block t,
     procs := Ps, disk := D, disk_writes := W, bufs := B, lru := L\<rparr>" by (simp add: t)
qed (use w in simp)

lemma disk_log_ext: "disk_ext s t \<Longrightarrow> log_ext s t"
  using disk_ext_log [of s t] by (simp add: log_ext_def)

lemma log_ext_refl [simp]: "log_ext s s"
  by (rule disk_log_ext) simp

lemma log_ext_trans:
  assumes "log_ext s t" and "log_ext t u"
  shows "log_ext s u"
proof (rule log_extE [OF assms(1)], rule log_extE [OF assms(2)])
  fix Ps D W B L st ou co dv n bl Ps' D' W' B' L' st' ou' co' dv' n' bl'
  assume t: "t = s\<lparr>procs := Ps, disk := D, disk_writes := W, bufs := B, lru := L, lg_start := st, lg_outstanding := ou,
      lg_committing := co, lg_dev := dv, lh_n := n, lh_block := bl\<rparr>" and w: "woken (cur s) (procs s) Ps"
    and u: "u = t\<lparr>procs := Ps', disk := D', disk_writes := W', bufs := B', lru := L', lg_start := st', lg_outstanding := ou',
      lg_committing := co', lg_dev := dv', lh_n := n', lh_block := bl'\<rparr>" and w': "woken (cur t) (procs t) Ps'"
  have "woken (cur s) (procs s) Ps'" using woken_trans [OF w] w' by (simp add: t)
  moreover have "u = s\<lparr>procs := Ps', disk := D', disk_writes := W', bufs := B', lru := L', lg_start := st', lg_outstanding := ou',
      lg_committing := co', lg_dev := dv', lh_n := n', lh_block := bl'\<rparr>" by (simp add: t u)
  ultimately show ?thesis by (rule log_extI [rotated])
qed

lemma log_fields_ext [simp]:
  "log_ext s (s\<lparr>lh_n := n\<rparr>)" "log_ext s (s\<lparr>lh_block := bl\<rparr>)" "log_ext s (s\<lparr>lg_outstanding := ou\<rparr>)"
  "log_ext s (s\<lparr>lg_committing := co\<rparr>)" "log_ext s (s\<lparr>lg_start := st, lg_dev := dv\<rparr>)"
  by (simp_all add: log_ext_def)

section \<open>Adding a block to the transaction\<close>

lemma absorb_index:
  "absorb_index b bl i k = i + k \<and> (\<forall>j. i \<le> j \<longrightarrow> j < i + k \<longrightarrow> bl ! j \<noteq> b) \<or>
   i \<le> absorb_index b bl i k \<and> absorb_index b bl i k < i + k \<and> bl ! absorb_index b bl i k = b"
proof (induction b bl i k rule: absorb_index.induct)
  case (2 b bl i k)
  then show ?case
  proof (cases "bl ! i = b")
    case False
    have "bl ! j \<noteq> b" if "\<forall>j. Suc i \<le> j \<longrightarrow> j < Suc i + k \<longrightarrow> bl ! j \<noteq> b" "i \<le> j" "j < i + Suc k" for j
      using that False by (cases "j = i") auto
    then show ?thesis using 2 False by auto
  qed simp
qed simp

definition log_write_post :: "nat \<Rightarrow> 'z log_state_scheme \<Rightarrow> 'z log_state_scheme \<Rightarrow> bool" where
  "log_write_post b s t \<longleftrightarrow> log_inv t \<and> logged t = insert b (logged s) \<and> blk t = blk s \<and> held t = held s \<and>
    (\<forall>j c. holding t j c \<longleftrightarrow> holding s j c) \<and> disk t = disk s \<and> disk_writes t = disk_writes s \<and>
    lh_n t = lh_n s + of_bool (b \<notin> logged s) \<and> log_ext s t \<and> lg_outstanding t = lg_outstanding s \<and>
    lg_start t = lg_start s \<and> lg_committing t = lg_committing s"

lemma returns_log_write:
  assumes inv: "log_inv s" and h: "holding s i b" and out: "1 \<le> lg_outstanding s" and room: "lh_n s < int LOGBLOCKS"
    and b: "b \<notin> log_area (lg_start s)" "b < 2 ^ 32"
  shows "returns (log_write i s) (\<lambda>_. log_write_post b s)"
proof -
  let ?bl = "lh_block s" and ?n = "nat (lh_n s)"
  define k where "k = absorb_index b ?bl 0 ?n"
  have bn: "b_blockno (bufs s ! i) = b" using holding_dev [OF h] by simp
  consider (new) "k = ?n" "\<And>j. j < ?n \<Longrightarrow> ?bl ! j \<noteq> b" | (old) "k < ?n" "?bl ! k = b"
    using absorb_index [of b ?bl 0 ?n] unfolding k_def by auto
  then show ?thesis
  proof cases
    case old
    then have "log_write i s = Ok () s"
      using room out bn k_def log_inv_n [OF inv] list_update_id [of ?bl k]
      by (auto simp: log_write_def Let_def)
    moreover have "b \<in> logged s" using log_nth(1) [OF inv old(1)] old(2) by simp
    ultimately show ?thesis using inv by (simp add: log_write_post_def insert_absorb)
  next
    case new
    have nb: "b \<notin> logged s" using new(2) by (auto simp: logged_eq [OF inv])
    define u where "u = s\<lparr>lh_block := ?bl[?n := b]\<rparr>"
    define t where "t = (bpin i u)\<lparr>lh_n := lh_n s + 1\<rparr>"
    have inv_u: "bio_inv (logged s) u" and hu: "holding u i b"
      using log_inv_bio [OF inv] h by (simp_all add: u_def)
    note pin = bpin_ok [OF inv_u hu nb]
    note fu = disk_ext_log [OF bio_disk_ext [OF pin(5)]] and du = bio_ext_disk [OF pin(5)]
    have "log_write i s = Ok () t"
      using room out bn k_def new(1) log_inv_n [OF inv] fu
      by (simp add: log_write_def Let_def t_def u_def)
    moreover have nn: "nat (lh_n s + 1) = Suc ?n" "?n < LOGBLOCKS" using log_inv_n [OF inv] room by linarith+
    have take: "take (nat (lh_n t)) (lh_block t) = take ?n ?bl @ [b]"
      using nn log_inv_len [OF inv] fu
      by (simp add: t_def u_def take_Suc_conv_app_nth)
    then have lg: "logged t = insert b (logged s)" by (simp add: logged_def)
    moreover have "log_inv t"
      unfolding log_inv_def lg take
      using pin(1) log_invD [OF inv] fu du nb b nn by (auto simp: t_def u_def logged_def)
    moreover have "log_ext s t"
      using log_ext_trans [OF log_ext_trans [OF log_fields_ext(2) disk_log_ext [OF bio_disk_ext [OF pin(5) [unfolded u_def]]]] log_fields_ext(1)]
      by (simp add: t_def u_def)
    ultimately show ?thesis
      using pin(2-4) fu du nb by (simp add: log_write_post_def t_def u_def)
  qed
qed

section \<open>Frames that need no invariant\<close>

lemma upd_buf_ext: "bio_ext s (upd_buf i f s)"
  unfolding upd_buf_def by (rule bio_ext_bufs)

lemma lock_buf_ext: "lock_buf i s = Ok x t \<Longrightarrow> bio_ext s t"
  by (auto simp: lock_buf_def acquiresleep_def upd_buf_ext split: if_splits)

lemma bget_ext: "bget dev b s = Ok i t \<Longrightarrow> bio_ext s t"
  unfolding bget_def Let_def
  by (auto split: option.splits dest!: lock_buf_ext intro: bio_ext_trans [OF upd_buf_ext])

lemma disk_read_ext: "bio_ext s (upd_buf i f (disk_rw i False s))"
  unfolding disk_rw_def Let_def by simp (rule bio_ext_trans [OF upd_buf_ext upd_buf_ext])

lemma bread_ext:
  assumes "bread dev b s = Ok i t"
  shows "bio_ext s t"
proof -
  obtain j u where u: "bget dev b s = Ok j u" and "t = u \<or> t = upd_buf j (\<lambda>b. b\<lparr>b_valid := True\<rparr>) (disk_rw j False u)"
    using assms unfolding bread_def by (auto split: if_splits)
  then have "bio_ext u t" using disk_read_ext by auto
  then show ?thesis by (rule bio_ext_trans [OF bget_ext [OF u]])
qed

lemma wakeup_ext: "bio_ext s (wakeup ch s)"
proof -
  have "wakeup ch s = s\<lparr>bufs := bufs s, lru := lru s, procs := procs (wakeup ch s)\<rparr>"
    by (rule bio_state.equality) (simp_all add: wakeup_def)
  then show ?thesis using bio_ext_replace [OF woken_wakeup, where s = s and B = "bufs s" and L = "lru s"] by metis
qed

lemma lru_ext: "bio_ext s (s\<lparr>lru := L\<rparr>)"
proof -
  have "s\<lparr>lru := L\<rparr> = s\<lparr>bufs := bufs s, lru := L, procs := procs s\<rparr>"
    by (rule bio_state.equality) simp_all
  then show ?thesis using bio_ext_replace [OF woken_refl, where s = s and B = "bufs s" and L = L] by metis
qed

lemma brelse_ext: "brelse i s = Ok x t \<Longrightarrow> bio_ext s t"
  unfolding brelse_def releasesleep_def Let_def
  by (simp split: if_splits)
    (use bio_ext_trans [OF bio_ext_trans [OF bio_ext_trans [OF wakeup_ext upd_buf_ext] upd_buf_ext] lru_ext]
       bio_ext_trans [OF bio_ext_trans [OF wakeup_ext upd_buf_ext] upd_buf_ext] in auto)

lemma bwrite_ext: "bwrite i s = Ok x t \<Longrightarrow> disk_ext s t"
  by (auto simp: bwrite_def disk_rw_def Let_def write_disk_ext split: if_splits)

lemma set_data_ext: "bio_ext s (set_data i d s)"
  unfolding set_data_def by (rule upd_buf_ext)

lemma bpin_ext: "bio_ext s (bpin i s)" and bunpin_ext: "bio_ext s (bunpin i s)"
  by (simp_all add: bpin_def bunpin_def upd_buf_ext)

lemmas bio_frames = bread_ext brelse_ext set_data_ext bpin_ext bunpin_ext

lemma install_one_ext:
  assumes "install_one r i s = Ok x t" shows "disk_ext s t"
proof -
  obtain l s1 d s2 s3 s4 where s: "bread (lg_dev s) (lg_start s + i + 1) s = Ok l s1"
      "bread (lg_dev s1) (lh_block s1 ! i) s1 = Ok d s2" "bwrite d (copy_data d l s2) = Ok () s3"
      "brelse l (if \<not> r then bunpin d s3 else s3) = Ok () s4" "brelse d s4 = Ok () t"
    using assms by (auto simp: install_one_def Let_def split: if_splits)
  have c: "bio_ext s2 (copy_data d l s2)" and u: "bio_ext s3 (if \<not> r then bunpin d s3 else s3)"
    by (simp_all add: copy_data_def set_data_ext bunpin_ext)
  note bio_disk_ext [OF bread_ext [OF s(1)]] also note bio_disk_ext [OF bread_ext [OF s(2)]]
  also (disk_ext_trans) note bio_disk_ext [OF c]
  also (disk_ext_trans) note bwrite_ext [OF s(3)]
  also (disk_ext_trans) note bio_disk_ext [OF u]
  also (disk_ext_trans) note bio_disk_ext [OF brelse_ext [OF s(4)]]
  also (disk_ext_trans) note bio_disk_ext [OF brelse_ext [OF s(5)]]
  finally (disk_ext_trans) show ?thesis .
qed

lemma write_log_one_ext:
  assumes "write_log_one i s = Ok x t" shows "disk_ext s t"
proof -
  obtain l s1 d s2 s3 s4 where s: "bread (lg_dev s) (lg_start s + i + 1) s = Ok l s1"
      "bread (lg_dev s1) (lh_block s1 ! i) s1 = Ok d s2" "bwrite l (copy_data l d s2) = Ok () s3"
      "brelse d s3 = Ok () s4" "brelse l s4 = Ok () t"
    using assms by (auto simp: write_log_one_def Let_def split: if_splits)
  have c: "bio_ext s2 (copy_data l d s2)" by (simp add: copy_data_def set_data_ext)
  note bio_disk_ext [OF bread_ext [OF s(1)]] also note bio_disk_ext [OF bread_ext [OF s(2)]]
  also (disk_ext_trans) note bio_disk_ext [OF c]
  also (disk_ext_trans) note bwrite_ext [OF s(3)]
  also (disk_ext_trans) note bio_disk_ext [OF brelse_ext [OF s(4)]]
  also (disk_ext_trans) note bio_disk_ext [OF brelse_ext [OF s(5)]]
  finally (disk_ext_trans) show ?thesis .
qed

lemma kfor_ext:
  assumes "\<And>i s x t. f i s = Ok x t \<Longrightarrow> disk_ext s t"
  shows "kfor xs f s = Ok x t \<Longrightarrow> disk_ext s t"
  by (induction xs arbitrary: s) (auto dest: assms disk_ext_trans)

lemma write_head_ext:
  assumes "write_head s = Ok x t" shows "disk_ext s t"
proof -
  obtain i s1 s2 where s: "bread (lg_dev s) (lg_start s) s = Ok i s1"
      "bwrite i (set_data i (head_put (lh_n s1) (lh_block s1) (bdata i s1)) s1) = Ok () s2" "brelse i s2 = Ok () t"
    using assms by (auto simp: write_head_def Let_def)
  show ?thesis
    by (rule disk_ext_trans [OF bio_disk_ext [OF bread_ext [OF s(1)]] disk_ext_trans [OF bio_disk_ext [OF set_data_ext]
          disk_ext_trans [OF bwrite_ext [OF s(2)] bio_disk_ext [OF brelse_ext [OF s(3)]]]]])
qed

lemma commit_ext:
  assumes "commit s = Ok x t" shows "log_ext s t \<and> (lh_n t = 0 \<or> lh_n t = lh_n s) \<and> lg_outstanding t = lg_outstanding s"
proof (cases "lh_n s > 0")
  case True
  then obtain s1 s2 s3 where s: "write_log s = Ok () s1" "write_head s1 = Ok () s2" "install_trans False s2 = Ok () s3"
      "write_head (s3\<lparr>lh_n := 0\<rparr>) = Ok () t"
    using assms by (auto simp: commit_def)
  have e: "disk_ext s s1" "disk_ext s1 s2" "disk_ext s2 s3"
    using kfor_ext [OF write_log_one_ext s(1) [unfolded write_log_def]] write_head_ext [OF s(2)]
      kfor_ext [OF install_one_ext s(3) [unfolded install_trans_def]] by auto
  then have a: "disk_ext s s3" by (blast intro: disk_ext_trans)
  note b = write_head_ext [OF s(4)]
  show ?thesis
    using log_ext_trans [OF log_ext_trans [OF disk_log_ext [OF a] log_fields_ext(1)] disk_log_ext [OF b]]
      disk_ext_log [OF a] disk_ext_log [OF b] by simp
qed (use assms in \<open>simp add: commit_def\<close>)

end
