(* ===== verification/Log_Crash.thy ===== *)
theory Log_Crash
  imports Log
begin

text \<open>
  Recovery and crashes. A crash keeps a prefix of the block writes the device was given
  (each block write is atomic) and loses the memory; the next boot runs \<open>initlog\<close>. The
  theorems say what the disk holds after that, wherever the crash was: in a commit, or in
  a recovery. The last section is about the space \<open>begin_op\<close> reserves in the log.
\<close>

section \<open>Recovery\<close>

text \<open>
  The device writes of \<open>recover_from_log\<close> on a disk \<open>d\<close>: every block of the log to its home
  location, then the empty header. \<open>wf_log\<close>: the header on the disk is one the log wrote.
\<close>

definition log_count :: "nat \<Rightarrow> (nat \<Rightarrow> bytes) \<Rightarrow> nat" where
  "log_count st d = nat (head_n (d st))"

definition replay_writes :: "nat \<Rightarrow> (nat \<Rightarrow> bytes) \<Rightarrow> (nat \<times> bytes) list" where
  "replay_writes st d = map (\<lambda>i. (head_block (d st) i, d (st + i + 1))) [0..<log_count st d]"

definition recover_writes :: "nat \<Rightarrow> (nat \<Rightarrow> bytes) \<Rightarrow> (nat \<times> bytes) list" where
  "recover_writes st d = replay_writes st d @ [(st, put32 0 0 (d st))]"

definition wf_log :: "nat \<Rightarrow> (nat \<Rightarrow> bytes) \<Rightarrow> bool" where
  "wf_log st d \<longleftrightarrow> log_count st d \<le> LOGBLOCKS \<and> (\<forall>i<log_count st d. head_block (d st) i \<notin> log_area st)"

lemma head_put_0: "head_put 0 bl d = put32 0 0 d"
  by (simp add: head_put_def int_pat_def)

lemma read_blocks_fold:
  fixes s :: "'z log_state_scheme"
  shows "foldl (\<lambda>s i. s\<lparr>lh_block := (lh_block s)[i := f (bufs s) i]\<rparr>) s is =
    s\<lparr>lh_block := foldl (\<lambda>bl i. bl[i := f (bufs s) i]) (lh_block s) is\<rparr>"
  by (induction "is" arbitrary: s) simp_all

lemma foldl_update:
  "length (foldl (\<lambda>bl i. bl[i := g i]) bl [0..<k]) = length bl \<and>
   (k \<le> length bl \<longrightarrow> (\<forall>i<k. foldl (\<lambda>bl i. bl[i := g i]) bl [0..<k] ! i = g i))"
  by (induction k) (auto simp: nth_list_update less_Suc_eq)

lemma returns_read_head:
  assumes inv: "bio_inv {} s" and dev: "lg_dev s = ROOTDEV" and h: "lg_start s \<notin> held s"
    and room: "card (held s) < NBUF" and len: "log_count (lg_start s) (blk s) \<le> length (lh_block s)"
  shows "returns (read_head s) (\<lambda>_ t. bio_inv {} t \<and> blk t = blk s \<and> held t = held s \<and> disk t = disk s \<and>
    disk_writes t = disk_writes s \<and> log_ext s t \<and> lg_start t = lg_start s \<and> lg_dev t = lg_dev s \<and>
    lg_outstanding t = lg_outstanding s \<and> lg_committing t = lg_committing s \<and>
    lh_n t = head_n (blk s (lg_start s)) \<and> length (lh_block t) = length (lh_block s) \<and>
    (\<forall>i<log_count (lg_start s) (blk s). lh_block t ! i = head_block (blk s (lg_start s)) i))"
proof (rule breadE [OF inv h])
  let ?st = "lg_start s"
  fix i t assume t: "bread ROOTDEV ?st s = Ok i t" and p: "bread_post {} ?st s i t"
  note p = p [unfolded bread_post_def]
  have inv_t: "bio_inv {} t" and ht: "holding t i ?st" and e: "bio_ext s t" using p by auto
  note ft = disk_ext_log [OF bio_disk_ext [OF e]] and dt = bio_ext_disk [OF e]
  have d: "bdata i t = blk s ?st" using bdata_holding [OF inv_t ht] p by simp
  define bl where "bl = foldl (\<lambda>bl j. bl[j := head_block (blk s ?st) j]) (lh_block s) [0..<log_count ?st (blk s)]"
  define u where "u = t\<lparr>lh_n := head_n (blk s ?st), lh_block := bl\<rparr>"
  have r: "read_head s = brelse i u"
    using t len unfolding read_head_def Let_def dev
    by (simp add: ft d u_def bl_def log_count_def read_blocks_fold [of "\<lambda>B j. head_block (b_data (B ! i)) j"])
  have u: "bio_inv {} u" "holding u i ?st" "blk u = blk s" "held u = insert ?st (held s)" "disk u = disk s" "disk_writes u = disk_writes s"
    "log_ext s u"
    using inv_t ht p dt log_ext_trans [OF log_ext_trans [OF disk_log_ext [OF bio_disk_ext [OF e]] log_fields_ext(1)] log_fields_ext(2)]
    by (simp_all add: u_def)
  have "blk u ?st = disk u ?st" using u blk_clean [OF inv _ h] by simp
  then have "?st \<in> {} \<or> blk u ?st = disk u ?st" by simp
  then show ?thesis
  proof (rule brelseE [OF u(1,2)])
    fix v assume v: "brelse i u = Ok () v" and q: "brelse_post {} ?st u v"
    note q = q [unfolded brelse_post_def]
    then have e': "bio_ext u v" by simp
    note fv = disk_ext_log [OF bio_disk_ext [OF e']] and dv = bio_ext_disk [OF e']
    have "log_ext s v" by (rule log_ext_trans [OF u(7) disk_log_ext [OF bio_disk_ext [OF e']]])
    moreover have "held v = held s" using q u(4) h by auto
    ultimately show ?thesis
      unfolding r v returns.simps using q u(3,5,6) fv dv ft len
        foldl_update [of "head_block (blk s ?st)" "lh_block s" "log_count ?st (blk s)"]
      by (simp add: u_def bl_def)
  qed
qed (use room in simp)

lemma replay_writes_area:
  assumes "wf_log st d" and "b \<in> log_area st"
  shows "apply_writes (take k (replay_writes st d)) e b = e b"
proof (rule apply_writes_other)
  have "fst ` set (take k (replay_writes st d)) \<subseteq> head_block (d st) ` {..<log_count st d}"
    using image_mono [OF set_take_subset [of k "replay_writes st d"], of fst]
    by (simp add: replay_writes_def image_image atLeast0LessThan)
  moreover have "b \<notin> head_block (d st) ` {..<log_count st d}"
    using assms unfolding wf_log_def by blast
  ultimately show "b \<notin> fst ` set (take k (replay_writes st d))" by blast
qed

lemma take_replay_writes:
  "k \<le> log_count st d \<Longrightarrow> take k (replay_writes st d) = map (\<lambda>i. (head_block (d st) i, d (st + i + 1))) [0..<k]"
  by (simp add: replay_writes_def take_map)

lemma log_area_slot: "i < LOGBLOCKS \<Longrightarrow> st + i + 1 \<in> log_area st"
  by (simp add: log_area_def)

text \<open>\<open>boot_log s\<close>: the state in which \<open>initlog\<close> runs at boot, no buffer being in use.\<close>

definition boot_log :: "'z log_state_scheme \<Rightarrow> bool" where
  "boot_log s \<longleftrightarrow> bio_inv {} s \<and> held s = {} \<and> length (lh_block s) = LOGBLOCKS"

lemma boot_blk: "boot_log s \<Longrightarrow> blk s = disk s"
  using blk_clean [of "{}" s] by (auto simp: boot_log_def)

lemma returns_install_recovering:
  assumes boot: "boot_log s" and wf: "wf_log st d" and st: "lg_start s = st" "blk s = d" and dev: "lg_dev s = ROOTDEV"
    and head: "nat (lh_n s) = log_count st d" "\<And>i. i < log_count st d \<Longrightarrow> lh_block s ! i = head_block (d st) i"
  shows "returns (install_trans True s) (\<lambda>_. wrote_all {} (replay_writes st d) s)"
proof -
  let ?n = "log_count st d" and ?w = "\<lambda>i. take i (replay_writes st d)"
  have b: "bio_inv {} s" "held s = {}" "length (lh_block s) = LOGBLOCKS" using boot by (auto simp: boot_log_def)
  have n: "?n \<le> LOGBLOCKS" using wf by (simp add: wf_log_def)
  have "returns (kfor [0..<?n] (install_one True) s) (\<lambda>_. wrote_all {} (?w ?n) s)"
  proof (rule returns_kfor_upt [where I = "\<lambda>i. wrote_all {} (?w i) s"])
    fix i u assume i: "i < ?n" and u: "wrote_all {} (?w i) s u"
    note u' = u [unfolded wrote_all_def]
    have f: "lg_start u = st" "lg_dev u = ROOTDEV" "lh_block u = lh_block s" "held u = {}"
      using disk_ext_log [of s u] u' st dev b(2) by auto
    have area: "st + i + 1 \<in> log_area st" using i n by (intro log_area_slot) simp
    have c: "blk u (st + i + 1) = d (st + i + 1)"
      using u' replay_writes_area [OF wf area] st by simp
    have ne: "st + i + 1 \<noteq> head_block (d st) i" using wf i area unfolding wf_log_def by metis
    have "returns (install_one True i u) (\<lambda>_. wrote {} (head_block (d st) i) (d (st + i + 1)) u)"
      using returns_install_one [of "{}" u i True] u' ne i n b(3) head(2) [OF i]
      unfolding f c by (simp add: NBUF_def)
    then show "returns (install_one True i u) (\<lambda>_. wrote_all {} (?w (Suc i)) s)"
      by (rule returns_mono) (use wrote_all_snoc [OF u] i in \<open>simp add: take_replay_writes\<close>)
  qed (use b in \<open>simp_all add: wrote_all_Nil\<close>)
  then show ?thesis using head(1) by (simp add: install_trans_def replay_writes_def)
qed

lemma put32_head_0: "length x = BSIZE \<Longrightarrow> head_n (put32 0 0 x) = 0"
  by (simp add: head_n_def int_val_def)

text \<open>\<open>initlog\<close> returns, having made exactly these writes, with an empty log and a clean cache.\<close>

definition recovered :: "nat \<Rightarrow> 'z log_state_scheme \<Rightarrow> 'z log_state_scheme \<Rightarrow> bool" where
  "recovered st s t \<longleftrightarrow> log_inv t \<and> lh_n t = 0 \<and> lg_start t = st \<and> held t = {} \<and>
    lg_outstanding t = lg_outstanding s \<and> lg_committing t = lg_committing s \<and>
    disk t = apply_writes (recover_writes st (disk s)) (disk s) \<and> blk t = disk t \<and>
    disk_writes t = disk_writes s @ recover_writes st (disk s) \<and> log_ext s t"

lemma returns_clear_head:
  assumes boot: "boot_log t" and wf: "wf_log st (disk s)" and t: "lg_start t = st" "lg_dev t = ROOTDEV" "disk t = disk s"
      "disk_writes t = disk_writes s" "log_ext s t" "lg_outstanding t = lg_outstanding s" "lg_committing t = lg_committing s"
    and u: "wrote_all {} (replay_writes st (disk s)) t u"
  shows "returns (write_head (u\<lparr>lh_n := 0\<rparr>)) (\<lambda>_. recovered st s)"
proof -
  let ?u = "u\<lparr>lh_n := 0\<rparr>"
  note u' = u [unfolded wrote_all_def]
  have bt: "bio_inv {} t" "held t = {}" "length (lh_block t) = LOGBLOCKS" using boot by (auto simp: boot_log_def)
  have e: "disk_ext t u" using u' by simp
  note fu = disk_ext_log [OF e]
  have du: "blk u = disk u" "disk u = apply_writes (replay_writes st (disk s)) (disk s)"
    using u' boot_blk [OF boot] t by simp_all
  have "st \<in> log_area st" by (simp add: log_area_def)
  then have h: "disk u st = disk s st"
    using replay_writes_area [OF wf, of st "log_count st (disk s)"] du(2) by (simp add: replay_writes_def)
  have l: "length (disk s st) = BSIZE" using bio_inv_disk [OF bt(1)] t by simp
  have "returns (write_head ?u) (\<lambda>_. wrote {} st (put32 0 0 (disk s st)) ?u)"
    using returns_write_head [of "{}" ?u] u' bt fu t du h l by (simp add: NBUF_def head_put_0)
  then show ?thesis
  proof (rule returns_mono)
    fix x v assume v: "wrote {} st (put32 0 0 (disk s st)) ?u v"
    note v' = v [unfolded wrote_def]
    have ev: "disk_ext ?u v" using v' by simp
    note fv = disk_ext_log [OF ev]
    have "log_ext s v"
      by (rule log_ext_trans [OF t(5) log_ext_trans [OF disk_log_ext [OF e] log_ext_trans [OF log_fields_ext(1) disk_log_ext [OF ev]]]])
    moreover have "log_inv v"
      using v' fv fu t bt put32_head_0 [OF l] by (simp add: log_inv_def logged_def)
    ultimately show "recovered st s v"
      using v' fv fu t bt u' du by (simp add: recovered_def recover_writes_def)
  qed
qed

lemma returns_initlog:
  assumes boot: "boot_log s" and wf: "wf_log (sb_logstart sb) (disk s)"
  shows "returns (initlog ROOTDEV sb s) (\<lambda>_. recovered (sb_logstart sb) s)"
proof -
  let ?st = "sb_logstart sb" and ?d = "disk s"
  define s0 where "s0 = s\<lparr>lg_start := ?st, lg_dev := ROOTDEV\<rparr>"
  have b: "bio_inv {} s0" "held s0 = {}" "length (lh_block s0) = LOGBLOCKS" "blk s0 = ?d" "lg_start s0 = ?st" "lg_dev s0 = ROOTDEV"
    using boot boot_blk [OF boot] by (auto simp: boot_log_def s0_def)
  have n: "log_count ?st ?d \<le> LOGBLOCKS" using wf by (simp add: wf_log_def)
  have e: "log_ext s s0" by (simp add: s0_def)
  have "initlog ROOTDEV sb s = recover_from_log s0" by (simp add: initlog_def s0_def LOGBLOCKS_def)
  moreover have "returns (recover_from_log s0) (\<lambda>_. recovered ?st s)"
    unfolding recover_from_log_def returns_kbind
  proof (rule returns_mono [OF returns_read_head [OF b(1,6)]], goal_cases)
    case (4 x t)
    then have t: "boot_log t" "lg_start t = ?st" "lg_dev t = ROOTDEV" "blk t = ?d" "disk t = ?d" "disk_writes t = disk_writes s"
      "nat (lh_n t) = log_count ?st ?d" "\<And>i. i < log_count ?st ?d \<Longrightarrow> lh_block t ! i = head_block (?d ?st) i"
      "lg_outstanding t = lg_outstanding s" "lg_committing t = lg_committing s" "log_ext s0 t"
      using b by (auto simp: boot_log_def log_count_def s0_def)
    show ?case
      by (rule returns_mono [OF returns_install_recovering [OF t(1) wf t(2,4,3,7,8)]])
        (auto intro: returns_clear_head [OF t(1) wf t(2,3,5,6) log_ext_trans [OF e t(11)] t(9,10)])
  qed (use b n in \<open>simp_all add: NBUF_def\<close>)
  ultimately show ?thesis by simp
qed

section \<open>Crashes\<close>

text \<open>What recovery makes of a disk.\<close>

definition contents :: "nat \<Rightarrow> (nat \<Rightarrow> bytes) \<Rightarrow> nat \<Rightarrow> bytes" where
  "contents st d = apply_writes (recover_writes st d) d"

lemma contents_replay: "b \<notin> log_area st \<Longrightarrow> contents st d b = apply_writes (replay_writes st d) d b"
  by (auto simp: contents_def recover_writes_def log_area_def)

lemma apply_writes_agree:
  "(b \<notin> fst ` set ws \<Longrightarrow> d b = e b) \<Longrightarrow> apply_writes ws d b = apply_writes ws e b"
proof (induction ws arbitrary: d e)
  case (Cons w ws)
  obtain c x where w: "w = (c, x)" by fastforce
  show ?case using Cons.prems unfolding w apply_writes_Cons by (intro Cons.IH) auto
qed simp

lemma replay_writes_cong:
  assumes "\<And>b. b \<in> log_area st \<Longrightarrow> e b = d b" and "log_count st d \<le> LOGBLOCKS"
  shows "replay_writes st e = replay_writes st d" and "wf_log st e \<longleftrightarrow> wf_log st d"
proof -
  have h: "e st = d st" using assms(1) [of st] by (simp add: log_area_def)
  then have c: "log_count st e = log_count st d" by (simp add: log_count_def)
  have "e (st + i + 1) = d (st + i + 1)" if "i < log_count st d" for i
    using that assms(2) by (intro assms(1) log_area_slot) simp
  then show "replay_writes st e = replay_writes st d" by (simp add: replay_writes_def c h)
  show "wf_log st e \<longleftrightarrow> wf_log st d" by (simp add: wf_log_def c h)
qed

lemma contents_cleared:
  "log_count st d = 0 \<Longrightarrow> wf_log st d \<and> (b \<notin> log_area st \<longrightarrow> contents st d b = d b)"
  by (auto simp: wf_log_def contents_replay replay_writes_def)

lemma take_snoc: "take k (us @ [w]) = (if k \<le> length us then take k us else us @ [w])"
  by (cases "k - length us") auto

lemma recover_prefix:
  fixes k :: nat
  assumes wf: "wf_log st d" and len: "length (d st) = BSIZE"
  defines "e \<equiv> apply_writes (take k (recover_writes st d)) d"
  shows "wf_log st e" and "b \<notin> log_area st \<Longrightarrow> contents st e b = contents st d b"
proof -
  let ?n = "log_count st d" and ?ws = "replay_writes st d"
  have n: "?n \<le> LOGBLOCKS" using wf by (simp add: wf_log_def)
  have "wf_log st e \<and> (b \<notin> log_area st \<longrightarrow> contents st e b = contents st d b)"
  proof (cases "k \<le> length ?ws")
    case True
    then have e: "e = apply_writes (take k ?ws) d" by (simp add: e_def recover_writes_def take_snoc)
    have "e b = d b" if "b \<in> log_area st" for b unfolding e by (rule replay_writes_area [OF wf that])
    note r = replay_writes_cong [OF this n]
    have "apply_writes ?ws e b = apply_writes ?ws d b"
    proof (rule apply_writes_agree)
      assume "b \<notin> fst ` set ?ws"
      then show "e b = d b" unfolding e by (intro apply_writes_other) (auto dest: in_set_takeD)
    qed
    then show ?thesis using r wf by (simp add: contents_replay)
  next
    case False
    then have e: "e = (apply_writes ?ws d)(st := put32 0 0 (d st))" by (simp add: e_def recover_writes_def take_snoc)
    then have "log_count st e = 0" by (simp add: log_count_def put32_head_0 len)
    then show ?thesis using contents_cleared [of st e b] e by (auto simp: contents_replay log_area_def)
  qed
  then show "wf_log st e" and "b \<notin> log_area st \<Longrightarrow> contents st e b = contents st d b" by auto
qed

text \<open>The two halves of a commit, seen on the disk.\<close>

lemma log_copies_area:
  assumes "log_inv s" and "k \<le> nat (lh_n s)" and "b \<notin> log_area (lg_start s)"
  shows "apply_writes (take j (log_copies s k)) d b = d b"
proof (rule apply_writes_other)
  have "lg_start s + i + 1 \<noteq> b" if "i < k" for i
  proof -
    have "i < LOGBLOCKS" using that assms(2) log_inv_n [OF assms(1)] by linarith
    then show ?thesis using log_area_slot [of i "lg_start s"] assms(3) by metis
  qed
  then have "b \<notin> fst ` set (log_copies s k)" unfolding fst_log_copies by blast
  then show "b \<notin> fst ` set (take j (log_copies s k))" by (auto dest: in_set_takeD)
qed

lemma log_copies_start: "apply_writes (take j (log_copies s k)) d (lg_start s) = d (lg_start s)"
proof (rule apply_writes_other)
  have "lg_start s \<notin> fst ` set (log_copies s k)" unfolding fst_log_copies by auto
  then show "lg_start s \<notin> fst ` set (take j (log_copies s k))" by (auto dest: in_set_takeD)
qed

lemma apply_home_copies:
  assumes "log_inv s"
  shows "apply_writes (home_copies s (nat (lh_n s))) d b = (if b \<in> logged s then blk s b else d b)"
proof -
  have "apply_writes (home_copies s (nat (lh_n s))) d b =
      (if b \<in> fst ` set (home_copies s (nat (lh_n s))) then blk s b else d b)"
    by (rule apply_writes_fun) (auto simp: home_copies_def)
  then show ?thesis by (simp add: fst_home_copies logged_eq [OF assms])
qed

text \<open>Before the header is written recovery finds an empty log; afterwards it finds all of the transaction.\<close>

lemma crash_before:
  assumes inv: "log_inv s" and k: "k \<le> nat (lh_n s)"
  defines "e \<equiv> apply_writes (take k (commit_writes s)) (disk s)"
  shows "wf_log (lg_start s) e \<and> (b \<notin> log_area (lg_start s) \<longrightarrow> contents (lg_start s) e b = disk s b)"
proof -
  have e: "e = apply_writes (take k (log_copies s (nat (lh_n s)))) (disk s)"
    using k log_inv_n [OF inv] by (auto simp: e_def commit_writes_def log_copies_def)
  have "log_count (lg_start s) e = 0"
    unfolding log_count_def e log_copies_start using log_inv_head [OF inv] by simp
  then show ?thesis
    using contents_cleared [of "lg_start s" e b] log_copies_area [OF inv order.refl, of b k "disk s"] e by simp
qed

lemma commit_point_disk:
  assumes inv: "log_inv s" and ready: "log_ready s"
    and area: "\<And>b. b \<in> log_area (lg_start s) \<Longrightarrow> e b = apply_writes (log_copies s (nat (lh_n s)) @ [(lg_start s, full_head s)]) (disk s) b"
  shows "replay_writes (lg_start s) e = home_copies s (nat (lh_n s))" and "wf_log (lg_start s) e"
proof -
  let ?n = "nat (lh_n s)" and ?st = "lg_start s"
  have n: "?n \<le> LOGBLOCKS" using log_inv_n [OF inv] by simp
  have h: "e ?st = full_head s" using area [of ?st] by (simp add: log_area_def)
  have c: "log_count ?st e = ?n" by (simp add: log_count_def h full_head_def head_put_ok(2) [OF length_blk [OF log_inv_bio [OF inv]] log_inv_n [OF inv]])
  have hb: "head_block (e ?st) i = lh_block s ! i" if "i < ?n" for i
    unfolding h full_head_def using log_nth(1) [OF inv] log_inv_bound [OF inv] that
    by (intro head_put_ok(3) [OF length_blk [OF log_inv_bio [OF inv]] log_inv_n [OF inv]]) auto
  have lb: "e (?st + i + 1) = blk s (lh_block s ! i)" if "i < ?n" for i
    using area [OF log_area_slot, of i] that n blk_commit_point [OF inv ready that] by simp
  show "replay_writes ?st e = home_copies s ?n"
    unfolding replay_writes_def home_copies_def c using hb lb by (intro map_cong refl) simp_all
  have "lh_block s ! i \<notin> log_area ?st" if "i < ?n" for i
    using log_nth(1) [OF inv that] log_inv_area [OF inv] by blast
  then show "wf_log ?st e" unfolding wf_log_def c using n hb by simp
qed

lemma crash_after:
  assumes inv: "log_inv s" and ready: "log_ready s" and k: "nat (lh_n s) < k" and n: "lh_n s > 0"
    and b: "b \<notin> log_area (lg_start s)"
  defines "e \<equiv> apply_writes (take k (commit_writes s)) (disk s)"
  shows "wf_log (lg_start s) e \<and> contents (lg_start s) e b = (if b \<in> logged s then blk s b else disk s b)"
proof -
  let ?n = "nat (lh_n s)" and ?st = "lg_start s" and ?home = "home_copies s (nat (lh_n s))"
  define us where "us = log_copies s ?n @ [(?st, full_head s)]"
  have len: "length us = Suc ?n" "length ?home = ?n" by (simp_all add: us_def log_copies_def home_copies_def)
  have cw: "commit_writes s = us @ (?home @ [(?st, head_put 0 (lh_block s) (full_head s))])"
    using n by (simp add: commit_writes_def us_def)
  have base: "apply_writes us (disk s) b = disk s b"
    using log_copies_area [OF inv order.refl b, of ?n] b by (auto simp: us_def log_copies_def log_area_def)
  show ?thesis
  proof (cases "k \<le> Suc ?n + ?n")
    case True
    then have e: "e = apply_writes (take (k - Suc ?n) ?home) (apply_writes us (disk s))"
      using k len by (simp add: e_def cw)
    have "take (k - Suc ?n) ?home = home_copies s (k - Suc ?n)"
      using True by (simp add: home_copies_def take_map)
    then have area: "e c = apply_writes us (disk s) c" if "c \<in> log_area ?st" for c
      using home_copies_area [OF inv _ that, of "k - Suc ?n"] True e by simp
    note r = commit_point_disk [OF inv ready area [unfolded us_def]]
    have "e b = disk s b" if "b \<notin> logged s"
    proof -
      have "b \<notin> fst ` set ?home" using that by (simp add: fst_home_copies logged_eq [OF inv])
      then have "b \<notin> fst ` set (take (k - Suc ?n) ?home)" by (auto dest: in_set_takeD)
      then show ?thesis unfolding e using base by (simp add: apply_writes_other)
    qed
    then show ?thesis using r b by (simp add: contents_replay apply_home_copies [OF inv])
  next
    case False
    then have e: "e = (apply_writes ?home (apply_writes us (disk s)))(?st := put32 0 0 (full_head s))"
      using len by (simp add: e_def cw head_put_0)
    then have "log_count ?st e = 0" by (simp add: log_count_def put32_head_0 log_start_free [OF inv ready])
    moreover have "b \<noteq> ?st" using b by (auto simp: log_area_def)
    ultimately show ?thesis
      using contents_cleared [of ?st e b] b e base by (simp add: apply_home_copies [OF inv])
  qed
qed

section \<open>Space in the log\<close>





section \<open>A concrete transaction\<close>

text \<open>One process, a zero disk, and one block logged: block 100, filled with sevens.\<close>

definition kctx0 :: kcontext where
  "kctx0 = \<lparr>c_ra = 0, c_sp = 0, c_s = replicate 12 0\<rparr>"

definition proc0 :: proc where
  "proc0 = \<lparr>p_state = UNUSED, p_chan = Chan_none, p_killed = 0, p_xstate = 0, p_pid = 0, p_parent = NPROC,
    p_kstack = 0, p_sz = 0, p_pagetable = 0, p_trapframe = 0, p_context = kctx0,
    p_ofile = replicate NOFILE None, p_cwd = None, p_name = replicate 16 0\<rparr>"

definition proc1 :: proc where
  "proc1 = proc0\<lparr>p_state := RUNNING, p_pid := 1\<rparr>"

definition log_boot :: "(nat \<Rightarrow> bytes) \<Rightarrow> log_state" where
  "log_boot d = binit \<lparr>mem = (\<lambda>_. 0), freelist = 0, k_end = 0, procs = [proc1], cur = 0, nextpid = 2, initproc = 0,
    disk = d, disk_writes = [], bufs = replicate NBUF buf0, lru = [],
    lg_start = 2, lg_outstanding = 0, lg_committing = False, lg_dev = ROOTDEV, lh_n = 0, lh_block = replicate LOGBLOCKS 0\<rparr>"

definition zero_block :: bytes where
  "zero_block = replicate BSIZE 0"

definition log_ex :: log_state where
  "log_ex = (log_boot (\<lambda>_. zero_block))\<lparr>
    bufs := (replicate NBUF buf0)[0 := \<lparr>b_valid = True, b_disk = False, b_dev = ROOTDEV, b_blockno = 100,
      b_lock = initsleeplock, b_refcnt = 1, b_data = replicate BSIZE 7\<rparr>],
    lh_n := 1, lh_block := 100 # replicate 29 0\<rparr>"

lemma boot_log_boot: "(\<And>b. length (d b) = BSIZE) \<Longrightarrow> boot_log (log_boot d)"
  unfolding boot_log_def log_boot_def
  by (intro conjI binit_ok) (simp_all add: binit_def)

lemma disk_log_boot [simp]: "disk (log_boot d) = d" "lg_start (log_boot d) = 2"
  by (simp_all add: log_boot_def binit_def)

lemma log_ex_logged [simp]: "logged log_ex = {100}"
  by (simp add: logged_def log_ex_def LOGBLOCKS_def)

lemma log_ex_cached: "cached_at log_ex i b \<longleftrightarrow> i = 0 \<and> b = 100"
  by (cases i) (auto simp: cached_at_def log_ex_def buf0_def param_defs nth_Cons')

lemma log_ex_bufs: "i < NBUF \<Longrightarrow> buf_ok {100} (disk log_ex) (bufs log_ex ! i)"
  by (cases "i = 0") (simp_all add: log_ex_def buf_ok_def buf0_def initsleeplock_def param_defs)

lemma log_ex_held [simp]: "held log_ex = {}"
proof -
  have "\<not> sl_locked (b_lock (bufs log_ex ! 0))" by (simp add: log_ex_def initsleeplock_def NBUF_def)
  then show ?thesis by (auto simp: held_def log_ex_cached)
qed

lemma log_ex_bio: "bio_inv {100} log_ex"
  unfolding bio_inv_def log_ex_cached using log_ex_bufs
  by (auto simp: log_ex_def log_boot_def binit_def foldl_Cons zero_block_def)

lemma log_ex_ok: "log_inv log_ex" "log_ready log_ex"
proof -
  have "head_n (disk log_ex (lg_start log_ex)) = 0"
    by (simp add: log_ex_def head_n_def get32_def get_at_def zero_block_def int_val_def)
  then show "log_inv log_ex"
    using log_ex_bio by (simp add: log_inv_def) (simp add: log_ex_def log_area_def LOGBLOCKS_def log_boot_def binit_def)
  show "log_ready log_ex" by (simp add: log_ready_def NBUF_def)
qed

text \<open>A disk on which the same transaction is committed in the log but not installed.\<close>

definition disk_ex :: "nat \<Rightarrow> bytes" where
  "disk_ex = (\<lambda>_. zero_block)(2 := head_put 1 [100] zero_block, 3 := replicate BSIZE 7)"

definition sb_ex :: superblock where
  "sb_ex = \<lparr>sb_magic = FSMAGIC, sb_size = FSSIZE, sb_nblocks = 1953, sb_ninodes = 200, sb_nlog = 31,
    sb_logstart = 2, sb_inodestart = 33, sb_bmapstart = 46\<rparr>"

lemma disk_ex_ok: "length (disk_ex b) = BSIZE" "log_count 2 disk_ex = 1" "wf_log 2 disk_ex"
proof -
  have n: "(0::int) \<le> 1" "1 \<le> int LOGBLOCKS" by (simp_all add: LOGBLOCKS_def)
  note h = head_put_ok [of zero_block 1 "[100]", OF _ n]
  have z: "length zero_block = BSIZE" by (simp add: zero_block_def)
  show "length (disk_ex b) = BSIZE" using h(1) z by (simp add: disk_ex_def)
  show c: "log_count 2 disk_ex = 1" using h(2) z by (simp add: log_count_def disk_ex_def)
  show "wf_log 2 disk_ex"
    unfolding wf_log_def c using h(3) [OF z, of 0] by (simp add: disk_ex_def log_area_def LOGBLOCKS_def)
qed

section \<open>Properties\<close>

text \<open>
  (C1) A crash during \<open>commit\<close>, after any number \<open>k\<close> of its device writes, is atomic: when the
  machine boots again from the disk as the crash left it, \<open>initlog\<close> returns, and every block
  outside the log holds its old contents (when at most the log blocks were written) or, for
  all logged blocks, the new contents.
\<close>

theorem commit_crash_atomic:
  assumes "log_inv s" and "log_ready s"
  shows "\<exists>t ws. commit s = Ok () t \<and> disk_writes t = disk_writes s @ ws \<and>
    (\<forall>k r sb. sb_logstart sb = lg_start s \<longrightarrow> boot_log r \<longrightarrow> disk r = apply_writes (take k ws) (disk s) \<longrightarrow>
       returns (initlog ROOTDEV sb r) (\<lambda>_ u. log_inv u \<and> (\<forall>b. b \<notin> log_area (lg_start s) \<longrightarrow>
         disk u b = (if k \<le> nat (lh_n s) \<or> b \<notin> logged s then disk s b else blk s b))))"
proof -
  obtain t where t: "commit s = Ok () t" "disk_writes t = disk_writes s @ commit_writes s"
    using returns_commit [OF assms] by (auto simp: returns_iff wrote_all_def)
  let ?e = "\<lambda>k. apply_writes (take k (commit_writes s)) (disk s)"
  have e: "wf_log (lg_start s) (?e k) \<and> (b \<notin> log_area (lg_start s) \<longrightarrow> contents (lg_start s) (?e k) b =
      (if k \<le> nat (lh_n s) \<or> b \<notin> logged s then disk s b else blk s b))" for k b
  proof (cases "k \<le> nat (lh_n s) \<or> lh_n s \<le> 0")
    case True
    then have "?e k = ?e (min k (nat (lh_n s)))" by (auto simp: commit_writes_def min_def)
    moreover have "b \<notin> logged s" if "lh_n s \<le> 0" using that by (simp add: logged_def)
    ultimately show ?thesis using crash_before [OF assms(1), of "min k (nat (lh_n s))" b] True by auto
  next
    case False
    then show ?thesis
      using crash_after [OF assms, of k b] crash_after [OF assms, of k "Suc (lg_start s + LOGBLOCKS)"] by (auto simp: log_area_def)
  qed
  have "returns (initlog ROOTDEV sb r) (\<lambda>_ u. log_inv u \<and> (\<forall>b. b \<notin> log_area (lg_start s) \<longrightarrow>
      disk u b = (if k \<le> nat (lh_n s) \<or> b \<notin> logged s then disk s b else blk s b)))"
    if "sb_logstart sb = lg_start s" "boot_log r" "disk r = ?e k" for k r sb
    by (rule returns_mono [OF returns_initlog [OF that(2)]])
      (use e [of k] that in \<open>auto simp: recovered_def contents_def\<close>)
  then show ?thesis using t by blast
qed

theorem commit_crash_atomic_witness:
  "log_inv log_ex \<and> log_ready log_ex \<and> logged log_ex = {100} \<and> blk log_ex 100 \<noteq> disk log_ex 100 \<and>
   (\<exists>t ws. commit log_ex = Ok () t \<and> disk_writes t = disk_writes log_ex @ ws \<and>
    (\<forall>k r sb. sb_logstart sb = lg_start log_ex \<longrightarrow> boot_log r \<longrightarrow> disk r = apply_writes (take k ws) (disk log_ex) \<longrightarrow>
       returns (initlog ROOTDEV sb r) (\<lambda>_ u. log_inv u \<and> (\<forall>b. b \<notin> log_area (lg_start log_ex) \<longrightarrow>
         disk u b = (if k \<le> nat (lh_n log_ex) \<or> b \<notin> logged log_ex then disk log_ex b else blk log_ex b)))))"
proof -
  have "blk log_ex 100 = replicate BSIZE 7"
    using blk_cached [OF log_ex_bio, of 0 100] log_ex_cached by (simp add: log_ex_def NBUF_def)
  moreover have "disk log_ex 100 = replicate BSIZE 0" by (simp add: log_ex_def zero_block_def)
  ultimately have "blk log_ex 100 \<noteq> disk log_ex 100" by simp
  then show ?thesis using commit_crash_atomic [OF log_ex_ok] log_ex_ok by simp
qed

text \<open>
  (C2) Recovery may crash too: from the disk left after any number \<open>k\<close> of the device writes of
  \<open>initlog\<close>, a second run of it returns and gives every block outside the log the same contents
  as the undisturbed run.
\<close>

theorem recovery_crash_safe:
  assumes "boot_log r" and "wf_log (sb_logstart sb) (disk r)"
  shows "\<exists>t ws. initlog ROOTDEV sb r = Ok () t \<and> disk_writes t = disk_writes r @ ws \<and>
    (\<forall>k q. boot_log q \<longrightarrow> disk q = apply_writes (take k ws) (disk r) \<longrightarrow>
       returns (initlog ROOTDEV sb q) (\<lambda>_ u. log_inv u \<and> (\<forall>b. b \<notin> log_area (sb_logstart sb) \<longrightarrow> disk u b = disk t b)))"
proof -
  let ?st = "sb_logstart sb"
  obtain t where t: "initlog ROOTDEV sb r = Ok () t" "recovered ?st r t"
    using returns_initlog [OF assms] by (auto simp: returns_iff)
  have len: "length (disk r ?st) = BSIZE" using assms(1) bio_inv_disk by (auto simp: boot_log_def)
  have "returns (initlog ROOTDEV sb q) (\<lambda>_ u. log_inv u \<and> (\<forall>b. b \<notin> log_area ?st \<longrightarrow> disk u b = disk t b))"
    if q: "boot_log q" "disk q = apply_writes (take k (recover_writes ?st (disk r))) (disk r)" for k q
  proof (rule returns_mono [OF returns_initlog [OF q(1)]])
    show "wf_log ?st (disk q)" unfolding q(2) by (rule recover_prefix(1) [OF assms(2) len])
    fix x u assume "recovered ?st q u"
    then show "log_inv u \<and> (\<forall>b. b \<notin> log_area ?st \<longrightarrow> disk u b = disk t b)"
      using recover_prefix(2) [OF assms(2) len, of _ k] t(2) q(2) by (simp add: recovered_def contents_def)
  qed
  then show ?thesis using t by (auto simp: recovered_def)
qed

theorem recovery_crash_safe_witness:
  "boot_log (log_boot disk_ex) \<and> wf_log (sb_logstart sb_ex) (disk (log_boot disk_ex)) \<and>
   log_count (sb_logstart sb_ex) (disk (log_boot disk_ex)) = 1 \<and>
   (\<exists>t ws. initlog ROOTDEV sb_ex (log_boot disk_ex) = Ok () t \<and> disk_writes t = disk_writes (log_boot disk_ex) @ ws \<and>
    (\<forall>k q. boot_log q \<longrightarrow> disk q = apply_writes (take k ws) (disk (log_boot disk_ex)) \<longrightarrow>
       returns (initlog ROOTDEV sb_ex q) (\<lambda>_ u. log_inv u \<and> (\<forall>b. b \<notin> log_area (sb_logstart sb_ex) \<longrightarrow> disk u b = disk t b))))"
proof -
  have b: "boot_log (log_boot disk_ex)" by (rule boot_log_boot) (rule disk_ex_ok)
  moreover have w: "wf_log (sb_logstart sb_ex) (disk (log_boot disk_ex))" using disk_ex_ok(3) by (simp add: sb_ex_def)
  moreover have "log_count (sb_logstart sb_ex) (disk (log_boot disk_ex)) = 1" using disk_ex_ok(2) by (simp add: sb_ex_def)
  ultimately show ?thesis using recovery_crash_safe [OF b w] by simp
qed

text \<open>
  (C8) Without a crash, \<open>commit\<close> returns with an empty log and a log header that is clear on
  the disk; no process sees a block outside the log change, and every such block that is
  not in use is on the disk.
\<close>

theorem commit_durable:
  assumes "log_inv s" and "log_ready s"
  shows "returns (commit s) (\<lambda>_ t. log_inv t \<and> logged t = {} \<and> held t = held s \<and>
    (\<forall>b. b \<notin> log_area (lg_start s) \<longrightarrow> blk t b = blk s b \<and> (b \<notin> held s \<longrightarrow> disk t b = blk s b)))"
proof (rule returns_mono [OF returns_commit [OF assms]])
  fix x t assume "wrote_all {} (commit_writes s) s (t\<lparr>lh_n := lh_n s\<rparr>) \<and> lh_n t = 0"
  then have w: "bio_inv {} t" "blk t = apply_writes (commit_writes s) (blk s)" "held t = held s" "lh_n t = 0"
      "disk t = apply_writes (commit_writes s) (disk s)" and e: "disk_ext s (t\<lparr>lh_n := lh_n s\<rparr>)"
    by (simp_all add: wrote_all_def)
  note f = disk_ext_log [OF e]
  have lg: "logged t = {}" by (simp add: logged_def w(4))
  have bt: "blk t b = blk s b" if "b \<notin> log_area (lg_start s)" for b
  proof -
    have "b \<noteq> lg_start s" using that by (auto simp: log_area_def)
    then show ?thesis
      using log_copies_area [OF assms(1) order.refl that, of "nat (lh_n s)"]
      by (simp add: w(2) commit_writes_def apply_home_copies [OF assms(1)] log_copies_def)
  qed
  have "disk t (lg_start s) = put32 0 0 (full_head s) \<or> lh_n s = 0 \<and> disk t (lg_start s) = disk s (lg_start s)"
    using log_inv_n [OF assms(1)] by (auto simp: w(5) commit_writes_def head_put_0)
  then have "head_n (disk t (lg_start s)) = 0"
    using put32_head_0 [OF log_start_free(4) [OF assms]] log_inv_head [OF assms(1)] by auto
  then have "log_inv t"
    using w f log_invD [OF assms(1)] unfolding log_inv_def lg by simp
  moreover have "disk t b = blk s b" if "b \<notin> log_area (lg_start s)" "b \<notin> held s" for b
    using blk_clean [OF w(1), of b] bt [OF that(1)] that(2) w(3) by simp
  ultimately show "log_inv t \<and> logged t = {} \<and> held t = held s \<and>
    (\<forall>b. b \<notin> log_area (lg_start s) \<longrightarrow> blk t b = blk s b \<and> (b \<notin> held s \<longrightarrow> disk t b = blk s b))"
    using lg w(3) bt by blast
qed

theorem commit_durable_witness:
  "log_inv log_ex \<and> log_ready log_ex \<and>
   returns (commit log_ex) (\<lambda>_ t. log_inv t \<and> logged t = {} \<and> held t = held log_ex \<and>
    (\<forall>b. b \<notin> log_area (lg_start log_ex) \<longrightarrow> blk t b = blk log_ex b \<and> (b \<notin> held log_ex \<longrightarrow> disk t b = blk log_ex b)))"
  using commit_durable [OF log_ex_ok] log_ex_ok by blast



text \<open>
  The limit is exact: with \<^verbatim>\<open>LOGBLOCKS\<close> blocks logged even a second write of a logged block,
  which needs no space, panics.
\<close>

lemma log_write_full:
  "lh_n s = int LOGBLOCKS \<Longrightarrow> log_write i s = Panic ''too big a transaction''"
  by (simp add: log_write_def)

end
