(* ===== verification/Block_Store.thy ===== *)
theory Block_Store
  imports Log_Crash
begin

text \<open>
  The interface between the file system and the layers below it: \<^verbatim>\<open>bread\<close>, access to
  \<^verbatim>\<open>bp->data\<close>, \<^verbatim>\<open>log_write\<close> and \<^verbatim>\<open>brelse\<close>. The locale \<open>block_store\<close> says what the file
  system relies on; the interpretation at the end proves it for the buffer cache and the
  log. The contents of the blocks are a function \<open>view\<close>; \<open>slots\<close> counts the buffers that
  are neither pinned by the log nor locked.
\<close>

section \<open>The interface\<close>

locale block_store =
  fixes rd :: "nat \<Rightarrow> 's \<Rightarrow> (nat, 's) kout"
    and dat :: "nat \<Rightarrow> 's \<Rightarrow> bytes"
    and put :: "nat \<Rightarrow> bytes \<Rightarrow> 's \<Rightarrow> 's"
    and wr :: "nat \<Rightarrow> 's \<Rightarrow> (unit, 's) kout"
    and rel :: "nat \<Rightarrow> 's \<Rightarrow> (unit, 's) kout"
    and view :: "'s \<Rightarrow> nat \<Rightarrow> bytes"
    and holds :: "'s \<Rightarrow> nat set"
    and hold :: "'s \<Rightarrow> nat \<Rightarrow> nat \<Rightarrow> bool"
    and slots :: "'s \<Rightarrow> int"
    and clean :: "'s \<Rightarrow> nat \<Rightarrow> bool"
    and loggable :: "'s \<Rightarrow> nat \<Rightarrow> bool"
    and ok :: "'s \<Rightarrow> bool"
    and ext :: "'s \<Rightarrow> 's \<Rightarrow> bool"
  assumes ext_trans: "ext s t \<Longrightarrow> ext t u \<Longrightarrow> ext s u"
    and ext_refl: "ext s s"
    and view_len: "ok s \<Longrightarrow> length (view s b) = BSIZE"
    and dat_view: "ok s \<Longrightarrow> hold s i b \<Longrightarrow> dat i s = view s b"
    and free_clean: "ok s \<Longrightarrow> b \<notin> holds s \<Longrightarrow> clean s b"
    and hold_holds: "hold s i b \<Longrightarrow> b \<in> holds s"
    and rd_law: "ok s \<Longrightarrow> b \<notin> holds s \<Longrightarrow> 0 < slots s \<Longrightarrow>
      returns (rd b s) (\<lambda>i t. ok t \<and> hold t i b \<and> holds t = insert b (holds s) \<and> view t = view s \<and>
        slots t = slots s - 1 \<and> (\<forall>j c. hold s j c \<longrightarrow> hold t j c) \<and> clean t = clean s \<and>
        loggable t = loggable s \<and> ext s t)"
    and put_law: "ok s \<Longrightarrow> hold s i b \<Longrightarrow> length d = BSIZE \<Longrightarrow>
      ok (put i d s) \<and> hold (put i d s) = hold s \<and> holds (put i d s) = holds s \<and> view (put i d s) = (view s)(b := d) \<and>
      slots (put i d s) = slots s \<and> (\<forall>c. c \<noteq> b \<longrightarrow> clean (put i d s) c = clean s c) \<and>
      loggable (put i d s) = loggable s \<and> ext s (put i d s)"
    and wr_law: "ok s \<Longrightarrow> hold s i b \<Longrightarrow> loggable s b \<Longrightarrow> 0 < slots s \<Longrightarrow>
      returns (wr i s) (\<lambda>_ t. ok t \<and> hold t = hold s \<and> holds t = holds s \<and> view t = view s \<and>
        slots s \<le> slots t + 1 \<and> clean t b \<and> (\<forall>c. clean s c \<longrightarrow> clean t c) \<and> loggable t = loggable s \<and> ext s t)"
    and rel_law: "ok s \<Longrightarrow> hold s i b \<Longrightarrow> clean s b \<Longrightarrow>
      returns (rel i s) (\<lambda>_ t. ok t \<and> holds t = holds s - {b} \<and> view t = view s \<and> slots t = slots s + 1 \<and>
        (\<forall>j c. c \<noteq> b \<longrightarrow> hold s j c \<longrightarrow> hold t j c) \<and> clean t = clean s \<and> loggable t = loggable s \<and> ext s t)"
begin

text \<open>The laws as rules for the first call of a sequence.\<close>

lemma rd_wp:
  assumes "ok s" and "b \<notin> holds s" and "0 < slots s"
    and "\<And>i t. ok t \<Longrightarrow> hold t i b \<Longrightarrow> dat i t = view s b \<Longrightarrow> holds t = insert b (holds s) \<Longrightarrow> view t = view s \<Longrightarrow>
      slots t = slots s - 1 \<Longrightarrow> (\<And>j c. hold s j c \<Longrightarrow> hold t j c) \<Longrightarrow> clean t = clean s \<Longrightarrow> clean t b \<Longrightarrow>
      loggable t = loggable s \<Longrightarrow> ext s t \<Longrightarrow> returns (K i t) Q"
  shows "returns (kbind (rd b s) K) Q"
  unfolding returns_kbind
  by (rule returns_mono [OF rd_law [OF assms(1-3)]], rule assms(4))
    (use free_clean [OF assms(1,2)] in \<open>auto simp: dat_view\<close>)

lemma rel_wp:
  assumes "ok s" and "hold s i b" and "clean s b"
    and "\<And>t. ok t \<Longrightarrow> holds t = holds s - {b} \<Longrightarrow> view t = view s \<Longrightarrow> slots t = slots s + 1 \<Longrightarrow>
      (\<And>j c. c \<noteq> b \<Longrightarrow> hold s j c \<Longrightarrow> hold t j c) \<Longrightarrow> clean t = clean s \<Longrightarrow> loggable t = loggable s \<Longrightarrow> ext s t \<Longrightarrow>
      returns (K t) Q"
  shows "returns (kbind (rel i s) (\<lambda>_. K)) Q"
  unfolding returns_kbind
  by (rule returns_mono [OF rel_law [OF assms(1-3)]], rule assms(4)) auto

text \<open>Reading a block: lock it, look at it, release it.\<close>

lemma read_block:
  assumes ok: "ok s" and b: "b \<notin> holds s" and room: "0 < slots s"
    and K: "\<And>t. ok t \<Longrightarrow> view t = view s \<Longrightarrow> holds t = holds s \<Longrightarrow> slots t = slots s \<Longrightarrow> ext s t \<Longrightarrow>
      loggable t = loggable s \<Longrightarrow> clean t = clean s \<Longrightarrow> (\<And>j c. hold s j c \<Longrightarrow> hold t j c) \<Longrightarrow> returns (K (view s b) t) Q"
  shows "returns (kbind (rd b s) (\<lambda>i s. kbind (rel i s) (\<lambda>_ t. K (dat i s) t))) Q"
  unfolding returns_kbind
proof (rule returns_mono [OF rd_law [OF ok b room]])
  fix i t
  assume "ok t \<and> hold t i b \<and> holds t = insert b (holds s) \<and> view t = view s \<and> slots t = slots s - 1 \<and>
    (\<forall>j c. hold s j c \<longrightarrow> hold t j c) \<and> clean t = clean s \<and> loggable t = loggable s \<and> ext s t"
  then have t: "ok t" "hold t i b" "holds t = insert b (holds s)" "view t = view s" "slots t = slots s - 1"
    "clean t = clean s" "loggable t = loggable s" "ext s t" and hs: "\<And>j c. hold s j c \<Longrightarrow> hold t j c" by auto
  have "clean t b" using free_clean [OF ok b] t(6) by simp
  show "returns (rel i t) (\<lambda>_ u. returns (K (dat i t) u) Q)"
  proof (rule returns_mono [OF rel_law [OF t(1,2) \<open>clean t b\<close>]])
    fix x u
    assume u: "ok u \<and> holds u = holds t - {b} \<and> view u = view t \<and> slots u = slots t + 1 \<and>
      (\<forall>j c. c \<noteq> b \<longrightarrow> hold t j c \<longrightarrow> hold u j c) \<and> clean u = clean t \<and> loggable u = loggable t \<and> ext t u"
    have "hold u j c" if h: "hold s j c" for j c
    proof -
      have "c \<noteq> b" using hold_holds [OF h] b by auto
      then show ?thesis using hs [OF h] u by blast
    qed
    then show "returns (K (dat i t) u) Q"
      unfolding dat_view [OF t(1,2)] t(4)
      by (intro K) (use u t b room in \<open>auto intro: ext_trans\<close>)
  qed
qed

text \<open>Updating a block in a transaction: lock it, store into it, log it, release it.\<close>

lemma update_held:
  assumes ok: "ok s" and h: "hold s i b" and len: "length d = BSIZE" and lg: "loggable s b" and room: "0 < slots s"
    and K: "\<And>t. ok t \<Longrightarrow> view t = (view s)(b := d) \<Longrightarrow> holds t = holds s - {b} \<Longrightarrow> slots s \<le> slots t \<Longrightarrow> ext s t \<Longrightarrow>
      loggable t = loggable s \<Longrightarrow> (\<And>j c. c \<noteq> b \<Longrightarrow> hold s j c \<Longrightarrow> hold t j c) \<Longrightarrow>
      (\<And>c. c \<noteq> b \<Longrightarrow> clean s c \<Longrightarrow> clean t c) \<Longrightarrow> returns (K t) Q"
  shows "returns (kbind (wr i (put i d s)) (\<lambda>_ s. kbind (rel i s) (\<lambda>_ s. K s))) Q"
  unfolding returns_kbind
proof -
  let ?s = "put i d s"
  note p = put_law [OF ok h len]
  have q: "ok ?s" "hold ?s i b" "loggable ?s b" "0 < slots ?s" using p h lg room by auto
  show "returns (wr i ?s) (\<lambda>_ t. returns (rel i t) (\<lambda>_ u. returns (K u) Q))"
  proof (rule returns_mono [OF wr_law [OF q]])
    fix x t
    assume t: "ok t \<and> hold t = hold ?s \<and> holds t = holds ?s \<and> view t = view ?s \<and> slots ?s \<le> slots t + 1 \<and>
      clean t b \<and> (\<forall>c. clean ?s c \<longrightarrow> clean t c) \<and> loggable t = loggable ?s \<and> ext ?s t"
    then have r: "ok t" "hold t i b" "clean t b" using q by auto
    show "returns (rel i t) (\<lambda>_ u. returns (K u) Q)"
      by (rule returns_mono [OF rel_law [OF r]], rule K) (use p t in \<open>auto intro: ext_trans\<close>)
  qed
qed

lemma update_block:
  assumes ok: "ok s" and b: "b \<notin> holds s" and lg: "loggable s b" and room: "2 \<le> slots s" and len: "length (f (view s b)) = BSIZE"
    and K: "\<And>t. ok t \<Longrightarrow> view t = (view s)(b := f (view s b)) \<Longrightarrow> holds t = holds s \<Longrightarrow> slots s \<le> slots t + 1 \<Longrightarrow> ext s t \<Longrightarrow>
      loggable t = loggable s \<Longrightarrow> (\<And>j c. hold s j c \<Longrightarrow> hold t j c) \<Longrightarrow>
      (\<And>c. clean s c \<Longrightarrow> clean t c) \<Longrightarrow> returns (K t) Q"
  shows "returns (kbind (rd b s) (\<lambda>i s. kbind (wr i (put i (f (dat i s)) s)) (\<lambda>_ s. kbind (rel i s) (\<lambda>_ s. K s)))) Q"
proof -
  have r: "0 < slots s" using room by simp
  show ?thesis
    unfolding returns_kbind [of "rd b s"]
  proof (rule returns_mono [OF rd_law [OF ok b r]])
    fix i t
    assume "ok t \<and> hold t i b \<and> holds t = insert b (holds s) \<and> view t = view s \<and> slots t = slots s - 1 \<and>
      (\<forall>j c. hold s j c \<longrightarrow> hold t j c) \<and> clean t = clean s \<and> loggable t = loggable s \<and> ext s t"
    then have t: "ok t" "hold t i b" "holds t = insert b (holds s)" "view t = view s" "slots t = slots s - 1"
      "clean t = clean s" "loggable t = loggable s" "ext s t" and hs: "\<And>j c. hold s j c \<Longrightarrow> hold t j c" by auto
    show "returns (kbind (wr i (put i (f (dat i t)) t)) (\<lambda>_ s. kbind (rel i s) (\<lambda>_ s. K s))) Q"
      unfolding dat_view [OF t(1,2)] t(4)
    proof (rule update_held [OF t(1,2)])
      fix u
      assume u: "ok u" "view u = (view t)(b := f (view s b))" "holds u = holds t - {b}" "slots t \<le> slots u" "ext t u"
        "loggable u = loggable t" and hu: "\<And>j c. c \<noteq> b \<Longrightarrow> hold t j c \<Longrightarrow> hold u j c"
        and cu: "\<And>c. c \<noteq> b \<Longrightarrow> clean t c \<Longrightarrow> clean u c"
      have "clean u c" if "clean s c" for c
        using that cu [of c] t u b free_clean [OF u(1), of b] by (cases "c = b") auto
      moreover have "hold u j c" if h: "hold s j c" for j c
        using hold_holds [OF h] b hs [OF h] hu by metis
      ultimately show "returns (K u) Q"
        by (intro K) (use u t b room in \<open>auto intro: ext_trans\<close>)
    qed (use len lg t room in auto)
  qed
qed

end

section \<open>The buffer cache and the log provide it\<close>

definition slots :: "'z log_state_scheme \<Rightarrow> int" where
  "slots s = int NBUF - lh_n s - int (card (held s))"

definition clean :: "'z log_state_scheme \<Rightarrow> nat \<Rightarrow> bool" where
  "clean s b \<longleftrightarrow> b \<in> logged s \<or> blk s b = disk s b"

definition loggable :: "'z log_state_scheme \<Rightarrow> nat \<Rightarrow> bool" where
  "loggable s b \<longleftrightarrow> 1 \<le> lg_outstanding s \<and> b \<notin> log_area (lg_start s) \<and> b < 2 ^ 32"

text \<open>Inside a transaction the position of the log and the count of operations stay.\<close>

definition tx_ext :: "'z log_state_scheme \<Rightarrow> 'z log_state_scheme \<Rightarrow> bool" where
  "tx_ext s t \<longleftrightarrow> log_ext s t \<and> lg_start t = lg_start s \<and> lg_outstanding t = lg_outstanding s \<and>
    lg_committing t = lg_committing s"

lemma tx_ext_refl [simp]: "tx_ext s s"
  by (simp add: tx_ext_def)

lemma tx_ext_trans: "tx_ext s t \<Longrightarrow> tx_ext t u \<Longrightarrow> tx_ext s u"
  unfolding tx_ext_def using log_ext_trans by auto

lemma bio_ext_logged:
  assumes "bio_ext s t"
  shows "logged t = logged s" and "loggable t = loggable s" and "tx_ext s t"
    and "log_inv s \<Longrightarrow> bio_inv (logged s) t \<Longrightarrow> log_inv t" and "slots t = slots s + int (card (held s)) - int (card (held t))"
proof -
  note f = disk_ext_log [OF bio_disk_ext [OF assms]]
  show l: "logged t = logged s" by (simp add: logged_def f)
  show "loggable t = loggable s" by (simp add: loggable_def f fun_eq_iff)
  show "tx_ext s t" using disk_log_ext [OF bio_disk_ext [OF assms]] f by (simp add: tx_ext_def)
  show "slots t = slots s + int (card (held s)) - int (card (held t))" by (simp add: slots_def f)
  show "log_inv t" if "log_inv s" "bio_inv (logged s) t"
    using that bio_ext_disk [OF assms] unfolding log_inv_def l by (simp add: f)
qed

interpretation store: block_store "bread ROOTDEV" "\<lambda>i s. bdata i s" set_data log_write brelse
  blk held holding slots clean loggable log_inv "tx_ext :: 'z log_state_scheme \<Rightarrow> 'z log_state_scheme \<Rightarrow> bool"
proof (unfold_locales, goal_cases)
  case (1 s t u) then show ?case by (rule tx_ext_trans)
next
  case (2 s) show ?case by simp
next
  case (3 s b) then show ?case using length_blk log_inv_bio by blast
next
  case (4 s i b) then show ?case using bdata_holding log_inv_bio by blast
next
  case (5 s b) then show ?case using blk_clean log_inv_bio unfolding clean_def by blast
next
  case (6 s i b) then show ?case by (rule holding_held)
next
  case (7 s b)
  have "card (logged s \<union> held s) \<le> card (logged s) + card (held s)" by (rule card_Un_le)
  then have room: "card (logged s \<union> held s) < NBUF"
    using 7 card_logged [of s] log_inv_n [of s] by (simp add: slots_def)
  show ?case
  proof (rule returns_mono [OF returns_bread [OF log_inv_bio [OF 7(1)] 7(2)]])
    fix i t assume "bread_post (logged s) b s i t"
    note p = this [unfolded bread_post_def]
    then have e: "bio_ext s t" by simp
    note q = bio_ext_logged [OF e]
    have c: "clean t = clean s" using p bio_ext_disk [OF e] by (simp add: clean_def q(1) fun_eq_iff)
    show "log_inv t \<and> holding t i b \<and> held t = insert b (held s) \<and> blk t = blk s \<and> slots t = slots s - 1 \<and>
        (\<forall>j c. holding s j c \<longrightarrow> holding t j c) \<and> clean t = clean s \<and> loggable t = loggable s \<and> tx_ext s t"
      using p q 7 c by (simp add: finite_held)
  qed (use room in simp)
next
  case (8 s i b d)
  note p = set_data_ok [OF log_inv_bio [OF 8(1)] 8(2,3)]
  note q = bio_ext_logged [OF p(5)]
  show ?case using p q 8 bio_ext_disk [OF p(5)] by (simp add: clean_def fun_eq_iff)
next
  case (9 s i b)
  have r: "1 \<le> lg_outstanding s" "b \<notin> log_area (lg_start s)" "b < 2 ^ 32" "lh_n s < int LOGBLOCKS"
    using 9 by (auto simp: loggable_def slots_def NBUF_def LOGBLOCKS_def)
  show ?case
  proof (rule returns_mono [OF returns_log_write [OF 9(1,2) r(1,4,2,3)]])
    fix x t assume p: "log_write_post b s t"
    then show "log_inv t \<and> holding t = holding s \<and> held t = held s \<and> blk t = blk s \<and> slots s \<le> slots t + 1 \<and>
        clean t b \<and> (\<forall>c. clean s c \<longrightarrow> clean t c) \<and> loggable t = loggable s \<and> tx_ext s t"
      by (auto simp: log_write_post_def clean_def slots_def loggable_def tx_ext_def fun_eq_iff)
  qed
next
  case (10 s i b)
  show ?case
  proof (rule returns_mono [OF returns_brelse [OF log_inv_bio [OF 10(1)] 10(2) 10(3) [unfolded clean_def]]])
    fix x t assume "brelse_post (logged s) b s t"
    note p = this [unfolded brelse_post_def]
    then have e: "bio_ext s t" by simp
    note q = bio_ext_logged [OF e]
    have c: "clean t = clean s" using p bio_ext_disk [OF e] by (simp add: clean_def q(1) fun_eq_iff)
    have "b \<in> held s" using 10(2) by (rule holding_held)
    then have "card (held s) = Suc (card (held t))" using p card.remove [OF finite_held, of b s] by metis
    then show "log_inv t \<and> held t = held s - {b} \<and> blk t = blk s \<and> slots t = slots s + 1 \<and>
        (\<forall>j c. c \<noteq> b \<longrightarrow> holding s j c \<longrightarrow> holding t j c) \<and> clean t = clean s \<and> loggable t = loggable s \<and> tx_ext s t"
      using p q 10 c by simp
  qed
qed

end
