(* ===== verification/Fs_Base.thy ===== *)
theory Fs_Base
  imports Block_Store
begin

text \<open>
  Data structures of the file system: \<^verbatim>\<open>struct dinode\<close> of \<^verbatim>\<open>kernel/fs.h\<close> with its layout in an
  inode block, \<^verbatim>\<open>struct inode\<close> of \<^verbatim>\<open>kernel/file.h\<close>, the superblock and the inode table of
  \<^verbatim>\<open>kernel/fs.c\<close>, and the bits of the free map.
\<close>

section \<open>Data\<close>

text \<open>\<^verbatim>\<open>kernel/stat.h\<close>\<close>

abbreviation (input) T_DIR :: int where "T_DIR \<equiv> 1"
abbreviation (input) T_FILE :: int where "T_FILE \<equiv> 2"
abbreviation (input) T_DEVICE :: int where "T_DEVICE \<equiv> 3"

record dinode =
  d_type :: int
  d_major :: int
  d_minor :: int
  d_nlink :: int
  d_size :: nat
  d_addrs :: "nat list"

record inode =
  i_dev :: nat
  i_inum :: nat
  i_ref :: int
  i_lock :: sleeplock
  i_valid :: bool
  i_type :: int
  i_major :: int
  i_minor :: int
  i_nlink :: int
  i_size :: nat
  i_addrs :: "nat list"

record fs_state = log_state +
  sb :: superblock
  itable :: "inode list"

definition upd_inode :: "nat \<Rightarrow> (inode \<Rightarrow> inode) \<Rightarrow> 'z fs_state_scheme \<Rightarrow> 'z fs_state_scheme" where
  "upd_inode i f s = s\<lparr>itable := (itable s)[i := f (itable s ! i)]\<rparr>"

section \<open>Layout of the superblock and of an inode block\<close>

definition sb_of_bytes :: "bytes \<Rightarrow> superblock" where
  "sb_of_bytes d = \<lparr>sb_magic = get32 0 d, sb_size = get32 1 d, sb_nblocks = get32 2 d, sb_ninodes = get32 3 d,
    sb_nlog = get32 4 d, sb_logstart = get32 5 d, sb_inodestart = get32 6 d, sb_bmapstart = get32 7 d\<rparr>"

definition dinode_bytes :: "dinode \<Rightarrow> bytes" where
  "dinode_bytes di = short_bytes (d_type di) @ short_bytes (d_major di) @ short_bytes (d_minor di) @
    short_bytes (d_nlink di) @ le_bytes 4 (d_size di) @ concat (map (le_bytes 4) (d_addrs di))"

definition dinode_of :: "bytes \<Rightarrow> dinode" where
  "dinode_of bs = \<lparr>d_type = short_val (get_at 0 2 bs), d_major = short_val (get_at 2 2 bs),
    d_minor = short_val (get_at 4 2 bs), d_nlink = short_val (get_at 6 2 bs), d_size = get32 2 bs,
    d_addrs = map (\<lambda>i. get32 (3 + i) bs) [0..<NDIRECT + 1]\<rparr>"

text \<open>\<^verbatim>\<open>(struct dinode*)bp->data + inum%IPB\<close>: a dinode takes 64 bytes.\<close>

definition get_dinode :: "nat \<Rightarrow> bytes \<Rightarrow> dinode" where
  "get_dinode i d = dinode_of (get_at (64 * i) 64 d)"

definition put_dinode :: "nat \<Rightarrow> dinode \<Rightarrow> bytes \<Rightarrow> bytes" where
  "put_dinode i di d = put_at (64 * i) (dinode_bytes di) d"

definition dinode_ok :: "dinode \<Rightarrow> bool" where
  "dinode_ok di \<longleftrightarrow> is_short (d_type di) \<and> is_short (d_major di) \<and> is_short (d_minor di) \<and> is_short (d_nlink di) \<and>
    d_size di < 2 ^ 32 \<and> length (d_addrs di) = NDIRECT + 1 \<and> (\<forall>a\<in>set (d_addrs di). a < 2 ^ 32)"

definition dinode0 :: dinode where
  "dinode0 = \<lparr>d_type = 0, d_major = 0, d_minor = 0, d_nlink = 0, d_size = 0, d_addrs = replicate (NDIRECT + 1) 0\<rparr>"

section \<open>The free map\<close>

text \<open>\<^verbatim>\<open>m = 1 << (bi % 8)\<close>, the test \<^verbatim>\<open>bp->data[bi/8] & m\<close>, and the two updates.\<close>

definition bit_mask :: "nat \<Rightarrow> u8" where
  "bit_mask bi = push_bit (bi mod 8) 1"

definition bit_used :: "bytes \<Rightarrow> nat \<Rightarrow> bool" where
  "bit_used d bi \<longleftrightarrow> (d ! (bi div 8)) AND bit_mask bi \<noteq> 0"

definition bit_mark :: "nat \<Rightarrow> bytes \<Rightarrow> bytes" where
  "bit_mark bi d = d[bi div 8 := (d ! (bi div 8)) OR bit_mask bi]"

definition bit_clear :: "nat \<Rightarrow> bytes \<Rightarrow> bytes" where
  "bit_clear bi d = d[bi div 8 := (d ! (bi div 8)) AND NOT (bit_mask bi)]"

section \<open>Lemmas on the layouts\<close>

lemma bit_used_iff: "bit_used d bi \<longleftrightarrow> bit (d ! (bi div 8)) (bi mod 8)"
  by (simp add: bit_used_def bit_mask_def push_bit_of_1 and_exp_eq_0_iff_not_bit)

lemma length_bit_mark [simp]: "length (bit_mark bi d) = length d" "length (bit_clear bi d) = length d"
  by (simp_all add: bit_mark_def bit_clear_def)

lemma bit_used_mark:
  assumes "bi div 8 < length d"
  shows "bit_used (bit_mark bi d) bj \<longleftrightarrow> bj = bi \<or> bit_used d bj"
proof (cases "bj div 8 = bi div 8")
  case True
  then have "bj = bi \<longleftrightarrow> bj mod 8 = bi mod 8" by (metis div_mult_mod_eq)
  then show ?thesis using True assms
    by (auto simp: bit_used_iff bit_mark_def bit_mask_def bit_simps)
next
  case False
  then show ?thesis by (auto simp: bit_used_iff bit_mark_def)
qed

lemma bit_used_clear:
  assumes "bi div 8 < length d"
  shows "bit_used (bit_clear bi d) bj \<longleftrightarrow> bj \<noteq> bi \<and> bit_used d bj"
proof (cases "bj div 8 = bi div 8")
  case True
  then have "bj = bi \<longleftrightarrow> bj mod 8 = bi mod 8" by (metis div_mult_mod_eq)
  then show ?thesis using True assms
    by (auto simp: bit_used_iff bit_clear_def bit_mask_def bit_simps)
next
  case False
  then show ?thesis by (auto simp: bit_used_iff bit_clear_def)
qed


lemma get_at_append_right: "length xs \<le> i \<Longrightarrow> get_at i n (xs @ ys) = get_at (i - length xs) n ys"
  by (simp add: get_at_def)

lemma get_at_append_left: "i + n \<le> length xs \<Longrightarrow> get_at i n (xs @ ys) = get_at i n xs"
  by (simp add: get_at_def)

lemma length_words [simp]: "length (concat (map (le_bytes 4) as)) = 4 * length as"
  by (induction as) auto

lemma get32_words:
  "i < length as \<Longrightarrow> \<forall>a\<in>set as. a < 2 ^ 32 \<Longrightarrow> get32 i (concat (map (le_bytes 4) as)) = as ! i"
proof (induction as arbitrary: i)
  case (Cons a as)
  then show ?case
  proof (cases i)
    case 0
    then show ?thesis using Cons.prems by (simp add: get32_def get_at_def le_val_bytes)
  next
    case (Suc j)
    then have "get32 i (concat (map (le_bytes 4) (a # as))) = get32 j (concat (map (le_bytes 4) as))"
      by (simp add: get32_def get_at_append_right)
    then show ?thesis using Cons Suc by simp
  qed
qed simp

lemma words_get32: "length bs = 4 * n \<Longrightarrow> concat (map (\<lambda>i. le_bytes 4 (get32 i bs)) [0..<n]) = bs"
proof (induction n arbitrary: bs)
  case (Suc n)
  define hd4 and tl4 where "hd4 = take 4 bs" and "tl4 = drop 4 bs"
  have bs: "bs = hd4 @ tl4" and l: "length hd4 = 4" "length tl4 = 4 * n"
    using Suc.prems by (simp_all add: hd4_def tl4_def)
  have "get32 (Suc i) bs = get32 i tl4" for i
    unfolding bs by (simp add: get32_def get_at_append_right l)
  moreover have "le_bytes 4 (get32 0 bs) = hd4"
    using le_bytes_val [of hd4] l by (simp add: bs get32_def get_at_def)
  ultimately have "concat (map (\<lambda>i. le_bytes 4 (get32 i bs)) [0..<Suc n]) = hd4 @ concat (map (\<lambda>i. le_bytes 4 (get32 i tl4)) [0..<n])"
    unfolding map_upt_Suc by (simp add: comp_def)
  then show ?case using Suc.IH [OF l(2)] bs by simp
qed simp

lemma length_dinode_bytes: "length (d_addrs di) = NDIRECT + 1 \<Longrightarrow> length (dinode_bytes di) = 64"
  by (simp add: dinode_bytes_def)

lemma dinode_of_bytes [codec]:
  assumes "dinode_ok di"
  shows "dinode_of (dinode_bytes di) = di"
proof -
  define h where "h = short_bytes (d_type di) @ short_bytes (d_major di) @ short_bytes (d_minor di) @ short_bytes (d_nlink di)"
  define w where "w = concat (map (le_bytes 4) (d_addrs di))"
  have bs: "dinode_bytes di = h @ le_bytes 4 (d_size di) @ w" by (simp add: dinode_bytes_def h_def w_def)
  have "get32 2 (dinode_bytes di) = d_size di"
    using assms by (simp add: bs get32_def h_def get_at_def le_val_bytes dinode_ok_def)
  moreover have "get32 (3 + i) (dinode_bytes di) = d_addrs di ! i" if "i < NDIRECT + 1" for i
  proof -
    have "get32 (3 + i) (dinode_bytes di) = get32 i w" by (simp add: bs get32_def h_def get_at_def)
    then show ?thesis unfolding w_def using assms that by (simp add: get32_words dinode_ok_def)
  qed
  then have "map (\<lambda>i. get32 (3 + i) (dinode_bytes di)) [0..<NDIRECT + 1] = d_addrs di"
    using assms by (intro nth_equalityI) (auto simp: dinode_ok_def simp del: upt_Suc)
  ultimately show ?thesis
    using assms by (simp add: dinode_of_def dinode_bytes_def get_at_def dinode_ok_def short_val_bytes del: upt_Suc)
qed

lemma get_dinode_put_same [simp, codec]:
  "dinode_ok di \<Longrightarrow> i < IPB \<Longrightarrow> length d = BSIZE \<Longrightarrow> get_dinode i (put_dinode i di d) = di"
  using get_put_same [of "64 * i" "dinode_bytes di" d]
  by (simp add: get_dinode_def put_dinode_def length_dinode_bytes dinode_ok_def dinode_of_bytes)

lemma get_dinode_put_other [simp, codec]:
  "length (d_addrs di) = NDIRECT + 1 \<Longrightarrow> i < IPB \<Longrightarrow> j < IPB \<Longrightarrow> i \<noteq> j \<Longrightarrow> length d = BSIZE \<Longrightarrow>
    get_dinode j (put_dinode i di d) = get_dinode j d"
  unfolding get_dinode_def put_dinode_def
  by (subst get_put_other) (auto simp: length_dinode_bytes)

lemma length_put_dinode [simp]:
  "length (d_addrs di) = NDIRECT + 1 \<Longrightarrow> i < IPB \<Longrightarrow> length d = BSIZE \<Longrightarrow> length (put_dinode i di d) = BSIZE"
  by (simp add: put_dinode_def length_dinode_bytes)

lemma dinode_of_ok: "length bs = 64 \<Longrightarrow> dinode_ok (dinode_of bs)"
  using get32_bound [of _ bs] by (auto simp: dinode_ok_def dinode_of_def simp del: upt_Suc)

lemma get_dinode_ok: "i < IPB \<Longrightarrow> length d = BSIZE \<Longrightarrow> dinode_ok (get_dinode i d)"
  unfolding get_dinode_def by (rule dinode_of_ok) simp

lemma dinode0_ok [simp]: "dinode_ok dinode0" "is_short x \<Longrightarrow> dinode_ok (dinode0\<lparr>d_type := x\<rparr>)"
  by (simp_all add: dinode_ok_def dinode0_def is_short_def)

section \<open>What the layers below leave alone\<close>

lemma tx_ext_fs:
  assumes "tx_ext s t"
  shows "sb t = sb s" and "itable t = itable s" and "cur t = cur s" and "woken (cur s) (procs s) (procs t)"
    and "mem t = mem s" and "freelist t = freelist s" and "k_end t = k_end s" and "nextpid t = nextpid s"
    and "initproc t = initproc s" and "fs_state.more t = fs_state.more s"
  by (rule log_extE [OF assms [unfolded tx_ext_def, THEN conjunct1]], simp)+

lemma upd_inode_log [simp, frame]:
  "log_inv (upd_inode i f s) \<longleftrightarrow> log_inv s" "blk (upd_inode i f s) = blk s" "held (upd_inode i f s) = held s"
  "holding (upd_inode i f s) = holding s" "slots (upd_inode i f s) = slots s" "loggable (upd_inode i f s) = loggable s"
  "clean (upd_inode i f s) = clean s" "sb (upd_inode i f s) = sb s" "logged (upd_inode i f s) = logged s"
  "disk (upd_inode i f s) = disk s" "length (itable (upd_inode i f s)) = length (itable s)"
  "cur (upd_inode i f s) = cur s" "procs (upd_inode i f s) = procs s" "mem (upd_inode i f s) = mem s"
proof -
  show b: "blk (upd_inode i f s) = blk s" by (simp add: fun_eq_iff blk_def upd_inode_def split: option.split)
  show h: "held (upd_inode i f s) = held s" by (simp add: held_def cached_at_def upd_inode_def)
  show "holding (upd_inode i f s) = holding s"
    by (simp add: fun_eq_iff holding_def cached_at_def holdingsleep_def upd_inode_def)
  show l: "logged (upd_inode i f s) = logged s" by (simp add: logged_def upd_inode_def)
  show "slots (upd_inode i f s) = slots s" unfolding slots_def h by (simp add: upd_inode_def)
  show "loggable (upd_inode i f s) = loggable s" by (simp add: loggable_def fun_eq_iff upd_inode_def)
  show "clean (upd_inode i f s) = clean s" unfolding clean_def b l fun_eq_iff by (simp add: upd_inode_def)
  have "bio_inv P (upd_inode i f s) \<longleftrightarrow> bio_inv P s" for P by (simp add: bio_inv_def cached_at_def upd_inode_def)
  then show "log_inv (upd_inode i f s) \<longleftrightarrow> log_inv s" unfolding log_inv_def l by (simp add: upd_inode_def)
qed (simp_all add: upd_inode_def)

section \<open>A file system just booted\<close>

definition inode0 :: inode where
  "inode0 = \<lparr>i_dev = 0, i_inum = 0, i_ref = 0, i_lock = initsleeplock, i_valid = False, i_type = 0, i_major = 0, i_minor = 0,
    i_nlink = 0, i_size = 0, i_addrs = replicate (NDIRECT + 1) 0\<rparr>"

definition fs_boot_more :: "'z \<Rightarrow> (nat \<Rightarrow> bytes) \<Rightarrow> int \<Rightarrow> 'z fs_state_scheme" where
  "fs_boot_more z d n = binit \<lparr>mem = (\<lambda>_. 0), freelist = 0, k_end = 0, procs = [proc1], cur = 0, nextpid = 2, initproc = 0,
    disk = d, disk_writes = [], bufs = replicate NBUF buf0, lru = [],
    lg_start = 2, lg_outstanding = n, lg_committing = False, lg_dev = ROOTDEV, lh_n = 0, lh_block = replicate LOGBLOCKS 0,
    sb = sb_ex, itable = replicate NINODE inode0, \<dots> = z\<rparr>"

abbreviation fs_boot :: "(nat \<Rightarrow> bytes) \<Rightarrow> int \<Rightarrow> fs_state" where
  "fs_boot \<equiv> fs_boot_more ()"

lemma fs_boot_ok:
  assumes "\<And>b. length (d b) = BSIZE" and "head_n (d 2) = 0"
  shows "log_inv (fs_boot_more z d n)" and "held (fs_boot_more z d n) = {}" and "blk (fs_boot_more z d n) = d" and "slots (fs_boot_more z d n) = 30"
    and "sb (fs_boot_more z d n) = sb_ex" and "lg_start (fs_boot_more z d n) = 2" and "lg_outstanding (fs_boot_more z d n) = n"
    and "itable (fs_boot_more z d n) = replicate NINODE inode0" and "disk (fs_boot_more z d n) = d"
    and "cur (fs_boot_more z d n) = 0" and "procs (fs_boot_more z d n) = [proc1]" and "mem (fs_boot_more z d n) = (\<lambda>_. 0)"
proof -
  have b: "bio_inv {} (fs_boot_more z d n)" "blk (fs_boot_more z d n) = d" "held (fs_boot_more z d n) = {}"
    unfolding fs_boot_more_def using assms(1) by (subst binit_ok; simp)+
  then show "held (fs_boot_more z d n) = {}" "blk (fs_boot_more z d n) = d" by simp_all
  show "slots (fs_boot_more z d n) = 30" unfolding slots_def b by (simp add: fs_boot_more_def binit_def NBUF_def)
  have "logged (fs_boot_more z d n) = {}" by (simp add: logged_def fs_boot_more_def binit_def)
  then show "log_inv (fs_boot_more z d n)" using b(1) assms(2) by (simp add: log_inv_def fs_boot_more_def binit_def)
qed (simp_all add: fs_boot_more_def binit_def)

end
