(* ===== verification/Fs_Blocks.thy ===== *)
theory Fs_Blocks
  imports Fs_Base
begin

text \<open>
  The block allocator of \<^verbatim>\<open>kernel/fs.c\<close>: \<^verbatim>\<open>readsb\<close>, \<^verbatim>\<open>bzero\<close>, \<^verbatim>\<open>balloc\<close> and \<^verbatim>\<open>bfree\<close>. The theorems
  describe them on the free map: \<^verbatim>\<open>balloc\<close> returns the first free block, zeroed and marked,
  or 0 exactly when there is none; \<^verbatim>\<open>bfree\<close> clears one bit; neither changes another block.
\<close>

section \<open>Operations\<close>

definition readsb :: "nat \<Rightarrow> 'z fs_state_scheme \<Rightarrow> (unit, 'z fs_state_scheme) kout" where
  "readsb dev s =
    kbind (bread dev 1 s) (\<lambda>bp s.
    let s = s\<lparr>sb := sb_of_bytes (bdata bp s)\<rparr> in
    brelse bp s)"

definition bzero :: "nat \<Rightarrow> nat \<Rightarrow> 'z fs_state_scheme \<Rightarrow> (unit, 'z fs_state_scheme) kout" where
  "bzero dev bno s =
    kbind (bread dev bno s) (\<lambda>bp s.
    kbind (log_write bp (set_data bp (replicate BSIZE 0) s)) (\<lambda>_ s.
    brelse bp s))"

text \<open>
  The inner loop of \<^verbatim>\<open>balloc\<close> over the bits of one bitmap block, and the outer one over the
  list of the values its variable \<^verbatim>\<open>b\<close> takes: 0, \<^verbatim>\<open>BPB\<close>, 2 \<^verbatim>\<open>BPB\<close>, ... below \<^verbatim>\<open>sb.size\<close>.
\<close>

definition free_bit :: "nat \<Rightarrow> nat \<Rightarrow> bytes \<Rightarrow> nat option" where
  "free_bit sz b d = find (\<lambda>bi. \<not> bit_used d bi) [0..<min BPB (sz - b)]"

definition bitmap_steps :: "nat \<Rightarrow> nat list" where
  "bitmap_steps sz = map (\<lambda>k. BPB * k) [0..<(sz + BPB - 1) div BPB]"

fun balloc_loop :: "nat \<Rightarrow> nat list \<Rightarrow> 'z fs_state_scheme \<Rightarrow> (nat, 'z fs_state_scheme) kout" where
  "balloc_loop dev [] s = Ok 0 s"
| "balloc_loop dev (b # bs) s =
    kbind (bread dev (BBLOCK b (sb s)) s) (\<lambda>bp s.
    case free_bit (sb_size (sb s)) b (bdata bp s) of
      Some bi \<Rightarrow>
        kbind (log_write bp (set_data bp (bit_mark bi (bdata bp s)) s)) (\<lambda>_ s.
        kbind (brelse bp s) (\<lambda>_ s.
        kbind (bzero dev (b + bi) s) (\<lambda>_ s.
        Ok (b + bi) s)))
    | None \<Rightarrow> kbind (brelse bp s) (\<lambda>_ s. balloc_loop dev bs s))"

definition balloc :: "nat \<Rightarrow> 'z fs_state_scheme \<Rightarrow> (nat, 'z fs_state_scheme) kout" where
  "balloc dev s = balloc_loop dev (bitmap_steps (sb_size (sb s))) s"

definition bfree :: "nat \<Rightarrow> nat \<Rightarrow> 'z fs_state_scheme \<Rightarrow> (unit, 'z fs_state_scheme) kout" where
  "bfree dev b s =
    kbind (bread dev (BBLOCK b (sb s)) s) (\<lambda>bp s.
    let bi = b mod BPB in
    if \<not> bit_used (bdata bp s) bi then Panic ''freeing free block''
    else
      kbind (log_write bp (set_data bp (bit_clear bi (bdata bp s)) s)) (\<lambda>_ s.
      brelse bp s))"

section \<open>Well-formed layouts\<close>

text \<open>
  The order of the regions on the disk, as \<^verbatim>\<open>mkfs\<close> lays them out: log, inodes, free map, data.
  \<open>block_used\<close> is the bit of a block in the free map.
\<close>

definition wf_sb :: "superblock \<Rightarrow> bool" where
  "wf_sb S \<longleftrightarrow> 1 < sb_logstart S \<and> sb_logstart S + LOGBLOCKS < sb_inodestart S \<and>
    sb_inodestart S + sb_ninodes S div IPB < sb_bmapstart S \<and>
    sb_bmapstart S + sb_size S div BPB < sb_size S \<and> sb_size S < 2 ^ 31"

definition data_start :: "superblock \<Rightarrow> nat" where
  "data_start S = sb_bmapstart S + sb_size S div BPB + 1"

definition bitmap_blocks :: "superblock \<Rightarrow> nat set" where
  "bitmap_blocks S = {sb_bmapstart S..<data_start S}"

definition block_used :: "'z fs_state_scheme \<Rightarrow> nat \<Rightarrow> bool" where
  "block_used s b \<longleftrightarrow> bit_used (blk s (BBLOCK b (sb s))) (b mod BPB)"

text \<open>
  The invariant of the block layer: the blocks before the data region are in use, and so is
  every block some process has locked (none of them a bitmap block). \<open>tx n s\<close>: the state is in
  a transaction with buffers and log space for \<open>n\<close> more blocks.
\<close>

definition blocks_inv :: "'z fs_state_scheme \<Rightarrow> bool" where
  "blocks_inv s \<longleftrightarrow> log_inv s \<and> wf_sb (sb s) \<and> lg_start s = sb_logstart (sb s) \<and>
    (\<forall>b<data_start (sb s). block_used s b) \<and>
    (\<forall>b\<in>held s. block_used s b \<and> b < sb_size (sb s) \<and> b \<notin> bitmap_blocks (sb s))"

definition tx :: "int \<Rightarrow> 'z fs_state_scheme \<Rightarrow> bool" where
  "tx n s \<longleftrightarrow> 1 \<le> lg_outstanding s \<and> n \<le> slots s"

section \<open>Contracts\<close>

text \<open>
  \<open>fs_step n s t\<close>: what an operation keeps besides the contents of blocks, when it logs at most
  \<open>n\<close> blocks that were not logged before.
\<close>

definition fs_step :: "int \<Rightarrow> 'z fs_state_scheme \<Rightarrow> 'z fs_state_scheme \<Rightarrow> bool" where
  "fs_step n s t \<longleftrightarrow> log_inv t \<and> held t = held s \<and> slots s \<le> slots t + n \<and> tx_ext s t \<and>
    (\<forall>j c. holding s j c \<longrightarrow> holding t j c) \<and> (\<forall>c. clean s c \<longrightarrow> clean t c)"

lemma fs_stepD:
  assumes "fs_step n s t"
  shows "log_inv t" and "held t = held s" and "slots s \<le> slots t + n" and "tx_ext s t" and "loggable t = loggable s"
    and "holding s j c \<Longrightarrow> holding t j c" and "clean s c \<Longrightarrow> clean t c" and "sb t = sb s" and "itable t = itable s"
    and "lg_start t = lg_start s" and "lg_outstanding t = lg_outstanding s"
proof -
  show e: "tx_ext s t" using assms by (simp add: fs_step_def)
  show "lg_start t = lg_start s" "lg_outstanding t = lg_outstanding s" using e by (simp_all add: tx_ext_def)
  then show "loggable t = loggable s" by (simp add: loggable_def fun_eq_iff)
  show "sb t = sb s" "itable t = itable s" by (rule tx_ext_fs [OF e])+
qed (use assms in \<open>simp_all add: fs_step_def\<close>)

lemma fs_step_trans: "fs_step n s t \<Longrightarrow> fs_step m t u \<Longrightarrow> fs_step (n + m) s u"
  unfolding fs_step_def using tx_ext_trans by fastforce

lemma fs_step_refl: "log_inv s \<Longrightarrow> 0 \<le> n \<Longrightarrow> fs_step n s s"
  by (simp add: fs_step_def)

lemma fs_step_mono: "fs_step n s t \<Longrightarrow> n \<le> m \<Longrightarrow> fs_step m s t"
  by (auto simp: fs_step_def)

text \<open>\<open>locked s t i b\<close>: from \<open>s\<close> to \<open>t\<close> block \<open>b\<close> has been locked, in buffer \<open>i\<close>, by \<^verbatim>\<open>bread\<close>.\<close>

definition locked :: "'z fs_state_scheme \<Rightarrow> 'z fs_state_scheme \<Rightarrow> nat \<Rightarrow> nat \<Rightarrow> bool" where
  "locked s t i b \<longleftrightarrow> log_inv t \<and> holding t i b \<and> b \<notin> held s \<and> held t = insert b (held s) \<and> blk t = blk s \<and>
    slots t = slots s - 1 \<and> (\<forall>j c. holding s j c \<longrightarrow> holding t j c) \<and> clean t = clean s \<and> clean s b \<and> tx_ext s t"

lemma lockedD:
  assumes "locked s t i b"
  shows "bdata i t = blk s b" and "sb t = sb s" and "itable t = itable s" and "loggable t = loggable s"
    and "lg_start t = lg_start s" and "lg_outstanding t = lg_outstanding s"
  using assms tx_ext_fs [of s t] bdata_holding [OF log_inv_bio, of t i b]
  by (auto simp: locked_def tx_ext_def loggable_def fun_eq_iff)

lemma fs_bread:
  assumes "log_inv s" and "b \<notin> held s" and "0 < slots s"
    and "\<And>i t. locked s t i b \<Longrightarrow> bdata i t = blk s b \<Longrightarrow> sb t = sb s \<Longrightarrow> itable t = itable s \<Longrightarrow> returns (K i t) Q"
  shows "returns (kbind (bread ROOTDEV b s) K) Q"
proof (rule store.rd_wp [OF assms(1-3)])
  fix i t
  assume "log_inv t" "holding t i b" "held t = insert b (held s)" "blk t = blk s" "slots t = slots s - 1"
    "clean t = clean s" "clean t b" "tx_ext s t" and "\<And>j c. holding s j c \<Longrightarrow> holding t j c"
  then have "locked s t i b" using assms(2) by (simp add: locked_def)
  then show "returns (K i t) Q" by (intro assms(4) lockedD) auto
qed

lemma fs_update:
  assumes l: "locked s t i b" and lg: "loggable s b" and room: "2 \<le> slots s" and len: "length d = BSIZE"
    and K: "\<And>u. fs_step 1 s u \<Longrightarrow> blk u = (blk s)(b := d) \<Longrightarrow> returns (K u) Q"
  shows "returns (kbind (log_write i (set_data i d t)) (\<lambda>_ s. kbind (brelse i s) (\<lambda>_. K))) Q"
proof (rule store.update_held)
  note l' = l [unfolded locked_def]
  show "log_inv t" "holding t i b" "0 < slots t" using l' room by auto
  show "loggable t b" using lockedD(4) [OF l] lg by simp
  fix u
  assume u: "log_inv u" "blk u = (blk t)(b := d)" "held u = held t - {b}" "slots t \<le> slots u" "tx_ext t u"
    and hu: "\<And>j c. c \<noteq> b \<Longrightarrow> holding t j c \<Longrightarrow> holding u j c" and cu: "\<And>c. c \<noteq> b \<Longrightarrow> clean t c \<Longrightarrow> clean u c"
  have "clean u c" if "clean s c" for c
    using that cu [of c] l' u(3) store.free_clean [OF u(1), of b] by (cases "c = b") auto
  moreover have "holding u j c" if "holding s j c" for j c
    using that hu [of c j] l' holding_held [OF that] by auto
  moreover have "tx_ext s u" using l' u(5) tx_ext_trans by blast
  ultimately show "returns (K u) Q" using u l' by (intro K) (auto simp: fs_step_def)
qed (rule len)

lemma fs_release:
  assumes l: "locked s t i b"
    and K: "\<And>u. fs_step 0 s u \<Longrightarrow> blk u = blk s \<Longrightarrow> returns (K u) Q"
  shows "returns (kbind (brelse i t) (\<lambda>_. K)) Q"
proof (rule store.rel_wp)
  note l' = l [unfolded locked_def]
  show "log_inv t" "holding t i b" "clean t b" using l' by auto
  fix u
  assume u: "log_inv u" "held u = held t - {b}" "blk u = blk t" "slots u = slots t + 1" "clean u = clean t" "tx_ext t u"
    and hu: "\<And>j c. c \<noteq> b \<Longrightarrow> holding t j c \<Longrightarrow> holding u j c"
  have "holding u j c" if "holding s j c" for j c
    using that hu [of c j] l' holding_held [OF that] by auto
  moreover have "tx_ext s u" using l' u(6) tx_ext_trans by blast
  ultimately show "returns (K u) Q" using u l' by (intro K) (auto simp: fs_step_def)
qed

lemmas fs_update_end = fs_update [where K = "Ok ()", simplified]
lemmas fs_release_end = fs_release [where K = "Ok ()", simplified]

lemma returns_bzero:
  assumes "log_inv s" and "b \<notin> held s" and "loggable s b" and "2 \<le> slots s"
  shows "returns (bzero ROOTDEV b s) (\<lambda>_ t. fs_step 1 s t \<and> blk t = (blk s)(b := replicate BSIZE 0))"
  unfolding bzero_def
  by (rule fs_bread [OF assms(1,2)], use assms(4) in simp)
    (rule fs_update_end [OF _ assms(3,4)], auto)

text \<open>Where the blocks of the free map are.\<close>

lemma BBLOCK_bitmap: "b < sb_size S \<Longrightarrow> BBLOCK b S \<in> bitmap_blocks S"
  by (auto simp: BBLOCK_def bitmap_blocks_def data_start_def div_le_mono less_Suc_eq_le)

lemma BBLOCK_step: "j < BPB \<Longrightarrow> BBLOCK (BPB * k + j) S = k + sb_bmapstart S"
  by (simp add: BBLOCK_def)

lemma blocks_inv_bitmap:
  assumes inv: "blocks_inv s" and b: "b \<in> bitmap_blocks (sb s)"
  shows "b \<notin> held s" and "1 \<le> lg_outstanding s \<Longrightarrow> loggable s b" and "b < sb_size (sb s)"
proof -
  show "b \<notin> held s" using inv b by (auto simp: blocks_inv_def)
  have "sb_logstart (sb s) + LOGBLOCKS < b" "b < sb_size (sb s)" "sb_size (sb s) < 2 ^ 31"
    using inv b by (auto simp: blocks_inv_def wf_sb_def bitmap_blocks_def data_start_def)
  then show "1 \<le> lg_outstanding s \<Longrightarrow> loggable s b" "b < sb_size (sb s)"
    using inv by (auto simp: loggable_def log_area_def blocks_inv_def)
qed

lemma blocks_inv_data:
  assumes inv: "blocks_inv s" and b: "\<not> block_used s b" "b < sb_size (sb s)"
  shows "b \<notin> held s" and "1 \<le> lg_outstanding s \<Longrightarrow> loggable s b" and "data_start (sb s) \<le> b"
proof -
  show "b \<notin> held s" using inv b by (auto simp: blocks_inv_def)
  show d: "data_start (sb s) \<le> b" using inv b by (meson blocks_inv_def not_le)
  then have "sb_logstart (sb s) + LOGBLOCKS < b" "sb_size (sb s) < 2 ^ 31"
    using inv by (auto simp: blocks_inv_def wf_sb_def data_start_def)
  then show "1 \<le> lg_outstanding s \<Longrightarrow> loggable s b"
    using inv b by (auto simp: loggable_def log_area_def blocks_inv_def)
qed

lemma returns_bfree:
  assumes inv: "blocks_inv s" and b: "b < sb_size (sb s)" "block_used s b" and tx: "tx 2 s"
  shows "returns (bfree ROOTDEV b s) (\<lambda>_ t. fs_step 1 s t \<and>
    blk t = (blk s)(BBLOCK b (sb s) := bit_clear (b mod BPB) (blk s (BBLOCK b (sb s)))))"
proof -
  note bb = blocks_inv_bitmap [OF inv BBLOCK_bitmap [OF b(1)]]
  have li: "log_inv s" using inv by (simp add: blocks_inv_def)
  have out: "1 \<le> lg_outstanding s" and room: "2 \<le> slots s" using tx by (auto simp: tx_def)
  have u: "bit_used (blk s (BBLOCK b (sb s))) (b mod BPB)" using b(2) by (simp add: block_used_def)
  show ?thesis
    unfolding bfree_def Let_def
  proof (rule fs_bread [OF li bb(1)])
    show "0 < slots s" using room by simp
    fix i t assume t: "locked s t i (BBLOCK b (sb s))" "bdata i t = blk s (BBLOCK b (sb s))"
    show "returns (if \<not> bit_used (bdata i t) (b mod BPB) then Panic ''freeing free block''
        else kbind (log_write i (set_data i (bit_clear (b mod BPB) (bdata i t)) t)) (\<lambda>_ s. brelse i s))
        (\<lambda>_ t. fs_step 1 s t \<and> blk t = (blk s)(BBLOCK b (sb s) := bit_clear (b mod BPB) (blk s (BBLOCK b (sb s)))))"
      unfolding t(2) using u bb(2) [OF out] room length_blk [OF log_inv_bio [OF li]]
      by (simp, intro fs_update_end [OF t(1)]) simp_all
  qed
qed

section \<open>Allocating a block\<close>

definition balloc_post :: "'z fs_state_scheme \<Rightarrow> nat \<Rightarrow> 'z fs_state_scheme \<Rightarrow> bool" where
  "balloc_post s b t \<longleftrightarrow>
    (if b = 0 then fs_step 0 s t \<and> blk t = blk s \<and> (\<forall>c < sb_size (sb s). block_used s c)
     else fs_step 2 s t \<and> b < sb_size (sb s) \<and> \<not> block_used s b \<and> (\<forall>c<b. block_used s c) \<and>
       blk t = (blk s)(BBLOCK b (sb s) := bit_mark (b mod BPB) (blk s (BBLOCK b (sb s))), b := replicate BSIZE 0))"

lemma free_bit_Some:
  "free_bit sz b d = Some bi \<Longrightarrow> bi < BPB \<and> b + bi < sz \<and> \<not> bit_used d bi \<and> (\<forall>j<bi. bit_used d j)"
  by (auto simp: free_bit_def find_Some_iff)

lemma free_bit_None: "free_bit sz b d = None \<Longrightarrow> j < BPB \<Longrightarrow> b + j < sz \<Longrightarrow> bit_used d j"
  by (auto simp: free_bit_def find_None_iff)

lemma block_used_step: "j < BPB \<Longrightarrow> block_used s (BPB * k + j) \<longleftrightarrow> bit_used (blk s (k + sb_bmapstart (sb s))) j"
  by (simp add: block_used_def BBLOCK_step)

lemma below_step:
  fixes c k :: nat
  shows "c < BPB * Suc k \<Longrightarrow> (c < BPB * k \<Longrightarrow> P) \<Longrightarrow> (\<And>j. j < BPB \<Longrightarrow> c = BPB * k + j \<Longrightarrow> P) \<Longrightarrow> P"
  by (metis add.commute add_diff_inverse_nat mult_Suc_right nat_add_left_cancel_less)

text \<open>The body of the outer loop when it finds a free bit.\<close>

lemma balloc_found:
  assumes inv: "blocks_inv s" and tx: "tx 3 s" and b: "b < sb_size (sb s)" "\<not> block_used s b" "\<forall>c<b. block_used s c"
    and st: "fs_step 0 s u" "blk u = blk s" and t: "locked u t i (BBLOCK b (sb s))"
  shows "returns (kbind (log_write i (set_data i (bit_mark (b mod BPB) (blk s (BBLOCK b (sb s)))) t)) (\<lambda>_ s.
     kbind (brelse i s) (\<lambda>_ s. kbind (bzero ROOTDEV b s) (\<lambda>_ s. Ok b s)))) (balloc_post s)"
proof -
  note li = inv [unfolded blocks_inv_def, THEN conjunct1]
  note su = fs_stepD [OF st(1)]
  have out: "1 \<le> lg_outstanding s" and room: "3 \<le> slots s" using tx by (auto simp: tx_def)
  note bb = blocks_inv_bitmap [OF inv BBLOCK_bitmap [OF b(1)]] and bd = blocks_inv_data [OF inv b(2,1)]
  have ne: "b \<noteq> BBLOCK b (sb s)"
    using bd(3) BBLOCK_bitmap [OF b(1)] by (auto simp: bitmap_blocks_def)
  have b0: "b \<noteq> 0" using bd(3) by (simp add: data_start_def)
  show ?thesis
  proof (rule fs_update [OF t])
    show "loggable u (BBLOCK b (sb s))" "2 \<le> slots u" using su(3,5) bb(2) [OF out] room by auto
    show "length (bit_mark (b mod BPB) (blk s (BBLOCK b (sb s)))) = BSIZE"
      using length_blk [OF log_inv_bio [OF li]] by simp
    fix v assume v: "fs_step 1 u v" "blk v = (blk u)(BBLOCK b (sb s) := bit_mark (b mod BPB) (blk s (BBLOCK b (sb s))))"
    note sv = fs_stepD [OF v(1)]
    show "returns (kbind (bzero ROOTDEV b v) (\<lambda>_ s. Ok b s)) (balloc_post s)"
      unfolding returns_kbind
    proof (rule returns_mono [OF returns_bzero])
      show "log_inv v" "b \<notin> held v" "loggable v b" "2 \<le> slots v"
        using sv su bd(1) bd(2) [OF out] room by auto
      fix x w assume w: "fs_step 1 v w \<and> blk w = (blk v)(b := replicate BSIZE 0)"
      then have "fs_step 2 s w" using fs_step_trans [OF fs_step_trans [OF st(1) v(1)]] by fastforce
      then show "returns (Ok b w) (balloc_post s)"
        using w v(2) st(2) b b0 by (simp add: balloc_post_def)
    qed
  qed
qed

lemma balloc_loop_ok:
  assumes inv: "blocks_inv s" and tx: "tx 3 s"
  shows "k \<le> N \<Longrightarrow> N = (sb_size (sb s) + BPB - 1) div BPB \<Longrightarrow> fs_step 0 s u \<Longrightarrow> blk u = blk s \<Longrightarrow>
    \<forall>c<BPB * k. c < sb_size (sb s) \<longrightarrow> block_used s c \<Longrightarrow>
    returns (balloc_loop ROOTDEV (map (\<lambda>k. BPB * k) [k..<N]) u) (balloc_post s)"
proof (induction "N - k" arbitrary: k u)
  case 0
  then have "sb_size (sb s) \<le> BPB * k" by linarith
  then have "\<forall>c < sb_size (sb s). block_used s c" using 0 by auto
  then show ?case using 0 by (simp add: balloc_post_def)
next
  case (Suc n)
  have li: "log_inv s" using inv by (simp add: blocks_inv_def)
  note su = fs_stepD [OF Suc.prems(3)]
  have room: "3 \<le> slots s" using tx by (simp add: tx_def)
  have kN: "k < N" and ksz: "BPB * k < sb_size (sb s)" using Suc.hyps(2) Suc.prems(2) by linarith+
  let ?bb = "k + sb_bmapstart (sb s)"
  have BB: "BBLOCK (BPB * k) (sb s) = ?bb" using BBLOCK_step [of 0 k] by simp
  note bb = blocks_inv_bitmap [OF inv BBLOCK_bitmap [OF ksz], unfolded BB]
  show ?case
    unfolding upt_conv_Cons [OF kN] list.map balloc_loop.simps su(8) BB
  proof (rule fs_bread)
    show "log_inv u" "?bb \<notin> held u" "0 < slots u" using su bb room by auto
    fix i t assume t: "locked u t i ?bb" "bdata i t = blk u ?bb" "sb t = sb u"
    show "returns (case free_bit (sb_size (sb t)) (BPB * k) (bdata i t) of
          None \<Rightarrow> kbind (brelse i t) (\<lambda>_ s. balloc_loop ROOTDEV (map (\<lambda>k. BPB * k) [Suc k..<N]) s)
        | Some bi \<Rightarrow> kbind (log_write i (set_data i (bit_mark bi (bdata i t)) t)) (\<lambda>_ s.
            kbind (brelse i s) (\<lambda>_ s. kbind (bzero ROOTDEV (BPB * k + bi) s) (\<lambda>_ s. Ok (BPB * k + bi) s)))) (balloc_post s)"
    proof (cases "free_bit (sb_size (sb s)) (BPB * k) (blk s ?bb)")
      case None
      have "\<forall>c<BPB * Suc k. c < sb_size (sb s) \<longrightarrow> block_used s c"
      proof (intro allI impI)
        fix c assume c: "c < BPB * Suc k" "c < sb_size (sb s)"
        show "block_used s c"
          by (rule below_step [OF c(1)]) (use c Suc.prems(5) free_bit_None [OF None] in \<open>auto simp: block_used_step\<close>)
      qed
      then have "returns (kbind (brelse i t) (\<lambda>_. balloc_loop ROOTDEV (map (\<lambda>k. BPB * k) [Suc k..<N]))) (balloc_post s)"
        using Suc.hyps Suc.prems(2,4) fs_step_trans [OF Suc.prems(3)] kN
        by (intro fs_release [OF t(1)]) (auto intro!: Suc.hyps(1))
      then show ?thesis using None t Suc.prems(4) su(8) by simp
    next
      case (Some bi)
      note fb = free_bit_Some [OF Some]
      let ?b = "BPB * k + bi"
      have m: "?b mod BPB = bi" "BBLOCK ?b (sb s) = ?bb" using fb BBLOCK_step by auto
      have used: "\<not> block_used s ?b" using fb by (simp add: block_used_step)
      have low: "\<forall>c<?b. block_used s c"
      proof (intro allI impI)
        fix c assume c: "c < ?b"
        then have "c < BPB * Suc k" using fb by simp
        then show "block_used s c"
          by (rule below_step) (use c fb ksz Suc.prems(5) in \<open>auto simp: block_used_step\<close>)
      qed
      show ?thesis
        using balloc_found [OF inv tx, of ?b u t i] fb used low Suc.prems(3,4) t Some su(8) by (simp add: m)
    qed
  qed
qed

lemma returns_balloc:
  assumes "blocks_inv s" and "tx 3 s"
  shows "returns (balloc ROOTDEV s) (balloc_post s)"
  unfolding balloc_def bitmap_steps_def
  by (rule balloc_loop_ok [OF assms]) (use assms in \<open>auto simp: blocks_inv_def intro: fs_step_refl\<close>)

section \<open>The free map after an operation\<close>

lemma BBLOCK_not_data: "blocks_inv s \<Longrightarrow> c < sb_size (sb s) \<Longrightarrow> data_start (sb s) \<le> b \<Longrightarrow> BBLOCK c (sb s) \<noteq> b"
  using BBLOCK_bitmap [of c "sb s"] by (auto simp: bitmap_blocks_def)

lemma block_used_upd:
  assumes inv: "blocks_inv s" and b: "b < sb_size (sb s)" and c: "c < sb_size (sb s)" and t: "sb t = sb s"
  shows "blk t = (blk s)(BBLOCK b (sb s) := bit_mark (b mod BPB) (blk s (BBLOCK b (sb s)))) \<Longrightarrow>
      block_used t c \<longleftrightarrow> c = b \<or> block_used s c"
    and "blk t = (blk s)(BBLOCK b (sb s) := bit_clear (b mod BPB) (blk s (BBLOCK b (sb s)))) \<Longrightarrow>
      block_used t c \<longleftrightarrow> c \<noteq> b \<and> block_used s c"
proof -
  have len: "length (blk s x) = BSIZE" for x
    using inv length_blk [OF log_inv_bio] by (auto simp: blocks_inv_def)
  have eq: "c = b \<longleftrightarrow> c mod BPB = b mod BPB" if "BBLOCK c (sb s) = BBLOCK b (sb s)"
    using that unfolding BBLOCK_def by (metis add_right_cancel div_mult_mod_eq)
  have i: "b mod BPB div 8 < length (blk s x)" for x unfolding len by simp
  show "block_used t c \<longleftrightarrow> c = b \<or> block_used s c"
    if "blk t = (blk s)(BBLOCK b (sb s) := bit_mark (b mod BPB) (blk s (BBLOCK b (sb s))))"
    using that eq bit_used_mark [OF i] by (auto simp: block_used_def t)
  show "block_used t c \<longleftrightarrow> c \<noteq> b \<and> block_used s c"
    if "blk t = (blk s)(BBLOCK b (sb s) := bit_clear (b mod BPB) (blk s (BBLOCK b (sb s))))"
    using that eq bit_used_clear [OF i] by (auto simp: block_used_def t)
qed

lemma block_used_data:
  "blocks_inv s \<Longrightarrow> c < sb_size (sb s) \<Longrightarrow> data_start (sb s) \<le> b \<Longrightarrow> sb t = sb s \<Longrightarrow> blk t = f(b := x) \<Longrightarrow>
    block_used t c \<longleftrightarrow> bit_used (f (BBLOCK c (sb s))) (c mod BPB)"
  using BBLOCK_not_data [of s c b] by (simp add: block_used_def)

lemma data_start_le: "blocks_inv s \<Longrightarrow> data_start (sb s) \<le> sb_size (sb s)"
  by (auto simp: blocks_inv_def wf_sb_def data_start_def)

lemma blocks_inv_step:
  assumes inv: "blocks_inv s" and st: "fs_step n s t"
    and used: "\<And>c. c < sb_size (sb s) \<Longrightarrow> c < data_start (sb s) \<or> c \<in> held s \<Longrightarrow> block_used s c \<Longrightarrow> block_used t c"
  shows "blocks_inv t"
  using inv fs_stepD [OF st] used data_start_le [OF inv] by (auto simp: blocks_inv_def)

lemma balloc_used:
  assumes inv: "blocks_inv s" and p: "balloc_post s b t" and b: "b \<noteq> 0" and c: "c < sb_size (sb s)"
  shows "block_used t c \<longleftrightarrow> c = b \<or> block_used s c"
proof -
  have q: "fs_step 2 s t" "b < sb_size (sb s)" "\<not> block_used s b"
    "blk t = (blk s)(BBLOCK b (sb s) := bit_mark (b mod BPB) (blk s (BBLOCK b (sb s))), b := replicate BSIZE 0)"
    using p b by (auto simp: balloc_post_def)
  note d = blocks_inv_data [OF inv q(3,2)]
  let ?u = "s\<lparr>bufs := [], disk := (blk s)(BBLOCK b (sb s) := bit_mark (b mod BPB) (blk s (BBLOCK b (sb s))))\<rparr>"
  have "blk ?u = (blk s)(BBLOCK b (sb s) := bit_mark (b mod BPB) (blk s (BBLOCK b (sb s))))"
    by (simp add: fun_eq_iff blk_def)
  then have "block_used ?u c \<longleftrightarrow> c = b \<or> block_used s c"
    by (intro block_used_upd(1) [OF inv q(2) c]) auto
  then show ?thesis
    using block_used_data [OF inv c d(3) fs_stepD(8) [OF q(1)] q(4)]
    by (simp add: block_used_def \<open>blk ?u = _\<close>)
qed

lemma balloc_inv:
  assumes inv: "blocks_inv s" and p: "balloc_post s b t"
  shows "blocks_inv t"
proof (cases "b = 0")
  case True
  then show ?thesis
    using blocks_inv_step [OF inv, of 0 t] p fs_stepD(8) [of 0 s t] by (auto simp: balloc_post_def block_used_def)
next
  case False
  then show ?thesis
    using blocks_inv_step [OF inv, of 2 t] p balloc_used [OF inv p False] by (auto simp: balloc_post_def)
qed

section \<open>A concrete file system\<close>

text \<open>The layout \<^verbatim>\<open>mkfs\<close> chooses for 2000 blocks: block 46 is the free map and marks blocks 0 to 46.\<close>

definition map_ex :: bytes where
  "map_ex = replicate 5 255 @ [127] @ replicate 1018 0"

definition fs_disk :: "nat \<Rightarrow> bytes" where
  "fs_disk = (\<lambda>_. zero_block)(46 := map_ex)"

lemma map_ex_used: "b < 47 \<Longrightarrow> bit_used map_ex b" and map_ex_free: "\<not> bit_used map_ex 47"
proof -
  have ones: "bit (255 :: u8) k" if "k < 8" for k
    using that by (auto simp: numeral_eq_Suc less_Suc_eq bit_Suc)
  have "bit (127 :: u8) k" if "k < 7" for k
    using that by (auto simp: numeral_eq_Suc less_Suc_eq bit_Suc)
  moreover assume b: "b < 47"
  then have "b div 8 < 5 \<or> b div 8 = 5 \<and> b mod 8 < 7" using div_mult_mod_eq [of b 8] by linarith
  ultimately show "bit_used map_ex b" using ones [of "b mod 8"] by (auto simp: bit_used_iff map_ex_def nth_append)
next
  show "\<not> bit_used map_ex 47" by (simp add: bit_used_iff map_ex_def nth_append)
qed

lemma zero_head: "head_n zero_block = 0"
  by (simp add: head_n_def get32_def get_at_def zero_block_def int_val_def)

lemma fs_disk_ok: "length (fs_disk b) = BSIZE" "head_n (fs_disk 2) = 0"
  by (simp_all add: fs_disk_def zero_head) (simp add: map_ex_def zero_block_def)

lemmas fs_boot_disk = fs_boot_ok [where d = fs_disk, OF fs_disk_ok]

lemma block_used_ex: "b < 8192 \<Longrightarrow> block_used (fs_boot_more z fs_disk n) b \<longleftrightarrow> bit_used map_ex b"
  unfolding block_used_def fs_boot_disk by (simp add: sb_ex_def BBLOCK_def fs_disk_def)

lemma fs_boot_blocks: "blocks_inv (fs_boot_more z fs_disk n)"
  unfolding blocks_inv_def fs_boot_disk
  using block_used_ex [of _ z n] map_ex_used fs_boot_disk(1)
  by (auto simp: sb_ex_def wf_sb_def LOGBLOCKS_def data_start_def)

section \<open>Properties\<close>

text \<open>
  (C19) \<open>balloc\<close> in a transaction with room for its blocks: it returns 0 exactly when every
  block is in use, changing no block; otherwise it returns the first free block, which is a
  data block, now zeroed and marked, and changes no other block and no other bit of the map.
\<close>

theorem balloc_first_free:
  assumes inv: "blocks_inv s" and tx: "tx 3 s"
  shows "returns (balloc ROOTDEV s) (\<lambda>b t. blocks_inv t \<and>
    (if b = 0 then (\<forall>c < sb_size (sb s). block_used s c) \<and> blk t = blk s
     else data_start (sb s) \<le> b \<and> b < sb_size (sb s) \<and> \<not> block_used s b \<and> (\<forall>c<b. block_used s c) \<and>
       blk t b = replicate BSIZE 0 \<and> (\<forall>c < sb_size (sb s). block_used t c \<longleftrightarrow> c = b \<or> block_used s c) \<and>
       (\<forall>c. c \<noteq> b \<and> c \<notin> bitmap_blocks (sb s) \<longrightarrow> blk t c = blk s c)))"
proof (rule returns_mono [OF returns_balloc [OF assms]])
  fix b t assume p: "balloc_post s b t"
  show "blocks_inv t \<and>
    (if b = 0 then (\<forall>c < sb_size (sb s). block_used s c) \<and> blk t = blk s
     else data_start (sb s) \<le> b \<and> b < sb_size (sb s) \<and> \<not> block_used s b \<and> (\<forall>c<b. block_used s c) \<and>
       blk t b = replicate BSIZE 0 \<and> (\<forall>c < sb_size (sb s). block_used t c \<longleftrightarrow> c = b \<or> block_used s c) \<and>
       (\<forall>c. c \<noteq> b \<and> c \<notin> bitmap_blocks (sb s) \<longrightarrow> blk t c = blk s c))"
    using p balloc_inv [OF inv p] balloc_used [OF inv p] blocks_inv_data(3) [OF inv, of b] BBLOCK_bitmap [of b "sb s"]
    by (auto simp: balloc_post_def)
qed

text \<open>
  (C25) \<open>bfree\<close> of a data block in use, in a transaction: it returns with the block free, no
  other bit of the free map and no block outside the map changed. A block that is already
  free makes it panic.
\<close>

theorem bfree_frees:
  assumes inv: "blocks_inv s" and b: "b < sb_size (sb s)" and tx: "tx 2 s"
  shows "if block_used s b
    then returns (bfree ROOTDEV b s) (\<lambda>_ t. (\<forall>c < sb_size (sb s). block_used t c \<longleftrightarrow> c \<noteq> b \<and> block_used s c) \<and>
      (\<forall>c. c \<notin> bitmap_blocks (sb s) \<longrightarrow> blk t c = blk s c) \<and> (data_start (sb s) \<le> b \<and> b \<notin> held s \<longrightarrow> blocks_inv t))
    else bfree ROOTDEV b s = Panic ''freeing free block''"
proof (cases "block_used s b")
  case True
  have post: "(\<forall>c < sb_size (sb s). block_used t c \<longleftrightarrow> c \<noteq> b \<and> block_used s c) \<and>
      (\<forall>c. c \<notin> bitmap_blocks (sb s) \<longrightarrow> blk t c = blk s c) \<and> (data_start (sb s) \<le> b \<and> b \<notin> held s \<longrightarrow> blocks_inv t)"
    if t: "fs_step 1 s t" "blk t = (blk s)(BBLOCK b (sb s) := bit_clear (b mod BPB) (blk s (BBLOCK b (sb s))))" for t
  proof -
    have u: "block_used t c \<longleftrightarrow> c \<noteq> b \<and> block_used s c" if "c < sb_size (sb s)" for c
      by (rule block_used_upd(2) [OF inv b that fs_stepD(8) [OF t(1)] t(2)])
    moreover have "blocks_inv t" if "data_start (sb s) \<le> b" "b \<notin> held s"
      by (rule blocks_inv_step [OF inv t(1)]) (use u that in auto)
    ultimately show ?thesis using t BBLOCK_bitmap [OF b] by auto
  qed
  show ?thesis
    unfolding if_P [OF True] by (rule returns_mono [OF returns_bfree [OF inv b True tx]], elim conjE, rule post)
next
  case False
  have li: "log_inv s" using inv by (simp add: blocks_inv_def)
  have "0 < slots s" using tx by (simp add: tx_def)
  note bb = blocks_inv_bitmap [OF inv BBLOCK_bitmap [OF b]]
  obtain i t where t: "bread ROOTDEV (BBLOCK b (sb s)) s = Ok i t" "holding t i (BBLOCK b (sb s))" "log_inv t" "blk t = blk s"
    using store.rd_law [OF li bb(1) \<open>0 < slots s\<close>] by (auto simp: returns_iff)
  then have "bdata i t = blk s (BBLOCK b (sb s))" using store.dat_view [OF t(3,2)] by simp
  then show ?thesis using False t(1) by (simp add: bfree_def block_used_def)
qed

theorem balloc_first_free_witness:
  "blocks_inv (fs_boot fs_disk 1) \<and> tx 3 (fs_boot fs_disk 1) \<and> \<not> block_used (fs_boot fs_disk 1) 47 \<and>
   returns (balloc ROOTDEV (fs_boot fs_disk 1)) (\<lambda>b t. b = 47 \<and> blocks_inv t \<and> block_used t 47)"
proof -
  let ?s = "fs_boot fs_disk 1"
  have t: "tx 3 ?s" by (simp add: tx_def fs_boot_disk)
  have u: "\<not> block_used ?s 47" using block_used_ex [of 47] map_ex_free by simp
  have l: "block_used ?s c" if "c < 47" for c using block_used_ex [of c] map_ex_used that by simp
  have sz: "sb_size (sb ?s) = 2000" by (simp add: fs_boot_disk sb_ex_def)
  have "returns (balloc ROOTDEV ?s) (\<lambda>b t. b = 47 \<and> blocks_inv t \<and> block_used t 47)"
  proof (rule returns_mono [OF balloc_first_free [OF fs_boot_blocks t]], goal_cases)
    case (1 b t)
    have "b \<noteq> 0" using 1 u sz by (auto split: if_splits)
    then have "\<not> b < 47" "\<not> 47 < b" using 1 u l by (auto split: if_splits)
    then show ?case using 1 sz by (simp add: not_less_iff_gr_or_eq split: if_splits)
  qed
  then show ?thesis using t u fs_boot_blocks [of "()" 1] by blast
qed

theorem bfree_frees_witness:
  "blocks_inv (fs_boot fs_disk 1) \<and> tx 2 (fs_boot fs_disk 1) \<and> block_used (fs_boot fs_disk 1) 46 \<and>
   returns (bfree ROOTDEV 46 (fs_boot fs_disk 1)) (\<lambda>_ t. \<not> block_used t 46) \<and>
   bfree ROOTDEV 47 (fs_boot fs_disk 1) = Panic ''freeing free block''"
proof -
  let ?s = "fs_boot fs_disk 1"
  have t: "tx 2 ?s" by (simp add: tx_def fs_boot_disk)
  have sz: "sb_size (sb ?s) = 2000" by (simp add: fs_boot_disk sb_ex_def)
  have u: "\<not> block_used ?s 47" "block_used ?s 46"
    using block_used_ex [of 47] block_used_ex [of 46] map_ex_free map_ex_used by simp_all
  have "returns (bfree ROOTDEV 46 ?s) (\<lambda>_ t. \<not> block_used t 46)"
    using bfree_frees [OF fs_boot_blocks _ t, of 46] sz u(2) by (auto elim!: returns_mono)
  moreover have "bfree ROOTDEV 47 ?s = Panic ''freeing free block''"
    using bfree_frees [OF fs_boot_blocks _ t, of 47] sz u(1) by simp
  ultimately show ?thesis using t u fs_boot_blocks [of "()" 1] by blast
qed

end
