(* ===== verification/Fs_Inode.thy ===== *)
theory Fs_Inode
  imports Fs_Blocks
begin

text \<open>
  Inodes, \<^verbatim>\<open>kernel/fs.c\<close>: the in-memory table (\<^verbatim>\<open>iget\<close>, \<^verbatim>\<open>idup\<close>, \<^verbatim>\<open>ilock\<close>, \<^verbatim>\<open>iunlock\<close>, \<^verbatim>\<open>iput\<close>), the
  inodes on disk (\<^verbatim>\<open>ialloc\<close>, \<^verbatim>\<open>iupdate\<close>, \<^verbatim>\<open>ireclaim\<close>), and the map from the blocks of a file to
  disk blocks (\<^verbatim>\<open>bmap\<close>, \<^verbatim>\<open>itrunc\<close>). A \<^verbatim>\<open>struct inode *\<close> is an index into the table.
\<close>

section \<open>Operations\<close>

definition iinit :: "'z fs_state_scheme \<Rightarrow> 'z fs_state_scheme" where
  "iinit s = s\<lparr>itable := map (\<lambda>ip. ip\<lparr>i_lock := initsleeplock\<rparr>) (itable s)\<rparr>"

definition iget :: "nat \<Rightarrow> nat \<Rightarrow> 'z fs_state_scheme \<Rightarrow> (nat, 'z fs_state_scheme) kout" where
  "iget dev inum s =
    \<comment> \<open>Is the inode already in the table?\<close>
    (case find (\<lambda>i. i_ref (itable s ! i) > 0 \<and> i_dev (itable s ! i) = dev \<and> i_inum (itable s ! i) = inum) [0..<NINODE] of
       Some i \<Rightarrow> Ok i (upd_inode i (\<lambda>ip. ip\<lparr>i_ref := i_ref ip + 1\<rparr>) s)
     | None \<Rightarrow>
         \<comment> \<open>Recycle an inode entry: the first empty slot.\<close>
         (case find (\<lambda>i. i_ref (itable s ! i) = 0) [0..<NINODE] of
            None \<Rightarrow> Panic ''iget: no inodes''
          | Some i \<Rightarrow> Ok i (upd_inode i (\<lambda>ip. ip\<lparr>i_dev := dev, i_inum := inum, i_ref := 1, i_valid := False\<rparr>) s)))"

fun ialloc_loop :: "nat \<Rightarrow> int \<Rightarrow> nat list \<Rightarrow> 'z fs_state_scheme \<Rightarrow> (nat option, 'z fs_state_scheme) kout" where
  "ialloc_loop dev type [] s = Ok None s"
| "ialloc_loop dev type (inum # inums) s =
    kbind (bread dev (IBLOCK inum (sb s)) s) (\<lambda>bp s.
    if d_type (get_dinode (inum mod IPB) (bdata bp s)) = 0 \<comment> \<open>a free inode\<close>
    then
      kbind (log_write bp (set_data bp (put_dinode (inum mod IPB) (dinode0\<lparr>d_type := type\<rparr>) (bdata bp s)) s)) (\<lambda>_ s.
      kbind (brelse bp s) (\<lambda>_ s.
      kbind (iget dev inum s) (\<lambda>ip s. Ok (Some ip) s)))
    else kbind (brelse bp s) (\<lambda>_ s. ialloc_loop dev type inums s))"

definition ialloc :: "nat \<Rightarrow> int \<Rightarrow> 'z fs_state_scheme \<Rightarrow> (nat option, 'z fs_state_scheme) kout" where
  "ialloc dev type s = ialloc_loop dev type [1..<sb_ninodes (sb s)] s"

text \<open>The fields of an in-memory inode that live on disk, and back.\<close>

definition inode_dinode :: "inode \<Rightarrow> dinode" where
  "inode_dinode ip = \<lparr>d_type = i_type ip, d_major = i_major ip, d_minor = i_minor ip, d_nlink = i_nlink ip,
    d_size = i_size ip, d_addrs = i_addrs ip\<rparr>"

definition load_dinode :: "dinode \<Rightarrow> inode \<Rightarrow> inode" where
  "load_dinode di ip = ip\<lparr>i_type := d_type di, i_major := d_major di, i_minor := d_minor di, i_nlink := d_nlink di,
    i_size := d_size di, i_addrs := d_addrs di\<rparr>"

definition iupdate :: "nat \<Rightarrow> 'z fs_state_scheme \<Rightarrow> (unit, 'z fs_state_scheme) kout" where
  "iupdate ip s =
    (let inum = i_inum (itable s ! ip) in
     kbind (bread (i_dev (itable s ! ip)) (IBLOCK inum (sb s)) s) (\<lambda>bp s.
     kbind (log_write bp (set_data bp (put_dinode (inum mod IPB) (inode_dinode (itable s ! ip)) (bdata bp s)) s)) (\<lambda>_ s.
     brelse bp s)))"

definition idup :: "nat \<Rightarrow> 'z fs_state_scheme \<Rightarrow> (nat, 'z fs_state_scheme) kout" where
  "idup ip s = Ok ip (upd_inode ip (\<lambda>ip. ip\<lparr>i_ref := i_ref ip + 1\<rparr>) s)"

definition ilock :: "nat \<Rightarrow> 'z fs_state_scheme \<Rightarrow> (unit, 'z fs_state_scheme) kout" where
  "ilock ip s =
    (if i_ref (itable s ! ip) < 1 then Panic ''ilock''
     else
       kbind (acquiresleep (Chan_inode ip) (i_lock (itable s ! ip)) s) (\<lambda>lk s.
       let s = upd_inode ip (\<lambda>ip. ip\<lparr>i_lock := lk\<rparr>) s; inum = i_inum (itable s ! ip) in
       if \<not> i_valid (itable s ! ip)
       then
         kbind (bread (i_dev (itable s ! ip)) (IBLOCK inum (sb s)) s) (\<lambda>bp s.
         let s = upd_inode ip (load_dinode (get_dinode (inum mod IPB) (bdata bp s))) s in
         kbind (brelse bp s) (\<lambda>_ s.
         let s = upd_inode ip (\<lambda>ip. ip\<lparr>i_valid := True\<rparr>) s in
         if i_type (itable s ! ip) = 0 then Panic ''ilock: no type'' else Ok () s))
       else Ok () s))"

definition iunlock :: "nat \<Rightarrow> 'z fs_state_scheme \<Rightarrow> (unit, 'z fs_state_scheme) kout" where
  "iunlock ip s =
    (if \<not> holdingsleep (i_lock (itable s ! ip)) s \<or> i_ref (itable s ! ip) < 1 then Panic ''iunlock''
     else
       kbind (releasesleep (Chan_inode ip) (i_lock (itable s ! ip)) s) (\<lambda>lk s.
       Ok () (upd_inode ip (\<lambda>ip. ip\<lparr>i_lock := lk\<rparr>) s)))"

definition bmap :: "nat \<Rightarrow> nat \<Rightarrow> 'z fs_state_scheme \<Rightarrow> (nat, 'z fs_state_scheme) kout" where
  "bmap ip bn s =
    (let dev = i_dev (itable s ! ip) in
     if bn < NDIRECT
     then
       (let addr = i_addrs (itable s ! ip) ! bn in
        if addr = 0
        then
          kbind (balloc dev s) (\<lambda>addr s.
          if addr = 0 then Ok 0 s
          else Ok addr (upd_inode ip (\<lambda>ip. ip\<lparr>i_addrs := (i_addrs ip)[bn := addr]\<rparr>) s))
        else Ok addr s)
     else if bn - NDIRECT < NINDIRECT
     then
       (let bn = bn - NDIRECT; addr = i_addrs (itable s ! ip) ! NDIRECT in
        \<comment> \<open>Load indirect block, allocating if necessary.\<close>
        kbind (if addr = 0 then balloc dev s else Ok addr s) (\<lambda>addr s.
        if addr = 0 then Ok 0 s
        else
          let s = upd_inode ip (\<lambda>ip. ip\<lparr>i_addrs := (i_addrs ip)[NDIRECT := addr]\<rparr>) s in
          kbind (bread dev addr s) (\<lambda>bp s.
          let addr = get32 bn (bdata bp s) in
          if addr = 0
          then
            kbind (balloc dev s) (\<lambda>addr s.
            if addr \<noteq> 0
            then
              kbind (log_write bp (set_data bp (put32 bn addr (bdata bp s)) s)) (\<lambda>_ s.
              kbind (brelse bp s) (\<lambda>_ s. Ok addr s))
            else kbind (brelse bp s) (\<lambda>_ s. Ok 0 s))
          else kbind (brelse bp s) (\<lambda>_ s. Ok addr s))))
     else Panic ''bmap: out of range'')"

text \<open>The bodies of the two loops of \<^verbatim>\<open>itrunc\<close>.\<close>

definition itrunc_direct :: "nat \<Rightarrow> nat \<Rightarrow> 'z fs_state_scheme \<Rightarrow> (unit, 'z fs_state_scheme) kout" where
  "itrunc_direct ip i s =
    (let a = i_addrs (itable s ! ip) ! i in
     if a \<noteq> 0
     then
       kbind (bfree (i_dev (itable s ! ip)) a s) (\<lambda>_ s.
       Ok () (upd_inode ip (\<lambda>ip. ip\<lparr>i_addrs := (i_addrs ip)[i := 0]\<rparr>) s))
     else Ok () s)"

definition itrunc_indirect :: "nat \<Rightarrow> nat \<Rightarrow> nat \<Rightarrow> 'z fs_state_scheme \<Rightarrow> (unit, 'z fs_state_scheme) kout" where
  "itrunc_indirect dev bp j s =
    (let a = get32 j (bdata bp s) in if a \<noteq> 0 then bfree dev a s else Ok () s)"

definition itrunc :: "nat \<Rightarrow> 'z fs_state_scheme \<Rightarrow> (unit, 'z fs_state_scheme) kout" where
  "itrunc ip s =
    kbind (kfor [0..<NDIRECT] (itrunc_direct ip) s) (\<lambda>_ s.
    let dev = i_dev (itable s ! ip); a = i_addrs (itable s ! ip) ! NDIRECT in
    kbind
      (if a \<noteq> 0
       then
         kbind (bread dev a s) (\<lambda>bp s.
         kbind (kfor [0..<NINDIRECT] (itrunc_indirect dev bp) s) (\<lambda>_ s.
         kbind (brelse bp s) (\<lambda>_ s.
         kbind (bfree dev a s) (\<lambda>_ s.
         Ok () (upd_inode ip (\<lambda>ip. ip\<lparr>i_addrs := (i_addrs ip)[NDIRECT := 0]\<rparr>) s)))))
       else Ok () s) (\<lambda>_ s.
    iupdate ip (upd_inode ip (\<lambda>ip. ip\<lparr>i_size := 0\<rparr>) s)))"

definition iput :: "nat \<Rightarrow> 'z fs_state_scheme \<Rightarrow> (unit, 'z fs_state_scheme) kout" where
  "iput ip s =
    kbind
      (if i_ref (itable s ! ip) = 1 \<and> i_valid (itable s ! ip) \<and> i_nlink (itable s ! ip) = 0
       then \<comment> \<open>no links and no other references: truncate and free\<close>
         kbind (acquiresleep (Chan_inode ip) (i_lock (itable s ! ip)) s) (\<lambda>lk s.
         let s = upd_inode ip (\<lambda>ip. ip\<lparr>i_lock := lk\<rparr>) s in
         kbind (itrunc ip s) (\<lambda>_ s.
         let s = upd_inode ip (\<lambda>ip. ip\<lparr>i_type := 0\<rparr>) s in
         kbind (iupdate ip s) (\<lambda>_ s.
         let s = upd_inode ip (\<lambda>ip. ip\<lparr>i_valid := False\<rparr>) s in
         kbind (releasesleep (Chan_inode ip) (i_lock (itable s ! ip)) s) (\<lambda>lk s.
         Ok () (upd_inode ip (\<lambda>ip. ip\<lparr>i_lock := lk\<rparr>) s)))))
       else Ok () s) (\<lambda>_ s.
    Ok () (upd_inode ip (\<lambda>ip. ip\<lparr>i_ref := i_ref ip - 1\<rparr>) s))"

definition iunlockput :: "nat \<Rightarrow> 'z fs_state_scheme \<Rightarrow> (unit, 'z fs_state_scheme) kout" where
  "iunlockput ip s = kbind (iunlock ip s) (\<lambda>_ s. iput ip s)"

definition ireclaim_one :: "nat \<Rightarrow> nat \<Rightarrow> 'z fs_state_scheme \<Rightarrow> (unit, 'z fs_state_scheme) kout" where
  "ireclaim_one dev inum s =
    kbind (bread dev (IBLOCK inum (sb s)) s) (\<lambda>bp s.
    let di = get_dinode (inum mod IPB) (bdata bp s) in
    kbind
      (if d_type di \<noteq> 0 \<and> d_nlink di = 0 \<comment> \<open>is an orphaned inode\<close>
       then kbind (iget dev inum s) (\<lambda>ip s. Ok (Some ip) s)
       else Ok None s) (\<lambda>ip s.
    kbind (brelse bp s) (\<lambda>_ s.
    case ip of
      None \<Rightarrow> Ok () s
    | Some ip \<Rightarrow>
        kbind (begin_op s) (\<lambda>_ s.
        kbind (ilock ip s) (\<lambda>_ s.
        kbind (iunlock ip s) (\<lambda>_ s.
        kbind (iput ip s) (\<lambda>_ s.
        end_op s)))))))"

definition ireclaim :: "nat \<Rightarrow> 'z fs_state_scheme \<Rightarrow> (unit, 'z fs_state_scheme) kout" where
  "ireclaim dev s = kfor [1..<sb_ninodes (sb s)] (ireclaim_one dev) s"

definition fsinit :: "nat \<Rightarrow> 'z fs_state_scheme \<Rightarrow> (unit, 'z fs_state_scheme) kout" where
  "fsinit dev s =
    kbind (readsb dev s) (\<lambda>_ s.
    if sb_magic (sb s) \<noteq> FSMAGIC then Panic ''invalid file system''
    else
      kbind (initlog dev (sb s) s) (\<lambda>_ s.
      ireclaim dev s))"

record stat =
  st_dev :: nat
  st_ino :: nat
  st_type :: int
  st_nlink :: int
  st_size :: nat

definition stati :: "nat \<Rightarrow> 'z fs_state_scheme \<Rightarrow> stat" where
  "stati ip s = (let ip = itable s ! ip in
    \<lparr>st_dev = i_dev ip, st_ino = i_inum ip, st_type = i_type ip, st_nlink = i_nlink ip, st_size = i_size ip\<rparr>)"

section \<open>Steps that also change the inode table\<close>

text \<open>\<open>fs_rel n s t\<close>: like \<open>fs_step\<close>, but the table of inodes may differ as well.\<close>

lemma itable_log [simp, frame]:
  "log_inv (s\<lparr>itable := T\<rparr>) \<longleftrightarrow> log_inv s" "blk (s\<lparr>itable := T\<rparr>) = blk s" "held (s\<lparr>itable := T\<rparr>) = held s"
  "holding (s\<lparr>itable := T\<rparr>) = holding s" "slots (s\<lparr>itable := T\<rparr>) = slots s" "loggable (s\<lparr>itable := T\<rparr>) = loggable s"
  "clean (s\<lparr>itable := T\<rparr>) = clean s" "block_used (s\<lparr>itable := T\<rparr>) = block_used s"
proof -
  show b: "blk (s\<lparr>itable := T\<rparr>) = blk s" by (simp add: fun_eq_iff blk_def split: option.split)
  show h: "held (s\<lparr>itable := T\<rparr>) = held s" by (simp add: held_def cached_at_def)
  show "holding (s\<lparr>itable := T\<rparr>) = holding s"
    by (simp add: fun_eq_iff holding_def cached_at_def holdingsleep_def)
  have l: "logged (s\<lparr>itable := T\<rparr>) = logged s" by (simp add: logged_def)
  show "slots (s\<lparr>itable := T\<rparr>) = slots s" unfolding slots_def h by simp
  show "loggable (s\<lparr>itable := T\<rparr>) = loggable s" by (simp add: loggable_def fun_eq_iff)
  show "clean (s\<lparr>itable := T\<rparr>) = clean s" unfolding clean_def b l fun_eq_iff by simp
  have "bio_inv P (s\<lparr>itable := T\<rparr>) \<longleftrightarrow> bio_inv P s" for P by (simp add: bio_inv_def cached_at_def)
  then show "log_inv (s\<lparr>itable := T\<rparr>) \<longleftrightarrow> log_inv s" unfolding log_inv_def l by simp
  show "block_used (s\<lparr>itable := T\<rparr>) = block_used s" unfolding block_used_def b fun_eq_iff by simp
qed

lemma blocks_inv_itable [simp, frame]: "blocks_inv (s\<lparr>itable := T\<rparr>) \<longleftrightarrow> blocks_inv s"
  by (simp add: blocks_inv_def)

lemma tx_itable [simp, frame]: "tx n (s\<lparr>itable := T\<rparr>) \<longleftrightarrow> tx n s" "tx n (upd_inode i f s) \<longleftrightarrow> tx n s"
  "blocks_inv (upd_inode i f s) \<longleftrightarrow> blocks_inv s" "block_used (upd_inode i f s) = block_used s"
  by (simp_all add: tx_def upd_inode_def)

definition fs_rel :: "int \<Rightarrow> 'z fs_state_scheme \<Rightarrow> 'z fs_state_scheme \<Rightarrow> bool" where
  "fs_rel n s t \<longleftrightarrow> fs_step n (s\<lparr>itable := itable t\<rparr>) t"

lemma tx_ext_itable: "tx_ext s t \<Longrightarrow> tx_ext (s\<lparr>itable := T\<rparr>) (t\<lparr>itable := T\<rparr>)"
proof -
  assume e: "tx_ext s t"
  have "log_ext (s\<lparr>itable := T\<rparr>) (t\<lparr>itable := T\<rparr>)"
  proof (rule log_extE [OF e [unfolded tx_ext_def, THEN conjunct1]])
    fix Ps D W B L st ou co dv n bl
    assume t: "t = s\<lparr>procs := Ps, disk := D, disk_writes := W, bufs := B, lru := L, lg_start := st, lg_outstanding := ou,
      lg_committing := co, lg_dev := dv, lh_n := n, lh_block := bl\<rparr>" and w: "woken (cur s) (procs s) Ps"
    show ?thesis
      by (rule log_extI [where Ps = Ps and D = D and W = W and B = B and L = L and st = st and ou = ou and co = co
            and dv = dv and n = n and bl = bl]) (use w in \<open>simp_all add: t\<close>)
  qed
  then show ?thesis using e by (simp add: tx_ext_def)
qed

lemma fs_step_itable: "fs_step n s t \<Longrightarrow> fs_step n (s\<lparr>itable := T\<rparr>) (t\<lparr>itable := T\<rparr>)"
  unfolding fs_step_def using tx_ext_itable by auto

lemma fs_step_rel: "fs_step n s t \<Longrightarrow> fs_rel n s t"
  using fs_stepD(9) [of n s t] by (simp add: fs_rel_def)

lemma fs_rel_trans:
  assumes "fs_rel n s t" and "fs_rel m t u"
  shows "fs_rel (n + m) s u"
  using fs_step_trans [OF fs_step_itable [OF assms(1) [unfolded fs_rel_def], of "itable u"]] assms(2)
  by (simp add: fs_rel_def)

lemma fs_rel_mono: "fs_rel n s t \<Longrightarrow> n \<le> m \<Longrightarrow> fs_rel m s t"
  unfolding fs_rel_def by (rule fs_step_mono)

lemma fs_rel_upd: "log_inv s \<Longrightarrow> 0 \<le> n \<Longrightarrow> fs_rel n s (upd_inode i f s)"
  unfolding fs_rel_def upd_inode_def by (simp add: fs_step_refl)

lemma fs_rel_refl: "log_inv s \<Longrightarrow> 0 \<le> n \<Longrightarrow> fs_rel n s s"
  by (rule fs_step_rel [OF fs_step_refl])

lemma fs_relD:
  assumes "fs_rel n s t"
  shows "log_inv t" and "held t = held s" and "slots s \<le> slots t + n" and "loggable t = loggable s"
    and "holding s j c \<Longrightarrow> holding t j c" and "clean s c \<Longrightarrow> clean t c" and "sb t = sb s"
    and "lg_start t = lg_start s" and "lg_outstanding t = lg_outstanding s" and "cur t = cur s"
    and "woken (cur s) (procs s) (procs t)" and "fs_state.more t = fs_state.more s"
    and "mem t = mem s" and "freelist t = freelist s" and "k_end t = k_end s" and "nextpid t = nextpid s" and "initproc t = initproc s"
  using fs_stepD [OF assms [unfolded fs_rel_def]] tx_ext_fs [OF fs_stepD(4) [OF assms [unfolded fs_rel_def]]]
  by simp_all

lemma fs_rel_tx: "fs_rel n s t \<Longrightarrow> tx (n + m) s \<Longrightarrow> tx m t"
  using fs_relD(3,9) [of n s t] by (auto simp: tx_def)

end
