(* ===== verification/Fs_Map.thy ===== *)
theory Fs_Map
  imports Fs_Inode
begin

text \<open>
  The block map of a file: the function \<open>fblk\<close> from block numbers of a file to disk blocks, the
  bytes \<open>fbyte\<close> of a file, and the contract of \<^verbatim>\<open>bmap\<close>: it gives a file block a disk block
  without changing any byte of the file.
\<close>

section \<open>The block map of a file\<close>

text \<open>
  \<open>fblk v a n\<close> is the disk block of block \<open>n\<close> of a file with the addresses \<open>a\<close>, the disk having
  the contents \<open>v\<close>; 0 when there is none. \<open>fbyte v a i\<close> is byte \<open>i\<close> of the file; a block that
  is not there reads as zeros.
\<close>

definition fblk :: "(nat \<Rightarrow> bytes) \<Rightarrow> nat list \<Rightarrow> nat \<Rightarrow> nat" where
  "fblk v a n = (if n < NDIRECT then a ! n
     else if a ! NDIRECT = 0 then 0 else get32 (n - NDIRECT) (v (a ! NDIRECT)))"

definition fbyte :: "(nat \<Rightarrow> bytes) \<Rightarrow> nat list \<Rightarrow> nat \<Rightarrow> u8" where
  "fbyte v a i = (let b = fblk v a (i div BSIZE) in if b = 0 then 0 else v b ! (i mod BSIZE))"

text \<open>
  \<open>imap_ok U v a\<close>: the addresses are those of blocks satisfying \<open>U\<close>, each used once; \<open>U\<close> will be
  the data blocks in use.
\<close>

definition imap_ok :: "(nat \<Rightarrow> bool) \<Rightarrow> (nat \<Rightarrow> bytes) \<Rightarrow> nat list \<Rightarrow> bool" where
  "imap_ok U v a \<longleftrightarrow> length a = NDIRECT + 1 \<and> (a ! NDIRECT \<noteq> 0 \<longrightarrow> U (a ! NDIRECT)) \<and>
    (\<forall>n<MAXFILE. fblk v a n \<noteq> 0 \<longrightarrow> U (fblk v a n) \<and> fblk v a n \<noteq> a ! NDIRECT) \<and>
    (\<forall>m<MAXFILE. \<forall>n<MAXFILE. fblk v a m = fblk v a n \<longrightarrow> fblk v a m \<noteq> 0 \<longrightarrow> m = n)"

lemma imap_okD:
  assumes "imap_ok U v a"
  shows "length a = 13" and "a ! 12 \<noteq> 0 \<Longrightarrow> U (a ! 12)"
    and "n < 268 \<Longrightarrow> fblk v a n \<noteq> 0 \<Longrightarrow> U (fblk v a n)" and "n < 268 \<Longrightarrow> fblk v a n \<noteq> 0 \<Longrightarrow> fblk v a n \<noteq> a ! 12"
    and "m < 268 \<Longrightarrow> n < 268 \<Longrightarrow> fblk v a m = fblk v a n \<Longrightarrow> fblk v a m \<noteq> 0 \<Longrightarrow> m = n"
  using assms by (auto simp: imap_ok_def)

lemma fblk_cong: "(a ! 12 \<noteq> 0 \<Longrightarrow> v' (a ! 12) = v (a ! 12)) \<Longrightarrow> fblk v' a n = fblk v a n"
  by (simp add: fblk_def)

text \<open>Changes to blocks the file does not use do not change the file.\<close>

lemma imap_ok_cong:
  assumes "imap_ok U v a" and "\<And>b. U b \<Longrightarrow> v' b = v b" and "\<And>b. U b \<Longrightarrow> U' b"
  shows "imap_ok U' v' a" and "fblk v' a n = fblk v a n" and "i < 268 * 1024 \<Longrightarrow> fbyte v' a i = fbyte v a i"
proof -
  have f: "fblk v' a n = fblk v a n" for n
    using imap_okD(2) [OF assms(1)] assms(2) by (intro fblk_cong) auto
  then show "fblk v' a n = fblk v a n" .
  show "imap_ok U' v' a" using assms(1,3) unfolding imap_ok_def f by auto
  show "fbyte v' a i = fbyte v a i" if i: "i < 268 * 1024"
  proof -
    have "i div 1024 < 268" using i by (simp add: less_mult_imp_div_less)
    then show ?thesis using imap_okD(3) [OF assms(1)] assms(2) unfolding fbyte_def Let_def f by auto
  qed
qed

lemma get32_zeros: "get32 j (replicate 1024 0) = 0"
  by (simp add: get32_def get_at_def)

text \<open>The three ways \<open>bmap\<close> adds a block \<open>b\<close>, new and zeroed: as a direct block, as the indirect block, in the indirect block.\<close>

lemma fblk_direct:
  assumes "n < 12" and "length a = 13"
  shows "fblk v (a[n := b]) m = (if m = n then b else fblk v a m)"
  using assms by (auto simp: fblk_def nth_list_update)

lemma imap_add_direct:
  assumes ok: "imap_ok U v a" and n: "n < 12" "a ! n = 0" and b: "b \<noteq> 0" "\<not> U b"
    and v': "\<And>c. U c \<Longrightarrow> v' c = v c" "v' b = replicate 1024 0"
  shows "imap_ok (\<lambda>c. U c \<or> c = b) v' (a[n := b])" and "fblk v' (a[n := b]) m = (if m = n then b else fblk v a m)"
    and "i < 268 * 1024 \<Longrightarrow> fbyte v' (a[n := b]) i = fbyte v a i"
proof -
  note l = imap_okD(1) [OF ok]
  have f: "fblk v' (a[n := b]) m = (if m = n then b else fblk v a m)" for m
    using fblk_direct [OF n(1) l] imap_ok_cong(2) [OF ok v'(1), of U m] by simp
  then show "fblk v' (a[n := b]) m = (if m = n then b else fblk v a m)" .
  have i12: "a[n := b] ! 12 = a ! 12" using n(1) by simp
  show "imap_ok (\<lambda>c. U c \<or> c = b) v' (a[n := b])"
    unfolding imap_ok_def f i12 using ok b l by (auto simp: imap_ok_def)
  show "fbyte v' (a[n := b]) i = fbyte v a i" if i: "i < 268 * 1024"
  proof -
    have "i div 1024 < 268" using i by (simp add: less_mult_imp_div_less)
    moreover have "fblk v a n = 0" using n by (simp add: fblk_def)
    ultimately show ?thesis
      using imap_okD(3) [OF ok] v' b unfolding fbyte_def Let_def f by (auto simp: less_imp_le)
  qed
qed

lemma imap_add_indirect:
  assumes ok: "imap_ok U v a" and z: "a ! 12 = 0" and b: "b \<noteq> 0" "\<not> U b"
    and v': "\<And>c. U c \<Longrightarrow> v' c = v c" "v' b = replicate 1024 0"
  shows "imap_ok (\<lambda>c. U c \<or> c = b) v' (a[12 := b])" and "fblk v' (a[12 := b]) m = fblk v a m"
    and "i < 268 * 1024 \<Longrightarrow> fbyte v' (a[12 := b]) i = fbyte v a i"
proof -
  note l = imap_okD(1) [OF ok]
  have f: "fblk v' (a[12 := b]) m = fblk v a m" for m
    using l z b v'(2) by (auto simp: fblk_def get32_zeros)
  then show "fblk v' (a[12 := b]) m = fblk v a m" .
  have i12: "a[12 := b] ! 12 = b" using l by simp
  show "imap_ok (\<lambda>c. U c \<or> c = b) v' (a[12 := b])"
    unfolding imap_ok_def f i12 using ok b l by (auto simp: imap_ok_def)
  show "fbyte v' (a[12 := b]) i = fbyte v a i" if i: "i < 268 * 1024"
  proof -
    have "i div 1024 < 268" using i by (simp add: less_mult_imp_div_less)
    then show ?thesis using imap_okD(3) [OF ok] v' unfolding fbyte_def Let_def f by auto
  qed
qed

lemma imap_add_entry:
  assumes ok: "imap_ok U v a" and n: "12 \<le> n" "n < 268" and z: "a ! 12 \<noteq> 0" "fblk v a n = 0" and b: "b \<noteq> 0" "\<not> U b" "b < 2 ^ 32"
    and v': "\<And>c. U c \<Longrightarrow> c \<noteq> a ! 12 \<Longrightarrow> v' c = v c" "v' b = replicate 1024 0" "v' (a ! 12) = put32 (n - 12) b (v (a ! 12))"
    and len: "length (v (a ! 12)) = 1024"
  shows "imap_ok (\<lambda>c. U c \<or> c = b) v' a" and "m < 268 \<Longrightarrow> fblk v' a m = (if m = n then b else fblk v a m)"
    and "i < 268 * 1024 \<Longrightarrow> fbyte v' a i = fbyte v a i"
proof -
  note l = imap_okD(1) [OF ok]
  have f: "fblk v' a m = (if m = n then b else fblk v a m)" if "m < 268" for m
  proof (cases "m < 12")
    case True then show ?thesis using n by (simp add: fblk_def)
  next
    case False then show ?thesis using that n z b v'(3) len by (auto simp: fblk_def)
  qed
  then show "m < 268 \<Longrightarrow> fblk v' a m = (if m = n then b else fblk v a m)" .
  have nb: "b \<noteq> a ! 12" using imap_okD(2) [OF ok z(1)] b by auto
  show "imap_ok (\<lambda>c. U c \<or> c = b) v' a"
    unfolding imap_ok_def using ok b l nb f by (auto simp: imap_ok_def)
  show "fbyte v' a i = fbyte v a i" if i: "i < 268 * 1024"
  proof -
    have k: "i div 1024 < 268" using i by (simp add: less_mult_imp_div_less)
    have "v' (fblk v a (i div 1024)) = v (fblk v a (i div 1024))" if "fblk v a (i div 1024) \<noteq> 0"
      using v'(1) imap_okD(3,4) [OF ok k that] by simp
    then show ?thesis using z(2) v'(2) b unfolding fbyte_def Let_def f [OF k] by (auto simp: less_imp_le)
  qed
qed

section \<open>bmap\<close>

definition data_used :: "'z fs_state_scheme \<Rightarrow> nat \<Rightarrow> bool" where
  "data_used s b \<longleftrightarrow> data_start (sb s) \<le> b \<and> b < sb_size (sb s) \<and> block_used s b"

abbreviation (input) addrs :: "'z fs_state_scheme \<Rightarrow> nat \<Rightarrow> nat list" where
  "addrs s ip \<equiv> i_addrs (itable s ! ip)"

definition inode_ok :: "'z fs_state_scheme \<Rightarrow> nat \<Rightarrow> bool" where
  "inode_ok s ip \<longleftrightarrow> ip < length (itable s) \<and> i_dev (itable s ! ip) = ROOTDEV \<and>
    imap_ok (data_used s) (blk s) (addrs s ip)"

lemma data_used_upd [simp, frame]: "data_used (upd_inode i f s) = data_used s" "data_used (s\<lparr>itable := T\<rparr>) = data_used s"
  by (simp_all add: data_used_def fun_eq_iff)

lemma data_used_0 [simp]: "\<not> data_used s 0"
  by (simp add: data_used_def data_start_def)

lemma balloc_data:
  assumes inv: "blocks_inv s" and p: "balloc_post s b t" and b: "b \<noteq> 0"
  shows "data_used t = (\<lambda>c. data_used s c \<or> c = b)" and "\<not> data_used s b" and "b < 2 ^ 32"
    and "c \<notin> bitmap_blocks (sb s) \<Longrightarrow> c \<noteq> b \<Longrightarrow> blk t c = blk s c" and "blk t b = replicate 1024 0"
    and "fs_step 2 s t" and "data_start (sb s) \<le> b" and "b < sb_size (sb s)"
proof -
  show st: "fs_step 2 s t" and bs: "b < sb_size (sb s)" and "blk t b = replicate 1024 0" and nu: "\<not> data_used s b"
    using p b by (auto simp: balloc_post_def data_used_def)
  have nb: "\<not> block_used s b" using p b by (auto simp: balloc_post_def)
  show ds: "data_start (sb s) \<le> b" by (rule blocks_inv_data(3) [OF inv nb bs])
  show "b < 2 ^ 32" using inv bs by (auto simp: blocks_inv_def wf_sb_def)
  show "blk t c = blk s c" if "c \<notin> bitmap_blocks (sb s)" "c \<noteq> b"
    using p b that BBLOCK_bitmap [OF bs] by (auto simp: balloc_post_def)
  show "data_used t = (\<lambda>c. data_used s c \<or> c = b)"
    using balloc_used [OF inv p b] fs_stepD(8) [OF st] ds bs by (auto simp: data_used_def fun_eq_iff)
qed

lemma data_not_bitmap: "data_used s c \<Longrightarrow> c \<notin> bitmap_blocks (sb s)"
  by (auto simp: data_used_def bitmap_blocks_def)

text \<open>A block that is mapped already: nothing changes.\<close>

lemma returns_bmap_mapped:
  assumes li: "log_inv s" and dev: "i_dev (itable s ! ip) = ROOTDEV" and n: "n < MAXFILE"
    and m: "fblk (blk s) (addrs s ip) n \<noteq> 0" and h: "NDIRECT \<le> n \<Longrightarrow> addrs s ip ! NDIRECT \<notin> held s" and room: "0 < slots s"
  shows "returns (bmap ip n s) (\<lambda>b t. b = fblk (blk s) (addrs s ip) n \<and> fs_step 0 s t \<and> blk t = blk s)"
proof (cases "n < NDIRECT")
  case True
  then show ?thesis using m li by (simp add: bmap_def fblk_def fs_step_refl)
next
  case False
  let ?ind = "addrs s ip ! NDIRECT"
  have ind: "?ind \<noteq> 0" and e: "get32 (n - NDIRECT) (blk s ?ind) \<noteq> 0" and f: "fblk (blk s) (addrs s ip) n = get32 (n - NDIRECT) (blk s ?ind)"
    using m False by (auto simp: fblk_def split: if_splits)
  have id: "upd_inode ip (\<lambda>ip. ip\<lparr>i_addrs := (i_addrs ip)[NDIRECT := ?ind]\<rparr>) s = s"
    by (simp add: upd_inode_def)
  have "returns (kbind (bread ROOTDEV ?ind s) (\<lambda>bp s. let addr = get32 (n - NDIRECT) (bdata bp s) in
      if addr = 0 then kbind (balloc ROOTDEV s) (\<lambda>addr s. if addr \<noteq> 0 then
          kbind (log_write bp (set_data bp (put32 (n - NDIRECT) addr (bdata bp s)) s)) (\<lambda>_ s. kbind (brelse bp s) (\<lambda>_ s. Ok addr s))
        else kbind (brelse bp s) (\<lambda>_ s. Ok 0 s))
      else kbind (brelse bp s) (\<lambda>_ s. Ok addr s)))
     (\<lambda>b t. b = fblk (blk s) (addrs s ip) n \<and> fs_step 0 s t \<and> blk t = blk s)"
  proof (rule fs_bread [OF li h room], goal_cases)
    case 1 then show ?case using False by simp
  next
    case (2 i t)
    then show ?case using e by (simp add: Let_def) (rule fs_release, auto simp: f)
  qed
  then show ?thesis
    using False n ind id dev by (simp add: bmap_def Let_def)
qed

text \<open>A locked data block does not disturb the allocator.\<close>

lemma blocks_inv_locked:
  assumes inv: "blocks_inv s" and l: "locked s t i b" and b: "data_used s b"
  shows "blocks_inv t" and "data_used t = data_used s" and "tx (n + 1) s \<Longrightarrow> tx n t"
proof -
  note d = lockedD [OF l]
  have bk: "blk t = blk s" "held t = insert b (held s)" "log_inv t" "slots t = slots s - 1" using l by (auto simp: locked_def)
  have u: "block_used t = block_used s" by (simp add: block_used_def bk d fun_eq_iff)
  then show "data_used t = data_used s" by (simp add: data_used_def d fun_eq_iff)
  show "blocks_inv t"
    using inv b data_not_bitmap [OF b] unfolding blocks_inv_def u d bk by (auto simp: bk data_used_def)
  show "tx (n + 1) s \<Longrightarrow> tx n t" using d bk by (simp add: tx_def)
qed

text \<open>Storing a new address in the locked indirect block, logging it and releasing it.\<close>

lemma bmap_entry_store:
  assumes l: "locked s t i ind" and p: "fs_step 2 t u" and room: "4 \<le> slots s" and lg: "loggable s ind"
    and len: "length d = BSIZE"
    and K: "\<And>w. fs_step 3 s w \<Longrightarrow> blk w = (blk u)(ind := d) \<Longrightarrow> returns (K w) Q"
  shows "returns (kbind (log_write i (set_data i d u)) (\<lambda>_ s. kbind (brelse i s) (\<lambda>_. K))) Q"
proof (rule store.update_held)
  note l' = l [unfolded locked_def] and pu = fs_stepD [OF p]
  show "log_inv u" "holding u i ind" "0 < slots u" using pu(1,3) pu(6) [of i ind] l' room by auto
  show "loggable u ind" using pu(5) lockedD(4) [OF l] lg by simp
  fix w
  assume w: "log_inv w" "blk w = (blk u)(ind := d)" "held w = held u - {ind}" "slots u \<le> slots w" "tx_ext u w"
    and hw: "\<And>j c. c \<noteq> ind \<Longrightarrow> holding u j c \<Longrightarrow> holding w j c" and cw: "\<And>c. c \<noteq> ind \<Longrightarrow> clean u c \<Longrightarrow> clean w c"
  have "clean w c" if "clean s c" for c
    using that cw [of c] l' pu(2,7) w(3) store.free_clean [OF w(1), of ind] by (cases "c = ind") auto
  moreover have "holding w j c" if "holding s j c" for j c
    using that hw [of c j] l' pu(6) [of j c] holding_held [OF that] by auto
  moreover have "tx_ext s w" using l' pu(4) w(5) tx_ext_trans by blast
  ultimately show "returns (K w) Q" using w l' pu by (intro K) (auto simp: fs_step_def)
qed (rule len)

lemma release_after:
  assumes l: "locked s t i b" and p: "fs_step n t u"
    and K: "\<And>w. fs_step n s w \<Longrightarrow> blk w = blk u \<Longrightarrow> returns (K w) Q"
  shows "returns (kbind (brelse i u) (\<lambda>_. K)) Q"
proof (rule store.rel_wp)
  note l' = l [unfolded locked_def] and pu = fs_stepD [OF p]
  show "log_inv u" "holding u i b" "clean u b" using pu(1) pu(6) [of i b] pu(7) [of b] l' by auto
  fix w
  assume w: "log_inv w" "held w = held u - {b}" "blk w = blk u" "slots w = slots u + 1" "clean w = clean u" "tx_ext u w"
    and hw: "\<And>j c. c \<noteq> b \<Longrightarrow> holding u j c \<Longrightarrow> holding w j c"
  have "holding w j c" if "holding s j c" for j c
    using that hw [of c j] l' pu(6) [of j c] holding_held [OF that] by auto
  moreover have "tx_ext s w" using l' pu(4) w(6) tx_ext_trans by blast
  ultimately show "returns (K w) Q" using w l' pu by (intro K) (auto simp: fs_step_def)
qed

text \<open>\<open>imap_step k ip s t\<close>: from \<open>s\<close> to \<open>t\<close> inode \<open>ip\<close> may have got more blocks, and nothing else has happened.\<close>

definition imap_step :: "int \<Rightarrow> nat \<Rightarrow> 'z fs_state_scheme \<Rightarrow> 'z fs_state_scheme \<Rightarrow> bool" where
  "imap_step k ip s t \<longleftrightarrow> fs_rel k s t \<and> blocks_inv t \<and> inode_ok t ip \<and>
    itable t = (itable s)[ip := (itable s ! ip)\<lparr>i_addrs := addrs t ip\<rparr>] \<and>
    (addrs s ip ! NDIRECT \<noteq> 0 \<longrightarrow> addrs t ip ! NDIRECT = addrs s ip ! NDIRECT) \<and>
    (addrs t ip ! NDIRECT = addrs s ip ! NDIRECT \<or> \<not> data_used s (addrs t ip ! NDIRECT)) \<and>
    (\<forall>i<MAXFILE * BSIZE. fbyte (blk t) (addrs t ip) i = fbyte (blk s) (addrs s ip) i) \<and>
    (\<forall>c. data_used s c \<longrightarrow> data_used t c \<and> (c \<noteq> addrs s ip ! NDIRECT \<longrightarrow> blk t c = blk s c)) \<and>
    (\<forall>c<data_start (sb s). c \<notin> bitmap_blocks (sb s) \<longrightarrow> blk t c = blk s c)"

lemma imap_step_refl:
  "blocks_inv s \<Longrightarrow> inode_ok s ip \<Longrightarrow> 0 \<le> k \<Longrightarrow> imap_step k ip s s"
  by (auto simp: imap_step_def blocks_inv_def fs_rel_refl inode_ok_def)

lemma imap_step_trans:
  assumes a: "imap_step j ip s t" and b: "imap_step k ip t u" and ip: "ip < length (itable s)"
  shows "imap_step (j + k) ip s u"
proof -
  note a' = a [unfolded imap_step_def] and b' = b [unfolded imap_step_def]
  have sb: "sb t = sb s" using a' fs_relD(7) by blast
  have "itable u = (itable s)[ip := (itable s ! ip)\<lparr>i_addrs := addrs u ip\<rparr>]"
  proof -
    have "itable u = (itable t)[ip := (itable t ! ip)\<lparr>i_addrs := addrs u ip\<rparr>]" using b' by blast
    moreover have "itable t = (itable s)[ip := (itable s ! ip)\<lparr>i_addrs := addrs t ip\<rparr>]" using a' by blast
    then have "itable t ! ip = (itable s ! ip)\<lparr>i_addrs := addrs t ip\<rparr>" "(itable t)[ip := x] = (itable s)[ip := x]" for x
      using ip by (metis nth_list_update_eq, metis list_update_overwrite)
    ultimately show ?thesis by (metis (no_types, lifting) inode.update_convs(11) inode.surjective)
  qed
  moreover have "data_used u c \<and> (c \<noteq> addrs s ip ! NDIRECT \<longrightarrow> blk u c = blk s c)" if c: "data_used s c" for c
  proof -
    have t: "data_used t c" using a' c by blast
    moreover have "blk u c = blk s c" if ne: "c \<noteq> addrs s ip ! NDIRECT"
    proof -
      have "c \<noteq> addrs t ip ! NDIRECT" using a' c ne by metis
      then show ?thesis using a' b' c t ne by simp
    qed
    ultimately show ?thesis using b' by blast
  qed
  moreover have "addrs u ip ! NDIRECT = addrs s ip ! NDIRECT \<or> \<not> data_used s (addrs u ip ! NDIRECT)"
    using a' b' by metis
  ultimately show ?thesis
    using a' b' fs_rel_trans [of j s t k u] sb unfolding imap_step_def by simp
qed

lemma meta_frame:
  assumes inv: "blocks_inv s" and p: "balloc_post s b t" and b: "b \<noteq> 0"
  shows "\<forall>c<data_start (sb s). c \<notin> bitmap_blocks (sb s) \<longrightarrow> blk t c = blk s c"
  using balloc_data(4,7) [OF inv p b] by auto

text \<open>The direct block, and the indirect block itself.\<close>

lemma imap_step_balloc:
  assumes inv: "blocks_inv s" and ok: "inode_ok s ip" and n: "n \<le> NDIRECT" "addrs s ip ! n = 0"
    and p: "balloc_post s b t" and b: "b \<noteq> 0"
  defines "u \<equiv> upd_inode ip (\<lambda>ip. ip\<lparr>i_addrs := (i_addrs ip)[n := b]\<rparr>) t"
  shows "imap_step 2 ip s u" and "fblk (blk u) (addrs u ip) m = (if m = n \<and> n < NDIRECT then b else fblk (blk s) (addrs s ip) m)"
    and "addrs u ip = (addrs s ip)[n := b]"
proof -
  note d = balloc_data [OF inv p b]
  have it: "itable t = itable s" and sb: "sb t = sb s" using fs_stepD(8,9) [OF d(6)] by auto
  have ipl: "ip < length (itable s)" and im: "imap_ok (data_used s) (blk s) (addrs s ip)" using ok by (auto simp: inode_ok_def)
  show au: "addrs u ip = (addrs s ip)[n := b]" using ipl by (simp add: u_def upd_inode_def it)
  have v: "\<And>c. data_used s c \<Longrightarrow> blk t c = blk s c"
    using d(4) data_not_bitmap d(2) by metis
  have l: "length (addrs s ip) = 13" by (rule imap_okD(1) [OF im])
  have post: "imap_ok (data_used t) (blk t) ((addrs s ip)[n := b]) \<and>
      (\<forall>m. fblk (blk t) ((addrs s ip)[n := b]) m = (if m = n \<and> n < 12 then b else fblk (blk s) (addrs s ip) m)) \<and>
      (\<forall>i<268 * 1024. fbyte (blk t) ((addrs s ip)[n := b]) i = fbyte (blk s) (addrs s ip) i)"
  proof (cases "n < 12")
    case True
    then show ?thesis
      using imap_add_direct [OF im True n(2) b d(2) v d(5)] unfolding d(1) by simp
  next
    case False
    then have "n = 12" using n by simp
    then show ?thesis
      using imap_add_indirect [OF im _ b d(2) v d(5)] n(2) unfolding d(1) by simp
  qed
  show "fblk (blk u) (addrs u ip) m = (if m = n \<and> n < NDIRECT then b else fblk (blk s) (addrs s ip) m)"
    unfolding au using post by (simp add: u_def)
  have "fs_rel 2 s u"
    using fs_rel_trans [OF fs_step_rel [OF d(6)] fs_rel_upd [of t 0 ip "\<lambda>ip. ip\<lparr>i_addrs := (i_addrs ip)[n := b]\<rparr>"]]
      fs_stepD(1) [OF d(6)] by (simp add: u_def)
  moreover have "blocks_inv u" using balloc_inv [OF inv p] by (simp add: u_def)
  moreover have "itable u = (itable s)[ip := (itable s ! ip)\<lparr>i_addrs := (addrs s ip)[n := b]\<rparr>]"
    by (simp add: u_def upd_inode_def it)
  moreover have "inode_ok u ip" unfolding inode_ok_def au using ok post ipl by (simp add: u_def upd_inode_def it inode_ok_def)
  moreover have "(addrs s ip)[n := b] ! 12 = addrs s ip ! 12 \<or> \<not> data_used s ((addrs s ip)[n := b] ! 12)"
    using n l d(2) by (cases "n = 12") auto
  moreover have "addrs s ip ! 12 \<noteq> 0 \<longrightarrow> (addrs s ip)[n := b] ! 12 = addrs s ip ! 12"
    using n by (cases "n = 12") auto
  ultimately show "imap_step 2 ip s u"
    unfolding imap_step_def au using post v d(1) meta_frame [OF inv p b] by (simp add: u_def)
qed

text \<open>The part of \<open>bmap\<close> after the indirect block is known.\<close>

definition bmap_entry :: "nat \<Rightarrow> nat \<Rightarrow> nat \<Rightarrow> 'z fs_state_scheme \<Rightarrow> (nat, 'z fs_state_scheme) kout" where
  "bmap_entry dev ind k s =
    kbind (bread dev ind s) (\<lambda>bp s.
    let addr = get32 k (bdata bp s) in
    if addr = 0
    then
      kbind (balloc dev s) (\<lambda>addr s.
      if addr \<noteq> 0
      then
        kbind (log_write bp (set_data bp (put32 k addr (bdata bp s)) s)) (\<lambda>_ s.
        kbind (brelse bp s) (\<lambda>_ s. Ok addr s))
      else kbind (brelse bp s) (\<lambda>_ s. Ok 0 s))
    else kbind (brelse bp s) (\<lambda>_ s. Ok addr s))"

definition entry_post :: "int \<Rightarrow> nat \<Rightarrow> nat \<Rightarrow> 'z fs_state_scheme \<Rightarrow> nat \<Rightarrow> 'z fs_state_scheme \<Rightarrow> bool" where
  "entry_post k ip n s b t \<longleftrightarrow> imap_step k ip s t \<and> fblk (blk t) (addrs t ip) n = b \<and>
    (\<forall>m<MAXFILE. m \<noteq> n \<longrightarrow> fblk (blk t) (addrs t ip) m = fblk (blk s) (addrs s ip) m) \<and>
    (b = 0 \<longrightarrow> (\<forall>c < sb_size (sb s). block_used t c)) \<and>
    (if fblk (blk s) (addrs s ip) n = 0 then \<not> data_used s b else b = fblk (blk s) (addrs s ip) n)"

lemma imap_step_entry:
  assumes inv: "blocks_inv s" and ok: "inode_ok s ip" and n: "12 \<le> n" "n < 268"
    and ind: "addrs s ip ! 12 \<noteq> 0" "fblk (blk s) (addrs s ip) n = 0"
    and l: "locked s t i (addrs s ip ! 12)" and p: "balloc_post t b u" and b: "b \<noteq> 0"
    and w: "fs_step 3 s w" "blk w = (blk u)(addrs s ip ! 12 := put32 (n - 12) b (blk s (addrs s ip ! 12)))"
  shows "entry_post 3 ip n s b w"
proof -
  let ?ind = "addrs s ip ! 12"
  have im: "imap_ok (data_used s) (blk s) (addrs s ip)" and ipl: "ip < length (itable s)" using ok by (auto simp: inode_ok_def)
  have iu: "data_used s ?ind" by (rule imap_okD(2) [OF im ind(1)])
  note L = blocks_inv_locked [OF inv l iu] and ld = lockedD [OF l]
  note d = balloc_data [OF L(1) p b]
  have bt: "blk t = blk s" using l by (simp add: locked_def)
  have it: "itable w = itable s" and sb: "sb w = sb s" using fs_stepD(8,9) [OF w(1)] by auto
  have nb: "\<not> data_used s b" using d(2) L(2) by simp
  have nbi: "b \<noteq> ?ind" using nb iu by auto
  have v1: "blk w c = blk s c" if "data_used s c" "c \<noteq> ?ind" for c
    using w(2) that d(4) [of c] data_not_bitmap [OF that(1)] nb ld(2) bt by auto
  have v2: "blk w b = replicate 1024 0" using w(2) nbi d(5) by simp
  have v3: "blk w ?ind = put32 (n - 12) b (blk s ?ind)" using w(2) by simp
  have len: "length (blk s ?ind) = 1024" using inv length_blk [OF log_inv_bio] by (auto simp: blocks_inv_def)
  have bu: "block_used w c \<longleftrightarrow> block_used u c" if "c < sb_size (sb s)" for c
  proof -
    have "BBLOCK c (sb s) \<noteq> ?ind" using BBLOCK_bitmap [OF that] data_not_bitmap [OF iu] by auto
    then show ?thesis using w(2) sb fs_stepD(8) [OF d(6)] ld(2) by (simp add: block_used_def)
  qed
  have du: "data_used w = (\<lambda>c. data_used s c \<or> c = b)"
    using d(1) bu fs_stepD(8) [OF d(6)] ld(2) L(2) sb unfolding data_used_def by (auto simp: fun_eq_iff)
  note im' = imap_add_entry [OF im n ind b nb d(3) v1 v2 v3 len]
  have "inode_ok w ip" using ok im'(1) by (simp add: inode_ok_def it du)
  moreover have "blocks_inv w"
    using inv fs_stepD [OF w(1)] data_start_le [OF inv] bu balloc_used [OF L(1) p b] ld(2)
    by (auto simp: blocks_inv_def block_used_def bt)
  moreover have "\<forall>c<data_start (sb s). c \<notin> bitmap_blocks (sb s) \<longrightarrow> blk w c = blk s c"
    using meta_frame [OF L(1) p b] w(2) iu bt ld(2) by (auto simp: data_used_def)
  moreover have "imap_step 3 ip s w"
    using calculation im'(3) fs_step_rel [OF w(1)] v1 du it by (simp add: imap_step_def)
  ultimately show ?thesis using im'(2) n b it ind(2) d(2) L(2) by (simp add: entry_post_def)
qed

lemma fs_step_used: "fs_step n s t \<Longrightarrow> blk t = blk s \<Longrightarrow> block_used t = block_used s \<and> data_used t = data_used s"
  using fs_stepD(8) [of n s t] by (simp add: block_used_def data_used_def fun_eq_iff)

lemma imap_step_same:
  assumes inv: "blocks_inv s" and ok: "inode_ok s ip" and st: "fs_step k s t" and b: "blk t = blk s"
  shows "imap_step k ip s t"
proof -
  note d = fs_stepD [OF st] and u = fs_step_used [OF st b]
  have "blocks_inv t" using inv d u by (auto simp: blocks_inv_def)
  moreover have "inode_ok t ip" using ok d u b by (simp add: inode_ok_def)
  ultimately show ?thesis using u b d fs_step_rel [OF st] by (simp add: imap_step_def)
qed

text \<open>The locked indirect block has no entry: a block is allocated and its address stored.\<close>

lemma bmap_entry_alloc:
  assumes inv: "blocks_inv s" and ok: "inode_ok s ip" and n: "12 \<le> n" "n < 268"
    and ind: "addrs s ip ! 12 \<noteq> 0" and tx: "tx 4 s" and z: "fblk (blk s) (addrs s ip) n = 0"
    and l: "locked s t i (addrs s ip ! 12)" and p: "balloc_post t addr u"
  shows "returns (if addr \<noteq> 0 then
      kbind (log_write i (set_data i (put32 (n - 12) addr (bdata i u)) u)) (\<lambda>_ s. kbind (brelse i s) (\<lambda>_ s. Ok addr s))
    else kbind (brelse i u) (\<lambda>_ s. Ok 0 s)) (entry_post 3 ip n s)"
proof (cases "addr = 0")
  case True
  then have q: "fs_step 0 t u" "blk u = blk t" "\<forall>c < sb_size (sb t). block_used t c" using p by (auto simp: balloc_post_def)
  have bt: "blk t = blk s" using l by (simp add: locked_def)
  have "entry_post 3 ip n s 0 w" if "fs_step 0 s w" "blk w = blk u" for w
    using imap_step_same [OF inv ok fs_step_mono [OF that(1)], of 3] that(2) q bt z
      fs_stepD(8,9) [OF that(1)] lockedD(2) [OF l] by (simp add: entry_post_def block_used_def)
  then have "returns (kbind (brelse i u) (\<lambda>_. Ok 0)) (entry_post 3 ip n s)"
    by (intro release_after [OF l q(1)]) simp
  then show ?thesis using True by simp
next
  case False
  let ?ind = "addrs s ip ! 12"
  have room: "4 \<le> slots s" and out: "1 \<le> lg_outstanding s" using tx by (auto simp: tx_def)
  have iu: "data_used s ?ind" using ok ind imap_okD(2) by (auto simp: inode_ok_def)
  note L = blocks_inv_locked [OF inv l iu]
  have bt: "blk t = blk s" using l by (simp add: locked_def)
  have lg: "loggable s ?ind"
    using iu inv out by (auto simp: loggable_def log_area_def data_used_def data_start_def blocks_inv_def wf_sb_def)
  have len: "length (blk s ?ind) = 1024" using inv length_blk [OF log_inv_bio] by (auto simp: blocks_inv_def)
  note d = balloc_data [OF L(1) p False]
  have bi: "bdata i u = blk s ?ind"
    using d(4) [of ?ind] iu d(2) L(2) data_not_bitmap [OF iu] lockedD(2) [OF l] bt fs_stepD(1,6) [OF d(6)] l
      store.dat_view [of u i ?ind] by (auto simp: locked_def)
  have "returns (kbind (log_write i (set_data i (put32 (n - 12) addr (blk s ?ind)) u)) (\<lambda>_ s. kbind (brelse i s) (\<lambda>_. Ok addr)))
      (entry_post 3 ip n s)"
    by (rule bmap_entry_store [OF l d(6) room lg])
      (use imap_step_entry [OF inv ok n ind _ l p False] z len n in auto)
  then show ?thesis using False by (simp add: bi)
qed

lemma returns_bmap_entry:
  assumes inv: "blocks_inv s" and ok: "inode_ok s ip" and n: "12 \<le> n" "n < 268"
    and ind: "addrs s ip ! 12 \<noteq> 0" "addrs s ip ! 12 \<notin> held s" and tx: "tx 4 s"
  shows "returns (bmap_entry ROOTDEV (addrs s ip ! 12) (n - 12) s) (entry_post 3 ip n s)"
  unfolding bmap_entry_def
proof (rule fs_bread [OF _ ind(2)])
  let ?ind = "addrs s ip ! 12"
  have iu: "data_used s ?ind" using ok ind imap_okD(2) by (auto simp: inode_ok_def)
  have f: "fblk (blk s) (addrs s ip) n = get32 (n - 12) (blk s ?ind)" using n ind by (simp add: fblk_def)
  show "log_inv s" "0 < slots s" using inv tx by (auto simp: blocks_inv_def tx_def)
  fix i t assume l: "locked s t i ?ind" and bd: "bdata i t = blk s ?ind"
  note L = blocks_inv_locked [OF inv l iu]
  show "returns (let addr = get32 (n - 12) (bdata i t) in
      if addr = 0 then kbind (balloc ROOTDEV t) (\<lambda>addr s. if addr \<noteq> 0 then
          kbind (log_write i (set_data i (put32 (n - 12) addr (bdata i s)) s)) (\<lambda>_ s. kbind (brelse i s) (\<lambda>_ s. Ok addr s))
        else kbind (brelse i s) (\<lambda>_ s. Ok 0 s))
      else kbind (brelse i t) (\<lambda>_ s. Ok addr s)) (entry_post 3 ip n s)"
  proof (cases "get32 (n - 12) (blk s ?ind) = 0")
    case False
    then show ?thesis
      unfolding bd Let_def
      by simp (rule fs_release [OF l], use imap_step_same [OF inv ok fs_step_mono] f in
        \<open>auto simp: entry_post_def dest: fs_stepD(9)\<close>)
  next
    case True
    have "tx 3 t" by (rule L(3)) (use tx in simp)
    note returns_mono [OF returns_balloc [OF L(1) this] bmap_entry_alloc [OF inv ok n ind(1) tx _ l]]
    then show ?thesis using True f by (simp add: bd Let_def wp)
  qed
qed

lemma bmap_indirect_eq:
  assumes "12 \<le> n" and "n < 268" and "i_dev (itable s ! ip) = dev"
  shows "bmap ip n s =
    kbind (if addrs s ip ! 12 = 0 then balloc dev s else Ok (addrs s ip ! 12) s) (\<lambda>addr s.
    if addr = 0 then Ok 0 s
    else bmap_entry dev addr (n - 12) (upd_inode ip (\<lambda>ip. ip\<lparr>i_addrs := (i_addrs ip)[12 := addr]\<rparr>) s))"
proof -
  have "\<not> n < 12" "n - 12 < 256" using assms by auto
  then show ?thesis unfolding bmap_def bmap_entry_def Let_def assms(3) by (simp only: if_False if_True)
qed

lemma returns_bmap_direct:
  assumes inv: "blocks_inv s" and ok: "inode_ok s ip" and n: "n < 12" and tx: "tx 3 s"
  shows "returns (bmap ip n s) (entry_post 2 ip n s)"
proof (cases "addrs s ip ! n = 0")
  case False
  then show ?thesis using n imap_step_refl [OF inv ok] by (simp add: bmap_def entry_post_def fblk_def)
next
  case z: True
  have dev: "i_dev (itable s ! ip) = ROOTDEV" using ok by (simp add: inode_ok_def)
  have "returns (if addr = 0 then Ok 0 t
      else Ok addr (upd_inode ip (\<lambda>ip. ip\<lparr>i_addrs := (i_addrs ip)[n := addr]\<rparr>) t)) (entry_post 2 ip n s)"
    if p: "balloc_post s addr t" for addr t
  proof (cases "addr = 0")
    case True
    then have q: "fs_step 0 s t" "blk t = blk s" "\<forall>c < sb_size (sb s). block_used s c" using p by (auto simp: balloc_post_def)
    then show ?thesis
      using imap_step_same [OF inv ok fs_step_mono [OF q(1)], of 2] True z n fs_stepD(8,9) [OF q(1)]
      by (simp add: entry_post_def fblk_def block_used_def)
  next
    case False
    then show ?thesis
      using imap_step_balloc [OF inv ok _ z p False] n balloc_data(2) [OF inv p False] z
      by (simp add: entry_post_def) (simp add: fblk_def)
  qed
  from returns_mono [OF returns_balloc [OF inv tx] this]
  show ?thesis using n z dev by (simp add: bmap_def Let_def wp)
qed

text \<open>The indirect block is new: it has no entries yet.\<close>

lemma returns_bmap_new_indirect:
  assumes inv: "blocks_inv s" and ok: "inode_ok s ip" and n: "12 \<le> n" "n < 268" and tx: "tx 6 s"
    and z: "addrs s ip ! 12 = 0" and p: "balloc_post s addr t" "addr \<noteq> 0"
  shows "returns (bmap_entry ROOTDEV addr (n - 12) (upd_inode ip (\<lambda>ip. ip\<lparr>i_addrs := (i_addrs ip)[12 := addr]\<rparr>) t))
    (entry_post 5 ip n s)"
proof -
  let ?u = "upd_inode ip (\<lambda>ip. ip\<lparr>i_addrs := (i_addrs ip)[12 := addr]\<rparr>) t"
  note a = imap_step_balloc [OF inv ok order.refl z p]
  have ipl: "ip < length (itable s)" using ok by (simp add: inode_ok_def)
  have a1: "blocks_inv ?u" "inode_ok ?u ip" "fs_rel 2 s ?u" using a(1) by (auto simp: imap_step_def)
  have a2: "addrs ?u ip ! 12 = addr" using a(3) imap_okD(1) [of "data_used s" "blk s" "addrs s ip"] ok by (simp add: inode_ok_def)
  have a3: "addr \<notin> held ?u" using fs_relD(2) [OF a1(3)] blocks_inv_data(1) [OF inv, of addr] p by (auto simp: balloc_post_def)
  have a4: "tx 4 ?u" by (rule fs_rel_tx [OF a1(3)]) (use tx in simp)
  have "returns (bmap_entry ROOTDEV addr (n - 12) ?u) (entry_post 3 ip n ?u)"
    using returns_bmap_entry [OF a1(1,2) n _ _ a4] a2 a3 p by simp
  moreover have "imap_step 5 ip s w" if "imap_step 3 ip ?u w" for w
    using imap_step_trans [OF a(1) that ipl] by simp
  moreover have "data_used s c \<Longrightarrow> data_used ?u c" for c using balloc_data(1) [OF inv p] by simp
  ultimately show ?thesis
    by (elim returns_mono) (use a(2) fs_relD(7) [OF a1(3)] in \<open>auto simp: entry_post_def split: if_splits\<close>)
qed

lemma returns_bmap_indirect:
  assumes inv: "blocks_inv s" and ok: "inode_ok s ip" and n: "12 \<le> n" "n < 268" and tx: "tx 6 s"
    and h: "addrs s ip ! NDIRECT \<noteq> 0 \<Longrightarrow> addrs s ip ! NDIRECT \<notin> held s"
  shows "returns (bmap ip n s) (entry_post 5 ip n s)"
proof -
  have dev: "i_dev (itable s ! ip) = ROOTDEV" using ok by (auto simp: inode_ok_def)
  show ?thesis
  proof (cases "addrs s ip ! 12 = 0")
    case ind: False
    have "entry_post 3 ip n s b t \<Longrightarrow> entry_post 5 ip n s b t" for b t
      by (auto simp: entry_post_def imap_step_def intro: fs_rel_mono)
    moreover have "tx 4 s" using tx by (simp add: tx_def)
    ultimately have "returns (bmap_entry ROOTDEV (addrs s ip ! 12) (n - 12) s) (entry_post 5 ip n s)"
      using returns_mono [OF returns_bmap_entry [OF inv ok n ind h [OF ind]]] by metis
    moreover have "upd_inode ip (\<lambda>x. x\<lparr>i_addrs := (i_addrs x)[12 := addrs s ip ! 12]\<rparr>) s = s" by (simp add: upd_inode_def)
    ultimately show ?thesis using bmap_indirect_eq [OF n dev] ind by simp
  next
    case z: True
    have tx3: "tx 3 s" using tx by (simp add: tx_def)
    have "returns (if addr = 0 then Ok 0 t
        else bmap_entry ROOTDEV addr (n - 12) (upd_inode ip (\<lambda>ip. ip\<lparr>i_addrs := (i_addrs ip)[12 := addr]\<rparr>) t)) (entry_post 5 ip n s)"
      if p: "balloc_post s addr t" for addr t
    proof (cases "addr = 0")
      case True
      then have q: "fs_step 0 s t" "blk t = blk s" "\<forall>c < sb_size (sb s). block_used s c" using p by (auto simp: balloc_post_def)
      then show ?thesis
        using imap_step_same [OF inv ok fs_step_mono [OF q(1)], of 5] True z n fs_stepD(8,9) [OF q(1)]
        by (simp add: entry_post_def fblk_def block_used_def)
    next
      case False
      then show ?thesis using returns_bmap_new_indirect [OF inv ok n tx z p] by simp
    qed
    from returns_mono [OF returns_balloc [OF inv tx3] this]
    show ?thesis using bmap_indirect_eq [OF n dev] z by (simp add: wp)
  qed
qed

lemma returns_bmap:
  assumes inv: "blocks_inv s" and ok: "inode_ok s ip" and n: "n < MAXFILE" and tx: "tx 6 s"
    and h: "addrs s ip ! NDIRECT \<noteq> 0 \<Longrightarrow> addrs s ip ! NDIRECT \<notin> held s"
  shows "returns (bmap ip n s) (entry_post 5 ip n s)"
proof (cases "n < 12")
  case True
  have "entry_post 2 ip n s b t \<Longrightarrow> entry_post 5 ip n s b t" for b t
    by (auto simp: entry_post_def imap_step_def intro: fs_rel_mono)
  moreover have "tx 3 s" using tx by (simp add: tx_def)
  ultimately show ?thesis using returns_mono [OF returns_bmap_direct [OF inv ok True]] by metis
next
  case False
  then show ?thesis using returns_bmap_indirect [OF inv ok _ n tx h] by simp
qed

end
