(* ===== verification/Vm.thy ===== *)
theory Vm
  imports Proc_Core
begin

text \<open>
  Virtual memory, \<^verbatim>\<open>kernel/vm.c\<close>: Sv39 page tables in physical memory. A page table is
  named by the address of its root page; an entry is a 64-bit word of memory. A byte
  buffer of the kernel that a function copies from or to (\<^verbatim>\<open>src\<close> of \<^verbatim>\<open>copyout\<close>, \<^verbatim>\<open>dst\<close> of
  \<^verbatim>\<open>copyin\<close>) is a list of bytes: the argument of \<open>copyout\<close>, and the second component of
  the results of \<open>copyin\<close> and \<open>copyinstr\<close>, which is what was copied when the call failed.
\<close>

section \<open>Page-table entries\<close>

abbreviation (input) PTE_V :: u64 where "PTE_V \<equiv> 1"
abbreviation (input) PTE_R :: u64 where "PTE_R \<equiv> 2"
abbreviation (input) PTE_W :: u64 where "PTE_W \<equiv> 4"
abbreviation (input) PTE_X :: u64 where "PTE_X \<equiv> 8"
abbreviation (input) PTE_U :: u64 where "PTE_U \<equiv> 16"

definition PA2PTE :: "u64 \<Rightarrow> u64" where
  "PA2PTE pa = push_bit 10 (drop_bit 12 pa)"

definition PTE2PA :: "u64 \<Rightarrow> u64" where
  "PTE2PA pte = push_bit 12 (drop_bit 10 pte)"

definition PTE_FLAGS :: "u64 \<Rightarrow> u64" where
  "PTE_FLAGS pte = pte AND 0x3FF"

definition PX :: "nat \<Rightarrow> u64 \<Rightarrow> u64" where
  "PX level va = drop_bit (12 + 9 * level) va AND 0x1FF"

definition MAXVA :: u64 where
  "MAXVA = push_bit (9 + 9 + 9 + 12 - 1) 1"

definition TRAMPOLINE :: u64 where
  "TRAMPOLINE = MAXVA - PGSIZE"

definition TRAPFRAME :: u64 where
  "TRAPFRAME = TRAMPOLINE - PGSIZE"

definition KSTACK :: "nat \<Rightarrow> u64" where
  "KSTACK p = TRAMPOLINE - (of_nat p + 1) * 2 * PGSIZE"

text \<open>The address of entry \<open>i\<close> of a page-table page, \<^verbatim>\<open>&pagetable[i]\<close>.\<close>

definition pte_at :: "u64 \<Rightarrow> u64 \<Rightarrow> u64" where
  "pte_at pagetable i = pagetable + 8 * i"

section \<open>Walking a table\<close>

text \<open>The loop of \<^verbatim>\<open>walk\<close> from a level on; the null pointer is \<open>None\<close>.\<close>

fun walk_loop ::
  "nat \<Rightarrow> u64 \<Rightarrow> u64 \<Rightarrow> bool \<Rightarrow> 'z kmem_state_scheme \<Rightarrow> (u64 option, 'z kmem_state_scheme) kout" where
  "walk_loop 0 pagetable va alloc s = Ok (Some (pte_at pagetable (PX 0 va))) s"
| "walk_loop (Suc l) pagetable va alloc s =
    (let pte = pte_at pagetable (PX (Suc l) va) in
     if load64 (mem s) pte AND PTE_V \<noteq> 0
     then walk_loop l (PTE2PA (load64 (mem s) pte)) va alloc s
     else if \<not> alloc then Ok None s
     else kbind (kalloc s) (\<lambda>page s.
       if page = 0 then Ok None s
       else
         let m = memset (mem s) page 0 4096 in
         walk_loop l page va alloc (s\<lparr>mem := store64 m pte (PA2PTE page OR PTE_V)\<rparr>)))"

definition walk ::
  "u64 \<Rightarrow> u64 \<Rightarrow> bool \<Rightarrow> 'z kmem_state_scheme \<Rightarrow> (u64 option, 'z kmem_state_scheme) kout" where
  "walk pagetable va alloc s =
    (if va \<ge> MAXVA then Panic ''walk'' else walk_loop 2 pagetable va alloc s)"

definition walkaddr ::
  "u64 \<Rightarrow> u64 \<Rightarrow> 'z kmem_state_scheme \<Rightarrow> (u64, 'z kmem_state_scheme) kout" where
  "walkaddr pagetable va s =
    (if va \<ge> MAXVA then Ok 0 s
     else kbind (walk pagetable va False s) (\<lambda>pte s.
       case pte of
         None \<Rightarrow> Ok 0 s
       | Some a \<Rightarrow>
           (let pte = load64 (mem s) a in
            if pte AND PTE_V = 0 then Ok 0 s
            else if pte AND PTE_U = 0 then Ok 0 s
            else Ok (PTE2PA pte) s)))"

definition ismapped ::
  "u64 \<Rightarrow> u64 \<Rightarrow> 'z kmem_state_scheme \<Rightarrow> (bool, 'z kmem_state_scheme) kout" where
  "ismapped pagetable va s =
    kbind (walk pagetable va False s) (\<lambda>pte s.
      case pte of
        None \<Rightarrow> Ok False s
      | Some a \<Rightarrow> Ok (load64 (mem s) a AND PTE_V \<noteq> 0) s)"

text \<open>A walk that returns is at an address below \<^verbatim>\<open>MAXVA\<close>; this ends the loops below.\<close>

lemma walk_Ok_MAXVA: "walk pagetable va alloc s = Ok r t \<Longrightarrow> va < MAXVA"
  by (auto simp: walk_def not_le [symmetric] split: if_splits)

lemma MAXVA_unat: "unat MAXVA = 2 ^ 38"
  by (simp add: MAXVA_def push_bit_of_1)

lemma next_page_MAXVA:
  "a < MAXVA \<Longrightarrow> unat MAXVA - unat (a + PGSIZE) < unat MAXVA - unat a"
  by (simp add: word_less_nat_alt MAXVA_unat unat_word_ariths)

section \<open>Mapping\<close>

function mappages_loop ::
  "u64 \<Rightarrow> u64 \<Rightarrow> u64 \<Rightarrow> u64 \<Rightarrow> u64 \<Rightarrow> 'z kmem_state_scheme \<Rightarrow> (int, 'z kmem_state_scheme) kout" where
  "mappages_loop pagetable a lst pa perm s =
    kbind (walk pagetable a True s) (\<lambda>pte s.
      case pte of
        None \<Rightarrow> Ok (-1) s
      | Some e \<Rightarrow>
          if load64 (mem s) e AND PTE_V \<noteq> 0 then Panic ''mappages: remap''
          else
            let s = s\<lparr>mem := store64 (mem s) e (PA2PTE pa OR perm OR PTE_V)\<rparr> in
            if a = lst then Ok 0 s
            else mappages_loop pagetable (a + PGSIZE) lst (pa + PGSIZE) perm s)"
  by pat_completeness auto
termination
  by (relation "measure (\<lambda>(pagetable, a, lst, pa, perm, s). unat MAXVA - unat a)")
    (auto dest!: walk_Ok_MAXVA simp: next_page_MAXVA)

declare mappages_loop.simps [simp del]

definition mappages ::
  "u64 \<Rightarrow> u64 \<Rightarrow> u64 \<Rightarrow> u64 \<Rightarrow> u64 \<Rightarrow> 'z kmem_state_scheme \<Rightarrow> (int, 'z kmem_state_scheme) kout" where
  "mappages pagetable va sz pa perm s =
    (if va mod PGSIZE \<noteq> 0 then Panic ''mappages: va not aligned''
     else if sz mod PGSIZE \<noteq> 0 then Panic ''mappages: size not aligned''
     else if sz = 0 then Panic ''mappages: size''
     else mappages_loop pagetable va (va + sz - PGSIZE) pa perm s)"

definition kvmmap ::
  "u64 \<Rightarrow> u64 \<Rightarrow> u64 \<Rightarrow> u64 \<Rightarrow> u64 \<Rightarrow> 'z kmem_state_scheme \<Rightarrow> (unit, 'z kmem_state_scheme) kout" where
  "kvmmap kpgtbl va pa sz perm s =
    kbind (mappages kpgtbl va sz pa perm s) (\<lambda>r s. if r \<noteq> 0 then Panic ''kvmmap'' else Ok () s)"

definition proc_mapstacks ::
  "u64 \<Rightarrow> 'z kmem_state_scheme \<Rightarrow> (unit, 'z kmem_state_scheme) kout" where
  "proc_mapstacks kpgtbl s =
    kfor [0..<NPROC] (\<lambda>p s.
      kbind (kalloc s) (\<lambda>pa s.
        if pa = 0 then Panic ''kalloc''
        else kvmmap kpgtbl (KSTACK p) pa PGSIZE (PTE_R OR PTE_W) s)) s"

text \<open>The kernel's direct map; \<open>etext\<close> and \<open>trampoline\<close> are symbols of the linker script.\<close>

definition kvmmake ::
  "u64 \<Rightarrow> u64 \<Rightarrow> 'z kmem_state_scheme \<Rightarrow> (u64, 'z kmem_state_scheme) kout" where
  "kvmmake etext trampoline s =
    kbind (kalloc s) (\<lambda>kpgtbl s.
    kbind (kvmmap kpgtbl 0x10000000 0x10000000 PGSIZE (PTE_R OR PTE_W)
            (s\<lparr>mem := memset (mem s) kpgtbl 0 4096\<rparr>)) (\<lambda>_ s.
    kbind (kvmmap kpgtbl 0x10001000 0x10001000 PGSIZE (PTE_R OR PTE_W) s) (\<lambda>_ s.
    kbind (kvmmap kpgtbl 0x0c000000 0x0c000000 0x4000000 (PTE_R OR PTE_W) s) (\<lambda>_ s.
    kbind (kvmmap kpgtbl KERNBASE KERNBASE (etext - KERNBASE) (PTE_R OR PTE_X) s) (\<lambda>_ s.
    kbind (kvmmap kpgtbl etext etext (PHYSTOP - etext) (PTE_R OR PTE_W) s) (\<lambda>_ s.
    kbind (kvmmap kpgtbl TRAMPOLINE trampoline PGSIZE (PTE_R OR PTE_X) s) (\<lambda>_ s.
    kbind (proc_mapstacks kpgtbl s) (\<lambda>_ s. Ok kpgtbl s))))))))"

section \<open>User page tables\<close>

definition uvmcreate :: "'z kmem_state_scheme \<Rightarrow> (u64, 'z kmem_state_scheme) kout" where
  "uvmcreate s =
    kbind (kalloc s) (\<lambda>pagetable s.
      if pagetable = 0 then Ok 0 s
      else Ok pagetable (s\<lparr>mem := memset (mem s) pagetable 0 4096\<rparr>))"

function uvmunmap_loop ::
  "u64 \<Rightarrow> u64 \<Rightarrow> u64 \<Rightarrow> bool \<Rightarrow> 'z kmem_state_scheme \<Rightarrow> (unit, 'z kmem_state_scheme) kout" where
  "uvmunmap_loop pagetable a e do_free s =
    (if a < e then
       kbind (walk pagetable a False s) (\<lambda>pte s.
         kbind
           (case pte of
              None \<Rightarrow> Ok () s
            | Some p \<Rightarrow>
                if load64 (mem s) p AND PTE_V = 0 then Ok () s
                else
                  kbind (if do_free then kfree (PTE2PA (load64 (mem s) p)) s else Ok () s) (\<lambda>_ s.
                    Ok () (s\<lparr>mem := store64 (mem s) p 0\<rparr>)))
           (\<lambda>_ s. uvmunmap_loop pagetable (a + PGSIZE) e do_free s))
     else Ok () s)"
  by pat_completeness auto
termination
  by (relation "measure (\<lambda>(pagetable, a, e, do_free, s). unat MAXVA - unat a)")
    (auto dest!: walk_Ok_MAXVA simp: next_page_MAXVA)

declare uvmunmap_loop.simps [simp del]

definition uvmunmap ::
  "u64 \<Rightarrow> u64 \<Rightarrow> u64 \<Rightarrow> bool \<Rightarrow> 'z kmem_state_scheme \<Rightarrow> (unit, 'z kmem_state_scheme) kout" where
  "uvmunmap pagetable va npages do_free s =
    (if va mod PGSIZE \<noteq> 0 then Panic ''uvmunmap: not aligned''
     else uvmunmap_loop pagetable va (va + npages * PGSIZE) do_free s)"

text \<open>\<^verbatim>\<open>npages\<close> is an \<^verbatim>\<open>int\<close>, converted back to \<^verbatim>\<open>uint64\<close> at the call of \<^verbatim>\<open>uvmunmap\<close>.\<close>

definition uvmdealloc ::
  "u64 \<Rightarrow> u64 \<Rightarrow> u64 \<Rightarrow> 'z kmem_state_scheme \<Rightarrow> (u64, 'z kmem_state_scheme) kout" where
  "uvmdealloc pagetable oldsz newsz s =
    (if newsz \<ge> oldsz then Ok oldsz s
     else if PGROUNDUP newsz < PGROUNDUP oldsz then
       let npages = ucast ((PGROUNDUP oldsz - PGROUNDUP newsz) div PGSIZE) :: 32 word in
       kbind (uvmunmap pagetable (PGROUNDUP newsz) (scast npages) True s) (\<lambda>_ s. Ok newsz s)
     else Ok newsz s)"

function uvmalloc_loop ::
  "u64 \<Rightarrow> u64 \<Rightarrow> u64 \<Rightarrow> u64 \<Rightarrow> u64 \<Rightarrow> 'z kmem_state_scheme \<Rightarrow> (u64, 'z kmem_state_scheme) kout" where
  "uvmalloc_loop pagetable oldsz a newsz xperm s =
    (if a < newsz then
       kbind (kalloc s) (\<lambda>page s.
         if page = 0 then kbind (uvmdealloc pagetable a oldsz s) (\<lambda>_ s. Ok 0 s)
         else
           let s = s\<lparr>mem := memset (mem s) page 0 4096\<rparr> in
           kbind (mappages pagetable a PGSIZE page (PTE_R OR PTE_U OR xperm) s) (\<lambda>r s.
             if r \<noteq> 0 then
               kbind (kfree page s) (\<lambda>_ s.
               kbind (uvmdealloc pagetable a oldsz s) (\<lambda>_ s. Ok 0 s))
             else uvmalloc_loop pagetable oldsz (a + PGSIZE) newsz xperm s))
     else Ok newsz s)"
  by pat_completeness auto
termination
proof (relation "measure (\<lambda>(pagetable, oldsz, a, newsz, xperm, s). unat MAXVA - unat a)")
  fix pagetable oldsz a newsz xperm page r and s s1 s2 s3 :: "'z kmem_state_scheme"
  assume "mappages pagetable a PGSIZE page (PTE_R OR PTE_U OR xperm) s2 = Ok r s3"
  then have "a < MAXVA"
    by (auto simp: mappages_def mappages_loop.simps dest!: walk_Ok_MAXVA split: if_splits)
  then show "((pagetable, oldsz, a + PGSIZE, newsz, xperm, s3), pagetable, oldsz, a, newsz, xperm, s)
      \<in> measure (\<lambda>(pagetable, oldsz, a, newsz, xperm, s). unat MAXVA - unat a)"
    by (simp add: next_page_MAXVA)
qed simp

declare uvmalloc_loop.simps [simp del]

definition uvmalloc ::
  "u64 \<Rightarrow> u64 \<Rightarrow> u64 \<Rightarrow> u64 \<Rightarrow> 'z kmem_state_scheme \<Rightarrow> (u64, 'z kmem_state_scheme) kout" where
  "uvmalloc pagetable oldsz newsz xperm s =
    (if newsz < oldsz then Ok oldsz s
     else uvmalloc_loop pagetable (PGROUNDUP oldsz) (PGROUNDUP oldsz) newsz xperm s)"

text \<open>
  \<^verbatim>\<open>freewalk\<close> calls itself on the child tables. The depth \<open>d\<close> is the kernel stack left; a
  Sv39 table has three levels, so \<^verbatim>\<open>uvmfree\<close> needs three.
\<close>

fun freewalk :: "nat \<Rightarrow> u64 \<Rightarrow> 'z kmem_state_scheme \<Rightarrow> (unit, 'z kmem_state_scheme) kout" where
  "freewalk 0 pagetable s = Panic ''stack''"
| "freewalk (Suc d) pagetable s =
    kbind
      (kfor [0..<512] (\<lambda>i s.
        let e = pte_at pagetable (of_nat i); pte = load64 (mem s) e in
        if pte AND PTE_V \<noteq> 0 \<and> pte AND (PTE_R OR PTE_W OR PTE_X) = 0 then
          kbind (freewalk d (PTE2PA pte) s) (\<lambda>_ s. Ok () (s\<lparr>mem := store64 (mem s) e 0\<rparr>))
        else if pte AND PTE_V \<noteq> 0 then Panic ''freewalk: leaf''
        else Ok () s) s)
      (\<lambda>_ s. kfree pagetable s)"

definition uvmfree :: "u64 \<Rightarrow> u64 \<Rightarrow> 'z kmem_state_scheme \<Rightarrow> (unit, 'z kmem_state_scheme) kout" where
  "uvmfree pagetable sz s =
    kbind (if sz > 0 then uvmunmap pagetable 0 (PGROUNDUP sz div PGSIZE) True s else Ok () s)
      (\<lambda>_ s. freewalk 3 pagetable s)"

function uvmcopy_loop ::
  "u64 \<Rightarrow> u64 \<Rightarrow> u64 \<Rightarrow> u64 \<Rightarrow> 'z kmem_state_scheme \<Rightarrow> (int, 'z kmem_state_scheme) kout" where
  "uvmcopy_loop old new i sz s =
    (if i < sz then
       kbind (walk old i False s) (\<lambda>pte s.
         let next = (\<lambda>s. uvmcopy_loop old new (i + PGSIZE) sz s);
             err = (\<lambda>s. kbind (uvmunmap new 0 (i div PGSIZE) True s) (\<lambda>_ s. Ok (-1) s)) in
         case pte of
           None \<Rightarrow> next s
         | Some e \<Rightarrow>
             (let pte = load64 (mem s) e in
              if pte AND PTE_V = 0 then next s
              else
                kbind (kalloc s) (\<lambda>page s.
                  if page = 0 then err s
                  else
                    let s = s\<lparr>mem := memmove (mem s) page (PTE2PA pte) 4096\<rparr> in
                    kbind (mappages new i PGSIZE page (PTE_FLAGS pte) s) (\<lambda>r s.
                      if r \<noteq> 0 then kbind (kfree page s) (\<lambda>_ s. err s)
                      else next s))))
     else Ok 0 s)"
  by pat_completeness auto
termination
  by (relation "measure (\<lambda>(old, new, i, sz, s). unat MAXVA - unat i)")
    (auto dest!: walk_Ok_MAXVA simp: next_page_MAXVA)

declare uvmcopy_loop.simps [simp del]

definition uvmcopy ::
  "u64 \<Rightarrow> u64 \<Rightarrow> u64 \<Rightarrow> 'z kmem_state_scheme \<Rightarrow> (int, 'z kmem_state_scheme) kout" where
  "uvmcopy old new sz s = uvmcopy_loop old new 0 sz s"

definition uvmclear :: "u64 \<Rightarrow> u64 \<Rightarrow> 'z kmem_state_scheme \<Rightarrow> (unit, 'z kmem_state_scheme) kout" where
  "uvmclear pagetable va s =
    kbind (walk pagetable va False s) (\<lambda>pte s.
      case pte of
        None \<Rightarrow> Panic ''uvmclear''
      | Some e \<Rightarrow> Ok () (s\<lparr>mem := store64 (mem s) e (load64 (mem s) e AND NOT PTE_U)\<rparr>))"

section \<open>Lazy allocation\<close>

text \<open>The page is mapped in the table of the current process, whatever \<open>pagetable\<close> is.\<close>

definition vmfault ::
  "u64 \<Rightarrow> u64 \<Rightarrow> 'z proc_state_scheme \<Rightarrow> (u64, 'z proc_state_scheme) kout" where
  "vmfault pagetable va s =
    (if va \<ge> p_sz (myproc s) then Ok 0 s
     else
       let va = PGROUNDDOWN va in
       kbind (ismapped pagetable va s) (\<lambda>mapped s.
         if mapped then Ok 0 s
         else kbind (kalloc s) (\<lambda>page s.
           if page = 0 then Ok 0 s
           else
             let s = s\<lparr>mem := memset (mem s) page 0 4096\<rparr> in
             kbind (mappages (p_pagetable (myproc s)) va PGSIZE page (PTE_W OR PTE_U OR PTE_R) s)
               (\<lambda>r s. if r \<noteq> 0 then kbind (kfree page s) (\<lambda>_ s. Ok 0 s) else Ok page s))))"

section \<open>Copying between kernel and user memory\<close>

text \<open>The bytes from a user address to the end of its page, \<^verbatim>\<open>PGSIZE - (va - va0)\<close>.\<close>

definition page_rest :: "u64 \<Rightarrow> nat" where
  "page_rest va = unat (PGSIZE - (va - PGROUNDDOWN va))"

lemma page_rest: "page_rest va = 4096 - unat va mod 4096"
proof -
  have "va - PGROUNDDOWN va = va mod 4096"
    unfolding PGROUNDDOWN_def and_not_pagemask by simp
  moreover have "unat (va mod 4096) < 4096" by (simp add: unat_mod)
  ultimately show ?thesis
    unfolding page_rest_def by (subst unat_sub) (simp_all add: unat_mod word_le_nat_alt)
qed

lemma page_rest_pos: "0 < page_rest va"
  by (simp add: page_rest)

text \<open>
  The physical page of a user page: \<^verbatim>\<open>walkaddr\<close>, then \<^verbatim>\<open>vmfault\<close> when it is not mapped.
\<close>

definition fault_in ::
  "u64 \<Rightarrow> u64 \<Rightarrow> 'z proc_state_scheme \<Rightarrow> (u64, 'z proc_state_scheme) kout" where
  "fault_in pagetable va0 s =
    kbind (walkaddr pagetable va0 s) (\<lambda>pa0 s.
      if pa0 = 0 then vmfault pagetable va0 s else Ok pa0 s)"

text \<open>
  After a fault that was served in another table the code loads through a null pointer:
  the branch \<open>None\<close> of \<open>copyout\<close>, a kernel page fault.
\<close>

function copyout ::
  "u64 \<Rightarrow> u64 \<Rightarrow> bytes \<Rightarrow> 'z proc_state_scheme \<Rightarrow> (int, 'z proc_state_scheme) kout" where
  "copyout pagetable dstva src s =
    (if src = [] then Ok 0 s
     else
       let va0 = PGROUNDDOWN dstva in
       if va0 \<ge> MAXVA then Ok (-1) s
       else kbind (fault_in pagetable va0 s) (\<lambda>pa0 s.
         if pa0 = 0 then Ok (-1) s
         else kbind (walk pagetable va0 False s) (\<lambda>pte s.
           case pte of
             None \<Rightarrow> Panic ''kerneltrap''
           | Some e \<Rightarrow>
               if load64 (mem s) e AND PTE_W = 0 then Ok (-1) s
               else
                 let n = min (page_rest dstva) (length src);
                     m = mem_put (mem s) (pa0 + (dstva - va0)) (take n src) in
                 copyout pagetable (va0 + PGSIZE) (drop n src) (s\<lparr>mem := m\<rparr>))))"
  by pat_completeness auto
termination
  by (relation "measure (\<lambda>(pagetable, dstva, src, s). length src)") (auto simp: page_rest_pos)

declare copyout.simps [simp del]

function copyin ::
  "u64 \<Rightarrow> u64 \<Rightarrow> nat \<Rightarrow> 'z proc_state_scheme \<Rightarrow> (int \<times> bytes, 'z proc_state_scheme) kout" where
  "copyin pagetable srcva len s =
    (if len = 0 then Ok (0, []) s
     else
       let va0 = PGROUNDDOWN srcva in
       kbind (fault_in pagetable va0 s) (\<lambda>pa0 s.
         if pa0 = 0 then Ok (-1, []) s
         else
           let n = min (page_rest srcva) len;
               bs = mem_bytes (mem s) (pa0 + (srcva - va0)) n in
           kbind (copyin pagetable (va0 + PGSIZE) (len - n) s) (\<lambda>(r, rest) s.
             Ok (r, bs @ rest) s)))"
  by pat_completeness auto
termination
  by (relation "measure (\<lambda>(pagetable, srcva, len, s). len)") (auto simp: page_rest_pos)

declare copyin.simps [simp del]

text \<open>
  The inner loop of \<^verbatim>\<open>copyinstr\<close>: the bytes of the page up to the first NUL, which is
  included, and whether there was one.
\<close>

fun copy_until_nul :: "bytes \<Rightarrow> bool \<times> bytes" where
  "copy_until_nul [] = (False, [])"
| "copy_until_nul (c # cs) =
    (if c = 0 then (True, [0])
     else case copy_until_nul cs of (got, ds) \<Rightarrow> (got, c # ds))"

function copyinstr ::
  "u64 \<Rightarrow> u64 \<Rightarrow> nat \<Rightarrow> 'z proc_state_scheme \<Rightarrow> (int \<times> bytes, 'z proc_state_scheme) kout" where
  "copyinstr pagetable srcva mx s =
    (if mx = 0 then Ok (-1, []) s
     else
       let va0 = PGROUNDDOWN srcva in
       kbind (walkaddr pagetable va0 s) (\<lambda>pa0 s.
         if pa0 = 0 then Ok (-1, []) s
         else
           let n = min (page_rest srcva) mx in
           case copy_until_nul (mem_bytes (mem s) (pa0 + (srcva - va0)) n) of
             (got_null, bs) \<Rightarrow>
               if got_null then Ok (0, bs) s
               else kbind (copyinstr pagetable (va0 + PGSIZE) (mx - n) s) (\<lambda>(r, rest) s.
                 Ok (r, bs @ rest) s)))"
  by pat_completeness auto
termination
  by (relation "measure (\<lambda>(pagetable, srcva, mx, s). mx)") (auto simp: page_rest_pos)

declare copyinstr.simps [simp del]

end
