(* ===== verification/Fs_Data.thy ===== *)
theory Fs_Data
  imports Fs_Map Vm
begin

text \<open>
  The contents of files, \<^verbatim>\<open>readi\<close> and \<^verbatim>\<open>writei\<close> of \<^verbatim>\<open>kernel/fs.c\<close>, and the copies to and from
  user memory they use (\<^verbatim>\<open>either_copyout\<close>, \<^verbatim>\<open>either_copyin\<close> of \<^verbatim>\<open>kernel/proc.c\<close>).
\<close>

section \<open>Copying to and from user or kernel memory\<close>

text \<open>
  Where \<^verbatim>\<open>either_copyout\<close> copies to: a user address, a kernel address, or a local variable
  of a kernel function, whose bytes the caller gets as a result. \<^verbatim>\<open>either_copyin\<close> copies from
  a user address or from bytes the kernel holds.
\<close>

datatype dest = To_user u64 | To_kernel u64 | To_local

datatype source = From_user u64 | From_kernel bytes

fun dest_add :: "dest \<Rightarrow> nat \<Rightarrow> dest" where
  "dest_add (To_user a) m = To_user (a + of_nat m)"
| "dest_add (To_kernel a) m = To_kernel (a + of_nat m)"
| "dest_add To_local m = To_local"

fun source_add :: "source \<Rightarrow> nat \<Rightarrow> source" where
  "source_add (From_user a) m = From_user (a + of_nat m)"
| "source_add (From_kernel bs) m = From_kernel (drop m bs)"

definition either_copyout ::
  "dest \<Rightarrow> bytes \<Rightarrow> 'z proc_state_scheme \<Rightarrow> (int, 'z proc_state_scheme) kout" where
  "either_copyout dst bs s =
    (case dst of
       To_user a \<Rightarrow> copyout (p_pagetable (myproc s)) a bs s
     | To_kernel a \<Rightarrow> Ok 0 (s\<lparr>mem := mem_put (mem s) a bs\<rparr>)
     | To_local \<Rightarrow> Ok 0 s)"

definition either_copyin ::
  "source \<Rightarrow> nat \<Rightarrow> 'z proc_state_scheme \<Rightarrow> (int \<times> bytes, 'z proc_state_scheme) kout" where
  "either_copyin src n s =
    (case src of
       From_user a \<Rightarrow> copyin (p_pagetable (myproc s)) a n s
     | From_kernel bs \<Rightarrow> Ok (0, take n bs) s)"

section \<open>Reading\<close>

text \<open>
  One turn of the loop of \<^verbatim>\<open>readi\<close>, for \<open>m\<close> bytes: \<open>None\<close> when the block cannot be had, else the
  result of the copy, and the bytes of the block.
\<close>

definition readi_step ::
  "nat \<Rightarrow> dest \<Rightarrow> nat \<Rightarrow> nat \<Rightarrow> 'z fs_state_scheme \<Rightarrow> (int option \<times> bytes, 'z fs_state_scheme) kout" where
  "readi_step ip dst off m s =
    kbind (bmap ip (off div BSIZE) s) (\<lambda>addr s.
    if addr = 0 then Ok (None, []) s
    else
      kbind (bread (i_dev (itable s ! ip)) addr s) (\<lambda>bp s.
      let bs = get_at (off mod BSIZE) m (bdata bp s) in
      kbind (either_copyout dst bs s) (\<lambda>r s.
      kbind (brelse bp s) (\<lambda>_ s. Ok (Some r, bs) s))))"

text \<open>
  The loop. The second component of the result holds the bytes copied, for the caller whose
  destination is a local variable.
\<close>

function readi_loop ::
  "nat \<Rightarrow> dest \<Rightarrow> nat \<Rightarrow> nat \<Rightarrow> nat \<Rightarrow> 'z fs_state_scheme \<Rightarrow> (int \<times> bytes, 'z fs_state_scheme) kout" where
  "readi_loop ip dst off tot n s =
    (if tot < n then
       let m = min (n - tot) (BSIZE - off mod BSIZE) in
       kbind (readi_step ip dst off m s) (\<lambda>(c, bs) s.
       case c of
         None \<Rightarrow> Ok (int tot, []) s
       | Some r \<Rightarrow>
           if r = -1 then Ok (-1, []) s
           else
             kbind (readi_loop ip (dest_add dst m) (off + m) (tot + m) n s) (\<lambda>(r, rest) s.
             Ok (r, bs @ rest) s))
     else Ok (int tot, []) s)"
  by pat_completeness auto
termination
  by (relation "measure (\<lambda>(ip, dst, off, tot, n, s). n - tot)") auto

declare readi_loop.simps [simp del]

definition readi ::
  "nat \<Rightarrow> dest \<Rightarrow> nat \<Rightarrow> nat \<Rightarrow> 'z fs_state_scheme \<Rightarrow> (int \<times> bytes, 'z fs_state_scheme) kout" where
  "readi ip dst off n s =
    (let sz = i_size (itable s ! ip) in
     if off > sz \<or> (off + n) mod 2 ^ 32 < off then Ok (0, []) s
     else
       let n = (if (off + n) mod 2 ^ 32 > sz then sz - off else n) in
       readi_loop ip dst off 0 n s)"

section \<open>Writing\<close>

text \<open>
  One turn of the loop of \<^verbatim>\<open>writei\<close>, for \<open>m\<close> bytes; \<open>False\<close> leaves the loop. When the copy fails
  part of the way, the bytes already copied stay in the buffer, which is released without
  being logged.
\<close>

definition writei_step ::
  "nat \<Rightarrow> source \<Rightarrow> nat \<Rightarrow> nat \<Rightarrow> 'z fs_state_scheme \<Rightarrow> (bool, 'z fs_state_scheme) kout" where
  "writei_step ip src off m s =
    kbind (bmap ip (off div BSIZE) s) (\<lambda>addr s.
    if addr = 0 then Ok False s
    else
      kbind (bread (i_dev (itable s ! ip)) addr s) (\<lambda>bp s.
      kbind (either_copyin src m s) (\<lambda>(r, bs) s.
      let s = set_data bp (put_at (off mod BSIZE) bs (bdata bp s)) s in
      if r = -1 then kbind (brelse bp s) (\<lambda>_ s. Ok False s)
      else
        kbind (log_write bp s) (\<lambda>_ s.
        kbind (brelse bp s) (\<lambda>_ s. Ok True s)))))"

text \<open>The loop gives \<^verbatim>\<open>off\<close> and \<^verbatim>\<open>tot\<close> at its end.\<close>

function writei_loop ::
  "nat \<Rightarrow> source \<Rightarrow> nat \<Rightarrow> nat \<Rightarrow> nat \<Rightarrow> 'z fs_state_scheme \<Rightarrow> (nat \<times> nat, 'z fs_state_scheme) kout" where
  "writei_loop ip src off tot n s =
    (if tot < n then
       let m = min (n - tot) (BSIZE - off mod BSIZE) in
       kbind (writei_step ip src off m s) (\<lambda>ok s.
       if \<not> ok then Ok (off, tot) s
       else writei_loop ip (source_add src m) (off + m) (tot + m) n s)
     else Ok (off, tot) s)"
  by pat_completeness auto
termination
  by (relation "measure (\<lambda>(ip, src, off, tot, n, s). n - tot)") auto

declare writei_loop.simps [simp del]

definition writei ::
  "nat \<Rightarrow> source \<Rightarrow> nat \<Rightarrow> nat \<Rightarrow> 'z fs_state_scheme \<Rightarrow> (int, 'z fs_state_scheme) kout" where
  "writei ip src off n s =
    (if off > i_size (itable s ! ip) \<or> (off + n) mod 2 ^ 32 < off then Ok (-1) s
     else if (off + n) mod 2 ^ 32 > MAXFILE * BSIZE then Ok (-1) s
     else
       kbind (writei_loop ip src off 0 n s) (\<lambda>(off, tot) s.
       let s = (if off > i_size (itable s ! ip) then upd_inode ip (\<lambda>ip. ip\<lparr>i_size := off\<rparr>) s else s) in
       kbind (iupdate ip s) (\<lambda>_ s. Ok (int tot) s)))"

end
