(* ===== verification/Fs_Dir.thy ===== *)
theory Fs_Dir
  imports Fs_Data
begin

text \<open>
  Directories and path names, \<^verbatim>\<open>kernel/fs.c\<close>: a directory is a file of 16-byte entries
  (\<^verbatim>\<open>struct dirent\<close>), a path is a C string. A \<^verbatim>\<open>char *\<close> into a path is the list of bytes from
  there on.
\<close>

section \<open>Directory entries\<close>

record dirent =
  de_inum :: nat
  de_name :: bytes

definition dirent_of :: "bytes \<Rightarrow> dirent" where
  "dirent_of bs = \<lparr>de_inum = le_val (get_at 0 2 bs), de_name = get_at 2 DIRSIZ bs\<rparr>"

definition dirent_bytes :: "dirent \<Rightarrow> bytes" where
  "dirent_bytes de = le_bytes 2 (de_inum de) @ de_name de"

definition namecmp :: "bytes \<Rightarrow> bytes \<Rightarrow> int" where
  "namecmp s t = strncmp s t DIRSIZ"

text \<open>The values of \<^verbatim>\<open>off\<close> in \<^verbatim>\<open>for(off = 0; off < dp->size; off += sizeof(de))\<close>.\<close>

definition dir_offs :: "nat \<Rightarrow> nat list" where
  "dir_offs sz = map (\<lambda>i. 16 * i) [0..<(sz + 15) div 16]"

fun dirlookup_loop ::
  "nat \<Rightarrow> bytes \<Rightarrow> nat list \<Rightarrow> 'z fs_state_scheme \<Rightarrow> ((nat \<times> nat) option, 'z fs_state_scheme) kout" where
  "dirlookup_loop dp name [] s = Ok None s"
| "dirlookup_loop dp name (off # offs) s =
    kbind (readi dp To_local off 16 s) (\<lambda>(r, bs) s.
    if r \<noteq> 16 then Panic ''dirlookup read''
    else
      let de = dirent_of bs in
      if de_inum de = 0 then dirlookup_loop dp name offs s
      else if namecmp name (de_name de) = 0
      then kbind (iget (i_dev (itable s ! dp)) (de_inum de) s) (\<lambda>ip s. Ok (Some (ip, off)) s)
      else dirlookup_loop dp name offs s)"

text \<open>The inode and the offset \<^verbatim>\<open>*poff\<close> of the entry.\<close>

definition dirlookup ::
  "nat \<Rightarrow> bytes \<Rightarrow> 'z fs_state_scheme \<Rightarrow> ((nat \<times> nat) option, 'z fs_state_scheme) kout" where
  "dirlookup dp name s =
    (if i_type (itable s ! dp) \<noteq> T_DIR then Panic ''dirlookup not DIR''
     else dirlookup_loop dp name (dir_offs (i_size (itable s ! dp))) s)"

text \<open>The loop of \<^verbatim>\<open>dirlink\<close> for an empty entry; \<open>lst\<close> is the value of \<^verbatim>\<open>off\<close> when it finds none.\<close>

fun dirlink_loop :: "nat \<Rightarrow> nat list \<Rightarrow> nat \<Rightarrow> 'z fs_state_scheme \<Rightarrow> (nat, 'z fs_state_scheme) kout" where
  "dirlink_loop dp [] lst s = Ok lst s"
| "dirlink_loop dp (off # offs) lst s =
    kbind (readi dp To_local off 16 s) (\<lambda>(r, bs) s.
    if r \<noteq> 16 then Panic ''dirlink read''
    else if de_inum (dirent_of bs) = 0 then Ok off s
    else dirlink_loop dp offs lst s)"

definition dirlink :: "nat \<Rightarrow> bytes \<Rightarrow> nat \<Rightarrow> 'z fs_state_scheme \<Rightarrow> (int, 'z fs_state_scheme) kout" where
  "dirlink dp name inum s =
    \<comment> \<open>Check that name is not present.\<close>
    kbind (dirlookup dp name s) (\<lambda>r s.
    case r of
      Some (ip, _) \<Rightarrow> kbind (iput ip s) (\<lambda>_ s. Ok (-1) s)
    | None \<Rightarrow>
        (let sz = i_size (itable s ! dp); offs = dir_offs sz in
         kbind (dirlink_loop dp offs (16 * length offs) s) (\<lambda>off s.
         let de = \<lparr>de_inum = inum mod 2 ^ 16, de_name = strncpy name DIRSIZ\<rparr> in
         kbind (writei dp (From_kernel (dirent_bytes de)) off 16 s) (\<lambda>r s.
         if r \<noteq> 16 then Ok (-1) s else Ok 0 s))))"

section \<open>Paths\<close>

abbreviation (input) slash :: u8 where "slash \<equiv> 47"

fun skip_slashes :: "bytes \<Rightarrow> bytes" where
  "skip_slashes [] = []"
| "skip_slashes (c # cs) = (if c = slash then skip_slashes cs else c # cs)"

text \<open>The bytes up to the next slash or NUL, and the rest.\<close>

fun span_elem :: "bytes \<Rightarrow> bytes \<times> bytes" where
  "span_elem [] = ([], [])"
| "span_elem (c # cs) =
    (if c \<noteq> slash \<and> c \<noteq> 0 then (case span_elem cs of (e, rest) \<Rightarrow> (c # e, rest)) else ([], c # cs))"

text \<open>
  The null pointer is \<open>None\<close>; otherwise the rest of the path and the contents of the buffer
  \<^verbatim>\<open>name\<close> afterwards.
\<close>

definition skipelem :: "bytes \<Rightarrow> bytes \<Rightarrow> (bytes \<times> bytes) option" where
  "skipelem path name =
    (let path = skip_slashes path in
     if chd path = 0 then None
     else case span_elem path of (e, path) \<Rightarrow>
       let name = (if length e \<ge> DIRSIZ then put_at 0 (take DIRSIZ e) name
                   else put_at 0 (e @ [0]) name) in
       Some (skip_slashes path, name))"

lemma length_skip_slashes: "length (skip_slashes p) \<le> length p"
  by (induction p) auto

lemma span_elem_append: "span_elem p = (e, r) \<Longrightarrow> p = e @ r"
  by (induction p arbitrary: e r) (auto split: if_splits prod.splits)

lemma skip_slashes_hd: "chd (skip_slashes p) \<noteq> slash"
  by (induction p) auto

lemma skipelem_shorter:
  assumes "skipelem path name = Some (path', name')"
  shows "length path' < length path"
proof -
  obtain c p where p: "skip_slashes path = c # p" "c \<noteq> 0"
    using assms by (cases "skip_slashes path") (simp_all add: skipelem_def split: if_splits)
  moreover have "c \<noteq> slash" using skip_slashes_hd [of path] p by simp
  ultimately obtain e r where e: "span_elem p = (e, r)" "path' = skip_slashes r"
    using assms by (auto simp: skipelem_def split: prod.splits)
  have "length path' \<le> length p"
    using length_skip_slashes [of r] span_elem_append [OF e(1)] e by simp
  then show ?thesis using length_skip_slashes [of path] p by simp
qed

text \<open>The loop of \<^verbatim>\<open>namex\<close>: the inode, if any, and the buffer \<^verbatim>\<open>name\<close>.\<close>

function namex_loop ::
  "nat \<Rightarrow> bytes \<Rightarrow> bool \<Rightarrow> bytes \<Rightarrow> 'z fs_state_scheme \<Rightarrow> (nat option \<times> bytes, 'z fs_state_scheme) kout" where
  "namex_loop ip path nameiparent name s =
    (case skipelem path name of
       None \<Rightarrow>
         if nameiparent then kbind (iput ip s) (\<lambda>_ s. Ok (None, name) s)
         else Ok (Some ip, name) s
     | Some (path, name) \<Rightarrow>
         kbind (ilock ip s) (\<lambda>_ s.
         if i_type (itable s ! ip) \<noteq> T_DIR then kbind (iunlockput ip s) (\<lambda>_ s. Ok (None, name) s)
         else if nameiparent \<and> chd path = 0
         then kbind (iunlock ip s) (\<lambda>_ s. Ok (Some ip, name) s)
         else
           kbind (dirlookup ip name s) (\<lambda>r s.
           case r of
             None \<Rightarrow> kbind (iunlockput ip s) (\<lambda>_ s. Ok (None, name) s)
           | Some (next, _) \<Rightarrow>
               kbind (iunlockput ip s) (\<lambda>_ s. namex_loop next path nameiparent name s))))"
  by pat_completeness auto
termination
  by (relation "measure (\<lambda>(ip, path, nameiparent, name, s). length path)")
    (auto dest: skipelem_shorter)

declare namex_loop.simps [simp del]

text \<open>\<open>the (p_cwd ..)\<close>: a process that runs has a current directory.\<close>

definition namex ::
  "bytes \<Rightarrow> bool \<Rightarrow> bytes \<Rightarrow> 'z fs_state_scheme \<Rightarrow> (nat option \<times> bytes, 'z fs_state_scheme) kout" where
  "namex path nameiparent name s =
    kbind (if chd path = slash then iget ROOTDEV ROOTINO s
           else idup (the (p_cwd (myproc s))) s) (\<lambda>ip s.
    namex_loop ip path nameiparent name s)"

definition namei :: "bytes \<Rightarrow> 'z fs_state_scheme \<Rightarrow> (nat option, 'z fs_state_scheme) kout" where
  "namei path s = kbind (namex path False (replicate DIRSIZ 0) s) (\<lambda>(r, _) s. Ok r s)"

definition nameiparent ::
  "bytes \<Rightarrow> bytes \<Rightarrow> 'z fs_state_scheme \<Rightarrow> (nat option \<times> bytes, 'z fs_state_scheme) kout" where
  "nameiparent path name s = namex path True name s"

end
