(* ===== verification/Printf.thy ===== *)
theory Printf
  imports Layout
begin

text \<open>
  Formatted output of the kernel, \<^verbatim>\<open>kernel/printf.c\<close>: the characters a call sends to the
  console, in order. \<open>None\<close> stands for undefined behaviour of C: a store past the end of
  \<^verbatim>\<open>buf[20]\<close>, or a conversion with no argument of its kind left.
\<close>

section \<open>Numbers\<close>

text \<open>The bytes \<^verbatim>\<open>consputc\<close> (of \<^verbatim>\<open>kernel/console.c\<close>) hands to \<^verbatim>\<open>uartputc_sync\<close>; 256 is \<^verbatim>\<open>BACKSPACE\<close>.\<close>

definition consputc :: "32 word \<Rightarrow> bytes" where
  "consputc c = (if c = 0x100 then [8, 32, 8] else [ucast c])"

text \<open>The characters \<^verbatim>\<open>0123456789abcdef\<close>.\<close>

definition digits :: bytes where
  "digits = [48, 49, 50, 51, 52, 53, 54, 55, 56, 57, 97, 98, 99, 100, 101, 102]"

text \<open>
  The loop \<^verbatim>\<open>do { buf[i++] = digits[x % base]; } while((x /= base) != 0);\<close> over a table of
  digits, with \<open>k\<close> bytes left in \<^verbatim>\<open>buf\<close>.
\<close>

fun digits_loop :: "bytes \<Rightarrow> nat \<Rightarrow> u64 \<Rightarrow> u64 \<Rightarrow> bytes option" where
  "digits_loop tab 0 x base = None"
| "digits_loop tab (Suc k) x base =
    (let d = tab ! unat (x mod base) in
     if x div base \<noteq> 0 then map_option ((#) d) (digits_loop tab k (x div base) base)
     else Some [d])"

definition printint :: "u64 \<Rightarrow> u64 \<Rightarrow> bool \<Rightarrow> bytes option" where
  "printint xx base sign =
    (let neg = (sign \<and> xx <s 0);
         x = (if neg then - xx else xx) in
     case digits_loop digits 20 x base of
       None \<Rightarrow> None
     | Some buf \<Rightarrow>
         if \<not> neg then Some (rev buf)
         else if length buf < 20 then Some (rev (buf @ [45]))
         else None)"

definition printptr :: "u64 \<Rightarrow> bytes" where
  "printptr x = [48, 120] @ map (\<lambda>i. digits ! unat (drop_bit 60 (push_bit (4 * i) x))) [0..<16]"

section \<open>Formats\<close>

text \<open>
  An argument of a variadic call: a 64-bit register, or a pointer to a string (\<open>None\<close> for
  the null pointer). \<^verbatim>\<open>va_arg(ap, int)\<close> reads the low half of the register, sign-extended,
  and \<^verbatim>\<open>va_arg(ap, uint32)\<close> reads it zero-extended.
\<close>

datatype va = VInt u64 | VStr "bytes option"

definition va_int :: "u64 \<Rightarrow> u64" where
  "va_int x = scast (ucast x :: 32 word)"

definition va_uint32 :: "u64 \<Rightarrow> u64" where
  "va_uint32 x = ucast (ucast x :: 32 word)"

text \<open>
  One conversion, with the characters after the percent sign: what it prints, the number of
  characters of the format it takes (counting \<open>c0\<close>) and the arguments left.
\<close>

definition printf_conv :: "u8 \<Rightarrow> u8 \<Rightarrow> u8 \<Rightarrow> va list \<Rightarrow> (bytes \<times> nat \<times> va list) option" where
  "printf_conv c0 c1 c2 ap =
    (let num = (\<lambda>f base sign k. case ap of
           VInt x # ap \<Rightarrow> map_option (\<lambda>bs. (bs, k, ap)) (printint (f x) base sign)
         | _ \<Rightarrow> None) in
     if c0 = 100 then num va_int 10 True 1
     else if c0 = 108 \<and> c1 = 100 then num id 10 True 2
     else if c0 = 108 \<and> c1 = 108 \<and> c2 = 100 then num id 10 True 3
     else if c0 = 117 then num va_uint32 10 False 1
     else if c0 = 108 \<and> c1 = 117 then num id 10 False 2
     else if c0 = 108 \<and> c1 = 108 \<and> c2 = 117 then num id 10 False 3
     else if c0 = 120 then num va_uint32 16 False 1
     else if c0 = 108 \<and> c1 = 120 then num id 16 False 2
     else if c0 = 108 \<and> c1 = 108 \<and> c2 = 120 then num id 16 False 3
     else if c0 = 112 then (case ap of VInt x # ap \<Rightarrow> Some (printptr x, 1, ap) | _ \<Rightarrow> None)
     else if c0 = 99 then (case ap of VInt x # ap \<Rightarrow> Some (consputc (ucast x), 1, ap) | _ \<Rightarrow> None)
     else if c0 = 115 then
       (case ap of
          VStr (Some str) # ap \<Rightarrow> Some (cstr str, 1, ap)
        | VStr None # ap \<Rightarrow> Some ([40, 110, 117, 108, 108, 41], 1, ap)
        | _ \<Rightarrow> None)
     else if c0 = 37 then Some ([37], 1, ap)
     else \<comment> \<open>Print unknown % sequence to draw attention.\<close>
       Some ([37, c0], 1, ap))"

lemma printf_conv_pos: "printf_conv c0 c1 c2 ap = Some (out, k, ap') \<Longrightarrow> 0 < k"
  by (auto simp: printf_conv_def Let_def split: if_splits list.splits va.splits option.splits)

function printf :: "bytes \<Rightarrow> va list \<Rightarrow> bytes option" where
  "printf fmt ap =
    (let cx = chd fmt in
     if cx = 0 then Some []
     else if cx \<noteq> 37 then map_option ((#) cx) (printf (tl fmt) ap)
     else
       let fmt = tl fmt; c0 = chd fmt;
           c1 = (if c0 \<noteq> 0 then chd (drop 1 fmt) else 0);
           c2 = (if c1 \<noteq> 0 then chd (drop 2 fmt) else 0) in
       if c0 = 0 then Some []
       else case printf_conv c0 c1 c2 ap of
         None \<Rightarrow> None
       | Some (out, k, ap) \<Rightarrow> map_option ((@) out) (printf (drop k fmt) ap))"
  by pat_completeness auto
termination
proof (relation "measure (\<lambda>(fmt, ap). length fmt)")
  fix fmt :: bytes and ap :: "va list" and cx
  assume "cx = chd fmt" and "cx \<noteq> 0"
  then have "0 < length fmt" by (cases fmt) auto
  then show "((tl fmt, ap), fmt, ap) \<in> measure (\<lambda>(fmt, ap). length fmt)" by simp
  fix fmt' k and ap' :: "va list"
  assume "fmt' = tl fmt"
  then show "((drop k fmt', ap'), fmt, ap) \<in> measure (\<lambda>(fmt, ap). length fmt)"
    using \<open>0 < length fmt\<close> by simp
qed simp

declare printf.simps [simp del]

text \<open>The characters of a string literal.\<close>

definition lit :: "string \<Rightarrow> bytes" where
  "lit cs = map (\<lambda>c. of_nat (of_char c)) cs"

text \<open>What \<^verbatim>\<open>panic\<close> prints before it stops the machine.\<close>

definition panic_text :: "bytes \<Rightarrow> bytes option" where
  "panic_text str =
    (case printf (lit ''panic: '') [] of
       None \<Rightarrow> None
     | Some out \<Rightarrow> map_option ((@) out) (printf (lit ''%s'' @ [10]) [VStr (Some str)]))"

section \<open>The numbers printed\<close>

text \<open>The number a string of digits denotes, and with a minus sign in front.\<close>

definition digit_value :: "u8 \<Rightarrow> nat" where
  "digit_value c = (if c < 97 then unat c - 48 else unat c - 87)"

definition num_value :: "nat \<Rightarrow> bytes \<Rightarrow> nat" where
  "num_value b bs = foldl (\<lambda>v c. v * b + digit_value c) 0 bs"

definition int_value :: "nat \<Rightarrow> bytes \<Rightarrow> int" where
  "int_value b bs = (if chd bs = 45 then - int (num_value b (tl bs)) else int (num_value b bs))"

lemma digits_less_16:
  assumes "d < 16"
  shows "digit_value (digits ! d) = d" and "digits ! d \<noteq> 45"
proof -
  have "d = 0 \<or> d = 1 \<or> d = 2 \<or> d = 3 \<or> d = 4 \<or> d = 5 \<or> d = 6 \<or> d = 7 \<or>
      d = 8 \<or> d = 9 \<or> d = 10 \<or> d = 11 \<or> d = 12 \<or> d = 13 \<or> d = 14 \<or> d = 15"
    using assms by arith
  then show "digit_value (digits ! d) = d" and "digits ! d \<noteq> 45"
    by (auto simp: digits_def digit_value_def)
qed

lemma foldr_snoc_value:
  "num_value b (rev (map ((!) digits) ds)) = foldr (\<lambda>d v. v * b + d) ds 0" if "\<forall>d \<in> set ds. d < 16"
  using that by (induction ds) (auto simp: num_value_def digits_less_16)

text \<open>The digit loop fills at most \<open>k\<close> places for a number below \<open>base ^ k\<close>.\<close>

lemma digits_loop_value:
  assumes "1 < unat base" and "unat x < unat base ^ k" and "0 < k"
  shows "\<exists>ds. digits_loop tab k x base = Some (map ((!) tab) ds) \<and> ds \<noteq> [] \<and> length ds \<le> k \<and>
    (\<forall>d \<in> set ds. d < unat base) \<and> foldr (\<lambda>d v. v * unat base + d) ds 0 = unat x \<and>
    (1 < length ds \<longrightarrow> last ds \<noteq> 0)"
  using assms(2,3)
proof (induction k arbitrary: x)
  case 0
  then show ?case by simp
next
  case (Suc k)
  let ?b = "unat base"
  have dm: "unat (x mod base) = unat x mod ?b" "unat (x div base) = unat x div ?b"
    by (simp_all add: unat_mod unat_div)
  show ?case
  proof (cases "x div base = 0")
    case True
    then have "unat x div ?b = 0" using dm(2) by simp
    then have lt: "unat x < ?b" using assms(1) by (simp add: div_eq_0_iff)
    show ?thesis
      using True lt dm(1) by (intro exI [of _ "[unat x]"]) simp
  next
    case False
    then have nz: "unat x div ?b \<noteq> 0" using dm(2) by (metis unat_eq_zero)
    have less: "unat x div ?b < ?b ^ k" using Suc.prems(1) by (simp add: less_mult_imp_div_less mult.commute)
    have "0 < k" using less nz by (cases k) auto
    from Suc.IH [of "x div base"] less this dm(2) obtain ds where
      ds: "digits_loop tab k (x div base) base = Some (map ((!) tab) ds)" "ds \<noteq> []" "length ds \<le> k"
        "\<forall>d \<in> set ds. d < ?b" "foldr (\<lambda>d v. v * ?b + d) ds 0 = unat x div ?b" "1 < length ds \<longrightarrow> last ds \<noteq> 0"
      by auto
    have "last ds \<noteq> 0"
    proof (cases "1 < length ds")
      case False
      with ds(2) obtain d where "ds = [d]" by (cases ds) auto
      with ds(5) nz show ?thesis by simp
    qed (use ds(6) in simp)
    moreover have "unat x mod ?b < ?b" using assms(1) by simp
    ultimately show ?thesis
      using False ds dm(1) by (intro exI [of _ "unat x mod ?b # ds"]) (auto simp: mult.commute)
  qed
qed

lemma rev_digits_chd: "ds \<noteq> [] \<Longrightarrow> \<forall>d \<in> set ds. d < 16 \<Longrightarrow> chd (rev (map ((!) digits) ds)) \<noteq> 45"
  by (cases ds rule: rev_cases) (auto simp: digits_less_16)

lemma sint_u64: "sint (x :: u64) = uint x - 2 ^ 64 * of_bool (bit x 63)"
proof -
  have "sint x = signed_take_bit 63 (uint x)" by (simp add: sint_uint)
  also have "\<dots> = take_bit 64 (uint x) - 2 ^ 64 * of_bool (bit (uint x) 63)"
    by (simp add: signed_take_bit_eq_take_bit_minus)
  also have "take_bit 64 (uint x) = uint x" using uint_lt2p [of x] by (simp add: take_bit_int_eq_self)
  finally show ?thesis by (simp add: bit_uint_iff)
qed

lemma sint_negative:
  fixes xx :: u64
  assumes "xx <s 0"
  shows "int (unat (- xx)) = - sint xx" and "unat (- xx) \<le> 2 ^ 63"
proof -
  have s: "sint xx < 0" using assms by (simp add: word_sless_alt)
  have lt: "uint xx < 2 ^ 64" using uint_lt2p [of xx] by simp
  have u: "sint xx = uint xx - 2 ^ 64" using s by (cases "bit xx 63") (simp_all add: sint_u64)
  have "xx \<noteq> 0" using s by auto
  then have nz: "uint xx \<noteq> 0" by (simp add: uint_0_iff)
  then have "0 < uint xx" using uint_ge_0 [of xx] by linarith
  have "uint (- xx) = (- uint xx) mod 2 ^ 64" by (simp add: uint_word_ariths)
  also have "\<dots> = 2 ^ 64 - uint xx" using nz lt \<open>0 < uint xx\<close> by (simp add: zmod_zminus1_eq_if)
  finally show e: "int (unat (- xx)) = - sint xx" using u by simp
  have "- (2 ^ 63) \<le> sint xx" using sint_greater_eq [of xx] by simp
  then have "int (unat (- xx)) \<le> int (2 ^ 63)" using e by simp
  then show "unat (- xx) \<le> 2 ^ 63" by (simp only: of_nat_le_iff)
qed

lemma sint_nonnegative: "\<not> (xx :: u64) <s 0 \<Longrightarrow> sint xx = uint xx"
  using uint_lt2p [of xx] by (cases "bit xx 63") (simp_all add: word_sless_alt sint_u64)

lemma digits_loop_digits:
  assumes "base = 10 \<or> base = 16" and "unat x < unat base ^ k" and "0 < k"
  obtains ds where "digits_loop digits k x base = Some (map ((!) digits) ds)" and "ds \<noteq> []" and "length ds \<le> k"
    and "\<forall>d \<in> set ds. d < 16" and "num_value (unat base) (rev (map ((!) digits) ds)) = unat x"
    and "1 < length ds \<Longrightarrow> last ds \<noteq> 0"
proof -
  have b: "1 < unat base" "unat base \<le> 16" using assms(1) by auto
  from digits_loop_value [OF b(1) assms(2,3), of digits] obtain ds
    where ds: "digits_loop digits k x base = Some (map ((!) digits) ds)" "ds \<noteq> []" "length ds \<le> k"
      "\<forall>d \<in> set ds. d < unat base" "foldr (\<lambda>d v. v * unat base + d) ds 0 = unat x" "1 < length ds \<longrightarrow> last ds \<noteq> 0"
    by blast
  have "\<forall>d \<in> set ds. d < 16" using ds(4) b(2) by auto
  then show ?thesis using that [OF ds(1-3)] ds(5,6) foldr_snoc_value [of ds "unat base"] by simp
qed

lemma digits_loop_Suc: "digits_loop tab k x base = Some bs \<Longrightarrow> digits_loop tab (Suc k) x base = Some bs"
proof (induction k arbitrary: x bs)
  case 0
  then show ?case by simp
next
  case (Suc k)
  show ?case
  proof (cases "x div base = 0")
    case False
    with Suc.prems obtain cs where "digits_loop tab k (x div base) base = Some cs" "bs = tab ! unat (x mod base) # cs"
      by (auto simp: Let_def)
    with Suc.IH [of "x div base" cs] False show ?thesis by (simp add: Let_def)
  qed (use Suc.prems in \<open>simp add: Let_def\<close>)
qed

lemma chd_rev_digits:
  assumes "ds \<noteq> []" and "\<forall>d \<in> set ds. d < 16"
  shows "chd (rev (map ((!) digits) ds)) \<noteq> 45" and "chd (rev (map ((!) digits) ds)) = 48 \<Longrightarrow> last ds = 0"
proof -
  have c: "chd (rev (map ((!) digits) ds)) = digits ! last ds" and l: "last ds < 16"
    using assms by (cases ds rule: rev_cases, auto)+
  show "chd (rev (map ((!) digits) ds)) \<noteq> 45" using c digits_less_16(2) [OF l] by simp
  show "last ds = 0" if "chd (rev (map ((!) digits) ds)) = 48"
    using digits_less_16(1) [OF l] c that by (simp add: digit_value_def)
qed

lemma printint_correct:
  assumes "base = 10 \<or> (base = 16 \<and> \<not> sign)"
  shows "\<exists>bs. printint xx base sign = Some bs \<and> length bs \<le> 20 \<and>
    int_value (unat base) bs = (if sign then sint xx else uint xx) \<and> (chd bs = 48 \<longrightarrow> bs = [48])"
proof -
  have b: "base = 10 \<or> base = 16" using assms by blast
  let ?neg = "sign \<and> xx <s 0"
  define x where "x = (if ?neg then - xx else xx)"
  define k :: nat where "k = (if ?neg then 19 else 20)"
  have "unat x < unat base ^ k"
  proof (cases ?neg)
    case True
    then show ?thesis using sint_negative(2) [of xx] assms by (auto simp: x_def k_def)
  next
    case False
    have "unat x < 2 ^ 64" using unsigned_less [of x, where ?'a = nat] by simp
    then show ?thesis using False b by (auto simp: k_def)
  qed
  then obtain ds where ds: "digits_loop digits k x base = Some (map ((!) digits) ds)" "ds \<noteq> []" "length ds \<le> k"
    "\<forall>d \<in> set ds. d < 16" "num_value (unat base) (rev (map ((!) digits) ds)) = unat x" "1 < length ds \<Longrightarrow> last ds \<noteq> 0"
    by (rule digits_loop_digits [OF b]) (auto simp: k_def)
  let ?o = "rev (map ((!) digits) ds)"
  have loop: "digits_loop digits 20 x base = Some (map ((!) digits) ds)"
    using ds(1) digits_loop_Suc [of digits 19 x base] by (cases ?neg) (simp_all add: k_def del: digits_loop.simps)
  have p: "printint xx base sign = Some (if ?neg then 45 # ?o else ?o)"
    using loop ds(3) by (auto simp: printint_def x_def [symmetric] k_def Let_def)
  have c: "chd ?o \<noteq> 45" "chd ?o = 48 \<Longrightarrow> last ds = 0" using chd_rev_digits [OF ds(2,4)] by auto
  have "?o = [48]" if "chd ?o = 48"
  proof -
    have "\<not> 1 < length ds" using c(2) that ds(6) by blast
    with ds(2) have "length ds = 1" by (cases ds) auto
    with that show ?thesis by (cases ds) auto
  qed
  moreover have "int_value (unat base) (if ?neg then 45 # ?o else ?o) = (if sign then sint xx else uint xx)"
    using c(1) ds(5) sint_negative(1) [of xx] sint_nonnegative [of xx] by (auto simp: int_value_def x_def)
  ultimately show ?thesis using p ds(3) by (auto simp: k_def)
qed

text \<open>
  (C29) \<^verbatim>\<open>printint\<close> stays inside its \<^verbatim>\<open>buf[20]\<close> for every 64-bit value in bases 10 and 16,
  negative ones and \<^verbatim>\<open>LLONG_MIN\<close> included, and what it prints reads back as the value, without
  leading zeros.
\<close>

theorem printint_value:
  assumes "base = 10 \<or> (base = 16 \<and> \<not> sign)"
  shows "\<exists>bs. printint xx base sign = Some bs \<and> length bs \<le> 20 \<and>
    int_value (unat base) bs = (if sign then sint xx else uint xx) \<and> (chd bs = 48 \<longrightarrow> bs = [48])"
  by (rule printint_correct [OF assms])

theorem printint_value_witness:
  "\<exists>bs. printint (2 ^ 63) 10 True = Some bs \<and> length bs \<le> 20 \<and> int_value 10 bs = - (2 ^ 63)"
proof -
  have "sint (2 ^ 63 :: u64) = - (2 ^ 63)" by (simp add: sint_u64 bit_exp_iff)
  then show ?thesis using printint_value [of 10 True "2 ^ 63"] by auto
qed

lemma printf_plain: "\<forall>c \<in> set bs. c \<noteq> 0 \<and> c \<noteq> 37 \<Longrightarrow> printf bs ap = Some bs"
  by (induction bs) (simp_all add: printf.simps [of "[]"] printf.simps [of "_ # _"])

lemma printf_string: "printf (37 # 115 # fmt) (VStr (Some str) # ap) = map_option ((@) (cstr str)) (printf fmt ap)"
  by (simp add: printf.simps [of "37 # _"] printf_conv_def)

text \<open>
  \<open>panic\<close> prints \<open>panic: \<close>, the message up to its NUL, whatever characters it has, and a newline.
\<close>

lemma panic_prints: "panic_text str = Some (lit ''panic: '' @ cstr str @ [10])"
proof -
  have "printf (lit ''panic: '') [] = Some (lit ''panic: '')"
    by (rule printf_plain) (simp add: lit_def)
  moreover have "printf (lit ''%s'' @ [10]) [VStr (Some str)] = Some (cstr str @ [10])"
    using printf_string [of "[10]" str "[]"] printf_plain [of "[10]" "[]"] by (simp add: lit_def)
  ultimately show ?thesis by (simp add: panic_text_def)
qed


end
