(* ===== verification/Console.thy ===== *)
theory Console
  imports Fs_Data Printf
begin

text \<open>
  The console and the UART, \<^verbatim>\<open>kernel/console.c\<close> and \<^verbatim>\<open>kernel/uart.c\<close>. The 16550 is a state of
  its own: the bytes that have arrived and were not read (\<^verbatim>\<open>RHR\<close>), the bytes written to \<^verbatim>\<open>THR\<close>
  so far, whether it reports \<^verbatim>\<open>LSR_TX_IDLE\<close>, and the control registers. A call that sleeps in
  the middle of its work is split in two: the loop function gives \<open>Block\<close> with the loop
  variables, from which the same function goes on when the process runs again.
\<close>

record uart =
  u_rx :: bytes
  u_tx :: bytes
  u_idle :: bool
  u_regs :: "(nat \<times> u8) list"

record cons_state = fs_state +
  cons_buf :: bytes
  cons_r :: "32 word"
  cons_w :: "32 word"
  cons_e :: "32 word"
  tx_busy :: bool
  uart :: uart

datatype 'p progress = Return int | Block 'p

definition collapse ::
  "chan \<Rightarrow> ('p progress, 'z proc_state_scheme) kout \<Rightarrow> (int, 'z proc_state_scheme) kout" where
  "collapse ch m = kbind m (\<lambda>r s. case r of Return x \<Rightarrow> Ok x s | Block _ \<Rightarrow> sleep ch s)"

section \<open>The UART\<close>

definition WriteReg :: "nat \<Rightarrow> u8 \<Rightarrow> uart \<Rightarrow> uart" where
  "WriteReg reg v u =
    (if reg = 0 \<and> (case map_of (u_regs u) 3 of Some lcr \<Rightarrow> lcr AND 128 = 0 | None \<Rightarrow> True)
     then u\<lparr>u_tx := u_tx u @ [v]\<rparr>
     else u\<lparr>u_regs := (reg, v) # u_regs u\<rparr>)"

definition uartinit :: "'z cons_state_scheme \<Rightarrow> 'z cons_state_scheme" where
  "uartinit s = s\<lparr>uart :=
    (WriteReg 1 (2 OR 1) \<circ> WriteReg 2 (1 OR 6) \<circ> WriteReg 3 3 \<circ> WriteReg 1 0 \<circ> WriteReg 0 3 \<circ>
     WriteReg 3 128 \<circ> WriteReg 1 0) (uart s)\<rparr>"

text \<open>\<^verbatim>\<open>WriteReg(THR, c)\<close>.\<close>

definition put_THR :: "u8 \<Rightarrow> 'z cons_state_scheme \<Rightarrow> 'z cons_state_scheme" where
  "put_THR c s = s\<lparr>uart := WriteReg 0 c (uart s)\<rparr>"

text \<open>The loop of \<^verbatim>\<open>uartwrite\<close>; blocked, it has \<open>i\<close> bytes sent.\<close>

function uartwrite_loop ::
  "bytes \<Rightarrow> nat \<Rightarrow> nat \<Rightarrow> 'z cons_state_scheme \<Rightarrow> (nat progress, 'z cons_state_scheme) kout" where
  "uartwrite_loop buf n i s =
    (if i < n then
       if tx_busy s then Ok (Block i) s
       else uartwrite_loop buf n (i + 1) (put_THR (buf ! i) s\<lparr>tx_busy := True\<rparr>)
     else Ok (Return 0) s)"
  by pat_completeness auto
termination
  by (relation "measure (\<lambda>(buf, n, i, s). n - i)") auto

declare uartwrite_loop.simps [simp del]

definition uartwrite :: "bytes \<Rightarrow> nat \<Rightarrow> 'z cons_state_scheme \<Rightarrow> (int, 'z cons_state_scheme) kout" where
  "uartwrite buf n s = collapse Chan_tx (uartwrite_loop buf n 0 s)"

text \<open>\<^verbatim>\<open>uartputc_sync\<close> spins until the transmitter is empty, then sends the byte.\<close>

definition uartputc_sync :: "u8 \<Rightarrow> 'z cons_state_scheme \<Rightarrow> 'z cons_state_scheme" where
  "uartputc_sync c s = put_THR c s"

definition put_bytes :: "bytes \<Rightarrow> 'z cons_state_scheme \<Rightarrow> 'z cons_state_scheme" where
  "put_bytes bs s = fold uartputc_sync bs s"

definition uartgetc :: "'z cons_state_scheme \<Rightarrow> u8 option \<times> 'z cons_state_scheme" where
  "uartgetc s =
    (case u_rx (uart s) of
       [] \<Rightarrow> (None, s)
     | c # cs \<Rightarrow> (Some c, s\<lparr>uart := (uart s)\<lparr>u_rx := cs\<rparr>\<rparr>))"

section \<open>The console\<close>

text \<open>\<^verbatim>\<open>consolewrite\<close>: the bytes go to the UART in batches of 32; blocked in \<^verbatim>\<open>uartwrite\<close>, it is at
  batch \<open>i\<close> with \<open>k\<close> bytes of \<open>buf\<close> sent.\<close>

function consolewrite_loop ::
  "source \<Rightarrow> nat \<Rightarrow> nat \<Rightarrow> 'z cons_state_scheme \<Rightarrow> ((nat \<times> bytes \<times> nat) progress, 'z cons_state_scheme) kout" where
  "consolewrite_loop src n i s =
    (if i < n then
       let nn = min 32 (n - i) in
       kbind (either_copyin (source_add src i) nn s) (\<lambda>(r, buf) s.
       if r = -1 then Ok (Return (int i)) s
       else kbind (uartwrite_loop buf nn 0 s) (\<lambda>p s.
         case p of
           Block k \<Rightarrow> Ok (Block (i, buf, k)) s
         | Return _ \<Rightarrow> consolewrite_loop src n (i + nn) s))
     else Ok (Return (int i)) s)"
  by pat_completeness auto
termination
  by (relation "measure (\<lambda>(src, n, i, s). n - i)") auto

declare consolewrite_loop.simps [simp del]

text \<open>The call goes on: the rest of the batch, then the other batches.\<close>

definition consolewrite_resume ::
  "source \<Rightarrow> nat \<Rightarrow> nat \<times> bytes \<times> nat \<Rightarrow> 'z cons_state_scheme \<Rightarrow>
    ((nat \<times> bytes \<times> nat) progress, 'z cons_state_scheme) kout" where
  "consolewrite_resume src n at s =
    (case at of (i, buf, k) \<Rightarrow>
       kbind (uartwrite_loop buf (min 32 (n - i)) k s) (\<lambda>p s.
         case p of
           Block k \<Rightarrow> Ok (Block (i, buf, k)) s
         | Return _ \<Rightarrow> consolewrite_loop src n (i + min 32 (n - i)) s))"

definition consolewrite :: "source \<Rightarrow> int \<Rightarrow> 'z cons_state_scheme \<Rightarrow> (int, 'z cons_state_scheme) kout" where
  "consolewrite src n s = collapse Chan_tx (consolewrite_loop src (nat n) 0 s)"

text \<open>The input buffer: \<^verbatim>\<open>cons.buf[cons.e++ % INPUT_BUF_SIZE] = c\<close>, and \<^verbatim>\<open>c = cons.buf[cons.r++ % INPUT_BUF_SIZE]\<close>.\<close>

definition cons_put :: "u8 \<Rightarrow> 'z cons_state_scheme \<Rightarrow> 'z cons_state_scheme" where
  "cons_put c s = s\<lparr>cons_buf := (cons_buf s)[unat (cons_e s mod 128) := c], cons_e := cons_e s + 1\<rparr>"

definition cons_ch :: "'z cons_state_scheme \<Rightarrow> u8" where
  "cons_ch s = cons_buf s ! unat (cons_r s mod 128)"

definition cons_next :: "'z cons_state_scheme \<Rightarrow> 'z cons_state_scheme" where
  "cons_next s = s\<lparr>cons_r := cons_r s + 1\<rparr>"

text \<open>
  \<^verbatim>\<open>consoleread\<close>, with \<open>n\<close> bytes still wanted of the \<open>target\<close>; blocked, it waits for input.
\<close>

fun consoleread_loop ::
  "dest \<Rightarrow> nat \<Rightarrow> nat \<Rightarrow> 'z cons_state_scheme \<Rightarrow> ((dest \<times> nat) progress, 'z cons_state_scheme) kout" where
  "consoleread_loop dst target 0 s = Ok (Return (int target)) s"
| "consoleread_loop dst target (Suc n) s =
    (if cons_r s = cons_w s then
       if killed (cur s) s then Ok (Return (-1)) s else Ok (Block (dst, Suc n)) s
     else
       let c = cons_ch s; s = cons_next s in
       if c = 4 then \<comment> \<open>end-of-file\<close>
         Ok (Return (int target - int (Suc n)))
           (if Suc n < target then s\<lparr>cons_r := cons_r s - 1\<rparr> else s)
       else
         kbind (either_copyout dst [c] s) (\<lambda>r s.
         if r = -1 then Ok (Return (int target - int (Suc n))) s
         else if c = 10 then Ok (Return (int target - int n)) s
         else consoleread_loop (dest_add dst 1) target n s))"

definition consoleread :: "dest \<Rightarrow> int \<Rightarrow> 'z cons_state_scheme \<Rightarrow> (int, 'z cons_state_scheme) kout" where
  "consoleread dst n s = collapse Chan_cons (consoleread_loop dst (nat n) (nat n) s)"

section \<open>Input interrupts\<close>

text \<open>The text of \<^verbatim>\<open>procdump\<close> (of \<^verbatim>\<open>kernel/proc.c\<close>).\<close>

definition state_name :: "procstate \<Rightarrow> string" where
  "state_name st =
    (case st of UNUSED \<Rightarrow> ''unused'' | USED \<Rightarrow> ''used'' | SLEEPING \<Rightarrow> ''sleep '' | RUNNABLE \<Rightarrow> ''runble''
     | RUNNING \<Rightarrow> ''run   '' | ZOMBIE \<Rightarrow> ''zombie'')"

definition procdump :: "proc list \<Rightarrow> bytes" where
  "procdump ps = the (printf [10] []) @
    concat (map (\<lambda>p.
      if p_state p = UNUSED then []
      else the (printf (lit ''%d %s %s'')
             [VInt (of_int (p_pid p)), VStr (Some (lit (state_name (p_state p)))), VStr (Some (p_name p))]) @
           the (printf [10] [])) ps)"

text \<open>Kill line: the loop of the case \<^verbatim>\<open>C('U')\<close>, at most \<open>k\<close> characters.\<close>

fun kill_line :: "nat \<Rightarrow> 'z cons_state_scheme \<Rightarrow> 'z cons_state_scheme" where
  "kill_line 0 s = s"
| "kill_line (Suc k) s =
    (if cons_e s \<noteq> cons_w s \<and> cons_buf s ! unat ((cons_e s - 1) mod 128) \<noteq> 10
     then kill_line k (put_bytes (consputc 0x100) (s\<lparr>cons_e := cons_e s - 1\<rparr>))
     else s)"

definition consoleintr :: "u8 \<Rightarrow> 'z cons_state_scheme \<Rightarrow> 'z cons_state_scheme" where
  "consoleintr c s =
    (if c = 16 then put_bytes (procdump (procs s)) s
     else if c = 21 then kill_line (unat (cons_e s - cons_w s)) s
     else if c = 8 \<or> c = 127 then
       if cons_e s \<noteq> cons_w s then put_bytes (consputc 0x100) (s\<lparr>cons_e := cons_e s - 1\<rparr>) else s
     else if c \<noteq> 0 \<and> cons_e s - cons_r s < 128 then
       let c = (if c = 13 then 10 else c);
           s = put_bytes (consputc (ucast c)) s;
           s = cons_put c s in
       if c = 10 \<or> c = 4 \<or> cons_e s - cons_r s = 128
       then wakeup Chan_cons (s\<lparr>cons_w := cons_e s\<rparr>)
       else s
     else s)"

text \<open>\<^verbatim>\<open>uartintr\<close> handles every byte that waits; \<open>uartgetc\<close> takes one at a time.\<close>

definition uartintr :: "'z cons_state_scheme \<Rightarrow> 'z cons_state_scheme" where
  "uartintr s =
    (let s = (if u_idle (uart s) then wakeup Chan_tx (s\<lparr>tx_busy := False\<rparr>) else s) in
     fold (\<lambda>c s. consoleintr c (snd (uartgetc s))) (u_rx (uart s)) s)"

end
