(* ===== verification/File.thy ===== *)
theory File
  imports Fs_Dir Console
begin

text \<open>
  Open files and pipes, \<^verbatim>\<open>kernel/file.c\<close> and \<^verbatim>\<open>kernel/pipe.c\<close>. A \<^verbatim>\<open>struct file *\<close> is an index into
  \<^verbatim>\<open>ftable.file\<close>, a \<^verbatim>\<open>struct pipe *\<close> the address of its page; \<open>pipes\<close> gives the structure at
  that page. \<^verbatim>\<open>devsw\<close> maps a major number to its two functions. \<open>stat_pad\<close> is what the kernel
  stack holds under the four padding bytes of a \<^verbatim>\<open>struct stat\<close>.
\<close>

datatype fdtype = FD_NONE | FD_PIPE | FD_INODE | FD_DEVICE

record kfile =
  f_type :: fdtype
  f_ref :: int
  f_readable :: bool
  f_writable :: bool
  f_pipe :: u64
  f_ip :: nat
  f_off :: nat
  f_major :: int

record pipe =
  pi_data :: bytes
  pi_nread :: "32 word"
  pi_nwrite :: "32 word"
  pi_readopen :: bool
  pi_writeopen :: bool

datatype devfn = Dev_null | Dev_console

record file_state = cons_state +
  ftable :: "kfile list"
  pipes :: "u64 \<Rightarrow> pipe"
  devsw_read :: "devfn list"
  devsw_write :: "devfn list"
  stat_pad :: bytes

definition upd_file :: "nat \<Rightarrow> (kfile \<Rightarrow> kfile) \<Rightarrow> 'z file_state_scheme \<Rightarrow> 'z file_state_scheme" where
  "upd_file f g s = s\<lparr>ftable := (ftable s)[f := g (ftable s ! f)]\<rparr>"

definition upd_pipe :: "u64 \<Rightarrow> (pipe \<Rightarrow> pipe) \<Rightarrow> 'z file_state_scheme \<Rightarrow> 'z file_state_scheme" where
  "upd_pipe p g s = s\<lparr>pipes := (pipes s)(p := g (pipes s p))\<rparr>"

abbreviation (input) PIPESIZE :: "32 word" where "PIPESIZE \<equiv> 512"

text \<open>\<^verbatim>\<open>consoleinit\<close> connects the console: \<^verbatim>\<open>devsw[CONSOLE]\<close>, with \<^verbatim>\<open>CONSOLE\<close> 1.\<close>

definition consoleinit :: "'z file_state_scheme \<Rightarrow> 'z file_state_scheme" where
  "consoleinit s =
    (let s = uartinit s in
     s\<lparr>devsw_read := (devsw_read s)[1 := Dev_console], devsw_write := (devsw_write s)[1 := Dev_console]\<rparr>)"

section \<open>Pipes\<close>

definition pipeclose ::
  "u64 \<Rightarrow> bool \<Rightarrow> 'z file_state_scheme \<Rightarrow> (unit, 'z file_state_scheme) kout" where
  "pipeclose p writable s =
    (let s = (if writable then wakeup (Chan_nread p) (upd_pipe p (\<lambda>q. q\<lparr>pi_writeopen := False\<rparr>) s)
              else wakeup (Chan_nwrite p) (upd_pipe p (\<lambda>q. q\<lparr>pi_readopen := False\<rparr>) s)) in
     if \<not> pi_readopen (pipes s p) \<and> \<not> pi_writeopen (pipes s p) then kfree p s else Ok () s)"

text \<open>The accesses to the ring: \<^verbatim>\<open>pi->data[pi->nwrite++ % PIPESIZE] = ch\<close>, \<^verbatim>\<open>ch = pi->data[pi->nread % PIPESIZE]\<close> and \<^verbatim>\<open>pi->nread++\<close>.\<close>

definition pipe_put :: "u8 \<Rightarrow> pipe \<Rightarrow> pipe" where
  "pipe_put ch q = q\<lparr>pi_data := (pi_data q)[unat (pi_nwrite q mod PIPESIZE) := ch], pi_nwrite := pi_nwrite q + 1\<rparr>"

definition pipe_ch :: "pipe \<Rightarrow> u8" where
  "pipe_ch q = pi_data q ! unat (pi_nread q mod PIPESIZE)"

definition pipe_next :: "pipe \<Rightarrow> pipe" where
  "pipe_next q = q\<lparr>pi_nread := pi_nread q + 1\<rparr>"

text \<open>
  The loop of \<^verbatim>\<open>pipewrite\<close> with \<open>i\<close> bytes written. A writer that blocks on a full pipe has
  woken the readers and keeps \<open>i\<close>.
\<close>

function pipewrite_loop ::
  "u64 \<Rightarrow> u64 \<Rightarrow> int \<Rightarrow> int \<Rightarrow> 'z file_state_scheme \<Rightarrow> (int progress, 'z file_state_scheme) kout" where
  "pipewrite_loop p addr n i s =
    (if i < n then
       if \<not> pi_readopen (pipes s p) \<or> killed (cur s) s then Ok (Return (-1)) s
       else if pi_nwrite (pipes s p) = pi_nread (pipes s p) + PIPESIZE
       then Ok (Block i) (wakeup (Chan_nread p) s)
       else
         kbind (copyin (p_pagetable (myproc s)) (addr + of_int i) 1 s) (\<lambda>(r, ch) s.
         if r = -1 then Ok (Return i) (wakeup (Chan_nread p) s)
         else pipewrite_loop p addr n (i + 1) (upd_pipe p (pipe_put (hd ch)) s))
     else Ok (Return i) (wakeup (Chan_nread p) s))"
  by pat_completeness auto
termination
  by (relation "measure (\<lambda>(p, addr, n, i, s). nat (n - i))") auto

declare pipewrite_loop.simps [simp del]

definition pipewrite ::
  "u64 \<Rightarrow> u64 \<Rightarrow> int \<Rightarrow> 'z file_state_scheme \<Rightarrow> (int, 'z file_state_scheme) kout" where
  "pipewrite p addr n s = collapse (Chan_nwrite p) (pipewrite_loop p addr n 0 s)"

function piperead_copy ::
  "u64 \<Rightarrow> u64 \<Rightarrow> int \<Rightarrow> int \<Rightarrow> 'z file_state_scheme \<Rightarrow> (int, 'z file_state_scheme) kout" where
  "piperead_copy p addr n i s =
    (if i < n then
       if pi_nread (pipes s p) = pi_nwrite (pipes s p) then Ok i s
       else
         let ch = pipe_ch (pipes s p) in
         kbind (copyout (p_pagetable (myproc s)) (addr + of_int i) [ch] s) (\<lambda>r s.
         if r = -1 then Ok (if i = 0 then -1 else i) s
         else piperead_copy p addr n (i + 1) (upd_pipe p pipe_next s))
     else Ok i s)"
  by pat_completeness auto
termination
  by (relation "measure (\<lambda>(p, addr, n, i, s). nat (n - i))") auto

declare piperead_copy.simps [simp del]

definition piperead ::
  "u64 \<Rightarrow> u64 \<Rightarrow> int \<Rightarrow> 'z file_state_scheme \<Rightarrow> (int, 'z file_state_scheme) kout" where
  "piperead p addr n s =
    (if pi_nread (pipes s p) = pi_nwrite (pipes s p) \<and> pi_writeopen (pipes s p) then
       if killed (cur s) s then Ok (-1) s else sleep (Chan_nread p) s
     else
       kbind (piperead_copy p addr n 0 s) (\<lambda>i s. Ok i (wakeup (Chan_nwrite p) s)))"

section \<open>The file table\<close>

definition filealloc :: "'z file_state_scheme \<Rightarrow> (nat option, 'z file_state_scheme) kout" where
  "filealloc s =
    (case find (\<lambda>f. f_ref (ftable s ! f) = 0) [0..<NFILE] of
       None \<Rightarrow> Ok None s
     | Some f \<Rightarrow> Ok (Some f) (upd_file f (\<lambda>x. x\<lparr>f_ref := 1\<rparr>) s))"

definition filedup :: "nat \<Rightarrow> 'z file_state_scheme \<Rightarrow> (nat, 'z file_state_scheme) kout" where
  "filedup f s =
    (if f_ref (ftable s ! f) < 1 then Panic ''filedup''
     else Ok f (upd_file f (\<lambda>x. x\<lparr>f_ref := f_ref x + 1\<rparr>) s))"

definition fileclose :: "nat \<Rightarrow> 'z file_state_scheme \<Rightarrow> (unit, 'z file_state_scheme) kout" where
  "fileclose f s =
    (if f_ref (ftable s ! f) < 1 then Panic ''fileclose''
     else
       let s = upd_file f (\<lambda>x. x\<lparr>f_ref := f_ref x - 1\<rparr>) s in
       if f_ref (ftable s ! f) > 0 then Ok () s
       else
         let ff = ftable s ! f; s = upd_file f (\<lambda>x. x\<lparr>f_ref := 0, f_type := FD_NONE\<rparr>) s in
         if f_type ff = FD_PIPE then pipeclose (f_pipe ff) (f_writable ff) s
         else if f_type ff = FD_INODE \<or> f_type ff = FD_DEVICE then
           kbind (begin_op s) (\<lambda>_ s. kbind (iput (f_ip ff) s) (\<lambda>_ s. end_op s))
         else Ok () s)"

definition pipealloc ::
  "'z file_state_scheme \<Rightarrow> ((nat \<times> nat) option, 'z file_state_scheme) kout" where
  "pipealloc s =
    (let bad = (\<lambda>f0 f1 s.
           kbind (case f0 of Some f \<Rightarrow> fileclose f s | None \<Rightarrow> Ok () s) (\<lambda>_ s.
           kbind (case f1 of Some f \<Rightarrow> fileclose f s | None \<Rightarrow> Ok () s) (\<lambda>_ s. Ok None s))) in
     kbind (filealloc s) (\<lambda>f0 s.
     case f0 of
       None \<Rightarrow> bad None None s
     | Some r \<Rightarrow>
         kbind (filealloc s) (\<lambda>f1 s.
         case f1 of
           None \<Rightarrow> bad (Some r) None s
         | Some w \<Rightarrow>
             kbind (kalloc s) (\<lambda>p s.
             if p = 0 then bad (Some r) (Some w) s
             else
               let s = s\<lparr>pipes := (pipes s)(p := \<lparr>pi_data = replicate 512 5, pi_nread = 0, pi_nwrite = 0,
                     pi_readopen = True, pi_writeopen = True\<rparr>)\<rparr>;
                   s = upd_file r (\<lambda>x. x\<lparr>f_type := FD_PIPE, f_readable := True, f_writable := False, f_pipe := p\<rparr>) s;
                   s = upd_file w (\<lambda>x. x\<lparr>f_type := FD_PIPE, f_readable := False, f_writable := True, f_pipe := p\<rparr>) s in
               Ok (Some (r, w)) s))))"

text \<open>The bytes of a \<^verbatim>\<open>struct stat\<close>: four bytes of padding come before the 64-bit size.\<close>

definition stat_bytes :: "bytes \<Rightarrow> stat \<Rightarrow> bytes" where
  "stat_bytes pad st = le_bytes 4 (st_dev st) @ le_bytes 4 (st_ino st) @ short_bytes (st_type st) @
    short_bytes (st_nlink st) @ pad @ le_bytes 8 (st_size st)"

definition filestat :: "nat \<Rightarrow> u64 \<Rightarrow> 'z file_state_scheme \<Rightarrow> (int, 'z file_state_scheme) kout" where
  "filestat f addr s =
    (let x = ftable s ! f in
     if f_type x = FD_INODE \<or> f_type x = FD_DEVICE then
       kbind (ilock (f_ip x) s) (\<lambda>_ s.
       let st = stati (f_ip x) s in
       kbind (iunlock (f_ip x) s) (\<lambda>_ s.
       kbind (copyout (p_pagetable (myproc s)) addr (stat_bytes (stat_pad s) st) s) (\<lambda>r s.
       if r < 0 then Ok (-1) s else Ok 0 s)))
     else Ok (-1) s)"

text \<open>The \<^verbatim>\<open>int\<close> argument \<open>n\<close> becomes the \<^verbatim>\<open>uint\<close> argument of \<^verbatim>\<open>readi\<close>.\<close>

definition fileread :: "nat \<Rightarrow> u64 \<Rightarrow> int \<Rightarrow> 'z file_state_scheme \<Rightarrow> (int, 'z file_state_scheme) kout" where
  "fileread f addr n s =
    (let x = ftable s ! f in
     if \<not> f_readable x then Ok (-1) s
     else case f_type x of
       FD_PIPE \<Rightarrow> piperead (f_pipe x) addr n s
     | FD_DEVICE \<Rightarrow>
         if f_major x < 0 \<or> f_major x \<ge> NDEV \<or> devsw_read s ! nat (f_major x) = Dev_null then Ok (-1) s
         else consoleread (To_user addr) n s
     | FD_INODE \<Rightarrow>
         kbind (ilock (f_ip x) s) (\<lambda>_ s.
         kbind (readi (f_ip x) (To_user addr) (f_off x) (int_pat n) s) (\<lambda>(r, _) s.
         let s = (if r > 0 then upd_file f (\<lambda>x. x\<lparr>f_off := (f_off x + nat r) mod 2 ^ 32\<rparr>) s else s) in
         kbind (iunlock (f_ip x) s) (\<lambda>_ s. Ok r s)))
     | FD_NONE \<Rightarrow> Panic ''fileread'')"

text \<open>The loop of \<^verbatim>\<open>filewrite\<close> on an inode: one transaction of at most 3072 bytes at a time.\<close>

function filewrite_loop ::
  "nat \<Rightarrow> u64 \<Rightarrow> int \<Rightarrow> int \<Rightarrow> 'z file_state_scheme \<Rightarrow> (int, 'z file_state_scheme) kout" where
  "filewrite_loop f addr n i s =
    (if i < n then
       let n1 = min (n - i) (int ((MAXOPBLOCKS - 1 - 1 - 2) div 2 * BSIZE)); ip = f_ip (ftable s ! f) in
       kbind (begin_op s) (\<lambda>_ s.
       kbind (ilock ip s) (\<lambda>_ s.
       kbind (writei ip (From_user (addr + of_int i)) (f_off (ftable s ! f)) (nat n1) s) (\<lambda>r s.
       let s = (if r > 0 then upd_file f (\<lambda>x. x\<lparr>f_off := (f_off x + nat r) mod 2 ^ 32\<rparr>) s else s) in
       kbind (iunlock ip s) (\<lambda>_ s.
       kbind (end_op s) (\<lambda>_ s.
       if r \<noteq> n1 then Ok i s else filewrite_loop f addr n (i + r) s)))))
     else Ok i s)"
  by pat_completeness auto
termination
  by (relation "measure (\<lambda>(f, addr, n, i, s). nat (n - i))") auto

declare filewrite_loop.simps [simp del]

definition filewrite :: "nat \<Rightarrow> u64 \<Rightarrow> int \<Rightarrow> 'z file_state_scheme \<Rightarrow> (int, 'z file_state_scheme) kout" where
  "filewrite f addr n s =
    (let x = ftable s ! f in
     if \<not> f_writable x then Ok (-1) s
     else case f_type x of
       FD_PIPE \<Rightarrow> pipewrite (f_pipe x) addr n s
     | FD_DEVICE \<Rightarrow>
         if f_major x < 0 \<or> f_major x \<ge> NDEV \<or> devsw_write s ! nat (f_major x) = Dev_null then Ok (-1) s
         else consolewrite (From_user addr) n s
     | FD_INODE \<Rightarrow> kbind (filewrite_loop f addr n 0 s) (\<lambda>i s. Ok (if i = n then n else -1) s)
     | FD_NONE \<Rightarrow> Panic ''filewrite'')"

end
