(* ===== verification/Proc.thy ===== *)
theory Proc
  imports File
begin

text \<open>
  Processes, the rest of \<^verbatim>\<open>kernel/proc.c\<close>: allocation and release of a process structure and
  its page table, \<^verbatim>\<open>fork\<close>, \<^verbatim>\<open>exit\<close>, \<^verbatim>\<open>wait\<close>, growing a process and the scheduler. The state adds
  the clock of \<^verbatim>\<open>trap.c\<close>, the kernel's page table, the \<^verbatim>\<open>static int first\<close> of \<^verbatim>\<open>forkret\<close> and the
  symbols of the linker script and of the assembly files. A saved user register is a word
  of the trapframe page, at the offset \<^verbatim>\<open>struct trapframe\<close> gives it.
\<close>

record kern_state = file_state +
  ticks :: "32 word"
  kernel_pagetable :: u64
  forkret_first :: bool
  k_trampoline :: u64
  k_forkret :: u64

section \<open>The trapframe\<close>

abbreviation (input) tf_kernel_satp :: u64 where "tf_kernel_satp \<equiv> 0"
abbreviation (input) tf_kernel_sp :: u64 where "tf_kernel_sp \<equiv> 8"
abbreviation (input) tf_kernel_trap :: u64 where "tf_kernel_trap \<equiv> 16"
abbreviation (input) tf_epc :: u64 where "tf_epc \<equiv> 24"
abbreviation (input) tf_kernel_hartid :: u64 where "tf_kernel_hartid \<equiv> 32"
abbreviation (input) tf_sp :: u64 where "tf_sp \<equiv> 48"
abbreviation (input) tf_a0 :: u64 where "tf_a0 \<equiv> 112"
abbreviation (input) tf_a1 :: u64 where "tf_a1 \<equiv> 120"
abbreviation (input) tf_a7 :: u64 where "tf_a7 \<equiv> 168"

definition tf_get :: "u64 \<Rightarrow> 'z proc_state_scheme \<Rightarrow> u64" where
  "tf_get off s = load64 (mem s) (p_trapframe (myproc s) + off)"

definition tf_set :: "u64 \<Rightarrow> u64 \<Rightarrow> 'z proc_state_scheme \<Rightarrow> 'z proc_state_scheme" where
  "tf_set off v s = s\<lparr>mem := store64 (mem s) (p_trapframe (myproc s) + off) v\<rparr>"

section \<open>Allocation\<close>

definition procinit :: "'z proc_state_scheme \<Rightarrow> 'z proc_state_scheme" where
  "procinit s = s\<lparr>procs := map (\<lambda>(i, p). p\<lparr>p_state := UNUSED, p_kstack := KSTACK i\<rparr>) (enumerate 0 (procs s))\<rparr>"

definition proc_pagetable :: "nat \<Rightarrow> 'z kern_state_scheme \<Rightarrow> (u64, 'z kern_state_scheme) kout" where
  "proc_pagetable p s =
    kbind (uvmcreate s) (\<lambda>pagetable s.
    if pagetable = 0 then Ok 0 s
    else
      kbind (mappages pagetable TRAMPOLINE PGSIZE (k_trampoline s) (PTE_R OR PTE_X) s) (\<lambda>r s.
      if r < 0 then kbind (uvmfree pagetable 0 s) (\<lambda>_ s. Ok 0 s)
      else
        kbind (mappages pagetable TRAPFRAME PGSIZE (p_trapframe (procs s ! p)) (PTE_R OR PTE_W) s) (\<lambda>r s.
        if r < 0 then
          kbind (uvmunmap pagetable TRAMPOLINE 1 False s) (\<lambda>_ s.
          kbind (uvmfree pagetable 0 s) (\<lambda>_ s. Ok 0 s))
        else Ok pagetable s)))"

definition proc_freepagetable :: "u64 \<Rightarrow> u64 \<Rightarrow> 'z kmem_state_scheme \<Rightarrow> (unit, 'z kmem_state_scheme) kout" where
  "proc_freepagetable pagetable sz s =
    kbind (uvmunmap pagetable TRAMPOLINE 1 False s) (\<lambda>_ s.
    kbind (uvmunmap pagetable TRAPFRAME 1 False s) (\<lambda>_ s.
    uvmfree pagetable sz s))"

definition freeproc :: "nat \<Rightarrow> 'z proc_state_scheme \<Rightarrow> (unit, 'z proc_state_scheme) kout" where
  "freeproc p s =
    kbind (if p_trapframe (procs s ! p) \<noteq> 0 then kfree (p_trapframe (procs s ! p)) s else Ok () s) (\<lambda>_ s.
    let s = upd_proc p (\<lambda>q. q\<lparr>p_trapframe := 0\<rparr>) s in
    kbind (if p_pagetable (procs s ! p) \<noteq> 0
           then proc_freepagetable (p_pagetable (procs s ! p)) (p_sz (procs s ! p)) s else Ok () s) (\<lambda>_ s.
    Ok () (upd_proc p (\<lambda>q. q\<lparr>p_pagetable := 0, p_sz := 0, p_pid := 0, p_parent := NPROC,
      p_name := (p_name q)[0 := 0], p_chan := Chan_none, p_killed := 0, p_xstate := 0,
      p_state := UNUSED\<rparr>) s)))"

definition allocproc :: "'z kern_state_scheme \<Rightarrow> (nat option, 'z kern_state_scheme) kout" where
  "allocproc s =
    (case find (\<lambda>i. p_state (procs s ! i) = UNUSED) [0..<NPROC] of
       None \<Rightarrow> Ok None s
     | Some p \<Rightarrow>
         (case allocpid s of (pid, s) \<Rightarrow>
          let s = upd_proc p (\<lambda>q. q\<lparr>p_pid := pid, p_state := USED\<rparr>) s in
          \<comment> \<open>Allocate a trapframe page.\<close>
          kbind (kalloc s) (\<lambda>tf s.
          let s = upd_proc p (\<lambda>q. q\<lparr>p_trapframe := tf\<rparr>) s in
          if tf = 0 then kbind (freeproc p s) (\<lambda>_ s. Ok None s)
          else
            \<comment> \<open>An empty user page table.\<close>
            kbind (proc_pagetable p s) (\<lambda>pt s.
            let s = upd_proc p (\<lambda>q. q\<lparr>p_pagetable := pt\<rparr>) s in
            if pt = 0 then kbind (freeproc p s) (\<lambda>_ s. Ok None s)
            else
              Ok (Some p) (upd_proc p (\<lambda>q. q\<lparr>p_context :=
                \<lparr>c_ra = k_forkret s, c_sp = p_kstack q + PGSIZE, c_s = replicate 12 0\<rparr>\<rparr>) s)))))"

definition userinit :: "'z kern_state_scheme \<Rightarrow> (unit, 'z kern_state_scheme) kout" where
  "userinit s =
    kbind (allocproc s) (\<lambda>p s.
    case p of
      None \<Rightarrow> Panic ''kerneltrap''
    | Some p \<Rightarrow>
        kbind (namei [slash] (s\<lparr>initproc := p\<rparr>)) (\<lambda>ip s.
        Ok () (upd_proc p (\<lambda>q. q\<lparr>p_cwd := ip, p_state := RUNNABLE\<rparr>) s)))"

definition growproc :: "int \<Rightarrow> 'z proc_state_scheme \<Rightarrow> (int, 'z proc_state_scheme) kout" where
  "growproc n s =
    (let p = cur s; pt = p_pagetable (myproc s); sz = p_sz (myproc s) in
     if n > 0 then
       if sz + of_int n > TRAPFRAME then Ok (-1) s
       else
         kbind (uvmalloc pt sz (sz + of_int n) PTE_W s) (\<lambda>sz s.
         if sz = 0 then Ok (-1) s else Ok 0 (upd_proc p (\<lambda>q. q\<lparr>p_sz := sz\<rparr>) s))
     else if n < 0 then
       kbind (uvmdealloc pt sz (sz + of_int n) s) (\<lambda>sz s. Ok 0 (upd_proc p (\<lambda>q. q\<lparr>p_sz := sz\<rparr>) s))
     else Ok 0 s)"

section \<open>fork, exit and wait\<close>

text \<open>\<open>kfork_files\<close>: the reference counts of the open files of the parent \<open>p\<close>.\<close>

definition kfork_files :: "nat \<Rightarrow> nat \<Rightarrow> 'z file_state_scheme \<Rightarrow> (unit, 'z file_state_scheme) kout" where
  "kfork_files p np s =
    kfor [0..<NOFILE] (\<lambda>i s.
      case p_ofile (procs s ! p) ! i of
        None \<Rightarrow> Ok () s
      | Some f \<Rightarrow> kbind (filedup f s) (\<lambda>f s.
          Ok () (upd_proc np (\<lambda>q. q\<lparr>p_ofile := (p_ofile q)[i := Some f]\<rparr>) s))) s"

definition kfork :: "'z kern_state_scheme \<Rightarrow> (int, 'z kern_state_scheme) kout" where
  "kfork s =
    (let p = cur s in
     kbind (allocproc s) (\<lambda>np s.
     case np of
       None \<Rightarrow> Ok (-1) s
     | Some np \<Rightarrow>
         kbind (uvmcopy (p_pagetable (procs s ! p)) (p_pagetable (procs s ! np)) (p_sz (procs s ! p)) s) (\<lambda>r s.
         if r < 0 then kbind (freeproc np s) (\<lambda>_ s. Ok (-1) s)
         else
           let s = upd_proc np (\<lambda>q. q\<lparr>p_sz := p_sz (procs s ! p)\<rparr>) s;
               tf = p_trapframe (procs s ! np);
               s = s\<lparr>mem := memmove (mem s) tf (p_trapframe (procs s ! p)) 288\<rparr>;
               s = s\<lparr>mem := store64 (mem s) (tf + tf_a0) 0\<rparr> in
           kbind (kfork_files p np s) (\<lambda>_ s.
           kbind (idup (the (p_cwd (procs s ! p))) s) (\<lambda>cwd s.
           let s = upd_proc np (\<lambda>q. q\<lparr>p_cwd := Some cwd,
                     p_name := safestrcpy (p_name q) (p_name (procs s ! p)) 16\<rparr>) s;
               pid = p_pid (procs s ! np) in
           Ok pid (upd_proc np (\<lambda>q. q\<lparr>p_parent := p, p_state := RUNNABLE\<rparr>) s))))))"

definition reparent :: "nat \<Rightarrow> 'z proc_state_scheme \<Rightarrow> 'z proc_state_scheme" where
  "reparent p s =
    fold (\<lambda>i s.
      if p_parent (procs s ! i) = p
      then wakeup (Chan_proc (initproc s)) (upd_proc i (\<lambda>q. q\<lparr>p_parent := initproc s\<rparr>) s)
      else s) [0..<NPROC] s"

text \<open>The end of \<^verbatim>\<open>kexit\<close>, under \<^verbatim>\<open>wait_lock\<close>: the children go to init, the parent is woken, and the process is a zombie.\<close>

definition kexit_zombie :: "int \<Rightarrow> 'z proc_state_scheme \<Rightarrow> (unit, 'z proc_state_scheme) kout" where
  "kexit_zombie status s =
    (let p = cur s;
         s = reparent p s;
         s = wakeup (Chan_proc (p_parent (procs s ! p))) s in
     kbind (sched (upd_proc p (\<lambda>q. q\<lparr>p_xstate := status, p_state := ZOMBIE\<rparr>) s)) (\<lambda>(_ :: unit) s.
     Panic ''zombie exit''))"

definition kexit :: "int \<Rightarrow> 'z kern_state_scheme \<Rightarrow> (unit, 'z kern_state_scheme) kout" where
  "kexit status s =
    (let p = cur s in
     if p = initproc s then Panic ''init exiting''
     else
       kbind (kfor [0..<NOFILE] (\<lambda>fd s.
           case p_ofile (procs s ! p) ! fd of
             None \<Rightarrow> Ok () s
           | Some f \<Rightarrow> kbind (fileclose f s) (\<lambda>_ s.
               Ok () (upd_proc p (\<lambda>q. q\<lparr>p_ofile := (p_ofile q)[fd := None]\<rparr>) s))) s) (\<lambda>_ s.
       kbind (begin_op s) (\<lambda>_ s.
       kbind (iput (the (p_cwd (procs s ! p))) s) (\<lambda>_ s.
       kbind (end_op s) (\<lambda>_ s.
       kexit_zombie status (upd_proc p (\<lambda>q. q\<lparr>p_cwd := None\<rparr>) s))))))"

definition kwait :: "u64 \<Rightarrow> 'z kern_state_scheme \<Rightarrow> (int, 'z kern_state_scheme) kout" where
  "kwait addr s =
    (let p = cur s; child = (\<lambda>i. p_parent (procs s ! i) = p) in
     case find (\<lambda>i. child i \<and> p_state (procs s ! i) = ZOMBIE) [0..<NPROC] of
       Some pp \<Rightarrow>
         let pid = p_pid (procs s ! pp) in
         kbind (if addr \<noteq> 0 then copyout (p_pagetable (myproc s)) addr (le_bytes 4 (int_pat (p_xstate (procs s ! pp)))) s
                else Ok 0 s) (\<lambda>r s.
         if r < 0 then Ok (-1) s
         else kbind (freeproc pp s) (\<lambda>_ s. Ok pid s))
     | None \<Rightarrow>
         if \<not> (\<exists>i\<in>set [0..<NPROC]. child i) \<or> killed p s then Ok (-1) s
         else sleep (Chan_proc p) s)"

section \<open>The scheduler\<close>

text \<open>
  One turn of the inner loop of \<^verbatim>\<open>scheduler\<close>: from slot \<open>k\<close> on, the first runnable process is
  dispatched and runs until it switches back, when the loop goes on behind it. At the end
  of the table \<open>c->proc\<close> is 0 and the loop starts again at slot 0.
\<close>

definition scheduler :: "nat \<Rightarrow> 'z proc_state_scheme \<Rightarrow> nat \<times> 'z proc_state_scheme" where
  "scheduler k s =
    (case find (\<lambda>i. p_state (procs s ! i) = RUNNABLE) [k..<NPROC] of
       Some p \<Rightarrow> (Suc p, (upd_proc p (\<lambda>q. q\<lparr>p_state := RUNNING\<rparr>) s)\<lparr>cur := p\<rparr>)
     | None \<Rightarrow> (0, s\<lparr>cur := NPROC\<rparr>))"

section \<open>An example\<close>

text \<open>A kernel with the example file system.\<close>

definition kern0 :: kern_state where
  "kern0 = \<lparr>mem = (\<lambda>_. 0), freelist = 0, k_end = 0, procs = [], cur = 0, nextpid = 1, initproc = 0,
    disk = (\<lambda>_. []), disk_writes = [], bufs = [], lru = [], lg_start = 0, lg_outstanding = 0, lg_committing = False,
    lg_dev = 0, lh_n = 0, lh_block = [], sb = sb_ex, itable = [], cons_buf = replicate 128 0, cons_r = 0, cons_w = 0,
    cons_e = 0, tx_busy = False, uart = \<lparr>u_rx = [], u_tx = [], u_idle = True, u_regs = []\<rparr>, ftable = [],
    pipes = (\<lambda>_. \<lparr>pi_data = [], pi_nread = 0, pi_nwrite = 0, pi_readopen = False, pi_writeopen = False\<rparr>),
    devsw_read = [], devsw_write = [], stat_pad = [0, 0, 0, 0], ticks = 0, kernel_pagetable = 0, forkret_first = True,
    k_trampoline = 0, k_forkret = 0\<rparr>"

definition kern_ex :: kern_state where
  "kern_ex = fs_boot_more (fs_state.more kern0) fs_disk 0"

end
