(* ===== verification/Exec.thy ===== *)
theory Exec
  imports Proc
begin

text \<open>
  \<^verbatim>\<open>kernel/exec.c\<close>: loading an ELF file into a new page table and replacing the image of the
  process. The argument strings are C strings in kernel pages, given here as byte lists
  without their final NUL.
\<close>

section \<open>ELF headers\<close>

record elfhdr =
  e_magic :: nat
  e_entry :: u64
  e_phoff :: u64
  e_phnum :: nat

record proghdr =
  ph_type :: nat
  ph_flags :: nat
  ph_off :: u64
  ph_vaddr :: u64
  ph_filesz :: u64
  ph_memsz :: u64

definition get64 :: "nat \<Rightarrow> bytes \<Rightarrow> u64" where
  "get64 off bs = of_nat (le_val (get_at off 8 bs))"

definition elfhdr_of :: "bytes \<Rightarrow> elfhdr" where
  "elfhdr_of bs = \<lparr>e_magic = le_val (get_at 0 4 bs), e_entry = get64 24 bs, e_phoff = get64 32 bs,
    e_phnum = le_val (get_at 56 2 bs)\<rparr>"

definition proghdr_of :: "bytes \<Rightarrow> proghdr" where
  "proghdr_of bs = \<lparr>ph_type = le_val (get_at 0 4 bs), ph_flags = le_val (get_at 4 4 bs), ph_off = get64 8 bs,
    ph_vaddr = get64 16 bs, ph_filesz = get64 32 bs, ph_memsz = get64 40 bs\<rparr>"

abbreviation (input) ELF_MAGIC :: nat where "ELF_MAGIC \<equiv> 0x464C457F"
abbreviation (input) ELF_PROG_LOAD :: nat where "ELF_PROG_LOAD \<equiv> 1"
abbreviation (input) MAXARG :: nat where "MAXARG \<equiv> 32"
abbreviation (input) USERSTACK :: u64 where "USERSTACK \<equiv> 1"

definition flags2perm :: "nat \<Rightarrow> u64" where
  "flags2perm flags =
    (let perm = (if odd flags then PTE_X else 0) in
     if odd (flags div 2) then perm OR PTE_W else perm)"

section \<open>Loading a segment\<close>

text \<open>\<open>i\<close> runs through the multiples of \<^verbatim>\<open>PGSIZE\<close> below \<open>sz\<close>; \<open>offset\<close> and \<open>sz\<close> are \<^verbatim>\<open>uint\<close>.\<close>

fun loadseg_loop ::
  "u64 \<Rightarrow> u64 \<Rightarrow> nat \<Rightarrow> nat \<Rightarrow> nat \<Rightarrow> nat list \<Rightarrow> 'z fs_state_scheme \<Rightarrow> (int, 'z fs_state_scheme) kout" where
  "loadseg_loop pagetable va ip offset sz [] s = Ok 0 s"
| "loadseg_loop pagetable va ip offset sz (i # is) s =
    kbind (walkaddr pagetable (va + of_nat i) s) (\<lambda>pa s.
    if pa = 0 then Panic ''loadseg: address should exist''
    else
      let n = (if sz - i < 4096 then sz - i else 4096) in
      kbind (readi ip (To_kernel pa) ((offset + i) mod 2 ^ 32) n s) (\<lambda>(r, _) s.
      if r \<noteq> int n then Ok (-1) s
      else loadseg_loop pagetable va ip offset sz is s))"

definition loadseg ::
  "u64 \<Rightarrow> u64 \<Rightarrow> nat \<Rightarrow> nat \<Rightarrow> nat \<Rightarrow> 'z fs_state_scheme \<Rightarrow> (int, 'z fs_state_scheme) kout" where
  "loadseg pagetable va ip offset sz s =
    loadseg_loop pagetable va ip offset sz (map (\<lambda>i. 4096 * i) [0..<(sz + 4095) div 4096]) s"

text \<open>
  The loop over the program headers: \<open>Inl sz\<close> is the jump to \<^verbatim>\<open>bad\<close> with the size reached so
  far, \<open>Inr sz\<close> the normal end. \<^verbatim>\<open>off\<close> is an \<^verbatim>\<open>int\<close>, passed on as a \<^verbatim>\<open>uint\<close>.
\<close>

fun load_segments ::
  "nat \<Rightarrow> u64 \<Rightarrow> nat \<Rightarrow> nat \<Rightarrow> u64 \<Rightarrow> 'z fs_state_scheme \<Rightarrow> (u64 + u64, 'z fs_state_scheme) kout" where
  "load_segments ip pagetable 0 off sz s = Ok (Inr sz) s"
| "load_segments ip pagetable (Suc k) off sz s =
    kbind (readi ip To_local off 56 s) (\<lambda>(r, bs) s.
    let ph = proghdr_of bs; off' = (off + 56) mod 2 ^ 32 in
    if r \<noteq> 56 then Ok (Inl sz) s
    else if ph_type ph \<noteq> ELF_PROG_LOAD then load_segments ip pagetable k off' sz s
    else if ph_memsz ph < ph_filesz ph then Ok (Inl sz) s
    else if ph_vaddr ph + ph_memsz ph < ph_vaddr ph then Ok (Inl sz) s
    else if ph_vaddr ph mod PGSIZE \<noteq> 0 then Ok (Inl sz) s
    else
      kbind (uvmalloc pagetable sz (ph_vaddr ph + ph_memsz ph) (flags2perm (ph_flags ph)) s) (\<lambda>sz1 s.
      if sz1 = 0 then Ok (Inl sz) s
      else
        kbind (loadseg pagetable (ph_vaddr ph) ip (unat (ph_off ph) mod 2 ^ 32) (unat (ph_filesz ph) mod 2 ^ 32) s) (\<lambda>r s.
        if r < 0 then Ok (Inl sz1) s
        else load_segments ip pagetable k off' sz1 s)))"

section \<open>The user stack\<close>

text \<open>
  The argument strings, each below the one before and 16-byte aligned: the stack pointer
  and the addresses \<^verbatim>\<open>ustack[]\<close>, or \<open>None\<close> for the jump to \<^verbatim>\<open>bad\<close>.
\<close>

fun push_args ::
  "u64 \<Rightarrow> u64 \<Rightarrow> nat \<Rightarrow> bytes list \<Rightarrow> u64 \<Rightarrow> u64 list \<Rightarrow> 'z proc_state_scheme \<Rightarrow>
    ((u64 \<times> u64 list) option, 'z proc_state_scheme) kout" where
  "push_args pagetable stackbase argc [] sp ustack s = Ok (Some (sp, ustack)) s"
| "push_args pagetable stackbase argc (arg # argv) sp ustack s =
    (if argc \<ge> MAXARG then Ok None s
     else
       let sp = sp - of_nat (strlen arg + 1); sp = sp - sp mod 16 in
       if sp < stackbase then Ok None s
       else
         kbind (copyout pagetable sp (cstr arg @ [0]) s) (\<lambda>r s.
         if r < 0 then Ok None s
         else push_args pagetable stackbase (argc + 1) argv sp (ustack @ [sp]) s))"

text \<open>The last path element, for \<^verbatim>\<open>p->name\<close>.\<close>

fun last_elem :: "bytes \<Rightarrow> bytes \<Rightarrow> bytes" where
  "last_elem lst [] = lst"
| "last_elem lst (c # cs) = (if c = 0 then lst else if c = slash then last_elem cs cs else last_elem lst cs)"

section \<open>exec\<close>

text \<open>
  The second half of \<^verbatim>\<open>kexec\<close>, after the file is closed: the stack is set up and the new
  image replaces the old one.
\<close>

definition kexec_stack ::
  "bytes \<Rightarrow> bytes list \<Rightarrow> elfhdr \<Rightarrow> u64 \<Rightarrow> u64 \<Rightarrow> 'z kern_state_scheme \<Rightarrow> (int, 'z kern_state_scheme) kout" where
  "kexec_stack path argv elf pagetable sz s =
    (let p = cur s; oldsz = p_sz (procs s ! p); sz = PGROUNDUP sz;
         bad = (\<lambda>sz s. kbind (proc_freepagetable pagetable sz s) (\<lambda>_ s. Ok (-1) s)) in
     kbind (uvmalloc pagetable sz (sz + (USERSTACK + 1) * PGSIZE) PTE_W s) (\<lambda>sz1 s.
     if sz1 = 0 then bad sz s
     else
       let sz = sz1 in
       kbind (uvmclear pagetable (sz - (USERSTACK + 1) * PGSIZE) s) (\<lambda>_ s.
       let stackbase = sz - USERSTACK * PGSIZE in
       kbind (push_args pagetable stackbase 0 argv sz [] s) (\<lambda>r s.
       case r of
         None \<Rightarrow> bad sz s
       | Some (sp, ustack) \<Rightarrow>
           (let argc = length ustack; sp = sp - of_nat (argc + 1) * 8; sp = sp - sp mod 16 in
            if sp < stackbase then bad sz s
            else
              kbind (copyout pagetable sp (concat (map (\<lambda>a. le_bytes 8 (unat a)) (ustack @ [0]))) s) (\<lambda>r s.
              if r < 0 then bad sz s
              else
                let s = tf_set tf_a1 sp s;
                    s = upd_proc p (\<lambda>q. q\<lparr>p_name := safestrcpy (p_name q) (last_elem path path) 16\<rparr>) s;
                    oldpagetable = p_pagetable (procs s ! p);
                    s = upd_proc p (\<lambda>q. q\<lparr>p_pagetable := pagetable, p_sz := sz\<rparr>) s;
                    s = tf_set tf_sp sp (tf_set tf_epc (e_entry elf) s) in
                kbind (proc_freepagetable oldpagetable oldsz s) (\<lambda>_ s. Ok (int argc) s)))))))"

definition kexec :: "bytes \<Rightarrow> bytes list \<Rightarrow> 'z kern_state_scheme \<Rightarrow> (int, 'z kern_state_scheme) kout" where
  "kexec path argv s =
    kbind (begin_op s) (\<lambda>_ s.
    kbind (namei path s) (\<lambda>r s.
    case r of
      None \<Rightarrow> kbind (end_op s) (\<lambda>_ s. Ok (-1) s)
    | Some ip \<Rightarrow>
        (let bad = (\<lambda>s. kbind (iunlockput ip s) (\<lambda>_ s. kbind (end_op s) (\<lambda>_ s. Ok (-1) s))) in
         kbind (ilock ip s) (\<lambda>_ s.
         kbind (readi ip To_local 0 64 s) (\<lambda>(r, bs) s.
         let elf = elfhdr_of bs in
         if r \<noteq> 64 then bad s
         else if e_magic elf \<noteq> ELF_MAGIC then bad s
         else
           kbind (proc_pagetable (cur s) s) (\<lambda>pagetable s.
           if pagetable = 0 then bad s
           else
             kbind (load_segments ip pagetable (e_phnum elf) (unat (e_phoff elf) mod 2 ^ 32) 0 s) (\<lambda>r s.
             case r of
               Inl sz \<Rightarrow> kbind (proc_freepagetable pagetable sz s) (\<lambda>_ s. bad s)
             | Inr sz \<Rightarrow>
                 kbind (iunlockput ip s) (\<lambda>_ s.
                 kbind (end_op s) (\<lambda>_ s.
                 kexec_stack path argv elf pagetable sz s)))))))))"

end
