(* ===== verification/Sysfile.thy ===== *)
theory Sysfile
  imports Exec
begin

text \<open>
  The system calls on files, \<^verbatim>\<open>kernel/sysfile.c\<close>, and the functions of \<^verbatim>\<open>kernel/syscall.c\<close> that
  fetch their arguments from the trapframe and from user memory.
\<close>

section \<open>Arguments\<close>

definition fetchaddr :: "u64 \<Rightarrow> 'z proc_state_scheme \<Rightarrow> (int \<times> u64, 'z proc_state_scheme) kout" where
  "fetchaddr addr s =
    (let p = myproc s in
     if addr \<ge> p_sz p \<or> addr + 8 > p_sz p then Ok (-1, 0) s
     else
       kbind (copyin (p_pagetable p) addr 8 s) (\<lambda>(r, bs) s.
       if r \<noteq> 0 then Ok (-1, 0) s else Ok (0, of_nat (le_val bs)) s))"

text \<open>The length and the buffer.\<close>

definition fetchstr :: "u64 \<Rightarrow> nat \<Rightarrow> 'z proc_state_scheme \<Rightarrow> (int \<times> bytes, 'z proc_state_scheme) kout" where
  "fetchstr addr mx s =
    kbind (copyinstr (p_pagetable (myproc s)) addr mx s) (\<lambda>(r, buf) s.
    if r < 0 then Ok (-1, buf) s else Ok (int (strlen buf), buf) s)"

definition argraw :: "nat \<Rightarrow> 'z proc_state_scheme \<Rightarrow> (u64, 'z proc_state_scheme) kout" where
  "argraw n s = (if n \<le> 5 then Ok (tf_get (tf_a0 + 8 * of_nat n) s) s else Panic ''argraw'')"

definition argint :: "nat \<Rightarrow> 'z proc_state_scheme \<Rightarrow> (int, 'z proc_state_scheme) kout" where
  "argint n s = kbind (argraw n s) (\<lambda>x s. Ok (sint (ucast x :: 32 word)) s)"

definition argaddr :: "nat \<Rightarrow> 'z proc_state_scheme \<Rightarrow> (u64, 'z proc_state_scheme) kout" where
  "argaddr n s = argraw n s"

definition argstr :: "nat \<Rightarrow> nat \<Rightarrow> 'z proc_state_scheme \<Rightarrow> (int \<times> bytes, 'z proc_state_scheme) kout" where
  "argstr n mx s = kbind (argaddr n s) (\<lambda>addr s. fetchstr addr mx s)"

abbreviation (input) MAXPATH :: nat where "MAXPATH \<equiv> 128"

text \<open>The descriptor and the file.\<close>

definition argfd :: "nat \<Rightarrow> 'z proc_state_scheme \<Rightarrow> ((int \<times> nat) option, 'z proc_state_scheme) kout" where
  "argfd n s =
    kbind (argint n s) (\<lambda>fd s.
    if fd < 0 \<or> fd \<ge> int NOFILE then Ok None s
    else case p_ofile (myproc s) ! nat fd of
      None \<Rightarrow> Ok None s
    | Some f \<Rightarrow> Ok (Some (fd, f)) s)"

definition fdalloc :: "nat \<Rightarrow> 'z proc_state_scheme \<Rightarrow> (int, 'z proc_state_scheme) kout" where
  "fdalloc f s =
    (case find (\<lambda>fd. p_ofile (myproc s) ! fd = None) [0..<NOFILE] of
       None \<Rightarrow> Ok (-1) s
     | Some fd \<Rightarrow> Ok (int fd) (upd_proc (cur s) (\<lambda>p. p\<lparr>p_ofile := (p_ofile p)[fd := Some f]\<rparr>) s))"

text \<open>\<^verbatim>\<open>myproc()->ofile[fd] = 0\<close>.\<close>

definition fdclear :: "int \<Rightarrow> 'z proc_state_scheme \<Rightarrow> 'z proc_state_scheme" where
  "fdclear fd s = upd_proc (cur s) (\<lambda>p. p\<lparr>p_ofile := (p_ofile p)[nat fd := None]\<rparr>) s"

section \<open>Descriptors\<close>

definition sys_dup :: "'z kern_state_scheme \<Rightarrow> (int, 'z kern_state_scheme) kout" where
  "sys_dup s =
    kbind (argfd 0 s) (\<lambda>r s.
    case r of
      None \<Rightarrow> Ok (-1) s
    | Some (_, f) \<Rightarrow>
        kbind (fdalloc f s) (\<lambda>fd s.
        if fd < 0 then Ok (-1) s else kbind (filedup f s) (\<lambda>_ s. Ok fd s)))"

definition sys_read :: "'z kern_state_scheme \<Rightarrow> (int, 'z kern_state_scheme) kout" where
  "sys_read s =
    kbind (argaddr 1 s) (\<lambda>p s.
    kbind (argint 2 s) (\<lambda>n s.
    kbind (argfd 0 s) (\<lambda>r s.
    case r of None \<Rightarrow> Ok (-1) s | Some (_, f) \<Rightarrow> fileread f p n s)))"

definition sys_write :: "'z kern_state_scheme \<Rightarrow> (int, 'z kern_state_scheme) kout" where
  "sys_write s =
    kbind (argaddr 1 s) (\<lambda>p s.
    kbind (argint 2 s) (\<lambda>n s.
    kbind (argfd 0 s) (\<lambda>r s.
    case r of None \<Rightarrow> Ok (-1) s | Some (_, f) \<Rightarrow> filewrite f p n s)))"

definition sys_close :: "'z kern_state_scheme \<Rightarrow> (int, 'z kern_state_scheme) kout" where
  "sys_close s =
    kbind (argfd 0 s) (\<lambda>r s.
    case r of
      None \<Rightarrow> Ok (-1) s
    | Some (fd, f) \<Rightarrow> kbind (fileclose f (fdclear fd s)) (\<lambda>_ s. Ok 0 s))"

definition sys_fstat :: "'z kern_state_scheme \<Rightarrow> (int, 'z kern_state_scheme) kout" where
  "sys_fstat s =
    kbind (argaddr 1 s) (\<lambda>st s.
    kbind (argfd 0 s) (\<lambda>r s.
    case r of None \<Rightarrow> Ok (-1) s | Some (_, f) \<Rightarrow> filestat f st s))"

section \<open>Links\<close>

text \<open>The common exits: \<^verbatim>\<open>end_op(); return r\<close>, and \<^verbatim>\<open>iunlockput(ip); end_op(); return r\<close>.\<close>

definition end_ret :: "int \<Rightarrow> 'z fs_state_scheme \<Rightarrow> (int, 'z fs_state_scheme) kout" where
  "end_ret r s = kbind (end_op s) (\<lambda>_ s. Ok r s)"

definition put_ret :: "nat \<Rightarrow> int \<Rightarrow> 'z fs_state_scheme \<Rightarrow> (int, 'z fs_state_scheme) kout" where
  "put_ret ip r s = kbind (iunlockput ip s) (\<lambda>_ s. end_ret r s)"

text \<open>\<^verbatim>\<open>ip->nlink += d; iupdate(ip)\<close>, a 16-bit counter.\<close>

definition add_nlink :: "nat \<Rightarrow> int \<Rightarrow> 'z fs_state_scheme \<Rightarrow> (unit, 'z fs_state_scheme) kout" where
  "add_nlink ip d s = iupdate ip (upd_inode ip (\<lambda>x. x\<lparr>i_nlink := to_short (i_nlink x + d)\<rparr>) s)"

definition sys_link :: "'z kern_state_scheme \<Rightarrow> (int, 'z kern_state_scheme) kout" where
  "sys_link s =
    kbind (argstr 0 MAXPATH s) (\<lambda>(r0, old) s.
    if r0 < 0 then Ok (-1) s
    else
      kbind (argstr 1 MAXPATH s) (\<lambda>(r1, new) s.
      if r1 < 0 then Ok (-1) s
      else
        kbind (begin_op s) (\<lambda>_ s.
        kbind (namei old s) (\<lambda>r s.
        case r of
          None \<Rightarrow> end_ret (-1) s
        | Some ip \<Rightarrow>
            kbind (ilock ip s) (\<lambda>_ s.
            if i_type (itable s ! ip) = T_DIR then put_ret ip (-1) s
            else
              kbind (add_nlink ip 1 s) (\<lambda>_ s.
              kbind (iunlock ip s) (\<lambda>_ s.
              let bad = (\<lambda>s.
                    kbind (ilock ip s) (\<lambda>_ s.
                    kbind (add_nlink ip (-1) s) (\<lambda>_ s.
                    put_ret ip (-1) s))) in
              kbind (nameiparent new (replicate DIRSIZ 0) s) (\<lambda>(r, name) s.
              case r of
                None \<Rightarrow> bad s
              | Some dp \<Rightarrow>
                  kbind (ilock dp s) (\<lambda>_ s.
                  kbind (if i_dev (itable s ! dp) \<noteq> i_dev (itable s ! ip) then Ok (-1) s
                         else dirlink dp name (i_inum (itable s ! ip)) s) (\<lambda>r s.
                  if r < 0 then kbind (iunlockput dp s) (\<lambda>_ s. bad s)
                  else
                    kbind (iunlockput dp s) (\<lambda>_ s.
                    kbind (iput ip s) (\<lambda>_ s.
                    end_ret 0 s))))))))))))"

fun isdirempty_loop :: "nat \<Rightarrow> nat list \<Rightarrow> 'z fs_state_scheme \<Rightarrow> (bool, 'z fs_state_scheme) kout" where
  "isdirempty_loop dp [] s = Ok True s"
| "isdirempty_loop dp (off # offs) s =
    kbind (readi dp To_local off 16 s) (\<lambda>(r, bs) s.
    if r \<noteq> 16 then Panic ''isdirempty: readi''
    else if de_inum (dirent_of bs) \<noteq> 0 then Ok False s
    else isdirempty_loop dp offs s)"

definition isdirempty :: "nat \<Rightarrow> 'z fs_state_scheme \<Rightarrow> (bool, 'z fs_state_scheme) kout" where
  "isdirempty dp s = isdirempty_loop dp (drop 2 (dir_offs (i_size (itable s ! dp)))) s"

definition sys_unlink :: "'z kern_state_scheme \<Rightarrow> (int, 'z kern_state_scheme) kout" where
  "sys_unlink s =
    kbind (argstr 0 MAXPATH s) (\<lambda>(r, path) s.
    if r < 0 then Ok (-1) s
    else
      kbind (begin_op s) (\<lambda>_ s.
      kbind (nameiparent path (replicate DIRSIZ 0) s) (\<lambda>(r, name) s.
      case r of
        None \<Rightarrow> end_ret (-1) s
      | Some dp \<Rightarrow>
          kbind (ilock dp s) (\<lambda>_ s.
          if namecmp name [46] = 0 \<or> namecmp name [46, 46] = 0 then put_ret dp (-1) s
          else
            kbind (dirlookup dp name s) (\<lambda>r s.
            case r of
              None \<Rightarrow> put_ret dp (-1) s
            | Some (ip, off) \<Rightarrow>
                kbind (ilock ip s) (\<lambda>_ s.
                if i_nlink (itable s ! ip) < 1 then Panic ''unlink: nlink < 1''
                else
                  kbind (if i_type (itable s ! ip) = T_DIR then isdirempty ip s else Ok True s) (\<lambda>empty s.
                  if \<not> empty then kbind (iunlockput ip s) (\<lambda>_ s. put_ret dp (-1) s)
                  else
                    kbind (writei dp (From_kernel (replicate 16 0)) off 16 s) (\<lambda>r s.
                    if r \<noteq> 16 then Panic ''unlink: writei''
                    else
                      kbind (if i_type (itable s ! ip) = T_DIR then add_nlink dp (-1) s else Ok () s) (\<lambda>_ s.
                      kbind (iunlockput dp s) (\<lambda>_ s.
                      kbind (add_nlink ip (-1) s) (\<lambda>_ s.
                      put_ret ip 0 s)))))))))))"

section \<open>Creating and opening\<close>

text \<open>A \<open>Some ip\<close> result is returned locked.\<close>

definition create ::
  "bytes \<Rightarrow> int \<Rightarrow> int \<Rightarrow> int \<Rightarrow> 'z fs_state_scheme \<Rightarrow> (nat option, 'z fs_state_scheme) kout" where
  "create path type major minor s =
    kbind (nameiparent path (replicate DIRSIZ 0) s) (\<lambda>(r, name) s.
    case r of
      None \<Rightarrow> Ok None s
    | Some dp \<Rightarrow>
        kbind (ilock dp s) (\<lambda>_ s.
        kbind (dirlookup dp name s) (\<lambda>r s.
        case r of
          Some (ip, _) \<Rightarrow>
            kbind (iunlockput dp s) (\<lambda>_ s.
            kbind (ilock ip s) (\<lambda>_ s.
            if type = T_FILE \<and> (i_type (itable s ! ip) = T_FILE \<or> i_type (itable s ! ip) = T_DEVICE)
            then Ok (Some ip) s
            else kbind (iunlockput ip s) (\<lambda>_ s. Ok None s)))
        | None \<Rightarrow>
            kbind (ialloc (i_dev (itable s ! dp)) type s) (\<lambda>r s.
            case r of
              None \<Rightarrow> kbind (iunlockput dp s) (\<lambda>_ s. Ok None s)
            | Some ip \<Rightarrow>
                kbind (ilock ip s) (\<lambda>_ s.
                kbind (iupdate ip (upd_inode ip (\<lambda>x. x\<lparr>i_major := major, i_minor := minor, i_nlink := 1\<rparr>) s)) (\<lambda>_ s.
                let fail = (\<lambda>s.
                      kbind (iupdate ip (upd_inode ip (\<lambda>x. x\<lparr>i_nlink := 0\<rparr>) s)) (\<lambda>_ s.
                      kbind (iunlockput ip s) (\<lambda>_ s.
                      kbind (iunlockput dp s) (\<lambda>_ s. Ok None s)))) in
                kbind (if type = T_DIR
                       then
                         kbind (dirlink ip [46] (i_inum (itable s ! ip)) s) (\<lambda>r s.
                         if r < 0 then Ok r s
                         else dirlink ip [46, 46] (i_inum (itable s ! dp)) s)
                       else Ok 0 s) (\<lambda>r s.
                if r < 0 then fail s
                else
                  kbind (dirlink dp name (i_inum (itable s ! ip)) s) (\<lambda>r s.
                  if r < 0 then fail s
                  else
                    kbind (if type = T_DIR then add_nlink dp 1 s else Ok () s) (\<lambda>_ s.
                    kbind (iunlockput dp s) (\<lambda>_ s. Ok (Some ip) s))))))))))"

abbreviation (input) O_RDONLY :: int where "O_RDONLY \<equiv> 0"
abbreviation (input) O_WRONLY :: int where "O_WRONLY \<equiv> 1"
abbreviation (input) O_RDWR :: int where "O_RDWR \<equiv> 2"
abbreviation (input) O_CREATE :: int where "O_CREATE \<equiv> 0x200"
abbreviation (input) O_TRUNC :: int where "O_TRUNC \<equiv> 0x400"

text \<open>The locked inode \<^verbatim>\<open>sys_open\<close> works on, or \<open>None\<close> after \<^verbatim>\<open>end_op()\<close>.\<close>

definition open_inode :: "bytes \<Rightarrow> int \<Rightarrow> 'z fs_state_scheme \<Rightarrow> (nat option, 'z fs_state_scheme) kout" where
  "open_inode path omode s =
    (if omode AND O_CREATE \<noteq> 0 then
       kbind (create path T_FILE 0 0 s) (\<lambda>r s.
       case r of
         None \<Rightarrow> kbind (end_op s) (\<lambda>_ s. Ok None s)
       | Some ip \<Rightarrow> Ok (Some ip) s)
     else
       kbind (namei path s) (\<lambda>r s.
       case r of
         None \<Rightarrow> kbind (end_op s) (\<lambda>_ s. Ok None s)
       | Some ip \<Rightarrow>
           kbind (ilock ip s) (\<lambda>_ s.
           if i_type (itable s ! ip) = T_DIR \<and> omode \<noteq> O_RDONLY
           then kbind (put_ret ip (-1) s) (\<lambda>_ s. Ok None s)
           else Ok (Some ip) s)))"

text \<open>The fields \<^verbatim>\<open>sys_open\<close> sets in the new \<^verbatim>\<open>struct file\<close>.\<close>

definition open_file :: "inode \<Rightarrow> nat \<Rightarrow> int \<Rightarrow> kfile \<Rightarrow> kfile" where
  "open_file x ip omode f =
    (let f = (if i_type x = T_DEVICE then f\<lparr>f_type := FD_DEVICE, f_major := i_major x\<rparr>
              else f\<lparr>f_type := FD_INODE, f_off := 0\<rparr>) in
     f\<lparr>f_ip := ip, f_readable := (omode AND O_WRONLY = 0),
       f_writable := (omode AND O_WRONLY \<noteq> 0 \<or> omode AND O_RDWR \<noteq> 0)\<rparr>)"

definition sys_open :: "'z kern_state_scheme \<Rightarrow> (int, 'z kern_state_scheme) kout" where
  "sys_open s =
    kbind (argint 1 s) (\<lambda>omode s.
    kbind (argstr 0 MAXPATH s) (\<lambda>(n, path) s.
    if n < 0 then Ok (-1) s
    else
      kbind (begin_op s) (\<lambda>_ s.
      kbind (open_inode path omode s) (\<lambda>r s.
      case r of
        None \<Rightarrow> Ok (-1) s
      | Some ip \<Rightarrow>
          if i_type (itable s ! ip) = T_DEVICE \<and> (i_major (itable s ! ip) < 0 \<or> i_major (itable s ! ip) \<ge> NDEV)
          then put_ret ip (-1) s
          else
            kbind (filealloc s) (\<lambda>r s.
            case r of
              None \<Rightarrow> put_ret ip (-1) s
            | Some f \<Rightarrow>
                kbind (fdalloc f s) (\<lambda>fd s.
                if fd < 0 then kbind (fileclose f s) (\<lambda>_ s. put_ret ip (-1) s)
                else
                  let s = upd_file f (open_file (itable s ! ip) ip omode) s in
                  kbind (if omode AND O_TRUNC \<noteq> 0 \<and> i_type (itable s ! ip) = T_FILE then itrunc ip s else Ok () s) (\<lambda>_ s.
                  kbind (iunlock ip s) (\<lambda>_ s.
                  end_ret fd s))))))))"

definition sys_mkdir :: "'z kern_state_scheme \<Rightarrow> (int, 'z kern_state_scheme) kout" where
  "sys_mkdir s =
    kbind (begin_op s) (\<lambda>_ s.
    kbind (argstr 0 MAXPATH s) (\<lambda>(r, path) s.
    if r < 0 then end_ret (-1) s
    else
      kbind (create path T_DIR 0 0 s) (\<lambda>r s.
      case r of None \<Rightarrow> end_ret (-1) s | Some ip \<Rightarrow> put_ret ip 0 s)))"

definition sys_mknod :: "'z kern_state_scheme \<Rightarrow> (int, 'z kern_state_scheme) kout" where
  "sys_mknod s =
    kbind (begin_op s) (\<lambda>_ s.
    kbind (argint 1 s) (\<lambda>major s.
    kbind (argint 2 s) (\<lambda>minor s.
    kbind (argstr 0 MAXPATH s) (\<lambda>(r, path) s.
    if r < 0 then end_ret (-1) s
    else
      kbind (create path T_DEVICE (to_short major) (to_short minor) s) (\<lambda>r s.
      case r of None \<Rightarrow> end_ret (-1) s | Some ip \<Rightarrow> put_ret ip 0 s)))))"

definition sys_chdir :: "'z kern_state_scheme \<Rightarrow> (int, 'z kern_state_scheme) kout" where
  "sys_chdir s =
    (let p = cur s in
     kbind (begin_op s) (\<lambda>_ s.
     kbind (argstr 0 MAXPATH s) (\<lambda>(r, path) s.
     if r < 0 then end_ret (-1) s
     else
       kbind (namei path s) (\<lambda>r s.
       case r of
         None \<Rightarrow> end_ret (-1) s
       | Some ip \<Rightarrow>
           kbind (ilock ip s) (\<lambda>_ s.
           if i_type (itable s ! ip) \<noteq> T_DIR then put_ret ip (-1) s
           else
             kbind (iunlock ip s) (\<lambda>_ s.
             kbind (iput (the (p_cwd (procs s ! p))) s) (\<lambda>_ s.
             kbind (end_op s) (\<lambda>_ s.
             Ok 0 (upd_proc p (\<lambda>q. q\<lparr>p_cwd := Some ip\<rparr>) s)))))))))"

section \<open>exec and pipe\<close>

text \<open>
  The loop of \<^verbatim>\<open>sys_exec\<close> with \<open>left\<close> slots of \<^verbatim>\<open>argv[MAXARG]\<close> left: whether it ended at a null
  pointer, and the pages allocated so far.
\<close>

fun sys_exec_args ::
  "u64 \<Rightarrow> nat \<Rightarrow> nat \<Rightarrow> u64 list \<Rightarrow> 'z proc_state_scheme \<Rightarrow> (bool \<times> u64 list, 'z proc_state_scheme) kout" where
  "sys_exec_args uargv 0 i argv s = Ok (False, argv) s"
| "sys_exec_args uargv (Suc left) i argv s =
    kbind (fetchaddr (uargv + 8 * of_nat i) s) (\<lambda>(r, uarg) s.
    if r < 0 then Ok (False, argv) s
    else if uarg = 0 then Ok (True, argv) s
    else
      kbind (kalloc s) (\<lambda>page s.
      if page = 0 then Ok (False, argv) s
      else
        kbind (fetchstr uarg 4096 s) (\<lambda>(r, buf) s.
        let s = s\<lparr>mem := mem_put (mem s) page buf\<rparr> in
        if r < 0 then Ok (False, argv @ [page]) s
        else sys_exec_args uargv left (i + 1) (argv @ [page]) s)))"

definition sys_exec :: "'z kern_state_scheme \<Rightarrow> (int, 'z kern_state_scheme) kout" where
  "sys_exec s =
    kbind (argaddr 1 s) (\<lambda>uargv s.
    kbind (argstr 0 MAXPATH s) (\<lambda>(r, path) s.
    if r < 0 then Ok (-1) s
    else
      kbind (sys_exec_args uargv MAXARG 0 [] s) (\<lambda>(ok, argv) s.
      kbind (if ok then kexec path (map (\<lambda>a. cstr (mem_bytes (mem s) a 4096)) argv) s else Ok (-1) s) (\<lambda>ret s.
      kbind (kfor argv kfree s) (\<lambda>_ s.
      Ok ret s)))))"

definition sys_pipe :: "'z kern_state_scheme \<Rightarrow> (int, 'z kern_state_scheme) kout" where
  "sys_pipe s =
    kbind (argaddr 0 s) (\<lambda>fdarray s.
    kbind (pipealloc s) (\<lambda>r s.
    case r of
      None \<Rightarrow> Ok (-1) s
    | Some (rfile, wfile) \<Rightarrow>
        (let close = (\<lambda>s. kbind (fileclose rfile s) (\<lambda>_ s. kbind (fileclose wfile s) (\<lambda>_ s. Ok (-1) s))) in
         kbind (fdalloc rfile s) (\<lambda>fd0 s.
         if fd0 < 0 then close s
         else
           kbind (fdalloc wfile s) (\<lambda>fd1 s.
           if fd1 < 0 then close (fdclear fd0 s)
           else
             kbind (copyout (p_pagetable (myproc s)) fdarray (le_bytes 4 (int_pat fd0)) s) (\<lambda>r s.
             kbind (if r < 0 then Ok r s
                    else copyout (p_pagetable (myproc s)) (fdarray + 4) (le_bytes 4 (int_pat fd1)) s) (\<lambda>r s.
             if r < 0 then close (fdclear fd1 (fdclear fd0 s))
             else Ok 0 s)))))))"

end
