(* ===== verification/Sysproc.thy ===== *)
theory Sysproc
  imports Sysfile
begin

text \<open>
  The system calls on processes, \<^verbatim>\<open>kernel/sysproc.c\<close>, with \<^verbatim>\<open>sys_fsinfo\<close>, which counts the inodes
  in use and the free blocks of the disk.
\<close>

definition sys_exit :: "'z kern_state_scheme \<Rightarrow> (int, 'z kern_state_scheme) kout" where
  "sys_exit s = kbind (argint 0 s) (\<lambda>n s. kbind (kexit n s) (\<lambda>_ s. Ok 0 s))"

definition sys_getpid :: "'z kern_state_scheme \<Rightarrow> (int, 'z kern_state_scheme) kout" where
  "sys_getpid s = Ok (p_pid (myproc s)) s"

definition sys_fork :: "'z kern_state_scheme \<Rightarrow> (int, 'z kern_state_scheme) kout" where
  "sys_fork s = kfork s"

definition sys_wait :: "'z kern_state_scheme \<Rightarrow> (int, 'z kern_state_scheme) kout" where
  "sys_wait s = kbind (argaddr 0 s) (\<lambda>p s. kwait p s)"

abbreviation (input) SBRK_EAGER :: int where "SBRK_EAGER \<equiv> 1"

text \<open>An address is returned as a 64-bit value, here as the number it is.\<close>

definition sys_sbrk :: "'z kern_state_scheme \<Rightarrow> (int, 'z kern_state_scheme) kout" where
  "sys_sbrk s =
    kbind (argint 0 s) (\<lambda>n s.
    kbind (argint 1 s) (\<lambda>t s.
    let addr = p_sz (myproc s) in
    if t = SBRK_EAGER \<or> n < 0 then
      kbind (growproc n s) (\<lambda>r s. if r < 0 then Ok (-1) s else Ok (uint addr) s)
    else if addr + of_int n < addr then Ok (-1) s
    else if addr + of_int n > TRAPFRAME then Ok (-1) s
    else Ok (uint addr) (upd_proc (cur s) (\<lambda>p. p\<lparr>p_sz := p_sz p + of_int n\<rparr>) s)))"

text \<open>The loop of \<^verbatim>\<open>sys_pause\<close>, from its head, with the start time it remembers.\<close>

definition sys_pause_loop ::
  "32 word \<Rightarrow> 32 word \<Rightarrow> 'z kern_state_scheme \<Rightarrow> (unit progress, 'z kern_state_scheme) kout" where
  "sys_pause_loop ticks0 n s =
    (if ticks s - ticks0 < n then
       if killed (cur s) s then Ok (Return (-1)) s else sleep Chan_ticks s
     else Ok (Return 0) s)"

definition sys_pause :: "'z kern_state_scheme \<Rightarrow> (int, 'z kern_state_scheme) kout" where
  "sys_pause s =
    kbind (argint 0 s) (\<lambda>n s.
    let n = (if n < 0 then 0 else n) in
    collapse Chan_ticks (sys_pause_loop (ticks s) (of_int n) s))"

definition sys_kill :: "'z kern_state_scheme \<Rightarrow> (int, 'z kern_state_scheme) kout" where
  "sys_kill s = kbind (argint 0 s) (\<lambda>pid s. kkill pid s)"

definition sys_uptime :: "'z kern_state_scheme \<Rightarrow> (int, 'z kern_state_scheme) kout" where
  "sys_uptime s = Ok (uint (ticks s)) s"

section \<open>fsinfo\<close>

record fsinfo =
  total_files :: int
  total_dirs :: int
  total_inodes :: int
  free_blocks :: int

definition fsinfo_bytes :: "fsinfo \<Rightarrow> bytes" where
  "fsinfo_bytes info = le_bytes 4 (int_pat (total_files info)) @ le_bytes 4 (int_pat (total_dirs info)) @
    le_bytes 4 (int_pat (total_inodes info)) @ le_bytes 4 (int_pat (free_blocks info))"

definition count_inode :: "dinode \<Rightarrow> fsinfo \<Rightarrow> fsinfo" where
  "count_inode di info =
    (if d_type di \<noteq> 0 then
       let info = info\<lparr>total_inodes := total_inodes info + 1\<rparr> in
       if d_type di = T_FILE then info\<lparr>total_files := total_files info + 1\<rparr>
       else if d_type di = T_DIR then info\<lparr>total_dirs := total_dirs info + 1\<rparr>
       else info
     else info)"

text \<open>The inner loop over the inodes of a block, which stops at \<^verbatim>\<open>sb.ninodes\<close>.\<close>

definition count_inodes :: "nat \<Rightarrow> nat \<Rightarrow> bytes \<Rightarrow> fsinfo \<Rightarrow> fsinfo" where
  "count_inodes ninodes b data info =
    fold (\<lambda>i. count_inode (get_dinode i data)) (takeWhile (\<lambda>i. b * IPB + i < ninodes) [0..<IPB]) info"

fun scan_inodes :: "nat list \<Rightarrow> fsinfo \<Rightarrow> 'z fs_state_scheme \<Rightarrow> (fsinfo, 'z fs_state_scheme) kout" where
  "scan_inodes [] info s = Ok info s"
| "scan_inodes (b # bs) info s =
    kbind (bread ROOTDEV (sb_inodestart (sb s) + b) s) (\<lambda>bp s.
    let info = count_inodes (sb_ninodes (sb s)) b (bdata bp s) info in
    kbind (brelse bp s) (\<lambda>_ s. scan_inodes bs info s))"

definition count_free :: "nat \<Rightarrow> nat \<Rightarrow> bytes \<Rightarrow> fsinfo \<Rightarrow> fsinfo" where
  "count_free sz b data info =
    fold (\<lambda>i info. if bit_used data i then info else info\<lparr>free_blocks := free_blocks info + 1\<rparr>)
      (takeWhile (\<lambda>i. b + i < sz) [0..<BPB]) info"

fun scan_bitmap :: "nat list \<Rightarrow> fsinfo \<Rightarrow> 'z fs_state_scheme \<Rightarrow> (fsinfo, 'z fs_state_scheme) kout" where
  "scan_bitmap [] info s = Ok info s"
| "scan_bitmap (b # bs) info s =
    kbind (bread ROOTDEV (BBLOCK b (sb s)) s) (\<lambda>bp s.
    let info = count_free (sb_size (sb s)) b (bdata bp s) info in
    kbind (brelse bp s) (\<lambda>_ s. scan_bitmap bs info s))"

definition sys_fsinfo :: "'z kern_state_scheme \<Rightarrow> (int, 'z kern_state_scheme) kout" where
  "sys_fsinfo s =
    kbind (argaddr 0 s) (\<lambda>addr s.
    let ninodeblocks = (sb_ninodes (sb s) + IPB - 1) mod 2 ^ 32 div IPB;
        info = \<lparr>total_files = 0, total_dirs = 0, total_inodes = 0, free_blocks = 0\<rparr> in
    kbind (scan_inodes [0..<ninodeblocks] info s) (\<lambda>info s.
    kbind (scan_bitmap (bitmap_steps (sb_size (sb s))) info s) (\<lambda>info s.
    kbind (copyout (p_pagetable (myproc s)) addr (fsinfo_bytes info) s) (\<lambda>r s.
    if r < 0 then Ok (-1) s else Ok 0 s))))"

section \<open>What fsinfo counts\<close>

text \<open>
  The disk inode \<open>i\<close>, and the counts \<^verbatim>\<open>fsinfo\<close> stands for: the inodes with a type, the files and the
  directories among them, and the blocks whose bit in the free map is clear.
\<close>

definition dinode_at :: "'z fs_state_scheme \<Rightarrow> nat \<Rightarrow> dinode" where
  "dinode_at s i = get_dinode (i mod IPB) (blk s (IBLOCK i (sb s)))"

definition fsinfo_of :: "'z fs_state_scheme \<Rightarrow> fsinfo" where
  "fsinfo_of s = \<lparr>total_files = int (card {i. i < sb_ninodes (sb s) \<and> d_type (dinode_at s i) = T_FILE}),
    total_dirs = int (card {i. i < sb_ninodes (sb s) \<and> d_type (dinode_at s i) = T_DIR}),
    total_inodes = int (card {i. i < sb_ninodes (sb s) \<and> d_type (dinode_at s i) \<noteq> 0}),
    free_blocks = int (card {b. b < sb_size (sb s) \<and> \<not> block_used s b})\<rparr>"

text \<open>A table of \<open>n\<close> entries, \<open>w\<close> to a block, read block by block.\<close>

lemma chunks:
  "concat (map (\<lambda>k. map (\<lambda>i. w * k + i) [0..<min w (n - w * k)]) [0..<m]) = [0..<min n (w * m)]"
proof (induction m)
  case 0
  then show ?case by simp
next
  case (Suc m)
  have "map (\<lambda>i. w * m + i) [0..<min w (n - w * m)] = [w * m..<w * m + min w (n - w * m)]"
    by (simp add: map_add_upt add.commute)
  moreover have "[0..<min n (w * m)] @ [w * m..<w * m + min w (n - w * m)] = [0..<min n (w * Suc m)]"
  proof (cases "w * m \<le> n")
    case True
    then have "w * m + min w (n - w * m) = min n (w * Suc m)" by auto
    then show ?thesis using True upt_add_eq_append [of 0 "w * m" "min w (n - w * m)"] by simp
  qed simp
  ultimately show ?case using Suc by simp
qed

lemma takeWhile_upt: "takeWhile (\<lambda>i. c + i < n) [0..<w] = [0..<min w (n - c)]"
proof (induction w)
  case (Suc w)
  have all: "(\<forall>i \<in> set [0..<w]. c + i < n) \<longleftrightarrow> w \<le> n - c" by (auto dest: bspec [of _ _ "w - 1"])
  show ?case
  proof (cases "w \<le> n - c")
    case True
    then have "\<not> c + w < n \<Longrightarrow> n - c = w" by auto
    with True all show ?thesis by (auto simp: takeWhile_append min_def)
  next
    case False
    with all Suc show ?thesis by (auto simp: takeWhile_append min_def)
  qed
qed simp

lemma fold_chunks:
  "fold (\<lambda>k. fold (\<lambda>i. f (w * k + i)) [0..<min w (n - w * k)]) [0..<m] x = fold f [0..<min n (w * m)] x"
proof -
  have "fold f (concat (map (\<lambda>k. map (\<lambda>i. w * k + i) [0..<min w (n - w * k)]) ks)) x =
      fold (\<lambda>k. fold (\<lambda>i. f (w * k + i)) [0..<min w (n - w * k)]) ks x" for ks
    by (induction ks arbitrary: x) (simp_all add: fold_map comp_def)
  then show ?thesis by (simp flip: chunks)
qed


text \<open>The counters after a run over a list of inodes or of bits.\<close>

lemma fold_count_inode:
  "fold count_inode ds info = info\<lparr>total_files := total_files info + int (length (filter (\<lambda>d. d_type d = T_FILE) ds)),
    total_dirs := total_dirs info + int (length (filter (\<lambda>d. d_type d = T_DIR) ds)),
    total_inodes := total_inodes info + int (length (filter (\<lambda>d. d_type d \<noteq> 0) ds))\<rparr>"
  by (induction ds arbitrary: info) (simp_all add: count_inode_def Let_def)

lemma fold_count_free:
  "fold (\<lambda>b info. if P b then info else info\<lparr>free_blocks := free_blocks info + 1\<rparr>) bs info =
    info\<lparr>free_blocks := free_blocks info + int (length (filter (\<lambda>b. \<not> P b) bs))\<rparr>"
  by (induction bs arbitrary: info) simp_all

lemma length_filter_upt: "length (filter P [0..<n]) = card {i. i < n \<and> P i}"
  by (simp add: length_filter_conv_card cong: conj_cong)

lemma returns_scan_inodes:
  assumes "log_inv s" and "0 < slots s" and "\<forall>b \<in> set bs. sb_inodestart (sb s) + b \<notin> held s"
  shows "returns (scan_inodes bs info s) (\<lambda>r t. fs_step 0 s t \<and> blk t = blk s \<and>
    r = fold (\<lambda>b. count_inodes (sb_ninodes (sb s)) b (blk s (sb_inodestart (sb s) + b))) bs info)"
  using assms
proof (induction bs arbitrary: info s)
  case Nil
  then show ?case using fs_step_refl [of s 0] by simp
next
  case (Cons b bs)
  let ?b = "sb_inodestart (sb s) + b"
  show ?case
    unfolding scan_inodes.simps
  proof (rule fs_bread)
    show "log_inv s" "?b \<notin> held s" "0 < slots s" using Cons.prems by auto
    fix i t assume t: "locked s t i ?b" "bdata i t = blk s ?b" "sb t = sb s" "itable t = itable s"
    show "returns (let info = count_inodes (sb_ninodes (sb t)) b (bdata i t) info in
        kbind (brelse i t) (\<lambda>_ s. scan_inodes bs info s)) (\<lambda>r t. fs_step 0 s t \<and> blk t = blk s \<and>
        r = fold (\<lambda>b. count_inodes (sb_ninodes (sb s)) b (blk s (sb_inodestart (sb s) + b))) (b # bs) info)"
      unfolding Let_def
    proof (rule fs_release [OF t(1)])
      fix u assume u: "fs_step 0 s u" "blk u = blk s"
      note f = fs_stepD [OF u(1)]
      have "\<forall>b \<in> set bs. sb_inodestart (sb u) + b \<notin> held u" "0 < slots u" using Cons.prems f by auto
      from Cons.IH [OF f(1) this(2,1), of "count_inodes (sb_ninodes (sb t)) b (bdata i t) info"]
      show "returns (scan_inodes bs (count_inodes (sb_ninodes (sb t)) b (bdata i t) info) u)
        (\<lambda>r t. fs_step 0 s t \<and> blk t = blk s \<and>
          r = fold (\<lambda>b. count_inodes (sb_ninodes (sb s)) b (blk s (sb_inodestart (sb s) + b))) (b # bs) info)"
        by (rule returns_mono) (use u f t fs_step_trans [OF u(1)] in auto)
    qed
  qed
qed


lemma returns_scan_bitmap:
  assumes "log_inv s" and "0 < slots s" and "\<forall>b \<in> set bs. BBLOCK b (sb s) \<notin> held s"
  shows "returns (scan_bitmap bs info s) (\<lambda>r t. fs_step 0 s t \<and> blk t = blk s \<and>
    r = fold (\<lambda>b. count_free (sb_size (sb s)) b (blk s (BBLOCK b (sb s)))) bs info)"
  using assms
proof (induction bs arbitrary: info s)
  case Nil
  then show ?case using fs_step_refl [of s 0] by simp
next
  case (Cons b bs)
  let ?b = "BBLOCK b (sb s)"
  show ?case
    unfolding scan_bitmap.simps
  proof (rule fs_bread)
    show "log_inv s" "?b \<notin> held s" "0 < slots s" using Cons.prems by auto
    fix i t assume t: "locked s t i ?b" "bdata i t = blk s ?b" "sb t = sb s" "itable t = itable s"
    show "returns (let info = count_free (sb_size (sb t)) b (bdata i t) info in
        kbind (brelse i t) (\<lambda>_ s. scan_bitmap bs info s)) (\<lambda>r t. fs_step 0 s t \<and> blk t = blk s \<and>
        r = fold (\<lambda>b. count_free (sb_size (sb s)) b (blk s (BBLOCK b (sb s)))) (b # bs) info)"
      unfolding Let_def
    proof (rule fs_release [OF t(1)])
      fix u assume u: "fs_step 0 s u" "blk u = blk s"
      note f = fs_stepD [OF u(1)]
      have "\<forall>b \<in> set bs. BBLOCK b (sb u) \<notin> held u" "0 < slots u" using Cons.prems f by auto
      from Cons.IH [OF f(1) this(2,1), of "count_free (sb_size (sb t)) b (bdata i t) info"]
      show "returns (scan_bitmap bs (count_free (sb_size (sb t)) b (bdata i t) info) u)
        (\<lambda>r t. fs_step 0 s t \<and> blk t = blk s \<and>
          r = fold (\<lambda>b. count_free (sb_size (sb s)) b (blk s (BBLOCK b (sb s)))) (b # bs) info)"
        by (rule returns_mono) (use u f t fs_step_trans [OF u(1)] in auto)
    qed
  qed
qed

lemma scan_inodes_value:
  "fold (\<lambda>b. count_inodes n b (blk s (sb_inodestart (sb s) + b))) [0..<(n + 15) div IPB] info =
    fold count_inode (map (dinode_at s) [0..<n]) info"
proof -
  have b: "count_inodes n b (blk s (sb_inodestart (sb s) + b)) = fold (\<lambda>i. count_inode (dinode_at s (16 * b + i))) [0..<min 16 (n - 16 * b)]" for b
    unfolding count_inodes_def takeWhile_upt mult.commute [of b]
    by (intro ext List.fold_cong) (auto simp: dinode_at_def IBLOCK_def add.commute)
  have "n \<le> 16 * ((n + 15) div 16)" by linarith
  then show ?thesis
    using fold_chunks [of "\<lambda>i. count_inode (dinode_at s i)" 16 n "(n + 15) div 16" info] by (simp add: b fold_map comp_def)
qed

lemma scan_bitmap_value:
  "fold (\<lambda>b. count_free n b (blk s (BBLOCK b (sb s)))) (bitmap_steps n) info =
    fold (\<lambda>b info. if block_used s b then info else info\<lparr>free_blocks := free_blocks info + 1\<rparr>) [0..<n] info"
proof -
  have b: "count_free n (8192 * k) (blk s (BBLOCK (8192 * k) (sb s))) =
      fold (\<lambda>i info. if block_used s (8192 * k + i) then info else info\<lparr>free_blocks := free_blocks info + 1\<rparr>) [0..<min 8192 (n - 8192 * k)]" for k
    unfolding count_free_def takeWhile_upt
    by (intro ext List.fold_cong) (auto simp: block_used_def BBLOCK_def)
  have "n \<le> 8192 * ((n + 8191) div 8192)" by linarith
  then show ?thesis
    using fold_chunks [of "\<lambda>b info. if block_used s b then info else info\<lparr>free_blocks := free_blocks info + 1\<rparr>" 8192 n "(n + 8191) div 8192" info]
    by (simp add: b fold_map comp_def bitmap_steps_def add.commute [of n])
qed

text \<open>
  (C24) \<^verbatim>\<open>fsinfo\<close> copies out the exact counts: the disk inodes below \<^verbatim>\<open>sb.ninodes\<close> in use, the files and
  the directories among them, and the blocks below \<^verbatim>\<open>sb.size\<close> that are free in the bitmap. It changes no block and
  returns -1 exactly when the copy to user space fails.
\<close>

theorem fsinfo_counts:
  assumes "log_inv s" and "0 < slots s" and "held s = {}" and "sb_ninodes (sb s) < 2 ^ 31" and "sb_size (sb s) < 2 ^ 31"
  shows "\<exists>t. fs_step 0 s t \<and> blk t = blk s \<and> mem t = mem s \<and> sys_fsinfo s =
    kbind (copyout (p_pagetable (myproc s)) (tf_get tf_a0 s) (fsinfo_bytes (fsinfo_of s)) t)
      (\<lambda>r u. Ok (if r < 0 then -1 else 0) u)"
proof -
  let ?n = "sb_ninodes (sb s)" and ?z = "sb_size (sb s)"
  let ?i0 = "\<lparr>total_files = 0, total_dirs = 0, total_inodes = 0, free_blocks = 0\<rparr>"
  from returns_scan_inodes [OF assms(1,2), of "[0..<(?n + 15) div 16]" ?i0] obtain i1 t
    where t: "scan_inodes [0..<(?n + 15) div 16] ?i0 s = Ok i1 t" "fs_step 0 s t" "blk t = blk s"
      "i1 = fold count_inode (map (dinode_at s) [0..<?n]) ?i0"
    using assms(3) scan_inodes_value [of ?n s ?i0] by (auto simp: returns_iff)
  note f = fs_stepD [OF t(2)]
  have "0 < slots t" using f(3) assms(2) by simp
  from returns_scan_bitmap [OF f(1) this, of "bitmap_steps ?z" i1] obtain i2 u
    where u: "scan_bitmap (bitmap_steps ?z) i1 t = Ok i2 u" "fs_step 0 t u" "blk u = blk t"
      "i2 = fold (\<lambda>b info. if block_used s b then info else info\<lparr>free_blocks := free_blocks info + 1\<rparr>) [0..<?z] i1"
    using assms(3) f(2,8) t(3) scan_bitmap_value [of ?z s i1] by (auto simp: returns_iff)
  have i2: "i2 = fsinfo_of s"
    by (simp add: u(4) t(4) fold_count_inode fold_count_free fsinfo_of_def length_filter_upt filter_map comp_def)
  have su: "fs_step 0 s u" using fs_step_trans [OF t(2) u(2)] by simp
  have "tx_ext s u" using fs_stepD(4) [OF su] .
  then have m: "mem u = mem s" "myproc u = myproc s"
    using tx_ext_fs [of s u] woken_me log_inv_bio [OF assms(1)] bio_inv_cur by metis+
  have nb: "(15 + ?n) mod 4294967296 = ?n + 15" using assms(4) by simp
  have "sys_fsinfo s = kbind (copyout (p_pagetable (myproc s)) (tf_get tf_a0 s) (fsinfo_bytes (fsinfo_of s)) u)
      (\<lambda>r u. Ok (if r < 0 then -1 else 0) u)"
    unfolding sys_fsinfo_def argaddr_def argraw_def Let_def
    using t(1) u(1) f(8) m(2) by (simp add: i2 nb if_distrib [of "\<lambda>x. Ok x _"])
  then show ?thesis using su t(3) u(3) m(1) by auto
qed


theorem fsinfo_counts_witness:
  "\<exists>t. blk t = fs_disk \<and> sys_fsinfo kern_ex =
    kbind (copyout (p_pagetable proc1) (tf_get tf_a0 kern_ex) (fsinfo_bytes (fsinfo_of kern_ex)) t)
      (\<lambda>r u. Ok (if r < 0 then -1 else 0) u)"
  using fsinfo_counts [of kern_ex] by (auto simp: kern_ex_def fs_boot_disk sb_ex_def)


end
