(* ===== verification/Syscall.thy ===== *)
theory Syscall
  imports Sysproc
begin

text \<open>
  The system call dispatcher, \<^verbatim>\<open>kernel/syscall.c\<close>. The table \<^verbatim>\<open>syscalls[]\<close> is a function of the
  number in \<^verbatim>\<open>a7\<close>; the result goes to \<^verbatim>\<open>a0\<close> of the trapframe.
\<close>

definition syscalls ::
  "int \<Rightarrow> ('z kern_state_scheme \<Rightarrow> (int, 'z kern_state_scheme) kout) option" where
  "syscalls num =
    map_of [(1, sys_fork), (2, sys_exit), (3, sys_wait), (4, sys_pipe), (5, sys_read), (6, sys_kill),
      (7, sys_exec), (8, sys_fstat), (9, sys_chdir), (10, sys_dup), (11, sys_getpid), (12, sys_sbrk),
      (13, sys_pause), (14, sys_uptime), (15, sys_open), (16, sys_write), (17, sys_mknod),
      (18, sys_unlink), (19, sys_link), (20, sys_mkdir), (21, sys_close), (22, sys_fsinfo)] num"

definition syscall :: "'z kern_state_scheme \<Rightarrow> (unit, 'z kern_state_scheme) kout" where
  "syscall s =
    (let num = sint (ucast (tf_get tf_a7 s) :: 32 word) in
     case (if num > 0 \<and> num < 23 then syscalls num else None) of
       Some f \<Rightarrow> kbind (f s) (\<lambda>r s. Ok () (tf_set tf_a0 (of_int r) s))
     | None \<Rightarrow>
         (let out = printf (lit ''%d %s: unknown sys call %d'' @ [10])
                [VInt (of_int (p_pid (myproc s))), VStr (Some (p_name (myproc s))), VInt (of_int num)] in
          Ok () (tf_set tf_a0 (- 1) (put_bytes (the out) s))))"

end
