(* ===== verification/Virtio.thy ===== *)
theory Virtio
  imports Bio
begin

text \<open>
  The disk driver, \<^verbatim>\<open>kernel/virtio_disk.c\<close>. \<open>vdisk\<close> is \<^verbatim>\<open>static struct disk\<close> together with the
  queue memory it shares with the device (the descriptor table and the two rings of
  \<^verbatim>\<open>kernel/virtio.h\<close>); an address in a descriptor is one of the four kinds the driver writes.
  \<^verbatim>\<open>virtio_disk_rw\<close> is split where it waits for the interrupt: \<open>virtio_start\<close> up to the notify,
  \<open>virtio_finish\<close> after \<^verbatim>\<open>b->disk\<close> has become 0. The device itself is a parameter.
\<close>

abbreviation (input) NUM :: nat where "NUM \<equiv> 8"

text \<open>The addresses: 0, \<^verbatim>\<open>&disk.ops[i]\<close>, \<^verbatim>\<open>b->data\<close>, \<^verbatim>\<open>&disk.info[i].status\<close>.\<close>

datatype daddr = A_null | A_req nat | A_data nat | A_status nat

record virtq_desc =
  d_addr :: daddr
  d_len :: nat
  d_flags :: nat
  d_next :: nat

record virtio_blk_req =
  r_out :: bool
  r_sector :: nat

record vdisk =
  vd_desc :: "virtq_desc list"
  avail_idx :: "16 word"
  avail_ring :: "nat list"
  used_dev_idx :: "16 word"
  used_ring :: "nat list"
  vd_free :: "bool list"
  used_idx :: "16 word"
  info_b :: "nat option list"
  info_status :: "u8 list"
  vd_ops :: "virtio_blk_req list"

section \<open>Initialisation\<close>

text \<open>
  The memory-mapped registers: \<open>R ws r\<close> is what register \<open>r\<close> reads after the writes \<open>ws\<close>. The
  result of \<open>virtio_disk_init\<close> holds the writes and the state of the driver.
\<close>

definition desc0 :: virtq_desc where
  "desc0 = \<lparr>d_addr = A_null, d_len = 0, d_flags = 0, d_next = 0\<rparr>"

definition negotiate :: "32 word \<Rightarrow> 32 word" where
  "negotiate features = fold (\<lambda>n f. f AND NOT (push_bit n 1)) [5, 7, 11, 12, 27, 29, 28] features"

definition virtio_disk_init ::
  "((nat \<times> 32 word) list \<Rightarrow> nat \<Rightarrow> 32 word) \<Rightarrow> vdisk \<Rightarrow> 'z kmem_state_scheme \<Rightarrow>
    ((nat \<times> 32 word) list \<times> vdisk, 'z kmem_state_scheme) kout" where
  "virtio_disk_init R d s =
    (if R [] 0x000 \<noteq> 0x74726976 \<or> R [] 0x004 \<noteq> 2 \<or> R [] 0x008 \<noteq> 2 \<or> R [] 0x00c \<noteq> 0x554d4551
     then Panic ''could not find virtio disk''
     else
       let ws = [(0x070, 0), (0x070, 1), (0x070, 3)];
           ws = ws @ [(0x020, negotiate (R ws 0x010)), (0x070, 11)];
           status = R ws 0x070 in
       if status AND 8 = 0 then Panic ''virtio disk FEATURES_OK unset''
       else
         let ws = ws @ [(0x030, 0)] in
         if R ws 0x044 \<noteq> 0 then Panic ''virtio disk should not be ready''
         else if R ws 0x034 = 0 then Panic ''virtio disk has no queue 0''
         else if R ws 0x034 < of_nat NUM then Panic ''virtio disk max queue too short''
         else
           kbind (kalloc s) (\<lambda>desc s.
           kbind (kalloc s) (\<lambda>avail s.
           kbind (kalloc s) (\<lambda>used s.
           if desc = 0 \<or> avail = 0 \<or> used = 0 then Panic ''virtio disk kalloc''
           else
             let m = memset (memset (memset (mem s) desc 0 4096) avail 0 4096) used 0 4096;
                 hi = (\<lambda>a :: u64. ucast (drop_bit 32 a) :: 32 word);
                 ws = ws @ [(0x038, of_nat NUM), (0x080, ucast desc), (0x084, hi desc), (0x090, ucast avail),
                   (0x094, hi avail), (0x0a0, ucast used), (0x0a4, hi used), (0x044, 1), (0x070, status OR 4)] in
             Ok (ws, d\<lparr>vd_desc := replicate NUM desc0, avail_idx := 0, avail_ring := replicate NUM 0,
                  used_dev_idx := 0, used_ring := replicate NUM 0, vd_free := replicate NUM True\<rparr>)
               (s\<lparr>mem := m\<rparr>)))))"

section \<open>Descriptors\<close>







section \<open>Requests\<close>





section \<open>The interrupt\<close>

text \<open>\<open>n\<close> is \<^verbatim>\<open>disk.used->idx - disk.used_idx\<close>, the number of turns of the loop.\<close>

fun virtio_intr_loop ::
  "nat \<Rightarrow> vdisk \<Rightarrow> 'z bio_state_scheme \<Rightarrow> (vdisk, 'z bio_state_scheme) kout" where
  "virtio_intr_loop 0 d s = Ok d s"
| "virtio_intr_loop (Suc n) d s =
    (let id = used_ring d ! unat (used_idx d mod of_nat NUM) in
     if info_status d ! id \<noteq> 0 then Panic ''virtio_disk_intr status''
     else case info_b d ! id of
       None \<Rightarrow> Panic ''kerneltrap''
     | Some b \<Rightarrow>
         virtio_intr_loop n (d\<lparr>used_idx := used_idx d + 1\<rparr>)
           (wakeup (Chan_io b) (upd_buf b (\<lambda>x. x\<lparr>b_disk := False\<rparr>) s)))"

definition virtio_disk_intr ::
  "vdisk \<Rightarrow> 'z bio_state_scheme \<Rightarrow> (vdisk, 'z bio_state_scheme) kout" where
  "virtio_disk_intr d s = virtio_intr_loop (unat (used_dev_idx d - used_idx d)) d s"

section \<open>The driver implements the contract of the disk\<close>

















section \<open>Properties\<close>








end
