(* ===== verification/Trap.thy ===== *)
theory Trap
  imports Syscall Virtio
begin

text \<open>
  Traps and interrupts, \<^verbatim>\<open>kernel/trap.c\<close> with \<^verbatim>\<open>kernel/plic.c\<close> and \<^verbatim>\<open>forkret\<close> of \<^verbatim>\<open>kernel/proc.c\<close>. The
  state adds the supervisor registers of the running hart, the driver of the disk, the
  interrupt the PLIC has pending and the addresses of the trap vectors.
\<close>

record trap_state = kern_state +
  sstatus :: u64
  sepc :: u64
  scause :: u64
  stval :: u64
  stvec :: u64
  satp :: u64
  stimecmp :: u64
  mtime :: u64
  hart :: nat
  vd :: vdisk
  plic_irq :: nat
  plic_regs :: "(u64 \<times> 32 word) list"
  k_kernelvec :: u64
  k_uservec :: u64
  k_usertrap :: u64

abbreviation (input) SSTATUS_SPP :: u64 where "SSTATUS_SPP \<equiv> 256"
abbreviation (input) SSTATUS_SPIE :: u64 where "SSTATUS_SPIE \<equiv> 32"
abbreviation (input) SSTATUS_SIE :: u64 where "SSTATUS_SIE \<equiv> 2"

definition intr_on :: "'z trap_state_scheme \<Rightarrow> 'z trap_state_scheme" where
  "intr_on s = s\<lparr>sstatus := sstatus s OR SSTATUS_SIE\<rparr>"

definition intr_off :: "'z trap_state_scheme \<Rightarrow> 'z trap_state_scheme" where
  "intr_off s = s\<lparr>sstatus := sstatus s AND NOT SSTATUS_SIE\<rparr>"

definition intr_get :: "'z trap_state_scheme \<Rightarrow> bool" where
  "intr_get s \<longleftrightarrow> sstatus s AND SSTATUS_SIE \<noteq> 0"

definition MAKE_SATP :: "u64 \<Rightarrow> u64" where
  "MAKE_SATP pagetable = push_bit 60 8 OR drop_bit 12 pagetable"

definition trapinithart :: "'z trap_state_scheme \<Rightarrow> 'z trap_state_scheme" where
  "trapinithart s = s\<lparr>stvec := k_kernelvec s\<rparr>"

text \<open>Formatted output of the kernel, straight to the UART.\<close>

definition kprintf :: "bytes \<Rightarrow> va list \<Rightarrow> 'z cons_state_scheme \<Rightarrow> 'z cons_state_scheme" where
  "kprintf fmt ap s = put_bytes (the (printf fmt ap)) s"

section \<open>The PLIC\<close>

abbreviation (input) UART0_IRQ :: nat where "UART0_IRQ \<equiv> 10"
abbreviation (input) VIRTIO0_IRQ :: nat where "VIRTIO0_IRQ \<equiv> 1"

definition plic_write :: "u64 \<Rightarrow> 32 word \<Rightarrow> 'z trap_state_scheme \<Rightarrow> 'z trap_state_scheme" where
  "plic_write off v s = s\<lparr>plic_regs := plic_regs s @ [(0x0c000000 + off, v)]\<rparr>"

definition plicinit :: "'z trap_state_scheme \<Rightarrow> 'z trap_state_scheme" where
  "plicinit s = plic_write (of_nat VIRTIO0_IRQ * 4) 1 (plic_write (of_nat UART0_IRQ * 4) 1 s)"

definition plicinithart :: "'z trap_state_scheme \<Rightarrow> 'z trap_state_scheme" where
  "plicinithart s =
    plic_write (0x201000 + of_nat (hart s) * 0x2000) 0
      (plic_write (0x2080 + of_nat (hart s) * 0x100) (push_bit UART0_IRQ 1 OR push_bit VIRTIO0_IRQ 1) s)"

text \<open>Reading the claim register takes the pending interrupt; 0 when there is none.\<close>

definition plic_claim :: "'z trap_state_scheme \<Rightarrow> nat \<times> 'z trap_state_scheme" where
  "plic_claim s = (plic_irq s, s\<lparr>plic_irq := 0\<rparr>)"

definition plic_complete :: "nat \<Rightarrow> 'z trap_state_scheme \<Rightarrow> 'z trap_state_scheme" where
  "plic_complete irq s = plic_write (0x201004 + of_nat (hart s) * 0x2000) (of_nat irq) s"

section \<open>Device interrupts\<close>

definition clockintr :: "'z trap_state_scheme \<Rightarrow> 'z trap_state_scheme" where
  "clockintr s =
    (let s = (if hart s = 0 then wakeup Chan_ticks (s\<lparr>ticks := ticks s + 1\<rparr>) else s) in
     s\<lparr>stimecmp := mtime s + 1000000\<rparr>)"

definition devintr :: "'z trap_state_scheme \<Rightarrow> (nat, 'z trap_state_scheme) kout" where
  "devintr s =
    (if scause s = 0x8000000000000009 then
       (case plic_claim s of (irq, s) \<Rightarrow>
          kbind (if irq = UART0_IRQ then Ok () (uartintr s)
                 else if irq = VIRTIO0_IRQ then
                   kbind (virtio_disk_intr (vd s) s) (\<lambda>d s. Ok () (s\<lparr>vd := d\<rparr>))
                 else if irq \<noteq> 0 then
                   Ok () (kprintf (lit ''unexpected interrupt irq=%d'' @ [10]) [VInt (of_nat irq)] s)
                 else Ok () s) (\<lambda>_ s.
          Ok 1 (if irq \<noteq> 0 then plic_complete irq s else s)))
     else if scause s = 0x8000000000000005 then Ok 2 (clockintr s)
     else Ok 0 s)"

section \<open>Traps\<close>

definition prepare_return :: "'z trap_state_scheme \<Rightarrow> 'z trap_state_scheme" where
  "prepare_return s =
    (let s = intr_off s;
         s = s\<lparr>stvec := TRAMPOLINE + (k_uservec s - k_trampoline s)\<rparr>;
         s = tf_set tf_kernel_satp (satp s) s;
         s = tf_set tf_kernel_sp (p_kstack (myproc s) + PGSIZE) s;
         s = tf_set tf_kernel_trap (k_usertrap s) s;
         s = tf_set tf_kernel_hartid (of_nat (hart s)) s;
         s = s\<lparr>sstatus := (sstatus s AND NOT SSTATUS_SPP) OR SSTATUS_SPIE\<rparr> in
     s\<lparr>sepc := tf_get tf_epc s\<rparr>)"

text \<open>The part of \<^verbatim>\<open>usertrap\<close> that handles the cause; the result is \<^verbatim>\<open>which_dev\<close>.\<close>

definition usertrap_cause :: "'z trap_state_scheme \<Rightarrow> (nat, 'z trap_state_scheme) kout" where
  "usertrap_cause s =
    (if scause s = 8 then
       kbind (if killed (cur s) s then kexit (-1) s else Ok () s) (\<lambda>_ s.
       let s = tf_set tf_epc (tf_get tf_epc s + 4) s in
       kbind (syscall (intr_on s)) (\<lambda>_ s. Ok 0 s))
     else
       kbind (devintr s) (\<lambda>which_dev s.
       if which_dev \<noteq> 0 then Ok which_dev s
       else
         kbind (if scause s = 15 \<or> scause s = 13 then vmfault (p_pagetable (myproc s)) (stval s) s
                else Ok 0 s) (\<lambda>pa s.
         if pa \<noteq> 0 then Ok 0 s
         else
           let s = kprintf (lit ''usertrap(): unexpected scause 0x%lx pid=%d'' @ [10])
                     [VInt (scause s), VInt (of_int (p_pid (myproc s)))] s;
               s = kprintf (lit ''            sepc=0x%lx stval=0x%lx'' @ [10]) [VInt (sepc s), VInt (stval s)] s in
           Ok 0 (setkilled (cur s) s))))"

definition usertrap :: "'z trap_state_scheme \<Rightarrow> (u64, 'z trap_state_scheme) kout" where
  "usertrap s =
    (if sstatus s AND SSTATUS_SPP \<noteq> 0 then Panic ''usertrap: not from user mode''
     else
       let s = s\<lparr>stvec := k_kernelvec s\<rparr>; s = tf_set tf_epc (sepc s) s in
       kbind (usertrap_cause s) (\<lambda>which_dev s.
       kbind (if killed (cur s) s then kexit (-1) s else Ok () s) (\<lambda>_ s.
       kbind (if which_dev = 2 then yield s else Ok () s) (\<lambda>_ s.
       let s = prepare_return s in
       Ok (MAKE_SATP (p_pagetable (myproc s))) s))))"

definition kerneltrap :: "'z trap_state_scheme \<Rightarrow> (unit, 'z trap_state_scheme) kout" where
  "kerneltrap s =
    (let epc = sepc s; status = sstatus s in
     if status AND SSTATUS_SPP = 0 then Panic ''kerneltrap: not from supervisor mode''
     else if intr_get s then Panic ''kerneltrap: interrupts enabled''
     else
       kbind (devintr s) (\<lambda>which_dev s.
       if which_dev = 0 then Panic ''kerneltrap''
       else
         kbind (if which_dev = 2 \<and> cur s \<noteq> NPROC then yield s else Ok () s) (\<lambda>_ s.
         Ok () (s\<lparr>sepc := epc, sstatus := status\<rparr>))))"

text \<open>
  The first run of a process. In the very first one the file system is initialised and
  \<^verbatim>\<open>/init\<close> is loaded. The result is the argument of \<^verbatim>\<open>userret\<close>.
\<close>

definition forkret :: "'z trap_state_scheme \<Rightarrow> (u64, 'z trap_state_scheme) kout" where
  "forkret s =
    kbind (if forkret_first s then
             kbind (fsinit ROOTDEV s) (\<lambda>_ s.
             kbind (kexec (lit ''/init'') [lit ''/init''] (s\<lparr>forkret_first := False\<rparr>)) (\<lambda>r s.
             let s = tf_set tf_a0 (of_int r) s in
             if tf_get tf_a0 s = - 1 then Panic ''exec'' else Ok () s))
           else Ok () s) (\<lambda>_ s.
    let s = prepare_return s in
    Ok (MAKE_SATP (p_pagetable (myproc s))) s)"

end
