(* ===== verification/Boot.thy ===== *)
theory Boot
  imports Trap
begin

text \<open>
  Booting: \<^verbatim>\<open>start\<close> and \<^verbatim>\<open>timerinit\<close> of \<^verbatim>\<open>kernel/start.c\<close> in machine mode, \<^verbatim>\<open>main\<close> of \<^verbatim>\<open>kernel/main.c\<close> in
  supervisor mode. \<open>k_main\<close> is the address of \<^verbatim>\<open>main\<close>; \<open>mode\<close> is the privilege after \<^verbatim>\<open>mret\<close>.
\<close>

section \<open>start.c\<close>

datatype privilege = Machine | Supervisor | User

record mcsrs =
  mstatus :: u64
  mepc :: u64
  msatp :: u64
  medeleg :: u64
  mideleg :: u64
  sie :: u64
  pmpaddr0 :: u64
  pmpcfg0 :: u64
  mie :: u64
  menvcfg :: u64
  mcounteren :: u64
  mstimecmp :: u64
  rdtime :: u64
  mhartid :: u64
  tp :: u64
  pc :: u64
  mode :: privilege

definition timerinit :: "mcsrs \<Rightarrow> mcsrs" where
  "timerinit m =
    m\<lparr>mie := mie m OR push_bit 5 1, menvcfg := menvcfg m OR push_bit 63 1,
      mcounteren := mcounteren m OR 2, mstimecmp := rdtime m + 1000000\<rparr>"

text \<open>\<^verbatim>\<open>mret\<close>: the mode is the field \<^verbatim>\<open>MPP\<close> of \<^verbatim>\<open>mstatus\<close>, the next instruction is at \<^verbatim>\<open>mepc\<close>.\<close>

definition mret :: "mcsrs \<Rightarrow> mcsrs" where
  "mret m =
    (let mpp = drop_bit 11 (mstatus m) AND 3 in
     m\<lparr>pc := mepc m, mode := (if mpp = 3 then Machine else if mpp = 1 then Supervisor else User)\<rparr>)"

definition start :: "u64 \<Rightarrow> mcsrs \<Rightarrow> mcsrs" where
  "start k_main m =
    (let x = mstatus m AND NOT (push_bit 11 3);
         x = x OR push_bit 11 1;
         m = m\<lparr>mstatus := x, mepc := k_main, msatp := 0, medeleg := 0xffff, mideleg := 0xffff\<rparr>;
         m = m\<lparr>sie := sie m OR push_bit 9 1 OR push_bit 5 1, pmpaddr0 := 0x3fffffffffffff, pmpcfg0 := 0xf\<rparr>;
         m = timerinit m;
         m = m\<lparr>tp := mhartid m\<rparr> in
     mret m)"

section \<open>main.c\<close>

definition kvminithart :: "'z trap_state_scheme \<Rightarrow> 'z trap_state_scheme" where
  "kvminithart s = s\<lparr>satp := MAKE_SATP (kernel_pagetable s)\<rparr>"

definition kvminit :: "u64 \<Rightarrow> 'z kern_state_scheme \<Rightarrow> (unit, 'z kern_state_scheme) kout" where
  "kvminit etext s =
    kbind (kvmmake etext (k_trampoline s) s) (\<lambda>pt s. Ok () (s\<lparr>kernel_pagetable := pt\<rparr>))"

text \<open>
  \<^verbatim>\<open>main\<close> up to the call of \<^verbatim>\<open>scheduler\<close>; \<open>R\<close> are the registers of the disk controller. A hart
  other than 0 runs once \<open>started\<close>, which the first result says, is set.
\<close>

definition main ::
  "u64 \<Rightarrow> ((nat \<times> 32 word) list \<Rightarrow> nat \<Rightarrow> 32 word) \<Rightarrow> 'z trap_state_scheme \<Rightarrow> (bool, 'z trap_state_scheme) kout" where
  "main etext R s =
    (if hart s = 0 then
       let s = consoleinit s;
           s = kprintf [10] [] s;
           s = kprintf (lit ''xv6 kernel is booting'' @ [10]) [] s;
           s = kprintf [10] [] s in
       kbind (kinit s) (\<lambda>_ s.
       kbind (kvminit etext s) (\<lambda>_ s.
       let s = kvminithart s;
           s = procinit s;
           s = trapinithart s;
           s = plicinit s;
           s = plicinithart s;
           s = binit s;
           s = iinit s in
       kbind (virtio_disk_init R (vd s) s) (\<lambda>(_, d) s.
       kbind (userinit (s\<lparr>vd := d\<rparr>)) (\<lambda>_ s.
       Ok True s))))
     else
       let s = kprintf (lit ''hart %d starting'' @ [10]) [VInt (of_nat (hart s))] s;
           s = kvminithart s;
           s = trapinithart s in
       Ok False (plicinithart s))"

end
