(* ===== verification/Mkfs.thy ===== *)
theory Mkfs
  imports Fs_Dir Printf
begin

text \<open>
  The program that builds a file system image, \<^verbatim>\<open>mkfs/mkfs.c\<close>. The image file is the list of its
  blocks; the files to copy are what \<^verbatim>\<open>read\<close> delivers of them in pieces of at most \<^verbatim>\<open>BSIZE\<close> bytes. The program
  runs on a little-endian host, where \<^verbatim>\<open>xint\<close> and \<^verbatim>\<open>xshort\<close> are the identity, and its writes to the image
  succeed. A failed \<^verbatim>\<open>assert\<close> and \<^verbatim>\<open>die\<close> are \<open>Die\<close>.
\<close>

section \<open>The program\<close>

abbreviation (input) NINODES :: nat where "NINODES \<equiv> 200"

definition nbitmap :: nat where
  "nbitmap = FSSIZE div BPB + 1"

definition ninodeblocks :: nat where
  "ninodeblocks = NINODES div IPB + 1"

definition nlog :: nat where
  "nlog = LOGBLOCKS + 1"

definition nmeta :: nat where
  "nmeta = 2 + nlog + ninodeblocks + nbitmap"

definition nblocks :: nat where
  "nblocks = FSSIZE - nmeta"

record mkfs_state =
  image :: "bytes list"
  freeinode :: nat
  freeblock :: nat

datatype 'a mk = Done 'a mkfs_state | Die

fun mbind :: "'a mk \<Rightarrow> ('a \<Rightarrow> mkfs_state \<Rightarrow> 'b mk) \<Rightarrow> 'b mk" where
  "mbind (Done x s) f = f x s"
| "mbind Die f = Die"

definition assert_that :: "bool \<Rightarrow> mkfs_state \<Rightarrow> unit mk" where
  "assert_that b s = (if b then Done () s else Die)"

text \<open>The bytes of the number, lowest first, read back as the host does.\<close>

definition xshort :: "nat \<Rightarrow> nat" where
  "xshort x = le_val [of_nat x, of_nat (drop_bit 8 x)]"

definition xint :: "nat \<Rightarrow> nat" where
  "xint x = le_val [of_nat x, of_nat (drop_bit 8 x), of_nat (drop_bit 16 x), of_nat (drop_bit 24 x)]"

definition mkfs_sb :: superblock where
  "mkfs_sb = \<lparr>sb_magic = FSMAGIC, sb_size = xint FSSIZE, sb_nblocks = xint nblocks, sb_ninodes = xint NINODES,
    sb_nlog = xint nlog, sb_logstart = xint 2, sb_inodestart = xint (2 + nlog),
    sb_bmapstart = xint (2 + nlog + ninodeblocks)\<rparr>"

definition sb_bytes :: "superblock \<Rightarrow> bytes" where
  "sb_bytes S = concat (map (le_bytes 4) [sb_magic S, sb_size S, sb_nblocks S, sb_ninodes S, sb_nlog S,
    sb_logstart S, sb_inodestart S, sb_bmapstart S])"

text \<open>Writing behind the end of the image extends it; reading there fails.\<close>

definition wsect :: "nat \<Rightarrow> bytes \<Rightarrow> mkfs_state \<Rightarrow> mkfs_state" where
  "wsect sec buf s =
    s\<lparr>image := (if sec < length (image s) then (image s)[sec := buf]
       else image s @ replicate (sec - length (image s)) zero_block @ [buf])\<rparr>"

definition rsect :: "nat \<Rightarrow> mkfs_state \<Rightarrow> bytes mk" where
  "rsect sec s = (if sec < length (image s) then Done (image s ! sec) s else Die)"

definition winode :: "nat \<Rightarrow> dinode \<Rightarrow> mkfs_state \<Rightarrow> unit mk" where
  "winode inum ip s =
    (let bn = IBLOCK inum mkfs_sb in
     mbind (rsect bn s) (\<lambda>buf s. Done () (wsect bn (put_dinode (inum mod IPB) ip buf) s)))"

definition rinode :: "nat \<Rightarrow> mkfs_state \<Rightarrow> dinode mk" where
  "rinode inum s =
    (let bn = IBLOCK inum mkfs_sb in
     mbind (rsect bn s) (\<lambda>buf s. Done (get_dinode (inum mod IPB) buf) s))"

definition mk_ialloc :: "int \<Rightarrow> mkfs_state \<Rightarrow> nat mk" where
  "mk_ialloc type s =
    (let inum = freeinode s; s = s\<lparr>freeinode := inum + 1\<rparr> in
     mbind (winode inum (dinode0\<lparr>d_type := int (xshort (nat type)), d_nlink := int (xshort 1), d_size := xint 0\<rparr>) s) (\<lambda>_ s. Done inum s))"

definition mk_balloc :: "nat \<Rightarrow> mkfs_state \<Rightarrow> unit mk" where
  "mk_balloc used s =
    mbind (assert_that (used < BPB) s) (\<lambda>_ s.
    Done () (wsect (sb_bmapstart mkfs_sb) (fold bit_mark [0..<used] zero_block) s))"

text \<open>The block of the file for byte \<open>off\<close>, given one when it has none: the body of \<^verbatim>\<open>iappend\<close> up to \<^verbatim>\<open>x\<close>.\<close>

definition append_block :: "dinode \<Rightarrow> nat \<Rightarrow> mkfs_state \<Rightarrow> (nat \<times> dinode) mk" where
  "append_block din fbn s =
    (if fbn < NDIRECT then
       let (din, s) = (if xint (d_addrs din ! fbn) = 0
             then (din\<lparr>d_addrs := (d_addrs din)[fbn := xint (freeblock s)]\<rparr>, s\<lparr>freeblock := freeblock s + 1\<rparr>)
             else (din, s)) in
       Done (xint (d_addrs din ! fbn), din) s
     else
       let (din, s) = (if xint (d_addrs din ! NDIRECT) = 0
             then (din\<lparr>d_addrs := (d_addrs din)[NDIRECT := xint (freeblock s)]\<rparr>, s\<lparr>freeblock := freeblock s + 1\<rparr>)
             else (din, s)) in
       mbind (rsect (xint (d_addrs din ! NDIRECT)) s) (\<lambda>indirect s.
       let (indirect, s) = (if get32 (fbn - NDIRECT) indirect = 0
             then let indirect = put32 (fbn - NDIRECT) (xint (freeblock s)) indirect; s = s\<lparr>freeblock := freeblock s + 1\<rparr> in
               (indirect, wsect (xint (d_addrs din ! NDIRECT)) indirect s)
             else (indirect, s)) in
       Done (xint (get32 (fbn - NDIRECT) indirect), din) s))"

function iappend_loop :: "dinode \<Rightarrow> nat \<Rightarrow> bytes \<Rightarrow> mkfs_state \<Rightarrow> (dinode \<times> nat) mk" where
  "iappend_loop din off p s =
    (if p = [] then Done (din, off) s
     else
       let fbn = off div BSIZE in
       mbind (assert_that (fbn < MAXFILE) s) (\<lambda>_ s.
       mbind (append_block din fbn s) (\<lambda>r s.
       let x = fst r; din = snd r; n1 = min (length p) ((fbn + 1) * BSIZE - off) in
       mbind (rsect x s) (\<lambda>buf s.
       iappend_loop din (off + n1) (drop n1 p) (wsect x (put_at (off - fbn * BSIZE) (take n1 p) buf) s)))))"
  by pat_completeness auto
termination
proof (relation "measure (\<lambda>(din, off, p, s). length p)")
  fix off :: nat and p :: bytes and fbn n1 assume "p \<noteq> []" "fbn = off div BSIZE" "n1 = min (length p) ((fbn + 1) * BSIZE - off)"
  moreover have "off < (off div BSIZE + 1) * BSIZE" using div_mult_mod_eq [of off 1024] mod_less_divisor [of 1024 off] by (simp add: algebra_simps)
  ultimately have "length (drop n1 p) < length p" by simp
  then show "((d, off + n1, drop n1 p, t), din, off, p, s) \<in> measure (\<lambda>(din, off, p, s). length p)" for d t din s by simp
qed simp

declare iappend_loop.simps [simp del]

definition iappend :: "nat \<Rightarrow> bytes \<Rightarrow> mkfs_state \<Rightarrow> unit mk" where
  "iappend inum p s =
    mbind (rinode inum s) (\<lambda>din s.
    mbind (iappend_loop din (xint (d_size din)) p s) (\<lambda>r s.
    winode inum ((fst r)\<lparr>d_size := xint (snd r)\<rparr>) s))"

fun append_all :: "nat \<Rightarrow> bytes list \<Rightarrow> mkfs_state \<Rightarrow> unit mk" where
  "append_all inum [] s = Done () s"
| "append_all inum (buf # chunks) s = mbind (iappend inum buf s) (\<lambda>_ s. append_all inum chunks s)"

text \<open>The name in the image: without \<^verbatim>\<open>user/\<close> in front and without a leading \<^verbatim>\<open>_\<close>.\<close>

definition base_name :: "bytes \<Rightarrow> bytes" where
  "base_name arg = (if strncmp arg (lit ''user/'') 5 = 0 then drop 5 arg else arg)"

definition short_name :: "bytes \<Rightarrow> bytes" where
  "short_name name = (if chd name = 95 then tl name else name)"

text \<open>One turn of the loop over the arguments; \<open>host\<close> gives the pieces \<^verbatim>\<open>read\<close> delivers of a file, if it can be opened.\<close>

definition add_file :: "(bytes \<Rightarrow> bytes list option) \<Rightarrow> nat \<Rightarrow> bytes \<Rightarrow> mkfs_state \<Rightarrow> unit mk" where
  "add_file host rootino arg s =
    (let shortname = base_name arg in
     mbind (assert_that (slash \<notin> set shortname) s) (\<lambda>_ s.
     case host arg of
       None \<Rightarrow> Die
     | Some chunks \<Rightarrow>
         let shortname = short_name shortname in
         mbind (assert_that (length shortname \<le> DIRSIZ) s) (\<lambda>_ s.
         mbind (mk_ialloc T_FILE s) (\<lambda>inum s.
         mbind (iappend rootino (dirent_bytes \<lparr>de_inum = xshort inum, de_name = strncpy shortname DIRSIZ\<rparr>) s) (\<lambda>_ s.
         append_all inum chunks s)))))"

fun add_files :: "(bytes \<Rightarrow> bytes list option) \<Rightarrow> nat \<Rightarrow> bytes list \<Rightarrow> mkfs_state \<Rightarrow> unit mk" where
  "add_files host rootino [] s = Done () s"
| "add_files host rootino (arg # args) s = mbind (add_file host rootino arg s) (\<lambda>_ s. add_files host rootino args s)"

text \<open>\<open>create\<close> says whether the image, \<^verbatim>\<open>argv[1]\<close>, can be opened; the files follow it.\<close>

definition mkfs_main :: "(bytes \<Rightarrow> bool) \<Rightarrow> (bytes \<Rightarrow> bytes list option) \<Rightarrow> bytes list \<Rightarrow> unit mk" where
  "mkfs_main create host argv =
    (if length argv < 2 then Die
     else if \<not> create (argv ! 1) then Die
     else
       let s = \<lparr>image = [], freeinode = 1, freeblock = nmeta\<rparr>;
           s = fold (\<lambda>i. wsect i zero_block) [0..<FSSIZE] s;
           s = wsect 1 (put_at 0 (sb_bytes mkfs_sb) zero_block) s in
       mbind (mk_ialloc T_DIR s) (\<lambda>rootino s.
       mbind (assert_that (rootino = ROOTINO) s) (\<lambda>_ s.
       mbind (iappend rootino (dirent_bytes \<lparr>de_inum = xshort rootino, de_name = strncpy (lit ''.'') DIRSIZ\<rparr>) s) (\<lambda>_ s.
       mbind (iappend rootino (dirent_bytes \<lparr>de_inum = xshort rootino, de_name = strncpy (lit ''..'') DIRSIZ\<rparr>) s) (\<lambda>_ s.
       mbind (add_files host rootino (drop 2 argv) s) (\<lambda>_ s.
       mbind (rinode rootino s) (\<lambda>din s.
       let off = xint (d_size din); off = (off div BSIZE + 1) * BSIZE in
       mbind (winode rootino (din\<lparr>d_size := xint off\<rparr>) s) (\<lambda>_ s.
       mk_balloc (freeblock s) s))))))))"

end
