(* ===== verification/Mkfs_Image.thy ===== *)
theory Mkfs_Image
  imports Mkfs
begin

text \<open>
  The image that \<^verbatim>\<open>mkfs\<close> builds is a file system for the kernel. \<open>holds B L s\<close> says that the image has the files of the
  list \<open>L\<close> in the inodes from 1 on, with the superblock in place and the blocks behind \<^verbatim>\<open>freeblock\<close> still zero; a file's
  bytes are read with \<open>fblk\<close> and \<open>fbyte\<close> of \<open>Fs_Map\<close>, the definitions that describe \<^verbatim>\<open>bmap\<close> of the kernel.
  \<^verbatim>\<open>ialloc\<close> adds an empty file, \<^verbatim>\<open>iappend\<close> appends to one and keeps the others.
\<close>

section \<open>Byte order\<close>

lemma xint_id: "x < 2 ^ 32 \<Longrightarrow> xint x = x"
proof -
  assume x: "x < 2 ^ 32"
  have "xint x = le_val (le_bytes (Suc (Suc (Suc (Suc 0)))) x)"
    by (simp add: xint_def drop_bit_eq_div div_mult2_eq [symmetric])
  then show ?thesis using x unfolding le_val_bytes by simp
qed

lemma xint_0 [simp]: "xint 0 = 0"
  by (simp add: xint_id)

lemma xshort_id: "x < 2 ^ 16 \<Longrightarrow> xshort x = x"
proof -
  assume x: "x < 2 ^ 16"
  have "xshort x = le_val (le_bytes (Suc (Suc 0)) x)"
    by (simp add: xshort_def drop_bit_eq_div)
  then show ?thesis using x unfolding le_val_bytes by simp
qed

lemma mkfs_sb_eq: "mkfs_sb = sb_ex" "nmeta = 47"
  by (simp_all add: mkfs_sb_def sb_ex_def xint_id nblocks_def nmeta_def nlog_def ninodeblocks_def nbitmap_def LOGBLOCKS_def)

lemma IBLOCK_mkfs: "IBLOCK j mkfs_sb = j div 16 + 33" "sb_bmapstart mkfs_sb = 46"
  by (simp_all add: IBLOCK_def mkfs_sb_eq sb_ex_def)

section \<open>The contents of an image\<close>

text \<open>The block a reader sees: zeros behind the end of the image.\<close>

definition vw :: "mkfs_state \<Rightarrow> nat \<Rightarrow> bytes" where
  "vw s b = (if b < length (image s) then image s ! b else zero_block)"

lemma vw_wsect [simp]: "vw (wsect b d s) = (vw s)(b := d)"
  by (auto simp: vw_def wsect_def fun_eq_iff nth_append nth_list_update nth_Cons')

lemma wsect_fields [simp]:
  "freeblock (wsect b d s) = freeblock s" "freeinode (wsect b d s) = freeinode s"
  "b < length (image s) \<Longrightarrow> length (image (wsect b d s)) = length (image s)"
  by (simp_all add: wsect_def)

lemma vw_counters [simp]: "vw (s\<lparr>freeblock := n\<rparr>) = vw s" "vw (s\<lparr>freeinode := m\<rparr>) = vw s"
  by (simp_all add: vw_def fun_eq_iff)

lemma rsect_Done: "rsect b s = Done d t \<longleftrightarrow> b < length (image s) \<and> d = vw s b \<and> t = s"
  by (auto simp: rsect_def vw_def)

lemma mbind_Done: "mbind m f = Done x t \<longleftrightarrow> (\<exists>y u. m = Done y u \<and> f y u = Done x t)"
  by (cases m) auto

lemma assert_Done: "assert_that b s = Done x t \<longleftrightarrow> b \<and> t = s"
  by (auto simp: assert_that_def)

text \<open>A file with the addresses \<open>a\<close> and the contents \<open>c\<close>, whose blocks satisfy \<open>U\<close>; it reads as zeros behind its end.\<close>

definition fcont :: "(nat \<Rightarrow> bool) \<Rightarrow> (nat \<Rightarrow> bytes) \<Rightarrow> nat list \<Rightarrow> bytes \<Rightarrow> bool" where
  "fcont U v a c \<longleftrightarrow> imap_ok U v a \<and> length c \<le> MAXFILE * BSIZE \<and>
    (\<forall>i<MAXFILE * BSIZE. fbyte v a i = (if i < length c then c ! i else 0))"

text \<open>The image is complete, and the blocks from \<^verbatim>\<open>freeblock\<close> on are zeros.\<close>

definition img_ok :: "mkfs_state \<Rightarrow> bool" where
  "img_ok s \<longleftrightarrow> length (image s) = FSSIZE \<and> (\<forall>b. length (vw s b) = BSIZE) \<and> nmeta \<le> freeblock s \<and>
    (\<forall>b\<ge>freeblock s. vw s b = zero_block)"

lemma fcont_cong:
  assumes "fcont U v a c" and "\<And>b. U b \<Longrightarrow> v' b = v b"
  shows "fcont U v' a c"
  using assms imap_ok_cong(1,3) [of U v a v' U] by (simp add: fcont_def)

text \<open>Writing a block of a file.\<close>

lemma fbyte_write:
  assumes "imap_ok U v a" and "n < 268" and "fblk v a n = x" and "x \<noteq> 0"
  shows "imap_ok U (v(x := d)) a" and "i < 268 * 1024 \<Longrightarrow> fbyte (v(x := d)) a i = (if i div 1024 = n then d ! (i mod 1024) else fbyte v a i)"
proof -
  have x12: "x \<noteq> a ! 12" using imap_okD(4) [OF assms(1,2)] assms(3,4) by simp
  then have f: "fblk (v(x := d)) a m = fblk v a m" for m by (intro fblk_cong) auto
  then show "imap_ok U (v(x := d)) a" using assms(1) unfolding imap_ok_def f by simp
  assume "i < 268 * 1024"
  then have k: "i div 1024 < 268" by (simp add: less_mult_imp_div_less)
  then show "fbyte (v(x := d)) a i = (if i div 1024 = n then d ! (i mod 1024) else fbyte v a i)"
  proof (cases "i div 1024 = n")
    case False
    then have "fblk v a (i div 1024) \<noteq> x" using imap_okD(5) [OF assms(1) k assms(2)] assms(3,4) by auto
    then show ?thesis using False unfolding fbyte_def f Let_def by simp
  qed (use assms(3,4) in \<open>simp add: fbyte_def f\<close>)
qed

text \<open>Giving the file a block.\<close>

definition grown :: "(nat \<Rightarrow> bool) \<Rightarrow> mkfs_state \<Rightarrow> mkfs_state \<Rightarrow> nat \<Rightarrow> bool" where
  "grown U s t = (\<lambda>b. U b \<or> freeblock s \<le> b \<and> b < freeblock t)"

definition gave :: "(nat \<Rightarrow> bool) \<Rightarrow> dinode \<Rightarrow> mkfs_state \<Rightarrow> dinode \<Rightarrow> mkfs_state \<Rightarrow> bool" where
  "gave U din s din' t \<longleftrightarrow> img_ok t \<and> dinode_ok din' \<and> din' = din\<lparr>d_addrs := d_addrs din'\<rparr> \<and> freeinode t = freeinode s \<and>
    freeblock s \<le> freeblock t \<and> imap_ok (grown U s t) (vw t) (d_addrs din') \<and>
    (\<forall>i<MAXFILE * BSIZE. fbyte (vw t) (d_addrs din') i = fbyte (vw s) (d_addrs din) i) \<and>
    (\<forall>b. \<not> grown U s t b \<longrightarrow> vw t b = vw s b)"

definition owns :: "(nat \<Rightarrow> bool) \<Rightarrow> dinode \<Rightarrow> mkfs_state \<Rightarrow> bool" where
  "owns U din s \<longleftrightarrow> img_ok s \<and> dinode_ok din \<and> imap_ok U (vw s) (d_addrs din) \<and> freeblock s < 2 ^ 31 \<and>
    (\<forall>b. U b \<longrightarrow> nmeta \<le> b \<and> b < freeblock s)"

lemma grown_trans: "freeblock s \<le> freeblock t \<Longrightarrow> freeblock t \<le> freeblock u \<Longrightarrow> grown (grown U s t) t u = grown U s u"
  by (auto simp: grown_def fun_eq_iff)

lemma grown_refl [simp]: "grown U s s = U"
  by (auto simp: grown_def fun_eq_iff)

lemma gave_refl: "owns U din s \<Longrightarrow> gave U din s din s"
  by (simp add: gave_def owns_def)

lemma gave_trans:
  assumes "gave U din s din' t" and "gave (grown U s t) din' t din'' u"
  shows "gave U din s din'' u"
proof -
  have g: "grown (grown U s t) t u = grown U s u" using assms by (intro grown_trans) (simp_all add: gave_def)
  have "din'' = din\<lparr>d_addrs := d_addrs din''\<rparr>"
    using assms by (metis (no_types, lifting) dinode.surjective dinode.update_convs(6) gave_def)
  moreover have "vw u b = vw s b" if "\<not> grown U s u b" for b
    using assms that g by (metis gave_def grown_def)
  ultimately show ?thesis using assms g by (simp add: gave_def)
qed

lemma owns_gave: "owns U din s \<Longrightarrow> gave U din s din' t \<Longrightarrow> freeblock t < 2 ^ 31 \<Longrightarrow> owns (grown U s t) din' t"
  by (auto simp: owns_def gave_def grown_def img_ok_def)

lemma owns_fresh:
  assumes "owns U din s"
  shows "freeblock s \<noteq> 0" "\<not> U (freeblock s)" "vw s (freeblock s) = replicate 1024 0" "freeblock s < 2 ^ 32" "xint (freeblock s) = freeblock s"
  using assms xint_id [of "freeblock s"] by (auto simp: owns_def img_ok_def nmeta_def zero_block_def)

lemma owns_addrs:
  assumes "owns U din s"
  shows "n < 13 \<Longrightarrow> xint (d_addrs din ! n) = d_addrs din ! n" "length (d_addrs din) = 13"
  using assms xint_id [of "d_addrs din ! n"] by (auto simp: owns_def dinode_ok_def)

lemma dinode_ok_addr: "dinode_ok din \<Longrightarrow> b < 2 ^ 32 \<Longrightarrow> dinode_ok (din\<lparr>d_addrs := (d_addrs din)[n := b]\<rparr>)"
  using set_update_subset_insert [of "d_addrs din" n b] by (auto simp: dinode_ok_def)

lemma img_ok_next: "img_ok s \<Longrightarrow> img_ok (s\<lparr>freeblock := freeblock s + 1\<rparr>)"
  by (simp add: img_ok_def)

lemma grown_one: "grown U s (t\<lparr>freeblock := Suc (freeblock s)\<rparr>) = (\<lambda>b. U b \<or> b = freeblock s)"
  by (auto simp: grown_def fun_eq_iff)

lemma gave_direct:
  assumes o: "owns U din s" and n: "n < 12" "d_addrs din ! n = 0"
  shows "gave U din s (din\<lparr>d_addrs := (d_addrs din)[n := freeblock s]\<rparr>) (s\<lparr>freeblock := freeblock s + 1\<rparr>)"
    and "fblk (vw s) ((d_addrs din)[n := freeblock s]) n = freeblock s"
proof -
  have m: "imap_ok U (vw s) (d_addrs din)" using o by (simp add: owns_def)
  note a = imap_add_direct [OF m n owns_fresh(1,2) [OF o] refl owns_fresh(3) [OF o]]
  show "fblk (vw s) ((d_addrs din)[n := freeblock s]) n = freeblock s" using a(2) by simp
  show "gave U din s (din\<lparr>d_addrs := (d_addrs din)[n := freeblock s]\<rparr>) (s\<lparr>freeblock := freeblock s + 1\<rparr>)"
    using a(1,3) o owns_fresh(4) [OF o] dinode_ok_addr [of din "freeblock s" n] img_ok_next [of s]
    by (simp add: gave_def grown_one owns_def)
qed

lemma gave_indirect:
  assumes o: "owns U din s" and z: "d_addrs din ! 12 = 0"
  shows "gave U din s (din\<lparr>d_addrs := (d_addrs din)[12 := freeblock s]\<rparr>) (s\<lparr>freeblock := freeblock s + 1\<rparr>)"
    and "fblk (vw s) ((d_addrs din)[12 := freeblock s]) n = fblk (vw s) (d_addrs din) n"
proof -
  have m: "imap_ok U (vw s) (d_addrs din)" using o by (simp add: owns_def)
  note a = imap_add_indirect [OF m z owns_fresh(1,2) [OF o] refl owns_fresh(3) [OF o]]
  show "fblk (vw s) ((d_addrs din)[12 := freeblock s]) n = fblk (vw s) (d_addrs din) n" using a(2) by simp
  show "gave U din s (din\<lparr>d_addrs := (d_addrs din)[12 := freeblock s]\<rparr>) (s\<lparr>freeblock := freeblock s + 1\<rparr>)"
    using a(1,3) o owns_fresh(4) [OF o] dinode_ok_addr [of din "freeblock s" 12] img_ok_next [of s]
    by (simp add: gave_def grown_one owns_def)
qed

lemma gave_entry:
  fixes din s n
  defines "i \<equiv> d_addrs din ! 12" and "fb \<equiv> freeblock s"
  assumes o: "owns U din s" and n: "12 \<le> n" "n < 268" and z: "i \<noteq> 0" "fblk (vw s) (d_addrs din) n = 0" and i: "i < length (image s)"
  shows "gave U din s din (wsect i (put32 (n - 12) fb (vw s i)) (s\<lparr>freeblock := fb + 1\<rparr>))"
    and "fblk ((vw s)(i := put32 (n - 12) fb (vw s i))) (d_addrs din) n = fb"
proof -
  let ?v = "(vw s)(i := put32 (n - 12) fb (vw s i))"
  have m: "imap_ok U (vw s) (d_addrs din)" and ok: "img_ok s" "dinode_ok din" using o by (simp_all add: owns_def)
  have ui: "U i" "i \<noteq> fb" using imap_okD(2) [OF m] z(1) owns_fresh(2) [OF o] by (auto simp: i_def fb_def)
  have len: "length (vw s i) = 1024" using ok by (simp add: img_ok_def)
  note f = owns_fresh [OF o, folded fb_def]
  have a: "imap_ok (\<lambda>c. U c \<or> c = fb) ?v (d_addrs din)" "fblk ?v (d_addrs din) n = fb"
      "j < 268 * 1024 \<Longrightarrow> fbyte ?v (d_addrs din) j = fbyte (vw s) (d_addrs din) j" for j
    using imap_add_entry [OF m n z(1) [unfolded i_def] z(2) f(1,2,4), of ?v] ui f(3) len n by (auto simp: i_def)
  show "fblk ?v (d_addrs din) n = fb" by (rule a(2))
  have "img_ok (wsect i (put32 (n - 12) fb (vw s i)) (s\<lparr>freeblock := fb + 1\<rparr>))"
    using ok(1) i len n o ui by (auto simp: img_ok_def fb_def put32_def owns_def)
  moreover have "grown U s (wsect i (put32 (n - 12) fb (vw s i)) (s\<lparr>freeblock := fb + 1\<rparr>)) = (\<lambda>c. U c \<or> c = fb)"
    by (auto simp: grown_def fb_def fun_eq_iff)
  ultimately show "gave U din s din (wsect i (put32 (n - 12) fb (vw s i)) (s\<lparr>freeblock := fb + 1\<rparr>))"
    using a ok(2) ui by (auto simp: gave_def fb_def)
qed

text \<open>The block is there already, or it is the last one allocated.\<close>

lemma append_entry_ok:
  assumes o: "owns U din s" and n: "12 \<le> n" "n < 268" and z: "d_addrs din ! 12 \<noteq> 0" and i: "d_addrs din ! 12 < length (image s)"
    and run: "(let (indirect, s) = (if get32 (n - 12) (vw s (d_addrs din ! 12)) = 0
             then let indirect = put32 (n - 12) (xint (freeblock s)) (vw s (d_addrs din ! 12)); s = s\<lparr>freeblock := freeblock s + 1\<rparr> in
               (indirect, wsect (d_addrs din ! 12) indirect s)
             else (vw s (d_addrs din ! 12), s)) in
       Done (xint (get32 (n - 12) indirect), din) s) = Done (x, din') t"
  shows "din' = din" and "gave U din s din t" and "fblk (vw t) (d_addrs din) n = x" and "x \<noteq> 0"
    and "t = s \<or> Suc x = freeblock t \<and> freeblock t = Suc (freeblock s)"
proof -
  let ?e = "get32 (n - 12) (vw s (d_addrs din ! 12))"
  have f: "fblk (vw s) (d_addrs din) n = ?e" using z n by (simp add: fblk_def)
  have len: "length (vw s (d_addrs din ! 12)) = 1024" using o by (simp add: owns_def img_ok_def)
  have e: "xint ?e = ?e" using get32_bound [of "n - 12" "vw s (d_addrs din ! 12)"] len n by (intro xint_id) simp
  show d: "din' = din" using run by (auto simp: Let_def split: if_splits prod.splits)
  have "gave U din s din t \<and> fblk (vw t) (d_addrs din) n = x \<and> x \<noteq> 0 \<and> (t = s \<or> Suc x = freeblock t \<and> freeblock t = Suc (freeblock s))"
  proof (cases "?e = 0")
    case True
    note fr = owns_fresh [OF o]
    note g = gave_entry [OF o n z _ i] 
    have "t = wsect (d_addrs din ! 12) (put32 (n - 12) (freeblock s) (vw s (d_addrs din ! 12))) (s\<lparr>freeblock := freeblock s + 1\<rparr>)"
      "x = freeblock s" using run True fr(4,5) len n by (auto simp: Let_def)
    then show ?thesis using g True f fr(1) by simp
  next
    case False
    then have "t = s" "x = ?e" using run e by auto
    then show ?thesis using False f gave_refl [OF o] by simp
  qed
  then show "gave U din s din t" and "fblk (vw t) (d_addrs din) n = x" and "x \<noteq> 0"
    and "t = s \<or> Suc x = freeblock t \<and> freeblock t = Suc (freeblock s)" by auto
qed

lemma append_block_ok:
  assumes o: "owns U din s" and fb: "freeblock s \<le> FSSIZE" and n: "fbn < MAXFILE" and run: "append_block din fbn s = Done (x, din') t"
  shows "gave U din s din' t" and "fblk (vw t) (d_addrs din') fbn = x" and "x \<noteq> 0"
    and "freeblock t = freeblock s \<or> freeblock s < freeblock t \<and> Suc x = freeblock t"
proof -
  note fr = owns_fresh [OF o] and ad = owns_addrs [OF o]
  have "gave U din s din' t \<and> fblk (vw t) (d_addrs din') fbn = x \<and> x \<noteq> 0 \<and>
    (freeblock t = freeblock s \<or> freeblock s < freeblock t \<and> Suc x = freeblock t)"
  proof (cases "fbn < 12")
    case True
    have f: "fblk (vw s) (d_addrs din) fbn = d_addrs din ! fbn" using True by (simp add: fblk_def)
    show ?thesis
    proof (cases "d_addrs din ! fbn = 0")
      case z: True
      have "x = freeblock s" "din' = din\<lparr>d_addrs := (d_addrs din)[fbn := freeblock s]\<rparr>" "t = s\<lparr>freeblock := freeblock s + 1\<rparr>"
        using run True z ad fr(5) by (auto simp: append_block_def)
      then show ?thesis using gave_direct [OF o True z] fr(1) by simp
    next
      case False
      then have "x = d_addrs din ! fbn" "din' = din" "t = s" using run True ad(1) [of fbn] by (auto simp: append_block_def)
      then show ?thesis using False f gave_refl [OF o] by simp
    qed
  next
    case False
    then have n': "12 \<le> fbn" "fbn < 268" using n by simp_all
    define din1 s1 where "din1 = (if d_addrs din ! 12 = 0 then din\<lparr>d_addrs := (d_addrs din)[12 := freeblock s]\<rparr> else din)"
      and "s1 = (if d_addrs din ! 12 = 0 then s\<lparr>freeblock := freeblock s + 1\<rparr> else s)"
    have g1: "gave U din s din1 s1" and same: "fblk (vw s1) (d_addrs din1) fbn = fblk (vw s) (d_addrs din) fbn"
      using gave_indirect [OF o] gave_refl [OF o] by (simp_all add: din1_def s1_def)
    have s1: "freeblock s1 < 2 ^ 31" "d_addrs din1 ! 12 \<noteq> 0" using fb fr(1) ad(2) by (auto simp: s1_def din1_def)
    have o1: "owns (grown U s s1) din1 s1" by (rule owns_gave [OF o g1 s1(1)])
    have i: "d_addrs din1 ! 12 < length (image s1)"
      and rest: "(let (indirect, s) = (if get32 (fbn - 12) (vw s1 (d_addrs din1 ! 12)) = 0
             then let indirect = put32 (fbn - 12) (xint (freeblock s1)) (vw s1 (d_addrs din1 ! 12)); s = s1\<lparr>freeblock := freeblock s1 + 1\<rparr> in
               (indirect, wsect (d_addrs din1 ! 12) indirect s)
             else (vw s1 (d_addrs din1 ! 12), s1)) in
       Done (xint (get32 (fbn - 12) indirect), din1) s) = Done (x, din') t"
      using run False ad(1) [of 12] fr(5) owns_addrs(1) [OF o1, of 12]
      by (auto simp: append_block_def mbind_Done rsect_Done din1_def s1_def Let_def split: if_splits)
    note e = append_entry_ok [OF o1 n' s1(2) i rest]
    have "freeblock t = freeblock s \<or> freeblock s < freeblock t \<and> Suc x = freeblock t"
    proof (cases "d_addrs din ! 12 = 0")
      case True
      then have "fblk (vw s) (d_addrs din) fbn = 0" using n' by (simp add: fblk_def)
      then have "t \<noteq> s1" using e(1,3,4) same by auto
      then show ?thesis using e(5) by (auto simp: s1_def)
    next
      case False
      then show ?thesis using e(5) by (auto simp: s1_def)
    qed
    then show ?thesis using gave_trans [OF g1 e(2)] e(1,3,4) by simp
  qed
  then show "gave U din s din' t" and "fblk (vw t) (d_addrs din') fbn = x" and "x \<noteq> 0"
    and "freeblock t = freeblock s \<or> freeblock s < freeblock t \<and> Suc x = freeblock t" by auto
qed

section \<open>Appending\<close>

text \<open>The file \<open>din\<close> with the contents \<open>c\<close>, in an image that is not full.\<close>

definition has :: "(nat \<Rightarrow> bool) \<Rightarrow> dinode \<Rightarrow> mkfs_state \<Rightarrow> bytes \<Rightarrow> bool" where
  "has U din s c \<longleftrightarrow> owns U din s \<and> fcont U (vw s) (d_addrs din) c \<and> freeblock s \<le> FSSIZE"

text \<open>What appending changes: the file's blocks and those newly taken.\<close>

definition extended :: "(nat \<Rightarrow> bool) \<Rightarrow> dinode \<Rightarrow> mkfs_state \<Rightarrow> dinode \<Rightarrow> mkfs_state \<Rightarrow> bool" where
  "extended U din s din' t \<longleftrightarrow> din' = din\<lparr>d_addrs := d_addrs din'\<rparr> \<and> freeinode t = freeinode s \<and> freeblock s \<le> freeblock t \<and>
    (\<forall>b. \<not> grown U s t b \<longrightarrow> vw t b = vw s b)"

lemma extended_trans:
  assumes "extended U din s din' t" and "extended (grown U s t) din' t din'' u"
  shows "extended U din s din'' u"
proof -
  have g: "grown (grown U s t) t u = grown U s u" using assms by (intro grown_trans) (simp_all add: extended_def)
  have "din'' = din\<lparr>d_addrs := d_addrs din''\<rparr>"
    using assms by (metis (no_types, lifting) dinode.surjective dinode.update_convs(6) extended_def)
  moreover have "vw u b = vw s b" if "\<not> grown U s u b" for b
    using assms that g by (metis extended_def grown_def)
  ultimately show ?thesis using assms by (simp add: extended_def)
qed

text \<open>Appending \<open>p'\<close> in block \<open>n\<close>, byte by byte: \<open>i\<close> is byte \<open>k\<close> of block \<open>l\<close>.\<close>

lemma nth_append_block:
  fixes c p' d :: bytes
  assumes c: "length c = n * 1024 + m" and fits: "m + length p' \<le> 1024" "length d = 1024" and i: "i = l * 1024 + k" "k < 1024"
    and z: "z = (if i < length c then c ! i else 0)" and d: "l = n \<Longrightarrow> d ! k = z"
  shows "(if l = n then put_at m p' d ! k else z) = (if i < length (c @ p') then (c @ p') ! i else 0)"
proof (cases "l = n")
  case True
  have "put_at m p' d ! k = (if m \<le> k \<and> k < m + length p' then p' ! (k - m) else d ! k)"
    using fits i(2) by (intro nth_put_at) simp_all
  then show ?thesis using True c i z d by (auto simp: nth_append)
next
  case False
  then have "i < length c \<or> length c + length p' \<le> i" using c i fits by (cases "l < n") (auto simp: not_less)
  then show ?thesis using False z by (auto simp: nth_append)
qed

text \<open>One turn of the loop.\<close>

lemma append_turn:
  fixes c p :: bytes
  defines "fbn \<equiv> length c div 1024"
  defines "n1 \<equiv> min (length p) ((fbn + 1) * 1024 - length c)"
  assumes h: "has U din s c" and n: "fbn < 268" and p: "p \<noteq> []" and a: "append_block din fbn s = Done (x, din') t"
    and x: "x < length (image t)"
  defines "u \<equiv> wsect x (put_at (length c - fbn * 1024) (take n1 p) (vw t x)) t"
  shows "has (grown U s u) din' u (c @ take n1 p)" and "extended U din s din' u"
proof -
  have o: "owns U din s" and fc: "fcont U (vw s) (d_addrs din) c" and fb: "freeblock s \<le> FSSIZE" using h by (simp_all add: has_def)
  note b = append_block_ok [OF o fb n a]
  let ?off = "length c" let ?d = "put_at (?off - fbn * 1024) (take n1 p) (vw t x)"
  have img: "img_ok t" and im: "imap_ok (grown U s t) (vw t) (d_addrs din')" using b(1) by (simp_all add: gave_def)
  define m where "m = ?off mod 1024"
  have e: "?off = fbn * 1024 + m" "m < 1024" by (simp_all add: fbn_def m_def)
  then have r: "?off - fbn * 1024 = m" and "(fbn + 1) * 1024 - ?off = 1024 - m" by simp_all
  then have n1: "n1 = min (length p) (1024 - m)" "0 < n1" using p e(2) by (simp_all add: n1_def)
  have len: "length (vw t x) = 1024" using img by (simp add: img_ok_def)
  have fits: "m + length (take n1 p) \<le> 1024" using n1 e(2) by simp
  have fx: "x < freeblock t" using b(2,3,4) n o imap_okD(3) [OF im, of fbn] by (fastforce simp: grown_def owns_def)
  have fbt: "freeblock t \<le> FSSIZE" using b(4) fb x img by (auto simp: img_ok_def)
  have gu: "grown U s u = grown U s t" and vu: "vw u = (vw t)(x := ?d)" and cu: "freeblock u = freeblock t" "freeinode u = freeinode t"
    by (simp_all add: grown_def u_def)
  note w = fbyte_write [OF im n b(2,3), where d = ?d]
  have off: "?off + n1 \<le> 268 * 1024"
  proof -
    have "?off + n1 \<le> (fbn + 1) * 1024" using n1(1) e by simp
    also have "\<dots> \<le> 268 * 1024" using n by (intro mult_le_mono1) simp
    finally show ?thesis .
  qed
  have bytes: "fbyte (vw u) (d_addrs din') i = (if i < length (c @ take n1 p) then (c @ take n1 p) ! i else 0)" if i: "i < 268 * 1024" for i
  proof -
    have l: "i div 1024 < 268" using i by (simp add: less_mult_imp_div_less)
    have old: "fbyte (vw t) (d_addrs din') i = (if i < ?off then c ! i else 0)" using b(1) fc i by (simp add: gave_def fcont_def)
    have "fbyte (vw u) (d_addrs din') i = (if i div 1024 = fbn then put_at m (take n1 p) (vw t x) ! (i mod 1024) else fbyte (vw t) (d_addrs din') i)"
      using w(2) [OF i] by (simp add: u_def r)
    also have "\<dots> = (if i < length (c @ take n1 p) then (c @ take n1 p) ! i else 0)"
      by (rule nth_append_block [OF e(1) fits len _ _ old]) (use b(2,3) l in \<open>simp_all add: fbyte_def\<close>)
    finally show ?thesis .
  qed
  have iu: "img_ok u" using img x len fits fx by (auto simp: img_ok_def vu cu r) (simp add: u_def)
  have "fcont (grown U s u) (vw u) (d_addrs din') (c @ take n1 p)"
    using w(1) bytes off n1(1) by (simp add: fcont_def gu vu)
  moreover have "owns (grown U s u) din' u"
    using owns_gave [OF o b(1)] fbt iu w(1) unfolding owns_def gu vu cu by simp
  ultimately show "has (grown U s u) din' u (c @ take n1 p)" using fbt by (simp add: has_def cu)
  show "extended U din s din' u" 
    using b(1) imap_okD(3) [OF im n] b(2,3) unfolding extended_def gu vu cu by (auto simp: gave_def)
qed

lemma iappend_loop_ok:
  assumes "has U din s c" and "iappend_loop din (length c) p s = Done (din', off) t"
  shows "has (grown U s t) din' t (c @ p) \<and> extended U din s din' t \<and> off = length (c @ p)"
  using assms
proof (induction "length p" arbitrary: U din s c p rule: less_induct)
  case less
  show ?case
  proof (cases "p = []")
    case True
    then show ?thesis using less.prems by (simp add: iappend_loop.simps extended_def)
  next
    case False
    define fbn n1 where "fbn = length c div 1024" and "n1 = min (length p) ((fbn + 1) * 1024 - length c)"
    obtain x din1 s1 where run: "fbn < 268" "append_block din fbn s = Done (x, din1) s1" "x < length (image s1)"
      "iappend_loop din1 (length c + n1) (drop n1 p) (wsect x (put_at (length c - fbn * 1024) (take n1 p) (vw s1 x)) s1) = Done (din', off) t"
      using less.prems(2) False unfolding iappend_loop.simps [of din "length c" p s]
      by (auto simp: Let_def mbind_Done assert_Done rsect_Done fbn_def n1_def)
    let ?u = "wsect x (put_at (length c - fbn * 1024) (take n1 p) (vw s1 x)) s1"
    note turn = append_turn [OF less.prems(1), folded fbn_def, OF run(1) False run(2,3), folded n1_def]
    have "length c < (fbn + 1) * 1024" unfolding fbn_def by (metis Suc_eq_plus1 dividend_less_div_times zero_less_numeral mult.commute mult_Suc_right add.commute)
    then have n1: "0 < n1" "n1 \<le> length p" using False by (simp_all add: n1_def)
    then have "length (drop n1 p) < length p" "length (c @ take n1 p) = length c + n1" by simp_all
    from less.hyps [OF this(1) turn(1)] run(4) this(2)
    have rest: "has (grown (grown U s ?u) ?u t) din' t ((c @ take n1 p) @ drop n1 p)" "extended (grown U s ?u) din1 ?u din' t"
      "off = length ((c @ take n1 p) @ drop n1 p)" by auto
    have "grown (grown U s ?u) ?u t = grown U s t" using turn(2) rest(2) by (intro grown_trans) (simp_all add: extended_def)
    then show ?thesis using rest extended_trans [OF turn(2) rest(2)] by simp
  qed
qed

section \<open>The inodes of an image\<close>

definition inode_at :: "nat \<Rightarrow> mkfs_state \<Rightarrow> dinode" where
  "inode_at k s = get_dinode (k mod IPB) (vw s (IBLOCK k mkfs_sb))"

lemma inode_at_eq: "inode_at k s = get_dinode (k mod IPB) (vw s (k div IPB + 33))"
  by (simp add: inode_at_def IBLOCK_mkfs)

lemma rinode_Done: "img_ok s \<Longrightarrow> k < 208 \<Longrightarrow> rinode k s = Done din t \<longleftrightarrow> din = inode_at k s \<and> t = s"
  by (auto simp: rinode_def Let_def IBLOCK_mkfs mbind_Done rsect_Done inode_at_eq img_ok_def)

lemma winode_frame:
  assumes "img_ok s" and "k < 208" and "dinode_ok din" and "winode k din s = Done () t"
  shows "img_ok t" and "freeblock t = freeblock s" and "freeinode t = freeinode s"
    and "b < 33 \<or> 46 \<le> b \<Longrightarrow> vw t b = vw s b" and "inode_at j t = (if j = k then din else inode_at j s)"
proof -
  let ?b = "k div 16 + 33"
  have b: "?b < 46" using assms(2) by (simp add: less_mult_imp_div_less)
  have t: "t = wsect ?b (put_dinode (k mod 16) din (vw s ?b)) s"
    using assms(4) by (auto simp: winode_def Let_def IBLOCK_mkfs mbind_Done rsect_Done)
  have len: "length (vw s ?b) = 1024" "length (d_addrs din) = 13" using assms(1,3) by (simp_all add: img_ok_def dinode_ok_def)
  show "freeblock t = freeblock s" "freeinode t = freeinode s" by (simp_all add: t)
  show "b < 33 \<or> 46 \<le> b \<Longrightarrow> vw t b = vw s b" using b by (auto simp: t)
  show "img_ok t" using assms(1) b len by (auto simp: img_ok_def t mkfs_sb_eq)
  show "inode_at j t = (if j = k then din else inode_at j s)"
  proof (cases "j div 16 = k div 16 \<and> j \<noteq> k")
    case True
    then have "k mod 16 \<noteq> j mod 16" using div_mult_mod_eq [of j 16] div_mult_mod_eq [of k 16] by metis
    then show ?thesis using True len by (simp add: inode_at_eq t)
  next
    case False
    then show ?thesis using len assms(3) by (auto simp: inode_at_eq t)
  qed
qed

text \<open>
  The image holds the files of the list \<open>L\<close>, type and contents, in the inodes from 1 on; no two of them share a block,
  \<open>B\<close> says which file a block belongs to.
\<close>

definition stored :: "(nat \<Rightarrow> bool) \<Rightarrow> mkfs_state \<Rightarrow> nat \<Rightarrow> int \<times> bytes \<Rightarrow> bool" where
  "stored U s k f \<longleftrightarrow> (let din = inode_at k s in
    d_type din = fst f \<and> d_nlink din = 1 \<and> d_size din = length (snd f) \<and> dinode_ok din \<and> fcont U (vw s) (d_addrs din) (snd f))"

definition holds :: "(nat \<Rightarrow> nat option) \<Rightarrow> (int \<times> bytes) list \<Rightarrow> mkfs_state \<Rightarrow> bool" where
  "holds B L s \<longleftrightarrow> img_ok s \<and> freeblock s \<le> FSSIZE \<and> freeinode s = length L + 1 \<and> length L < 208 \<and>
    vw s 1 = put_at 0 (sb_bytes mkfs_sb) zero_block \<and>
    (\<forall>b k. B b = Some k \<longrightarrow> nmeta \<le> b \<and> b < freeblock s) \<and>
    (\<forall>k<length L. stored (\<lambda>b. B b = Some k) s (Suc k) (L ! k))"

lemma stored_cong:
  assumes "stored U s k f" and "inode_at k t = inode_at k s" and "\<And>b. U b \<Longrightarrow> vw t b = vw s b"
  shows "stored U t k f"
  using assms fcont_cong [of U "vw s" _ _ "vw t"] unfolding stored_def Let_def by auto

lemma holds_owns:
  assumes "holds B L s" and "k < length L"
  shows "has (\<lambda>b. B b = Some k) (inode_at (Suc k) s) s (snd (L ! k))"
  using assms by (force simp: holds_def has_def owns_def stored_def Let_def fcont_def)

lemma iappend_ok:
  assumes h: "holds B L s" and k: "k < length L" and run: "iappend (Suc k) p s = Done () t"
  shows "\<exists>B. holds B (L[k := (fst (L ! k), snd (L ! k) @ p)]) t"
proof -
  let ?U = "\<lambda>b. B b = Some k" let ?c = "snd (L ! k)" let ?din = "inode_at (Suc k) s"
  have img: "img_ok s" "Suc k < 208" and st: "stored ?U s (Suc k) (L ! k)" using h k by (auto simp: holds_def)
  have len: "length ?c \<le> 268 * 1024" using st by (simp add: stored_def fcont_def Let_def)
  then have sz: "xint (d_size ?din) = length ?c" using st by (simp add: stored_def Let_def xint_id)
  obtain din off u where run': "iappend_loop ?din (length ?c) p s = Done (din, off) u" "winode (Suc k) (din\<lparr>d_size := xint off\<rparr>) u = Done () t"
    using run by (auto simp: iappend_def mbind_Done rinode_Done [OF img] sz)
  let ?V = "grown ?U s u"
  have loop: "has ?V din u (?c @ p)" "extended ?U ?din s din u" "off = length (?c @ p)"
    using iappend_loop_ok [OF holds_owns [OF h k] run'(1)] by auto
  have iu: "img_ok u" "dinode_ok din" and fc: "fcont ?V (vw u) (d_addrs din) (?c @ p)" using loop(1) by (simp_all add: has_def owns_def)
  have off: "xint off = off" "off < 2 ^ 32" using fc loop(3) by (simp_all add: xint_id fcont_def)
  have dok: "dinode_ok (din\<lparr>d_size := xint off\<rparr>)" using iu off by (simp add: dinode_ok_def)
  note w = winode_frame [OF iu(1) img(2) dok run'(2)]
  define B' where "B' = (\<lambda>b. if freeblock s \<le> b \<and> b < freeblock u then Some k else B b)"
  have B: "47 \<le> b \<and> b < freeblock s" if "B b = Some j" for b j using h that by (simp add: holds_def mkfs_sb_eq)
  have fs: "47 \<le> freeblock s" "freeblock s \<le> freeblock u" and old: "\<And>b. \<not> ?V b \<Longrightarrow> vw u b = vw s b"
    using img(1) loop(2) by (simp_all add: img_ok_def mkfs_sb_eq extended_def)
  have V: "(\<lambda>b. B' b = Some k) = ?V" and O: "j \<noteq> k \<Longrightarrow> (\<lambda>b. B' b = Some j) = (\<lambda>b. B b = Some j)" for j
    by (auto simp: B'_def grown_def fun_eq_iff dest: B)
  have ge: "47 \<le> b" if "?V b" for b using that fs B by (auto simp: grown_def)
  then have vt: "vw t b = vw u b" if "?V b \<or> B b = Some j" for b j using that B [of b j] by (intro w(4)) force
  have "stored (\<lambda>b. B' b = Some j) t (Suc j) (L[k := (fst (L ! k), ?c @ p)] ! j)" if j: "j < length L" for j
  proof (cases "j = k")
    case True
    have "inode_at (Suc k) t = din\<lparr>d_size := off\<rparr>" using w(5) [of "Suc k"] off by simp
    moreover have "din = ?din\<lparr>d_addrs := d_addrs din\<rparr>" using loop(2) by (simp add: extended_def)
    then have "d_type din = d_type ?din" "d_nlink din = d_nlink ?din" by (metis dinode.select_convs dinode.surjective dinode.update_convs(6))+
    then have "d_type din = fst (L ! k)" "d_nlink din = 1" using st by (simp_all add: stored_def Let_def)
    ultimately show ?thesis
      using True k dok off fcont_cong [OF fc] vt loop(3) by (simp add: stored_def Let_def V)
  next
    case False
    have s: "stored (\<lambda>b. B b = Some j) s (Suc j) (L ! j)" "Suc j < 208" using h j by (simp_all add: holds_def)
    have "Suc j div 16 + 33 < 47" using s(2) by (simp add: less_mult_imp_div_less)
    then have "inode_at (Suc j) u = inode_at (Suc j) s" using old ge by (metis inode_at_eq leD)
    then have "inode_at (Suc j) t = inode_at (Suc j) s" using w(5) False by simp
    moreover have "vw t b = vw s b" if "B b = Some j" for b
      using that vt [of b j] old [of b] B [OF that] False by (auto simp: grown_def)
    ultimately show ?thesis using stored_cong [OF s(1)] False by (simp add: O)
  qed
  moreover have "vw t 1 = vw s 1" using w(4) [of 1] old [of 1] ge [of 1] by auto
  moreover have "47 \<le> b \<and> b < freeblock u" if "B' b = Some j" for b j
    using that fs B [of b j] by (auto simp: B'_def split: if_splits)
  ultimately have "holds B' (L[k := (fst (L ! k), ?c @ p)]) t"
    using h w(1-3) loop(1,2) unfolding holds_def has_def extended_def mkfs_sb_eq by simp
  then show ?thesis by blast
qed

lemma mk_ialloc_ok:
  assumes h: "holds B L s" and l: "length L < 207" and ty: "0 \<le> type" "is_short type" and run: "mk_ialloc type s = Done x t"
  shows "x = Suc (length L)" and "holds B (L @ [(type, [])]) t"
proof -
  let ?din = "dinode0\<lparr>d_type := type, d_nlink := 1, d_size := xint 0\<rparr>" let ?s = "s\<lparr>freeinode := length L + 2\<rparr>"
  have fi: "freeinode s = Suc (length L)" using h by (simp add: holds_def)
  moreover have "nat type < 2 ^ 16" using ty by (simp add: is_short_def nat_less_iff)
  ultimately have x: "x = Suc (length L)" and w: "winode (Suc (length L)) ?din ?s = Done () t"
    using run ty(1) by (auto simp: mk_ialloc_def Let_def mbind_Done xshort_id)
  then show "x = Suc (length L)" by simp
  have img: "img_ok ?s" and lt: "Suc (length L) < 208" using h l by (simp_all add: holds_def img_ok_def)
  have dok: "dinode_ok ?din" using ty by (simp add: dinode_ok_def dinode0_def is_short_def)
  note f = winode_frame [OF img lt dok w]
  have "fcont U v (d_addrs dinode0) []" for U v
    by (simp add: fcont_def imap_ok_def fbyte_def fblk_def dinode0_def)
  then have new: "stored U t (Suc (length L)) (type, [])" for U
    using dok by (simp add: stored_def Let_def f(5))
  have "stored (\<lambda>b. B b = Some k) t (Suc k) (L ! k)" if "k < length L" for k
  proof (rule stored_cong)
    show "stored (\<lambda>b. B b = Some k) s (Suc k) (L ! k)" using h that by (simp add: holds_def)
    show "inode_at (Suc k) t = inode_at (Suc k) s" using that by (simp add: f(5)) (simp add: inode_at_eq)
    show "vw t b = vw s b" if "B b = Some k" for b using f(4) [of b] h that by (force simp: holds_def mkfs_sb_eq)
  qed
  then show "holds B (L @ [(type, [])]) t"
    using h l f(1-3) f(4) [of 1] new by (auto simp: holds_def nth_append less_Suc_eq)
qed

lemma append_all_ok:
  assumes "holds B L s" and "k < length L" and "append_all (Suc k) chunks s = Done () t"
  shows "\<exists>B. holds B (L[k := (fst (L ! k), snd (L ! k) @ concat chunks)]) t"
  using assms
proof (induction chunks arbitrary: B L s)
  case (Cons buf chunks)
  then obtain u where u: "iappend (Suc k) buf s = Done () u" "append_all (Suc k) chunks u = Done () t" by (auto simp: mbind_Done)
  obtain B' where "holds B' (L[k := (fst (L ! k), snd (L ! k) @ buf)]) u" using iappend_ok [OF Cons.prems(1,2) u(1)] by blast
  from Cons.IH [OF this _ u(2)] show ?case using Cons.prems(2) by simp
qed (auto intro: exI [of _ B])

section \<open>The image of a list of files\<close>

text \<open>The entry of the root directory for a name, those of the arguments from inode \<open>n\<close> on, and the files of the whole image.\<close>

definition entry :: "nat \<Rightarrow> bytes \<Rightarrow> bytes" where
  "entry n name = dirent_bytes \<lparr>de_inum = n, de_name = strncpy name DIRSIZ\<rparr>"

fun entries :: "nat \<Rightarrow> bytes list \<Rightarrow> bytes" where
  "entries n [] = []"
| "entries n (arg # args) = entry n (short_name (base_name arg)) @ entries (n + 1) args"

lemma add_file_ok:
  assumes h: "holds B ((T_DIR, d) # M) s" and l: "length M < 206" and run: "add_file host 1 arg s = Done () t"
  shows "\<exists>B. holds B ((T_DIR, d @ entry (length M + 2) (short_name (base_name arg))) # M @ [(T_FILE, concat (the (host arg)))]) t"
proof -
  let ?e = "entry (length M + 2) (short_name (base_name arg))"
  obtain chunks x u v where r: "host arg = Some chunks" "mk_ialloc T_FILE s = Done x u"
      "iappend 1 (dirent_bytes \<lparr>de_inum = xshort x, de_name = strncpy (short_name (base_name arg)) DIRSIZ\<rparr>) u = Done () v"
      "append_all x chunks v = Done () t"
    using run by (auto simp: add_file_def Let_def mbind_Done assert_Done split: option.splits)
  have "0 \<le> T_FILE" "is_short T_FILE" "length ((T_DIR, d) # M) < 207" using l by (simp_all add: is_short_def)
  note a = mk_ialloc_ok [OF h this(3,1,2) r(2)]
  have x: "x = Suc (Suc (length M))" "xshort x = length M + 2" using a(1) l by (simp_all add: xshort_id)
  obtain B1 where b1: "holds B1 ((T_DIR, d @ ?e) # M @ [(T_FILE, [])]) v"
    using iappend_ok [OF a(2), of 0] r(3) x by (auto simp: entry_def)
  show ?thesis using append_all_ok [OF b1, of "Suc (length M)"] r(1,4) x by (simp add: nth_append list_update_append)
qed

lemma add_files_ok:
  assumes "holds B ((T_DIR, d) # M) s" and "length M + length args < 207" and "add_files host 1 args s = Done () t"
  shows "\<exists>B. holds B ((T_DIR, d @ entries (length M + 2) args) # M @ map (\<lambda>a. (T_FILE, concat (the (host a)))) args) t"
  using assms
proof (induction args arbitrary: B d M s)
  case (Cons arg args)
  then obtain u where u: "add_file host 1 arg s = Done () u" "add_files host 1 args u = Done () t" by (auto simp: mbind_Done)
  obtain B' where "holds B' ((T_DIR, d @ entry (length M + 2) (short_name (base_name arg))) # M @ [(T_FILE, concat (the (host arg)))]) u"
    using add_file_ok [OF Cons.prems(1) _ u(1)] Cons.prems(2) by auto
  from Cons.IH [OF this _ u(2)] show ?case using Cons.prems(2) by simp
qed (auto intro: exI [of _ B])

text \<open>The image before the first file.\<close>

lemma fold_wsect: "image (fold (\<lambda>i. wsect i zero_block) [0..<n] (s\<lparr>image := []\<rparr>)) = replicate n zero_block"
  "freeblock (fold (\<lambda>i. wsect i zero_block) is s) = freeblock s" "freeinode (fold (\<lambda>i. wsect i zero_block) is s) = freeinode s"
proof -
  show "image (fold (\<lambda>i. wsect i zero_block) [0..<n] (s\<lparr>image := []\<rparr>)) = replicate n zero_block"
    by (induction n) (simp_all add: wsect_def replicate_append_same)
  show "freeblock (fold (\<lambda>i. wsect i zero_block) is s) = freeblock s" "freeinode (fold (\<lambda>i. wsect i zero_block) is s) = freeinode s"
    by (induction "is" arbitrary: s) simp_all
qed

definition blank :: mkfs_state where
  "blank = wsect 1 (put_at 0 (sb_bytes mkfs_sb) zero_block)
    (fold (\<lambda>i. wsect i zero_block) [0..<FSSIZE] \<lparr>image = [], freeinode = 1, freeblock = nmeta\<rparr>)"

lemma length_sb_bytes: "length (sb_bytes S) = 32"
  by (simp add: sb_bytes_def)

lemma blank_holds: "holds B [] blank" if "\<And>b. B b = None"
proof -
  have f: "image (fold (\<lambda>i. wsect i zero_block) [0..<FSSIZE] \<lparr>image = [], freeinode = 1, freeblock = nmeta\<rparr>) = replicate FSSIZE zero_block"
    using fold_wsect(1) [of FSSIZE "\<lparr>image = [], freeinode = 1, freeblock = nmeta\<rparr>"] by simp
  then have "vw (fold (\<lambda>i. wsect i zero_block) [0..<FSSIZE] \<lparr>image = [], freeinode = 1, freeblock = nmeta\<rparr>) b = zero_block" for b
    by (simp add: vw_def del: upt_conv_Cons)
  then show ?thesis using that f fold_wsect(2,3) 
    by (auto simp: holds_def img_ok_def blank_def mkfs_sb_eq length_sb_bytes zero_block_def simp del: fold_simps upt_conv_Cons)
qed

lemma sb_of_bytes_put:
  assumes "\<forall>x\<in>set [sb_magic S, sb_size S, sb_nblocks S, sb_ninodes S, sb_nlog S, sb_logstart S, sb_inodestart S, sb_bmapstart S]. x < 2 ^ 32"
    and "32 \<le> length d"
  shows "sb_of_bytes (put_at 0 (sb_bytes S) d) = S"
proof -
  let ?ws = "[sb_magic S, sb_size S, sb_nblocks S, sb_ninodes S, sb_nlog S, sb_logstart S, sb_inodestart S, sb_bmapstart S]"
  have "get32 i (put_at 0 (sb_bytes S) d) = ?ws ! i" if "i < 8" for i
  proof -
    have "get32 i (put_at 0 (sb_bytes S) d) = get32 i (sb_bytes S)"
      using that assms(2) length_sb_bytes [of S] by (simp add: get32_def get_at_def put_at_def)
    then show ?thesis using get32_words [of i ?ws] that assms(1) by (simp add: sb_bytes_def)
  qed
  from this [of 0] this [of 1] this [of 2] this [of 3] this [of 4] this [of 5] this [of 6] this [of 7]
  show ?thesis by (simp add: sb_of_bytes_def)
qed

lemma bit_used_marks: "n \<le> 8 * length d \<Longrightarrow> bit_used (fold bit_mark [0..<n] d) b \<longleftrightarrow> b < n \<or> bit_used d b"
proof (induction n)
  case (Suc n)
  have "length (fold bit_mark [0..<m] d) = length d" for m by (induction m) simp_all
  then have "n div 8 < length (fold bit_mark [0..<n] d)" using Suc.prems by (simp add: less_mult_imp_div_less)
  then show ?case using Suc by (auto simp: bit_used_mark)
qed simp

section \<open>The finished image\<close>

text \<open>The directory is filled up with zeros to the next block, to a further block when it ends with one.\<close>

definition pad :: "bytes \<Rightarrow> bytes" where
  "pad c = c @ replicate ((length c div BSIZE + 1) * BSIZE - length c) 0"

definition root_dir :: "bytes list \<Rightarrow> bytes" where
  "root_dir args = entry 1 (lit ''.'') @ entry 1 (lit ''..'') @ entries 2 args"

definition image_files :: "(bytes \<Rightarrow> bytes list option) \<Rightarrow> bytes list \<Rightarrow> (int \<times> bytes) list" where
  "image_files host args = (T_DIR, pad (root_dir args)) # map (\<lambda>arg. (T_FILE, concat (the (host arg)))) args"

lemma length_root_dir: "length (root_dir args) = 16 * (length args + 2)"
proof -
  have e: "length (entry n name) = 16" for n name by (simp add: entry_def dirent_bytes_def length_strncpy)
  have "length (entries n args) = 16 * length args" for n by (induction args arbitrary: n) (simp_all add: e)
  then show ?thesis by (simp add: root_dir_def e)
qed

lemma length_pad: "length (pad c) = (length c div BSIZE + 1) * BSIZE" "length c \<le> length (pad c)"
proof -
  have "length c < (length c div 1024 + 1) * 1024"
    by (metis Suc_eq_plus1 dividend_less_div_times zero_less_numeral mult.commute mult_Suc_right add.commute)
  then show "length (pad c) = (length c div BSIZE + 1) * BSIZE" "length c \<le> length (pad c)" by (simp_all add: pad_def)
qed

lemma resize_ok:
  assumes h: "holds B ((T_DIR, c) # M) s" and l: "length (pad c) \<le> MAXFILE * BSIZE"
    and w: "winode 1 ((inode_at 1 s)\<lparr>d_size := length (pad c)\<rparr>) s = Done () t"
  shows "holds B ((T_DIR, pad c) # M) t"
proof -
  let ?din = "(inode_at 1 s)\<lparr>d_size := length (pad c)\<rparr>"
  have st: "stored (\<lambda>b. B b = Some 0) s 1 (T_DIR, c)" and img: "img_ok s" using h by (auto simp: holds_def)
  have "is_short 1" by (simp add: is_short_def)
  then have dok: "dinode_ok ?din" using st l by (simp add: stored_def Let_def dinode_ok_def)
  note f = winode_frame [OF img _ dok w, simplified]
  have same: "vw t b = vw s b" if "B b = Some k" for b k using f(4) [of b] h that by (force simp: holds_def mkfs_sb_eq)
  have "fcont (\<lambda>b. B b = Some 0) (vw s) (d_addrs (inode_at 1 s)) (pad c)"
    using st l length_pad [of c] by (auto simp: stored_def Let_def fcont_def pad_def nth_append)
  then have "fcont (\<lambda>b. B b = Some 0) (vw t) (d_addrs (inode_at 1 s)) (pad c)" by (rule fcont_cong) (rule same)
  then have root: "stored (\<lambda>b. B b = Some 0) t 1 (T_DIR, pad c)"
    using st dok f(5) [of 1] by (simp add: stored_def Let_def)
  have "stored (\<lambda>b. B b = Some k) t (Suc k) (((T_DIR, pad c) # M) ! k)" if k: "k < Suc (length M)" for k
  proof (cases k)
    case 0
    then show ?thesis using root by simp
  next
    case (Suc m)
    have "stored (\<lambda>b. B b = Some k) s (Suc k) (M ! m)" using h k Suc by (force simp: holds_def)
    from stored_cong [OF this] show ?thesis using f(5) [of "Suc k"] same Suc by simp
  qed
  then show ?thesis using h f(1-3) f(4) [of 1] by (simp add: holds_def)
qed

lemma bitmap_ok:
  assumes h: "holds B L s" and d: "length d = BSIZE"
  shows "holds B L (wsect 46 d s)"
proof -
  let ?t = "wsect 46 d s"
  have img: "img_ok ?t" using h d by (auto simp: holds_def img_ok_def mkfs_sb_eq)
  have "stored (\<lambda>b. B b = Some k) ?t (Suc k) (L ! k)" if k: "k < length L" for k
  proof (rule stored_cong)
    show "stored (\<lambda>b. B b = Some k) s (Suc k) (L ! k)" using h k by (simp add: holds_def)
    have "Suc k div 16 + 33 < 46" using h k by (simp add: holds_def less_mult_imp_div_less)
    then show "inode_at (Suc k) ?t = inode_at (Suc k) s" by (simp add: inode_at_eq)
    show "vw ?t b = vw s b" if "B b = Some k" for b using h that by (force simp: holds_def mkfs_sb_eq)
  qed
  then show ?thesis using h img by (simp add: holds_def)
qed

lemma mkfs_main_holds:
  assumes run: "mkfs_main create host argv = Done () t" and l: "length argv \<le> NINODES"
  defines "args \<equiv> drop 2 argv"
  shows "\<exists>B. holds B (image_files host args) t" and "freeblock t < 8192" and "vw t 46 = fold bit_mark [0..<freeblock t] zero_block"
proof -
  have n: "length args \<le> 198" using l by (simp add: args_def)
  let ?e = "\<lambda>name. dirent_bytes \<lparr>de_inum = xshort 1, de_name = strncpy name DIRSIZ\<rparr>"
  obtain s1 s2 s3 s4 where r: "mk_ialloc T_DIR blank = Done 1 s1" "iappend 1 (?e (lit ''.'')) s1 = Done () s2"
      "iappend 1 (?e (lit ''..'')) s2 = Done () s3" "add_files host 1 args s3 = Done () s4"
    and rest: "mbind (rinode 1 s4) (\<lambda>din s.
      mbind (winode 1 (din\<lparr>d_size := xint ((xint (d_size din) div BSIZE + 1) * BSIZE)\<rparr>) s) (\<lambda>_ s. mk_balloc (freeblock s) s)) = Done () t"
    using run unfolding mkfs_main_def blank_def [symmetric] Let_def by (auto simp: mbind_Done assert_Done args_def split: if_splits)
  have e: "?e name = entry 1 name" for name by (simp add: entry_def xshort_id)
  note a = mk_ialloc_ok(2) [OF blank_holds [OF refl] _ _ _ r(1)]
  obtain B1 where b1: "holds B1 [(T_DIR, entry 1 (lit ''.''))] s2"
    using iappend_ok [OF a, of 0] r(2) unfolding e by (auto simp: is_short_def)
  obtain B2 where "holds B2 [(T_DIR, entry 1 (lit ''.'') @ entry 1 (lit ''..''))] s3"
    using iappend_ok [OF b1, of 0] r(3) unfolding e by auto
  from add_files_ok [OF this _ r(4)] n
  obtain B3 where h3: "holds B3 ((T_DIR, root_dir args) # map (\<lambda>a. (T_FILE, concat (the (host a)))) args) s4" by (auto simp: root_dir_def numeral_2_eq_2)
  have len: "length (root_dir args) \<le> 3200" using n by (simp add: length_root_dir)
  then have "length (root_dir args) div 1024 \<le> 3" by (simp add: less_mult_imp_div_less flip: less_Suc_eq_le)
  then have pad: "length (pad (root_dir args)) \<le> 268 * 1024" "xint (length (pad (root_dir args))) = length (pad (root_dir args))"
    by (simp_all add: length_pad(1) xint_id)
  have "d_size (inode_at 1 s4) = length (root_dir args)" and i4: "img_ok s4" using h3 by (auto simp: holds_def stored_def Let_def)
  then have "xint ((xint (d_size (inode_at 1 s4)) div BSIZE + 1) * BSIZE) = length (pad (root_dir args))"
    using len pad(2) by (simp add: xint_id length_pad(1))
  with rest obtain s5 where s5: "winode 1 ((inode_at 1 s4)\<lparr>d_size := length (pad (root_dir args))\<rparr>) s4 = Done () s5" "freeblock s5 < 8192"
      "t = wsect 46 (fold bit_mark [0..<freeblock s5] zero_block) s5"
    using i4 by (auto simp: mbind_Done rinode_Done mk_balloc_def assert_Done IBLOCK_mkfs)
  have "length (fold bit_mark [0..<m] zero_block) = BSIZE" for m by (induction m) (simp_all add: zero_block_def)
  then show "\<exists>B. holds B (image_files host args) t" and "freeblock t < 8192" and "vw t 46 = fold bit_mark [0..<freeblock t] zero_block"
    using bitmap_ok [OF resize_ok [OF h3 _ s5(1)]] pad(1) s5(2,3) by (auto simp: image_files_def)
qed

text \<open>A run that succeeds: appends within one of the first blocks of a file.\<close>

lemma winode_succeeds: "img_ok s \<Longrightarrow> k < 208 \<Longrightarrow> \<exists>t. winode k din s = Done () t \<and> freeblock t = freeblock s"
  by (simp add: winode_def Let_def IBLOCK_mkfs rsect_def img_ok_def less_mult_imp_div_less trans_less_add1)

lemma iappend_small:
  assumes h: "holds B L s" and k: "k < length L" and p: "p \<noteq> []" "length (snd (L ! k)) + length p \<le> BSIZE" and fb: "freeblock s < FSSIZE"
  shows "\<exists>t. iappend (Suc k) p s = Done () t \<and> freeblock t \<le> Suc (freeblock s)"
proof -
  let ?din = "inode_at (Suc k) s" and ?c = "snd (L ! k)"
  have img: "img_ok s" "Suc k < 208" and st: "stored (\<lambda>b. B b = Some k) s (Suc k) (L ! k)" using h k by (auto simp: holds_def)
  have o: "owns (\<lambda>b. B b = Some k) ?din s" using holds_owns [OF h k] by (simp add: has_def)
  have c: "length ?c < 1024" "length ?c div 1024 = 0" using p by (cases p; simp)+
  have sz: "xint (d_size ?din) = length ?c" using st c(1) by (simp add: stored_def Let_def xint_id)
  obtain x din u where a: "append_block ?din 0 s = Done (x, din) u" "freeblock u \<le> Suc (freeblock s)" "image u = image s"
    by (cases "xint (d_addrs ?din ! 0) = 0") (auto simp: append_block_def)
  have b: "gave (\<lambda>b. B b = Some k) ?din s din u" "fblk (vw u) (d_addrs din) 0 = x" "x \<noteq> 0"
    using append_block_ok [OF o _ _ a(1)] fb by simp_all
  then have "imap_ok (grown (\<lambda>b. B b = Some k) s u) (vw u) (d_addrs din)" by (simp add: gave_def)
  then have "grown (\<lambda>b. B b = Some k) s u x" using imap_okD(3) [of _ "vw u" "d_addrs din" 0] b(2,3) by simp
  then have x: "x < length (image u)" using a(2,3) fb h img(1) by (force simp: grown_def holds_def img_ok_def)
  have "\<exists>d o1 v. iappend_loop ?din (length ?c) p s = Done (d, o1) v \<and> freeblock v = freeblock u"
    using a(1) x p c by (simp add: iappend_loop.simps [of ?din] iappend_loop.simps [of _ _ "[]"] Let_def assert_that_def rsect_def)
  then obtain d o1 v where l: "iappend_loop ?din (length ?c) p s = Done (d, o1) v" "freeblock v = freeblock u" by blast
  then have "img_ok v" using iappend_loop_ok [OF holds_owns [OF h k] l(1)] by (simp add: has_def owns_def)
  then obtain t where "winode (Suc k) (d\<lparr>d_size := xint o1\<rparr>) v = Done () t" "freeblock t = freeblock v"
    using winode_succeeds [OF _ img(2)] by blast
  then show ?thesis using l a(2) by (simp add: iappend_def rinode_Done [OF img, THEN iffD2] sz)
qed

lemma mk_ialloc_succeeds:
  assumes "holds B L s" and "length L < 207"
  shows "\<exists>t. mk_ialloc type s = Done (Suc (length L)) t \<and> freeblock t = freeblock s"
proof -
  have "img_ok (s\<lparr>freeinode := Suc (freeinode s)\<rparr>)" "freeinode s = Suc (length L)" using assms(1) by (simp_all add: holds_def img_ok_def)
  then show ?thesis using winode_succeeds assms(2) by (fastforce simp: mk_ialloc_def Let_def mbind_Done)
qed

text \<open>
  The image \<^verbatim>\<open>mkfs\<close> builds (C9). When the program ends without \<^verbatim>\<open>die\<close> and failed assertion, for at most as
  many files as there are inodes, the image has \<^verbatim>\<open>FSSIZE\<close> blocks; block 1 is the superblock, whose regions are
  in the order the kernel relies on; the free map marks exactly the blocks that were given out. Inode 1 is the root
  directory with the entries \<^verbatim>\<open>.\<close> and \<^verbatim>\<open>..\<close> and one for every argument, without its \<^verbatim>\<open>user/\<close> and \<^verbatim>\<open>_\<close>, padded with zeros;
  the inodes after it are files with one link and with the bytes of the arguments' files, in their order, found
  through the direct and indirect addresses as the kernel follows them. No two of them share a block (\<open>B\<close> names the one
  a block belongs to), and every block is in the data region and marked.
\<close>

theorem mkfs_builds_image:
  assumes "mkfs_main create host argv = Done () t" and "length argv \<le> NINODES"
  shows "length (image t) = FSSIZE \<and> sb_of_bytes (image t ! 1) = mkfs_sb \<and> wf_sb mkfs_sb \<and>
    (\<forall>b<FSSIZE. bit_used (image t ! BBLOCK b mkfs_sb) (b mod BPB) \<longleftrightarrow> b < freeblock t) \<and>
    (\<exists>B. (\<forall>b k. B b = Some k \<longrightarrow> data_start mkfs_sb \<le> b \<and> b < freeblock t) \<and>
      (\<forall>k<length argv - 1. stored (\<lambda>b. B b = Some k) t (k + 1) (image_files host (drop 2 argv) ! k)))"
proof -
  note m = mkfs_main_holds [OF assms]
  obtain B where h: "holds B (image_files host (drop 2 argv)) t" using m(1) by blast
  have "2 \<le> length argv" using assms(1) by (auto simp: mkfs_main_def split: if_splits)
  then have files: "length (image_files host (drop 2 argv)) = length argv - 1" by (simp add: image_files_def)
  have len: "length (image t) = 2000" using h by (simp add: holds_def img_ok_def)
  then have v: "vw t b = image t ! b" if "b < 2000" for b using that by (simp add: vw_def)
  have "sb_of_bytes (vw t 1) = mkfs_sb"
    using h sb_of_bytes_put [of mkfs_sb zero_block] by (simp add: holds_def mkfs_sb_eq sb_ex_def zero_block_def)
  moreover have "bit_used (image t ! BBLOCK b mkfs_sb) (b mod BPB) \<longleftrightarrow> b < freeblock t" if "b < 2000" for b
  proof -
    have "BBLOCK b mkfs_sb = 46" "b mod 8192 = b" using that by (simp_all add: BBLOCK_def IBLOCK_mkfs)
    moreover have "\<not> bit_used zero_block b" using that by (simp add: bit_used_iff zero_block_def less_mult_imp_div_less)
    ultimately show ?thesis using bit_used_marks [of "freeblock t" zero_block b] m(2,3) v [of 46] by (simp add: zero_block_def)
  qed
  moreover have "data_start mkfs_sb = nmeta" "wf_sb mkfs_sb" by (simp_all add: mkfs_sb_eq wf_sb_def data_start_def sb_ex_def LOGBLOCKS_def)
  ultimately show ?thesis using h len v [of 1] files by (auto simp: holds_def)
qed

lemma length_entry: "length (entry n name) = 16" "entry n name \<noteq> []"
proof -
  show l: "length (entry n name) = 16" by (simp add: entry_def dirent_bytes_def)
  show "entry n name \<noteq> []" using l by fastforce
qed

lemma dirent_entry: "n < 2 ^ 16 \<Longrightarrow> dirent_bytes \<lparr>de_inum = xshort n, de_name = strncpy name DIRSIZ\<rparr> = entry n name"
  by (simp add: entry_def xshort_id)

lemma root_made:
  obtains s1 s2 s3 B where "mk_ialloc T_DIR blank = Done 1 s1" "iappend 1 (entry 1 (lit ''.'')) s1 = Done () s2"
    "iappend 1 (entry 1 (lit ''..'')) s2 = Done () s3" "holds B [(T_DIR, root_dir [])] s3" "freeblock s3 \<le> 49"
proof -
  have f47: "freeblock blank = 47" by (simp add: blank_def fold_wsect(2) mkfs_sb_eq del: upt_conv_Cons)
  note h0 = blank_holds [of "\<lambda>_. None", OF refl]
  obtain s1 where s1: "mk_ialloc T_DIR blank = Done 1 s1" "freeblock s1 = 47" using mk_ialloc_succeeds [OF h0, of T_DIR] f47 by auto
  have h1: "holds (\<lambda>_. None) [(T_DIR, [])] s1" using mk_ialloc_ok(2) [OF h0 _ _ _ s1(1)] by (simp add: is_short_def)
  obtain s2 where s2: "iappend 1 (entry 1 (lit ''.'')) s1 = Done () s2" "freeblock s2 \<le> 48"
    using iappend_small [OF h1, of 0 "entry 1 (lit ''.'')"] s1(2) by (auto simp: length_entry)
  obtain B2 where h2: "holds B2 [(T_DIR, entry 1 (lit ''.''))] s2" using iappend_ok [OF h1, of 0] s2 by auto
  obtain s3 where s3: "iappend 1 (entry 1 (lit ''..'')) s2 = Done () s3" "freeblock s3 \<le> 49"
    using iappend_small [OF h2, of 0 "entry 1 (lit ''..'')"] s2(2) by (force simp: length_entry)
  obtain B3 where "holds B3 [(T_DIR, root_dir [])] s3" using iappend_ok [OF h2, of 0] s3 by (auto simp: root_dir_def)
  then show ?thesis using that s1 s2 s3 by blast
qed

lemma file_made:
  assumes h: "holds B [(T_DIR, root_dir [])] s" and fb: "freeblock s \<le> 49"
  obtains t B where "add_file (\<lambda>_. Some [[1, 2, 3]]) 1 (lit ''user/_a'') s = Done () t" "img_ok t" "freeblock t \<le> 51"
proof -
  obtain s4 where s4: "mk_ialloc T_FILE s = Done 2 s4" "freeblock s4 \<le> 49"
    using mk_ialloc_succeeds [OF h, of T_FILE] fb by (auto simp: numeral_2_eq_2)
  have h4: "holds B [(T_DIR, root_dir []), (T_FILE, [])] s4" using mk_ialloc_ok(2) [OF h _ _ _ s4(1)] by (simp add: is_short_def)
  obtain s5 where s5: "iappend 1 (entry 2 (lit ''a'')) s4 = Done () s5" "freeblock s5 \<le> 50"
    using iappend_small [OF h4, of 0 "entry 2 (lit ''a'')"] s4(2) by (force simp: length_entry length_root_dir)
  obtain B5 where h5: "holds B5 [(T_DIR, root_dir [] @ entry 2 (lit ''a'')), (T_FILE, [])] s5"
    using iappend_ok [OF h4, of 0] s5 by auto
  obtain t where t: "iappend 2 [1, 2, 3] s5 = Done () t" "freeblock t \<le> 51"
    using iappend_small [OF h5, of 1 "[1, 2, 3]"] s5(2) by (force simp: numeral_2_eq_2)
  have "img_ok t" using iappend_ok [OF h5, of 1 "[1, 2, 3]"] t(1) by (auto simp: numeral_2_eq_2 holds_def)
  moreover have "base_name (lit ''user/_a'') = lit ''_a''" "short_name (lit ''_a'') = lit ''a''" "slash \<notin> set (lit ''_a'')" "length (lit ''a'') \<le> 14"
    by code_simp+
  then have "add_file (\<lambda>_. Some [[1, 2, 3]]) 1 (lit ''user/_a'') s = Done () t"
    using s4 s5 t by (simp add: add_file_def Let_def assert_that_def dirent_entry)
  ultimately show ?thesis using that t(2) by blast
qed

lemma mkfs_main_runs: "\<exists>t. mkfs_main (\<lambda>_. True) (\<lambda>_. Some [[1, 2, 3]]) [lit ''mkfs'', lit ''fs.img'', lit ''user/_a''] = Done () t"
proof -
  obtain s1 s2 s3 B where r: "mk_ialloc T_DIR blank = Done 1 s1" "iappend 1 (entry 1 (lit ''.'')) s1 = Done () s2"
    "iappend 1 (entry 1 (lit ''..'')) s2 = Done () s3" "holds B [(T_DIR, root_dir [])] s3" "freeblock s3 \<le> 49"
    by (rule root_made)
  obtain s4 where a: "add_file (\<lambda>_. Some [[1, 2, 3]]) 1 (lit ''user/_a'') s3 = Done () s4" "img_ok s4" "freeblock s4 \<le> 51"
    by (rule file_made [OF r(4,5)])
  let ?din = "(inode_at 1 s4)\<lparr>d_size := xint ((xint (d_size (inode_at 1 s4)) div BSIZE + 1) * BSIZE)\<rparr>"
  obtain s5 where "winode 1 ?din s4 = Done () s5" "freeblock s5 = freeblock s4" using winode_succeeds [OF a(2), of 1 ?din] by auto
  then show ?thesis
    unfolding mkfs_main_def Let_def blank_def [symmetric]
    using r(1-3) a rinode_Done [OF a(2), of 1, THEN iffD2]
    by (simp add: assert_that_def dirent_entry mk_balloc_def)
qed

theorem mkfs_builds_image_witness:
  "\<exists>t. mkfs_main (\<lambda>_. True) (\<lambda>_. Some [[1, 2, 3]]) [lit ''mkfs'', lit ''fs.img'', lit ''user/_a''] = Done () t \<and> length [lit ''mkfs'', lit ''fs.img'', lit ''user/_a''] \<le> NINODES \<and>
    length (image t) = FSSIZE \<and> sb_of_bytes (image t ! 1) = mkfs_sb \<and>
    (\<exists>U. stored U t 2 (T_FILE, [1, 2, 3]))"
proof -
  obtain t where t: "mkfs_main (\<lambda>_. True) (\<lambda>_. Some [[1, 2, 3]]) [lit ''mkfs'', lit ''fs.img'', lit ''user/_a''] = Done () t" using mkfs_main_runs by blast
  have l: "length [lit ''mkfs'', lit ''fs.img'', lit ''user/_a''] \<le> NINODES" by simp
  note m = mkfs_builds_image [OF t l]
  then obtain B :: "nat \<Rightarrow> nat option" where B: "\<forall>k<length [lit ''mkfs'', lit ''fs.img'', lit ''user/_a''] - 1.
      stored (\<lambda>b. B b = Some k) t (k + 1) (image_files (\<lambda>_. Some [[1, 2, 3]]) (drop 2 [lit ''mkfs'', lit ''fs.img'', lit ''user/_a'']) ! k)" by (elim conjE exE)
  have "stored (\<lambda>b. B b = Some 1) t (1 + 1) (image_files (\<lambda>_. Some [[1, 2, 3]]) (drop 2 [lit ''mkfs'', lit ''fs.img'', lit ''user/_a'']) ! 1)" by (rule B [rule_format]) simp
  then have "stored (\<lambda>b. B b = Some 1) t 2 (T_FILE, [1, 2, 3])" unfolding image_files_def one_add_one by simp
  then show ?thesis using t l m by blast
qed

end
