(* ===== verification/Bcache_List.thy ===== *)
theory Bcache_List
  imports Bio
begin

text \<open>
  The list of buffers of \<^verbatim>\<open>kernel/bio.c\<close> as the code has it: a circle linked in both directions through
  \<^verbatim>\<open>bcache.head\<close>. The pointer operations of \<^verbatim>\<open>binit\<close>, \<^verbatim>\<open>bget\<close> and \<^verbatim>\<open>brelse\<close> implement the operations on the
  list \<open>lru\<close> that theory \<open>Bio\<close> uses.
\<close>

section \<open>The pointers\<close>

text \<open>A buffer is named by its index in \<^verbatim>\<open>bcache.buf\<close>, \<^verbatim>\<open>&bcache.head\<close> by \<open>NBUF\<close>.\<close>

record links =
  b_prev :: "nat \<Rightarrow> nat"
  b_next :: "nat \<Rightarrow> nat"

definition HEAD :: nat where
  "HEAD = NBUF"

text \<open>\<^verbatim>\<open>b->next = bcache.head.next; b->prev = &bcache.head; bcache.head.next->prev = b; bcache.head.next = b;\<close>\<close>

definition insert_head :: "nat \<Rightarrow> links \<Rightarrow> links" where
  "insert_head b p =
    (let p = p\<lparr>b_next := (b_next p)(b := b_next p HEAD)\<rparr>;
         p = p\<lparr>b_prev := (b_prev p)(b := HEAD)\<rparr>;
         p = p\<lparr>b_prev := (b_prev p)(b_next p HEAD := b)\<rparr> in
     p\<lparr>b_next := (b_next p)(HEAD := b)\<rparr>)"

text \<open>\<^verbatim>\<open>b->next->prev = b->prev; b->prev->next = b->next;\<close>\<close>

definition unlink_buf :: "nat \<Rightarrow> links \<Rightarrow> links" where
  "unlink_buf b p =
    (let p = p\<lparr>b_prev := (b_prev p)(b_next p b := b_prev p b)\<rparr> in
     p\<lparr>b_next := (b_next p)(b_prev p b := b_next p b)\<rparr>)"

definition binit_links :: "links \<Rightarrow> links" where
  "binit_links p = fold insert_head [0..<NBUF] (p\<lparr>b_prev := (b_prev p)(HEAD := HEAD), b_next := (b_next p)(HEAD := HEAD)\<rparr>)"

definition brelse_links :: "nat \<Rightarrow> links \<Rightarrow> links" where
  "brelse_links b p = insert_head b (unlink_buf b p)"

text \<open>
  The two loops of \<^verbatim>\<open>bget\<close>, along \<^verbatim>\<open>next\<close> or along \<^verbatim>\<open>prev\<close>, from buffer \<open>b\<close> on, until a buffer satisfies \<open>P\<close>;
  \<open>None\<close> when more than \<open>fuel\<close> steps would be needed.
\<close>

fun scan :: "nat \<Rightarrow> (nat \<Rightarrow> nat) \<Rightarrow> (nat \<Rightarrow> bool) \<Rightarrow> nat \<Rightarrow> nat option option" where
  "scan fuel nxt P b =
    (if b = HEAD then Some None
     else if P b then Some (Some b)
     else case fuel of 0 \<Rightarrow> None | Suc n \<Rightarrow> scan n nxt P (nxt b))"

declare scan.simps [simp del]

section \<open>Chains\<close>

text \<open>From \<open>a\<close> through \<open>xs\<close> to \<open>c\<close>, linked in both directions.\<close>

fun chain :: "links \<Rightarrow> nat \<Rightarrow> nat list \<Rightarrow> nat \<Rightarrow> bool" where
  "chain p a [] c \<longleftrightarrow> b_next p a = c \<and> b_prev p c = a"
| "chain p a (x # xs) c \<longleftrightarrow> b_next p a = x \<and> b_prev p x = a \<and> chain p x xs c"

definition linked :: "links \<Rightarrow> nat list \<Rightarrow> bool" where
  "linked p xs \<longleftrightarrow> chain p HEAD xs HEAD \<and> distinct (HEAD # xs)"

lemma chain_cong:
  assumes "\<forall>x \<in> set (a # xs). b_next q x = b_next p x" and "\<forall>x \<in> set (xs @ [c]). b_prev q x = b_prev p x"
  shows "chain q a xs c = chain p a xs c"
  using assms by (induction xs arbitrary: a) auto

lemma chain_neighbours:
  "chain p a (ys @ b # zs) c \<Longrightarrow> b_prev p b = last (a # ys) \<and> b_next p b = hd (zs @ [c])"
proof (induction ys arbitrary: a)
  case Nil
  then show ?case by (cases zs) auto
qed auto

lemma chain_unlink:
  assumes "chain p a (ys @ b # zs) c" and "distinct (a # ys @ b # zs)" and "c \<notin> set (ys @ b # zs)"
  shows "chain (unlink_buf b p) a (ys @ zs) c"
  using assms
proof (induction ys arbitrary: a)
  case Nil
  have q: "unlink_buf b p = p\<lparr>b_prev := (b_prev p)(b_next p b := a), b_next := (b_next p)(a := b_next p b)\<rparr>"
    using Nil by (cases zs) (auto simp: unlink_buf_def Let_def)
  show ?case
  proof (cases zs)
    case (Cons z zs')
    then have "chain (unlink_buf b p) z zs' c = chain p z zs' c" using Nil by (intro chain_cong) (auto simp: q)
    then show ?thesis using Cons Nil by (auto simp: q)
  qed (use Nil q in auto)
next
  case (Cons y ys)
  have nb: "b_prev p b = last (y # ys)" "b_next p b = hd (zs @ [c])" using chain_neighbours [OF Cons.prems(1)] by simp_all
  have pr: "b_prev p b \<in> set (y # ys)" using nb(1) by (simp only: last_in_set list.distinct simp_thms)
  have nx: "b_next p b \<in> insert c (set zs)" using nb(2) by (cases zs) auto
  have "b_next (unlink_buf b p) a = b_next p a" "b_prev (unlink_buf b p) y = b_prev p y"
    using pr nx Cons.prems(2,3) by (auto simp: unlink_buf_def Let_def)
  then show ?case using Cons.IH [of y] Cons.prems by auto
qed

lemma linked_unlink: "linked p xs \<Longrightarrow> b \<in> set xs \<Longrightarrow> linked (unlink_buf b p) (remove1 b xs)"
proof -
  assume l: "linked p xs" and "b \<in> set xs"
  then obtain ys zs where xs: "xs = ys @ b # zs" by (auto simp: in_set_conv_decomp)
  then have "remove1 b xs = ys @ zs" using l by (simp add: linked_def remove1_append)
  then show ?thesis using l xs chain_unlink [of p HEAD ys b zs HEAD] by (auto simp: linked_def)
qed

lemma linked_insert: "linked p xs \<Longrightarrow> b \<notin> set (HEAD # xs) \<Longrightarrow> linked (insert_head b p) (b # xs)"
proof -
  assume l: "linked p xs" and b: "b \<notin> set (HEAD # xs)"
  have hd: "b_next p HEAD = hd (xs @ [HEAD])" using l by (cases xs) (auto simp: linked_def)
  show ?thesis
  proof (cases xs)
    case Nil
    then show ?thesis using l b hd by (simp add: linked_def insert_head_def Let_def)
  next
    case (Cons x xs')
    have "chain (insert_head b p) x xs' HEAD = chain p x xs' HEAD"
      using l b hd Cons by (intro chain_cong) (auto simp: insert_head_def Let_def linked_def)
    then show ?thesis using l b hd Cons by (auto simp: linked_def insert_head_def Let_def)
  qed
qed

lemma linked_binit: "linked (binit_links p) (rev [0..<NBUF])"
proof -
  let ?p = "p\<lparr>b_prev := (b_prev p)(HEAD := HEAD), b_next := (b_next p)(HEAD := HEAD)\<rparr>"
  have "linked (fold insert_head [0..<n] ?p) (rev [0..<n])" if "n \<le> NBUF" for n
    using that
  proof (induction n)
    case 0
    then show ?case by (simp add: linked_def)
  next
    case (Suc n)
    then show ?case using linked_insert [of _ "rev [0..<n]" n] by (simp add: HEAD_def)
  qed
  then show ?thesis by (simp add: binit_links_def)
qed

section \<open>The loops of \<^verbatim>\<open>bget\<close>\<close>

lemma scan_forward:
  assumes "chain p a xs HEAD" and "HEAD \<notin> set xs" and "length xs \<le> n"
  shows "scan n (b_next p) P (b_next p a) = Some (find P xs)"
  using assms
proof (induction xs arbitrary: a n)
  case Nil
  then show ?case by (simp add: scan.simps)
next
  case (Cons x xs)
  then obtain m where n: "n = Suc m" by (cases n) auto
  then show ?case using Cons by (auto simp: scan.simps [of "Suc m"])
qed

lemma chain_rev: "chain \<lparr>b_prev = b_next p, b_next = b_prev p\<rparr> c (rev xs) a = chain p a xs c"
proof -
  have app: "chain p a (ys @ x # zs) c \<longleftrightarrow> chain p a ys x \<and> chain p x zs c" for p a ys x zs c
    by (induction ys arbitrary: a) auto
  show ?thesis
  proof (induction xs arbitrary: a)
    case (Cons x xs)
    then show ?case by (auto simp: app)
  qed auto
qed

lemma scan_backward:
  assumes "chain p HEAD xs a" and "HEAD \<notin> set xs" and "length xs \<le> n"
  shows "scan n (b_prev p) P (b_prev p a) = Some (find P (rev xs))"
  using scan_forward [of "\<lparr>b_prev = b_next p, b_next = b_prev p\<rparr>" a "rev xs" n P] assms by (simp add: chain_rev)

section \<open>Properties\<close>

text \<open>
  (C18) The pointer list implements the list \<open>lru\<close>: \<^verbatim>\<open>binit\<close> links the buffers in the order of \<open>lru\<close> after
  \<open>binit\<close>; on a linked list the loops of \<^verbatim>\<open>bget\<close> along \<^verbatim>\<open>next\<close> and along \<^verbatim>\<open>prev\<close> end, and find the first buffer from
  the most recently and from the least recently used end; and \<^verbatim>\<open>brelse\<close> moves its buffer to the front.
\<close>

theorem bcache_list_implements_lru:
  assumes "linked p (lru s)" and "b \<in> set (lru s)"
  shows "linked (binit_links q) (lru (binit s)) \<and>
    scan (length (lru s)) (b_next p) P (b_next p HEAD) = Some (find P (lru s)) \<and>
    scan (length (lru s)) (b_prev p) P (b_prev p HEAD) = Some (find P (rev (lru s))) \<and>
    linked (brelse_links b p) (b # remove1 b (lru s))"
proof -
  have c: "chain p HEAD (lru s) HEAD" "HEAD \<notin> set (lru s)" "b \<noteq> HEAD" "distinct (lru s)"
    using assms by (auto simp: linked_def)
  have "foldl (\<lambda>l b. b # l) ys xs = rev xs @ ys" for xs ys :: "nat list" by (induction xs arbitrary: ys) auto
  then have "lru (binit s) = rev [0..<NBUF]" by (simp add: binit_def)
  moreover have "linked (brelse_links b p) (b # remove1 b (lru s))"
    unfolding brelse_links_def using linked_unlink [OF assms] c by (intro linked_insert) auto
  ultimately show ?thesis using linked_binit [of q] scan_forward [OF c(1,2)] scan_backward [OF c(1,2)] by simp
qed

text \<open>The list after \<^verbatim>\<open>binit\<close>, and the release of buffer 3.\<close>

definition links_ex :: links where
  "links_ex = \<lparr>b_prev = (\<lambda>_. 0), b_next = (\<lambda>_. 0)\<rparr>"

theorem bcache_list_implements_lru_witness:
  "linked (brelse_links 3 (binit_links links_ex)) (3 # remove1 3 (rev [0..<NBUF])) \<and>
    scan NBUF (b_prev (binit_links links_ex)) (\<lambda>b. b > 1) (b_prev (binit_links links_ex) HEAD) = Some (Some 2)"
proof -
  have n: "lru \<lparr>mem = \<lambda>_. 0, freelist = 0, k_end = 0, procs = [], cur = 0, nextpid = 1, initproc = 0, disk = \<lambda>_. [], disk_writes = [],
      bufs = [], lru = rev [0..<NBUF]\<rparr> = rev [0..<NBUF]" by simp
  have "find (\<lambda>b :: nat. b > 1) [0..<NBUF] = Some 2" by (simp add: NBUF_def upt_conv_Cons)
  then show ?thesis
    using bcache_list_implements_lru [of "binit_links links_ex" "\<lparr>mem = \<lambda>_. 0, freelist = 0, k_end = 0, procs = [], cur = 0, nextpid = 1, initproc = 0,
      disk = \<lambda>_. [], disk_writes = [], bufs = [], lru = rev [0..<NBUF]\<rparr>" 3 links_ex "\<lambda>b. b > 1"] linked_binit [of links_ex]
    unfolding n by (simp add: NBUF_def)
qed

end
