(* ===== verification/Spinlock.thy ===== *)
theory Spinlock
  imports Layout
begin

text \<open>
  Spin locks, \<^verbatim>\<open>kernel/spinlock.c\<close>, on several CPUs. A CPU is its interrupt flag and the two
  counters of \<^verbatim>\<open>struct cpu\<close>. \<^verbatim>\<open>acquire\<close> and \<^verbatim>\<open>release\<close> are split at their accesses to the lock,
  which other CPUs see one by one: the atomic swap of \<^verbatim>\<open>lk->locked\<close>, the stores to
  \<^verbatim>\<open>lk->cpu\<close> and the final store to \<^verbatim>\<open>lk->locked\<close>.
\<close>

record cpu =
  intr :: bool
  noff :: int
  intena :: bool

record spinlock =
  lk_locked :: bool
  lk_cpu :: "nat option"

definition initlock :: spinlock where
  "initlock = \<lparr>lk_locked = False, lk_cpu = None\<rparr>"

section \<open>Nested interrupt disabling\<close>

definition push_off :: "cpu \<Rightarrow> cpu" where
  "push_off c =
    (let old = intr c; c = c\<lparr>intr := False\<rparr>;
         c = (if noff c = 0 then c\<lparr>intena := old\<rparr> else c) in
     c\<lparr>noff := noff c + 1\<rparr>)"

text \<open>A panic is \<open>Inl\<close> of its message.\<close>

definition pop_off :: "cpu \<Rightarrow> string + cpu" where
  "pop_off c =
    (if intr c then Inl ''pop_off - interruptible''
     else if noff c < 1 then Inl ''pop_off''
     else
       let c = c\<lparr>noff := noff c - 1\<rparr> in
       Inr (if noff c = 0 \<and> intena c then c\<lparr>intr := True\<rparr> else c))"

definition holding_lk :: "nat \<Rightarrow> spinlock \<Rightarrow> bool" where
  "holding_lk me lk \<longleftrightarrow> lk_locked lk \<and> lk_cpu lk = Some me"

section \<open>One lock and several CPUs\<close>

text \<open>
  Where a CPU is: outside, spinning on the swap, with the lock taken but \<^verbatim>\<open>lk->cpu\<close> not yet
  set, in the critical section, with \<^verbatim>\<open>lk->cpu\<close> cleared but the lock not yet released.
\<close>

datatype pc = Outside | Spinning | Taken | Critical | Releasing

record smp =
  lk :: spinlock
  cpus :: "cpu list"
  pcs :: "pc list"

definition set_cpu :: "nat \<Rightarrow> cpu \<Rightarrow> pc \<Rightarrow> smp \<Rightarrow> smp" where
  "set_cpu me c p s = s\<lparr>cpus := (cpus s)[me := c], pcs := (pcs s)[me := p]\<rparr>"

text \<open>\<^verbatim>\<open>push_off(); if(holding(lk)) panic("acquire");\<close>\<close>

definition acquire_enter :: "nat \<Rightarrow> smp \<Rightarrow> (unit, smp) kout" where
  "acquire_enter me s =
    (let c = push_off (cpus s ! me) in
     if holding_lk me (lk s) then Panic ''acquire'' else Ok () (set_cpu me c Spinning s))"

text \<open>One turn of \<^verbatim>\<open>while(__sync_lock_test_and_set(&lk->locked, 1) != 0)\<close>.\<close>

definition acquire_swap :: "nat \<Rightarrow> smp \<Rightarrow> (unit, smp) kout" where
  "acquire_swap me s =
    (let old = lk_locked (lk s); s = s\<lparr>lk := (lk s)\<lparr>lk_locked := True\<rparr>\<rparr> in
     Ok () (if old then s else set_cpu me (cpus s ! me) Taken s))"

text \<open>\<^verbatim>\<open>lk->cpu = mycpu();\<close>\<close>

definition acquire_own :: "nat \<Rightarrow> smp \<Rightarrow> (unit, smp) kout" where
  "acquire_own me s = Ok () (set_cpu me (cpus s ! me) Critical (s\<lparr>lk := (lk s)\<lparr>lk_cpu := Some me\<rparr>\<rparr>))"

text \<open>\<^verbatim>\<open>if(!holding(lk)) panic("release"); lk->cpu = 0;\<close>\<close>

definition release_disown :: "nat \<Rightarrow> smp \<Rightarrow> (unit, smp) kout" where
  "release_disown me s =
    (if \<not> holding_lk me (lk s) then Panic ''release''
     else Ok () (set_cpu me (cpus s ! me) Releasing (s\<lparr>lk := (lk s)\<lparr>lk_cpu := None\<rparr>\<rparr>)))"

text \<open>\<^verbatim>\<open>__sync_lock_release(&lk->locked); pop_off();\<close>\<close>

definition release_unlock :: "nat \<Rightarrow> smp \<Rightarrow> (unit, smp) kout" where
  "release_unlock me s =
    (case pop_off (cpus s ! me) of
       Inl msg \<Rightarrow> Panic msg
     | Inr c \<Rightarrow> Ok () (set_cpu me c Outside (s\<lparr>lk := (lk s)\<lparr>lk_locked := False\<rparr>\<rparr>)))"

text \<open>The whole functions; \<open>acquire\<close> stays in its loop (\<open>Sleep\<close>) while another CPU has the lock.\<close>

definition acquire :: "nat \<Rightarrow> smp \<Rightarrow> (unit, smp) kout" where
  "acquire me s =
    kbind (acquire_enter me s) (\<lambda>_ s.
    if lk_locked (lk s) then Sleep s
    else kbind (acquire_swap me s) (\<lambda>_ s. acquire_own me s))"

definition release :: "nat \<Rightarrow> smp \<Rightarrow> (unit, smp) kout" where
  "release me s = kbind (release_disown me s) (\<lambda>_ s. release_unlock me s)"

text \<open>The step a CPU takes next, and the runs in which the CPUs take their steps in any order.\<close>

definition cpu_step :: "nat \<Rightarrow> smp \<Rightarrow> (unit, smp) kout" where
  "cpu_step me s =
    (case pcs s ! me of
       Outside \<Rightarrow> acquire_enter me s
     | Spinning \<Rightarrow> acquire_swap me s
     | Taken \<Rightarrow> acquire_own me s
     | Critical \<Rightarrow> release_disown me s
     | Releasing \<Rightarrow> release_unlock me s)"

inductive interleaving :: "smp \<Rightarrow> smp \<Rightarrow> bool" for s0 where
  start: "interleaving s0 s0"
| step: "interleaving s0 s \<Longrightarrow> me < length (cpus s) \<Longrightarrow> cpu_step me s = Ok () t \<Longrightarrow> interleaving s0 t"

section \<open>Mutual exclusion\<close>

definition owner :: "pc \<Rightarrow> bool" where
  "owner p \<longleftrightarrow> p \<in> {Taken, Critical, Releasing}"

definition cpu_ok :: "pc \<Rightarrow> cpu \<Rightarrow> bool" where
  "cpu_ok p c \<longleftrightarrow> 0 \<le> noff c \<and> (0 < noff c \<longrightarrow> \<not> intr c) \<and> (p \<noteq> Outside \<longrightarrow> 0 < noff c)"

definition lock_inv :: "smp \<Rightarrow> bool" where
  "lock_inv s \<longleftrightarrow> length (pcs s) = length (cpus s) \<and>
    (\<forall>i<length (cpus s). cpu_ok (pcs s ! i) (cpus s ! i)) \<and>
    (lk_locked (lk s) \<longleftrightarrow> (\<exists>i<length (cpus s). owner (pcs s ! i))) \<and>
    (\<forall>i<length (cpus s). \<forall>j<length (cpus s). owner (pcs s ! i) \<longrightarrow> owner (pcs s ! j) \<longrightarrow> i = j) \<and>
    (\<forall>i. lk_cpu (lk s) = Some i \<longleftrightarrow> i < length (cpus s) \<and> pcs s ! i = Critical)"

lemmas lock_defs = acquire_enter_def acquire_swap_def acquire_own_def release_disown_def
  release_unlock_def push_off_def pop_off_def holding_lk_def set_cpu_def owner_def cpu_ok_def

lemma length_cpu_step: "cpu_step me s = Ok () t \<Longrightarrow> length (cpus t) = length (cpus s)"
  by (auto simp: cpu_step_def lock_defs Let_def split: pc.splits if_splits sum.splits)

text \<open>A CPU whose state satisfies the invariant does not panic in its next step.\<close>

lemma cpu_step_Ok:
  assumes "lock_inv s" and "me < length (cpus s)"
  shows "\<exists>t. cpu_step me s = Ok () t"
proof (cases "pcs s ! me")
  case Critical
  then have "lk_cpu (lk s) = Some me" "lk_locked (lk s)"
    using assms by (auto simp: lock_inv_def owner_def)
  with Critical show ?thesis by (simp add: cpu_step_def release_disown_def holding_lk_def)
next
  case Releasing
  then have "cpu_ok Releasing (cpus s ! me)" using assms by (auto simp: lock_inv_def)
  then have "\<not> intr (cpus s ! me)" "\<not> noff (cpus s ! me) < 1" by (auto simp: cpu_ok_def)
  with Releasing show ?thesis by (simp add: cpu_step_def release_unlock_def pop_off_def Let_def)
next
  case Outside
  then have "lk_cpu (lk s) \<noteq> Some me" using assms by (auto simp: lock_inv_def)
  with Outside show ?thesis by (simp add: cpu_step_def acquire_enter_def holding_lk_def)
qed (simp_all add: cpu_step_def acquire_swap_def acquire_own_def Let_def)

text \<open>What a step of \<open>me\<close> to the place \<open>p\<close> has to keep: the lock word and its owner field.\<close>

lemma lock_inv_upd:
  assumes s: "lock_inv s" and me: "me < length (cpus s)" and c: "cpu_ok p c"
    and own: "owner p \<Longrightarrow> owner (pcs s ! me) \<or> \<not> lk_locked (lk s)"
    and locked: "lk_locked L \<longleftrightarrow> owner p \<or> lk_locked (lk s) \<and> \<not> owner (pcs s ! me)"
    and field: "lk_cpu L = (if p = Critical then Some me else if pcs s ! me = Critical then None else lk_cpu (lk s))"
  shows "lock_inv (set_cpu me c p (s\<lparr>lk := L\<rparr>))"
proof -
  let ?n = "length (cpus s)"
  have n: "length (pcs s) = ?n" and oks: "\<And>i. i < ?n \<Longrightarrow> cpu_ok (pcs s ! i) (cpus s ! i)"
    and l: "lk_locked (lk s) \<longleftrightarrow> (\<exists>i<?n. owner (pcs s ! i))"
    and u: "\<And>i j. i < ?n \<Longrightarrow> j < ?n \<Longrightarrow> owner (pcs s ! i) \<Longrightarrow> owner (pcs s ! j) \<Longrightarrow> i = j"
    and f: "\<And>i. lk_cpu (lk s) = Some i \<longleftrightarrow> i < ?n \<and> pcs s ! i = Critical"
    using s by (auto simp: lock_inv_def)
  let ?P = "(pcs s)[me := p]"
  have P: "?P ! i = (if i = me then p else pcs s ! i)" if "i < ?n" for i using that n by simp
  have others: "\<not> owner (pcs s ! i)" if "i < ?n" "i \<noteq> me" "owner p" for i
    using own [OF that(3)] u [OF that(1) me] l that by blast
  have "\<forall>i<?n. cpu_ok (?P ! i) ((cpus s)[me := c] ! i)"
    using c oks n me by (auto simp: nth_list_update)
  moreover have "lk_locked L \<longleftrightarrow> (\<exists>i<?n. owner (?P ! i))"
  proof (cases "owner p")
    case True
    then show ?thesis using locked me P by auto
  next
    case False
    then have "(\<exists>i<?n. owner (?P ! i)) \<longleftrightarrow> (\<exists>i<?n. i \<noteq> me \<and> owner (pcs s ! i))"
      using P by (auto split: if_splits)
    also have "\<dots> \<longleftrightarrow> lk_locked (lk s) \<and> \<not> owner (pcs s ! me)" using l u me by blast
    finally show ?thesis using locked False by simp
  qed
  moreover have "i = j" if "i < ?n" "j < ?n" "owner (?P ! i)" "owner (?P ! j)" for i j
    using that P others u by (metis (full_types))
  moreover have "lk_cpu L = Some i \<longleftrightarrow> i < ?n \<and> ?P ! i = Critical" for i
  proof (cases "p = Critical")
    case True
    then have "owner p" by (simp add: owner_def)
    with True show ?thesis using field me P others by (auto simp: owner_def split: if_splits)
  next
    case False
    have "pcs s ! i \<noteq> Critical" if "i < ?n" "i \<noteq> me" "pcs s ! me = Critical" for i
      using u [OF that(1) me] that by (auto simp: owner_def)
    with False show ?thesis using field f me P by (auto split: if_splits)
  qed
  ultimately show ?thesis using n unfolding lock_inv_def by (auto simp: set_cpu_def)
qed

lemma lock_inv_step:
  assumes s: "lock_inv s" and me: "me < length (cpus s)" and t: "cpu_step me s = Ok () t"
  shows "lock_inv t"
proof -
  let ?c = "cpus s ! me"
  have ok: "cpu_ok (pcs s ! me) ?c" using s me by (simp add: lock_inv_def)
  note upd = lock_inv_upd [OF s me]
  show ?thesis
  proof (cases "pcs s ! me")
    case Outside
    have "cpu_ok Spinning (push_off ?c)" using ok by (auto simp: cpu_ok_def push_off_def Let_def)
    then have "lock_inv (set_cpu me (push_off ?c) Spinning (s\<lparr>lk := lk s\<rparr>))"
      by (rule upd) (simp_all add: Outside owner_def)
    then show ?thesis using t Outside by (auto simp: cpu_step_def acquire_enter_def Let_def split: if_splits)
  next
    case Spinning
    show ?thesis
    proof (cases "lk_locked (lk s)")
      case True
      have "t = s\<lparr>lk := (lk s)\<lparr>lk_locked := True\<rparr>\<rparr>"
        using t Spinning True by (simp add: cpu_step_def acquire_swap_def)
      also have "\<dots> = s" using True by simp
      finally show ?thesis using s by simp
    next
      case False
      then have "lock_inv (set_cpu me ?c Taken (s\<lparr>lk := (lk s)\<lparr>lk_locked := True\<rparr>\<rparr>))"
        using ok Spinning by (intro upd) (simp_all add: owner_def cpu_ok_def)
      then show ?thesis using t Spinning False by (simp add: cpu_step_def acquire_swap_def)
    qed
  next
    case Taken
    then have "lk_locked (lk s)" using s me by (auto simp: lock_inv_def owner_def)
    then have "lock_inv (set_cpu me ?c Critical (s\<lparr>lk := (lk s)\<lparr>lk_cpu := Some me\<rparr>\<rparr>))"
      using ok Taken by (intro upd) (simp_all add: owner_def cpu_ok_def)
    then show ?thesis using t Taken by (simp add: cpu_step_def acquire_own_def)
  next
    case Critical
    then have "lk_locked (lk s)" using s me by (auto simp: lock_inv_def owner_def)
    then have "lock_inv (set_cpu me ?c Releasing (s\<lparr>lk := (lk s)\<lparr>lk_cpu := None\<rparr>\<rparr>))"
      using ok Critical by (intro upd) (simp_all add: owner_def cpu_ok_def)
    then show ?thesis using t Critical by (auto simp: cpu_step_def release_disown_def split: if_splits)
  next
    case Releasing
    then obtain c where c: "pop_off ?c = Inr c" "t = set_cpu me c Outside (s\<lparr>lk := (lk s)\<lparr>lk_locked := False\<rparr>\<rparr>)"
      using t by (auto simp: cpu_step_def release_unlock_def split: sum.splits)
    then have "cpu_ok Outside c"
      using ok by (auto simp: cpu_ok_def pop_off_def Let_def split: if_splits)
    then show ?thesis unfolding c(2) using Releasing by (intro upd) (simp_all add: owner_def)
  qed
qed

lemma interleaving_inv: "interleaving s0 s \<Longrightarrow> lock_inv s0 \<Longrightarrow> lock_inv s"
  by (induction rule: interleaving.induct) (auto intro: lock_inv_step)

lemma lock_inv_init:
  assumes "\<forall>c\<in>set cs. cpu_ok Outside c"
  shows "lock_inv \<lparr>lk = initlock, cpus = cs, pcs = replicate (length cs) Outside\<rparr>"
  using assms by (simp add: lock_inv_def initlock_def owner_def)

text \<open>
  (C5) Mutual exclusion: in every interleaving of the steps of \<^verbatim>\<open>acquire\<close> and \<^verbatim>\<open>release\<close> on any number of
  CPUs, from a free lock, no step panics, at most one CPU is between the swap that takes the
  lock and the store that frees it, and a CPU in there has its interrupts off.
\<close>

theorem spinlock_mutex:
  assumes "\<forall>c\<in>set cs. cpu_ok Outside c"
    and "interleaving \<lparr>lk = initlock, cpus = cs, pcs = replicate (length cs) Outside\<rparr> s"
  shows "\<forall>i<length (cpus s).
      (\<exists>t. cpu_step i s = Ok () t) \<and>
      (owner (pcs s ! i) \<longrightarrow> \<not> intr (cpus s ! i) \<and> (\<forall>j<length (cpus s). owner (pcs s ! j) \<longrightarrow> j = i))"
proof -
  have inv: "lock_inv s" using interleaving_inv [OF assms(2) lock_inv_init [OF assms(1)]] .
  then have "cpu_ok (pcs s ! i) (cpus s ! i)" if "i < length (cpus s)" for i
    using that by (simp add: lock_inv_def)
  then have "\<not> intr (cpus s ! i)" if "i < length (cpus s)" "owner (pcs s ! i)" for i
    using that by (fastforce simp: cpu_ok_def owner_def)
  with inv show ?thesis using cpu_step_Ok by (auto simp: lock_inv_def)
qed

text \<open>Two CPUs: the first takes the lock, the second spins.\<close>

theorem spinlock_mutex_witness:
  "\<exists>s. interleaving \<lparr>lk = initlock, cpus = replicate 2 \<lparr>intr = True, noff = 0, intena = False\<rparr>,
        pcs = replicate 2 Outside\<rparr> s \<and>
     pcs s = [Critical, Spinning] \<and>
     (\<forall>i<length (cpus s). (\<exists>t. cpu_step i s = Ok () t) \<and>
       (owner (pcs s ! i) \<longrightarrow> \<not> intr (cpus s ! i) \<and> (\<forall>j<length (cpus s). owner (pcs s ! j) \<longrightarrow> j = i)))"
proof -
  let ?c = "\<lparr>intr = True, noff = 0, intena = False\<rparr>"
  let ?c' = "\<lparr>intr = False, noff = 1, intena = True\<rparr>"
  let ?s0 = "\<lparr>lk = initlock, cpus = [?c, ?c], pcs = replicate (length [?c, ?c]) Outside\<rparr>"
  note steps = cpu_step_def lock_defs initlock_def Let_def numeral_2_eq_2
  have "interleaving ?s0 \<lparr>lk = initlock, cpus = [?c', ?c], pcs = [Spinning, Outside]\<rparr>"
    by (rule interleaving.step [OF interleaving.start, where me = 0]) (simp_all add: steps)
  then have "interleaving ?s0 \<lparr>lk = initlock, cpus = [?c', ?c'], pcs = [Spinning, Spinning]\<rparr>"
    by (rule interleaving.step [where me = 1]) (simp_all add: steps)
  then have "interleaving ?s0 \<lparr>lk = \<lparr>lk_locked = True, lk_cpu = None\<rparr>, cpus = [?c', ?c'], pcs = [Taken, Spinning]\<rparr>"
    by (rule interleaving.step [where me = 0]) (simp_all add: steps)
  then have "interleaving ?s0 \<lparr>lk = \<lparr>lk_locked = True, lk_cpu = Some 0\<rparr>, cpus = [?c', ?c'], pcs = [Critical, Spinning]\<rparr>"
    by (rule interleaving.step [where me = 0]) (simp_all add: steps)
  moreover note spinlock_mutex [of "[?c, ?c]", OF _ this]
  ultimately show ?thesis
    by (intro exI [of _ "\<lparr>lk = \<lparr>lk_locked = True, lk_cpu = Some 0\<rparr>, cpus = [?c', ?c'], pcs = [Critical, Spinning]\<rparr>"])
      (simp add: cpu_ok_def numeral_2_eq_2)
qed

end
