(* ===== verification/Usys.thy ===== *)
theory Usys
  imports Cstring
begin

text \<open>
  The system call interface a user program sees (\<^verbatim>\<open>user/user.h\<close>, \<^verbatim>\<open>user/usys.pl\<close>). A run of a user process
  is described by the calls it makes and the answers it gets: \<open>replies\<close> holds the return values
  still to come, each with the bytes the kernel stores for the call, and \<open>calls\<close> the calls made so far.
  A theorem about a program quantifies over the replies, so it holds whatever the kernel answers.
  A process that asks for an answer when no reply is left is waiting inside the call. A call whose result
  the program does not look at is only recorded. \<open>fork\<close> answers 0 in the child and the pid in the parent, and
  the run follows the process that got the answer. A \<open>Read\<close> is recorded with the bytes it delivered.
\<close>

section \<open>Calls, replies and outcomes\<close>

datatype scall =
    Fork | Exit int | Wait | Pipe | Write int bytes | Read int nat bytes | Close int | Kill int
  | Exec bytes "bytes list" | Open bytes int | Mknod bytes int int | Unlink bytes | Fstat int
  | Link bytes bytes | Mkdir bytes | Chdir bytes | Dup int | Getpid | Sbrk int int | Pause int
  | Uptime | Fsinfo

record world =
  replies :: "(int \<times> bytes) list"
  calls :: "scall list"

text \<open>
  The program goes on with a value, has called \<^verbatim>\<open>exit\<close>, has been replaced by a successful \<^verbatim>\<open>exec\<close>, or waits in a
  call.
\<close>

datatype 'a ures = Ret 'a world | Exited int world | Replaced world | Waiting world

fun ubind :: "'a ures \<Rightarrow> ('a \<Rightarrow> world \<Rightarrow> 'b ures) \<Rightarrow> 'b ures" where
  "ubind (Ret x w) f = f x w"
| "ubind (Exited n w) f = Exited n w"
| "ubind (Replaced w) f = Replaced w"
| "ubind (Waiting w) f = Waiting w"

lemma ubind_cong [fundef_cong]:
  "m = m' \<Longrightarrow> (\<And>x w. m' = Ret x w \<Longrightarrow> f x w = g x w) \<Longrightarrow> ubind m f = ubind m' g"
  by (cases m') auto

lemma ubind_Ret_iff: "ubind m f = Ret y t \<longleftrightarrow> (\<exists>x w. m = Ret x w \<and> f x w = Ret y t)"
  by (cases m) auto

lemma ubind_RetE [elim!]:
  assumes "ubind m f = Ret y t"
  obtains x w where "m = Ret x w" and "f x w = Ret y t"
  using assms by (auto simp: ubind_Ret_iff)

lemma ubind_assoc: "ubind (ubind m f) g = ubind m (\<lambda>x w. ubind (f x w) g)"
  by (cases m) auto

lemma ubind_Ret [simp]: "ubind m Ret = m"
  by (cases m) auto

fun final_world :: "'a ures \<Rightarrow> world" where
  "final_world (Ret x w) = w"
| "final_world (Exited n w) = w"
| "final_world (Replaced w) = w"
| "final_world (Waiting w) = w"

section \<open>The stubs\<close>

definition tell :: "scall \<Rightarrow> world \<Rightarrow> world" where
  "tell c w = w\<lparr>calls := calls w @ [c]\<rparr>"

definition ask :: "scall \<Rightarrow> world \<Rightarrow> (int \<times> bytes) ures" where
  "ask c w =
    (case replies w of
       [] \<Rightarrow> Waiting (tell c w)
     | r # rs \<Rightarrow> Ret r ((tell c w)\<lparr>replies := rs\<rparr>))"

text \<open>A call that only returns a number.\<close>

definition syscall1 :: "scall \<Rightarrow> world \<Rightarrow> int ures" where
  "syscall1 c w = ubind (ask c w) (\<lambda>(v, _) w. Ret v w)"

definition exit :: "int \<Rightarrow> world \<Rightarrow> 'a ures" where
  "exit n w = Exited n (tell (Exit n) w)"

text \<open>What a \<^verbatim>\<open>read\<close> of at most \<open>n\<close> bytes delivers.\<close>

fun read_reply :: "nat \<Rightarrow> int \<times> bytes \<Rightarrow> int \<times> bytes" where
  "read_reply n (v, bs) = (if v < 0 then (-1, []) else (int (length (take n bs)), take n bs))"

definition read :: "int \<Rightarrow> nat \<Rightarrow> world \<Rightarrow> (int \<times> bytes) ures" where
  "read fd n w =
    (case replies w of
       [] \<Rightarrow> Waiting (tell (Read fd n []) w)
     | r # rs \<Rightarrow> Ret (read_reply n r) ((tell (Read fd n (snd (read_reply n r))) w)\<lparr>replies := rs\<rparr>))"

definition exec :: "bytes \<Rightarrow> bytes list \<Rightarrow> world \<Rightarrow> int ures" where
  "exec path argv w =
    ubind (ask (Exec path argv) w) (\<lambda>(v, _) w. if v < 0 then Ret (-1) w else Replaced w)"

definition fstat :: "int \<Rightarrow> world \<Rightarrow> (int \<times> bytes) ures" where
  "fstat fd w = ask (Fstat fd) w"

lemma replies_tell [simp]: "replies (tell c w) = replies w"
  by (simp add: tell_def)

lemma calls_tell [simp]: "calls (tell c w) = calls w @ [c]"
  by (simp add: tell_def)

lemma ask_decreases: "ask c w = Ret x w' \<Longrightarrow> length (replies w') < length (replies w)"
  by (auto simp: ask_def split: list.splits)

lemma syscall1_decreases: "syscall1 c w = Ret x w' \<Longrightarrow> length (replies w') < length (replies w)"
  by (auto simp: syscall1_def dest!: ask_decreases)

lemma read_decreases: "read fd n w = Ret x w' \<Longrightarrow> length (replies w') < length (replies w)"
  by (auto simp: read_def split: list.splits)

lemma read_Ret:
  assumes "read fd n w = Ret (k, bs) w'"
  shows "length bs \<le> n" and "0 < k \<longleftrightarrow> bs \<noteq> []" and "k < 0 \<or> k = int (length bs)"
    and "calls w' = calls w @ [Read fd n bs]"
  using assms by (auto simp: read_def split: list.splits if_splits)

section \<open>Observations\<close>

text \<open>The bytes a list of calls delivered from a descriptor and wrote to one.\<close>

definition input_from :: "int \<Rightarrow> scall list \<Rightarrow> bytes" where
  "input_from fd cs = concat (map (\<lambda>c. case c of Read f n bs \<Rightarrow> if f = fd then bs else [] | _ \<Rightarrow> []) cs)"

definition output_to :: "int \<Rightarrow> scall list \<Rightarrow> bytes" where
  "output_to fd cs = concat (map (\<lambda>c. case c of Write f bs \<Rightarrow> if f = fd then bs else [] | _ \<Rightarrow> []) cs)"

lemma input_from_append [simp]: "input_from fd (xs @ ys) = input_from fd xs @ input_from fd ys"
  by (simp add: input_from_def)

lemma output_to_append [simp]: "output_to fd (xs @ ys) = output_to fd xs @ output_to fd ys"
  by (simp add: output_to_def)

lemma input_from_simps [simp]:
  "input_from fd [] = []"
  "input_from fd (Read f n bs # cs) = (if f = fd then bs else []) @ input_from fd cs"
  "input_from fd (Write f bs # cs) = input_from fd cs"
  by (simp_all add: input_from_def)

lemma output_to_simps [simp]:
  "output_to fd [] = []"
  "output_to fd (Write f bs # cs) = (if f = fd then bs else []) @ output_to fd cs"
  "output_to fd (Read f n bs # cs) = output_to fd cs"
  by (simp_all add: output_to_def)

end
