(* ===== verification/Ulib.thy ===== *)
theory Ulib
  imports Usys Cstring
begin

text \<open>
  The user library \<^verbatim>\<open>user/ulib.c\<close>. As in \<open>Cstring\<close>, \<^verbatim>\<open>memset\<close> and \<^verbatim>\<open>memmove\<close> work on memory through pointers
  and the string routines on byte lists. Routines the kernel also has carry a \<open>u\<close> in front of their name.
\<close>

section \<open>Definitions\<close>

definition start :: "(world \<Rightarrow> int ures) \<Rightarrow> world \<Rightarrow> unit ures" where
  "start main w = ubind (main w) (\<lambda>r w. exit r w)"

text \<open>The bytes \<^verbatim>\<open>strcpy\<close> stores at its destination.\<close>

function strcpy :: "bytes \<Rightarrow> bytes" where
  "strcpy t = (if chd t \<noteq> 0 then chd t # strcpy (tl t) else [0])"
  by pat_completeness auto
termination
  by (relation "measure length") (auto simp: chd_def split: list.splits)

function strcmp :: "bytes \<Rightarrow> bytes \<Rightarrow> int" where
  "strcmp p q = (if chd p \<noteq> 0 \<and> chd p = chd q then strcmp (tl p) (tl q) else uint (chd p) - uint (chd q))"
  by pat_completeness auto
termination
  by (relation "measure (\<lambda>(p, q). length p)") (auto simp: chd_def split: list.splits)

function ustrlen :: "bytes \<Rightarrow> nat" where
  "ustrlen s = (if chd s \<noteq> 0 then Suc (ustrlen (tl s)) else 0)"
  by pat_completeness auto
termination
  by (relation "measure length") (auto simp: chd_def split: list.splits)

definition umemset :: "memory \<Rightarrow> u64 \<Rightarrow> u8 \<Rightarrow> nat \<Rightarrow> memory" where
  "umemset m dst c n = memset_loop m dst c 0 n"

text \<open>The string from the first \<open>c\<close> on.\<close>

function strchr :: "bytes \<Rightarrow> u8 \<Rightarrow> bytes option" where
  "strchr s c = (if chd s \<noteq> 0 then (if chd s = c then Some s else strchr (tl s) c) else None)"
  by pat_completeness auto
termination
  by (relation "measure (\<lambda>(s, c). length s)") (auto simp: chd_def split: list.splits)

text \<open>\<open>gets_loop\<close> has the bytes read so far; \<open>gets\<close> gives the contents of the buffer up to the NUL it stores.\<close>

function gets_loop :: "nat \<Rightarrow> bytes \<Rightarrow> world \<Rightarrow> bytes ures" where
  "gets_loop nbuf buf w =
    (if length buf + 1 < nbuf then
       ubind (read 0 1 w) (\<lambda>(cc, cs) w.
         if cc < 1 then Ret buf w
         else if chd cs = 10 \<or> chd cs = 13 then Ret (buf @ [chd cs]) w
         else gets_loop nbuf (buf @ [chd cs]) w)
     else Ret buf w)"
  by pat_completeness auto
termination
  by (relation "measure (\<lambda>(nbuf, buf, w). nbuf - length buf)") auto

definition gets :: "nat \<Rightarrow> world \<Rightarrow> bytes ures" where
  "gets nbuf w = ubind (gets_loop nbuf [] w) (\<lambda>buf w. Ret (buf @ [0]) w)"

definition ustat :: "bytes \<Rightarrow> world \<Rightarrow> (int \<times> bytes) ures" where
  "ustat n w =
    ubind (syscall1 (Open n 0) w) (\<lambda>fd w.
    if fd < 0 then Ret (-1, []) w
    else ubind (fstat fd w) (\<lambda>r w. Ret r (tell (Close fd) w)))"

function atoi_loop :: "32 word \<Rightarrow> bytes \<Rightarrow> 32 word" where
  "atoi_loop n s = (if 48 \<le> chd s \<and> chd s \<le> 57 then atoi_loop (n * 10 + ucast (chd s) - 48) (tl s) else n)"
  by pat_completeness auto
termination
  by (relation "measure (\<lambda>(n, s). length s)") (auto simp: chd_def split: list.splits)

definition atoi :: "bytes \<Rightarrow> int" where
  "atoi s = sint (atoi_loop 0 s)"

definition umemmove :: "memory \<Rightarrow> u64 \<Rightarrow> u64 \<Rightarrow> nat \<Rightarrow> memory" where
  "umemmove m dst src n =
    (if src > dst then copy_up m dst src n
     else copy_down m (dst + of_nat n) (src + of_nat n) n)"

fun umemcmp :: "bytes \<Rightarrow> bytes \<Rightarrow> nat \<Rightarrow> int" where
  "umemcmp p1 p2 0 = 0"
| "umemcmp p1 p2 (Suc n) = (if chd p1 \<noteq> chd p2 then uint (chd p1) - uint (chd p2) else umemcmp (tl p1) (tl p2) n)"

definition umemcpy :: "memory \<Rightarrow> u64 \<Rightarrow> u64 \<Rightarrow> nat \<Rightarrow> memory" where
  "umemcpy m dst src n = umemmove m dst src n"

definition sbrk :: "int \<Rightarrow> world \<Rightarrow> int ures" where
  "sbrk n w = syscall1 (Sbrk n 1) w"

definition sbrklazy :: "int \<Rightarrow> world \<Rightarrow> int ures" where
  "sbrklazy n w = syscall1 (Sbrk n 2) w"

declare strcpy.simps [simp del] strcmp.simps [simp del] ustrlen.simps [simp del] strchr.simps [simp del]
  gets_loop.simps [simp del] atoi_loop.simps [simp del]

section \<open>Strings\<close>

lemma cstr_nonzero: "b \<in> set (cstr s) \<Longrightarrow> b \<noteq> 0"
  by (auto simp: cstr_def dest: set_takeWhileD)

lemma strcpy_cstr: "strcpy t = cstr t @ [0]"
  by (induction t rule: strcpy.induct) (subst strcpy.simps, subst cstr_chd, auto)

lemma ustrlen_cstr: "ustrlen s = length (cstr s)"
  by (induction s rule: ustrlen.induct) (subst ustrlen.simps, subst cstr_chd, auto)

lemma strcmp_eq_0: "strcmp p q = 0 \<longleftrightarrow> cstr p = cstr q"
  by (induction p q rule: strcmp.induct)
    (subst strcmp.simps, subst (1 2) cstr_chd, auto simp: word_uint_eq_iff)

lemma strchr_None: "strchr s c = None \<longleftrightarrow> c \<notin> set (cstr s)"
proof (induction s c rule: strchr.induct)
  case (1 s c)
  show ?case using 1 by (subst strchr.simps, subst cstr_chd) auto
qed

lemma strchr_Some:
  "strchr s c = Some q \<Longrightarrow> \<exists>p. s = p @ q \<and> c \<notin> set p \<and> 0 \<notin> set p \<and> q \<noteq> [] \<and> hd q = c \<and> c \<noteq> 0"
proof (induction s c rule: strchr.induct)
  case (1 s c)
  show ?case
  proof (cases "chd s = c")
    case True
    then have "q = s" and "chd s \<noteq> 0" using "1.prems" by (auto simp: strchr.simps [of s] split: if_splits)
    with True show ?thesis by (cases s) (auto intro!: exI [of _ "[]"])
  next
    case False
    then have s: "chd s \<noteq> 0" and q: "strchr (tl s) c = Some q"
      using "1.prems" by (auto simp: strchr.simps [of s] split: if_splits)
    from "1.IH" [OF s False q] obtain p where "tl s = p @ q \<and> c \<notin> set p \<and> 0 \<notin> set p \<and> q \<noteq> [] \<and> hd q = c \<and> c \<noteq> 0"
      by blast
    with s False show ?thesis by (cases s) (auto intro!: exI [of _ "hd s # p"])
  qed
qed

lemma strchr_split: "c \<notin> set p \<Longrightarrow> 0 \<notin> set p \<Longrightarrow> c \<noteq> 0 \<Longrightarrow> strchr (p @ c # r) c = Some (c # r)"
  by (induction p) (auto simp: strchr.simps [of "_ # _"])

lemma umemcmp_memcmp: "umemcmp p q n = memcmp p q n"
  by (induction p q n rule: umemcmp.induct) auto

section \<open>The two memmoves\<close>

text \<open>
  The contract of a memory copy, which the kernel's \<^verbatim>\<open>memmove\<close> and the library's meet although they choose
  the direction of their loop by different tests.
\<close>

locale mem_copier =
  fixes copy :: "memory \<Rightarrow> u64 \<Rightarrow> u64 \<Rightarrow> nat \<Rightarrow> memory"
  assumes copy_eq: "unat dst + n < 2 ^ 64 \<Longrightarrow> unat src + n < 2 ^ 64 \<Longrightarrow>
    copy m dst src n = (\<lambda>a. if unat (a - dst) < n then m (src + (a - dst)) else m a)"
begin

lemma copy_put: "unat dst + n < 2 ^ 64 \<Longrightarrow> unat src + n < 2 ^ 64 \<Longrightarrow>
    copy m dst src n = mem_put m dst (mem_bytes m src n)"
  by (auto simp: copy_eq mem_put_def fun_eq_iff)

lemma copied_bytes:
  assumes "unat dst + n < 2 ^ 64" and "unat src + n < 2 ^ 64"
  shows "mem_bytes (copy m dst src n) dst n = mem_bytes m src n"
  using copy_put [OF assms] mem_bytes_put_same [of "mem_bytes m src n" m dst] assms(1) by simp

lemma copy_keeps:
  assumes "unat dst + n < 2 ^ 64" and "unat src + n < 2 ^ 64" and "disjoint_runs a k dst n"
  shows "mem_bytes (copy m dst src n) a k = mem_bytes m a k"
  using copy_put [OF assms(1,2)] mem_bytes_put_other [of a k dst "mem_bytes m src n" m] assms(3) by simp

end

lemma umemmove_eq:
  assumes "unat dst + n < 2 ^ 64" and "unat src + n < 2 ^ 64"
  shows "umemmove m dst src n = (\<lambda>a. if unat (a - dst) < n then m (src + (a - dst)) else m a)"
proof -
  have addr: "unat (dst + of_nat i) = unat dst + i" "unat (src + of_nat i) = unat src + i" if "i \<le> n" for i
    using that assms by (simp_all add: unat_word_ariths)
  have meet: "unat dst + i = unat src + j" if "dst + of_nat i = src + of_nat j" "i < n" "j < n" for i j
    using that addr by (metis less_imp_le)
  show ?thesis
  proof (cases "dst < src")
    case True
    then have "unat dst < unat src" by (simp add: word_less_nat_alt)
    then have "dst + of_nat i \<noteq> src + of_nat j" if "i < j" "j < n" for i j
      using meet [of i j] that by auto
    then have "copy_up m dst src n = (\<lambda>a. if unat (a - dst) < n then m (src + (a - dst)) else m a)"
      using assms(1) by (intro copy_up_eq) auto
    with True show ?thesis by (simp add: umemmove_def)
  next
    case False
    then have "\<not> unat dst < unat src" by (simp add: word_less_nat_alt)
    then have "dst + of_nat i \<noteq> src + of_nat j" if "j < i" "i < n" for i j
      using meet [of i j] that by auto
    then have "copy_down m (dst + of_nat n) (src + of_nat n) n =
        (\<lambda>a. if unat (a - dst) < n then m (src + (a - dst)) else m a)"
      using assms(1) by (intro copy_down_eq) auto
    with False show ?thesis by (simp add: umemmove_def)
  qed
qed

interpretation kmove: mem_copier memmove
  by unfold_locales (rule memmove_eq)

interpretation umove: mem_copier umemmove
  by unfold_locales (rule umemmove_eq)

section \<open>gets\<close>

lemma gets_loop_bounded:
  "gets_loop n buf w = Ret buf' w' \<Longrightarrow> length buf < n \<Longrightarrow> length buf' < n \<and> take (length buf) buf' = buf"
proof (induction n buf w rule: gets_loop.induct)
  case (1 n buf w)
  show ?case
  proof (cases "length buf + 1 < n")
    case False
    with "1.prems" show ?thesis by (simp add: gets_loop.simps [of n buf])
  next
    case True
    from "1.prems"(1) True obtain cc cs w1 where r: "read 0 1 w = Ret (cc, cs) w1"
      and rest: "(if cc < 1 then Ret buf w1 else if chd cs = 10 \<or> chd cs = 13 then Ret (buf @ [chd cs]) w1
        else gets_loop n (buf @ [chd cs]) w1) = Ret buf' w'"
      by (subst (asm) gets_loop.simps) auto
    show ?thesis
    proof (cases "cc < 1 \<or> chd cs = 10 \<or> chd cs = 13")
      case True
      with rest \<open>length buf + 1 < n\<close> show ?thesis by (auto split: if_splits)
    next
      case False
      then have "length buf' < n \<and> take (length (buf @ [chd cs])) buf' = buf @ [chd cs]"
        using "1.IH" [OF True r refl] rest True by auto
      then have "take (length buf) (take (length (buf @ [chd cs])) buf') = take (length buf) (buf @ [chd cs])"
        and "length buf' < n" by simp_all
      then show ?thesis by (simp add: min_def)
    qed
  qed
qed

end
