(* ===== verification/Umalloc.thy ===== *)
theory Umalloc
  imports Ulib
begin

text \<open>
  The memory allocator of user programs, \<^verbatim>\<open>user/umalloc.c\<close>. A pointer is a number, 0 the null pointer; \<open>hptr\<close> and
  \<open>hsize\<close> are the two fields of the \<open>Header\<close> at an address, \<open>h_base\<close> is \<^verbatim>\<open>&base\<close>. A \<open>Header\<close> has 16 bytes. The loops through
  the circular list of free blocks end only if the list is intact: not to return is \<open>None\<close>.
\<close>

section \<open>Operations\<close>

record heap =
  hptr :: "nat \<Rightarrow> nat"
  hsize :: "nat \<Rightarrow> nat"
  h_base :: nat
  freep :: nat

definition set_ptr :: "nat \<Rightarrow> nat \<Rightarrow> heap \<Rightarrow> heap" where
  "set_ptr a v h = h\<lparr>hptr := (hptr h)(a := v)\<rparr>"

definition set_size :: "nat \<Rightarrow> nat \<Rightarrow> heap \<Rightarrow> heap" where
  "set_size a n h = h\<lparr>hsize := (hsize h)(a := n mod 2 ^ 32)\<rparr>"

partial_function (option) free_search :: "(nat \<Rightarrow> nat) \<Rightarrow> nat \<Rightarrow> nat \<Rightarrow> nat option" where
  "free_search next bp p =
    (if bp > p \<and> bp < next p then Some p
     else if p \<ge> next p \<and> (bp > p \<or> bp < next p) then Some p
     else free_search next bp (next p))"

definition free :: "nat \<Rightarrow> heap \<Rightarrow> heap option" where
  "free ap h =
    (let bp = ap - 16 in
     map_option (\<lambda>p.
       let h = (if bp + 16 * hsize h bp = hptr h p
                then let h = set_size bp (hsize h bp + hsize h (hptr h p)) h in set_ptr bp (hptr h (hptr h p)) h
                else set_ptr bp (hptr h p) h);
           h = (if p + 16 * hsize h p = bp
                then let h = set_size p (hsize h p + hsize h bp) h in set_ptr p (hptr h bp) h
                else set_ptr p bp h) in
       h\<lparr>freep := p\<rparr>)
     (free_search (hptr h) bp (freep h)))"

text \<open>\<^verbatim>\<open>sbrk\<close> takes an \<^verbatim>\<open>int\<close>, so the number of bytes is cut to 32 bits.\<close>

definition morecore :: "nat \<Rightarrow> heap \<Rightarrow> world \<Rightarrow> (nat \<times> heap) ures option" where
  "morecore nu h w =
    (let nu = (if nu < 4096 then 4096 else nu) in
     case sbrk (sint (word_of_nat (nu * 16) :: 32 word)) w of
       Ret p w \<Rightarrow>
         if p = -1 then Some (Ret (0, h) w)
         else let hp = nat p in map_option (\<lambda>h. Ret (freep h, h) w) (free (hp + 16) (set_size hp nu h))
     | Exited n w \<Rightarrow> Some (Exited n w)
     | Replaced w \<Rightarrow> Some (Replaced w)
     | Waiting w \<Rightarrow> Some (Waiting w))"

text \<open>Taking \<open>nunits\<close> units of the block \<open>p\<close>, the successor of \<open>prevp\<close>: all of it, or its end.\<close>

definition carve :: "nat \<Rightarrow> nat \<Rightarrow> nat \<Rightarrow> heap \<Rightarrow> nat \<times> heap" where
  "carve nunits prevp p h =
    (if hsize h p = nunits then (p + 16, (set_ptr prevp (hptr h p) h)\<lparr>freep := prevp\<rparr>)
     else let h = set_size p (hsize h p - nunits) h; p = p + 16 * hsize h p in
       (p + 16, (set_size p nunits h)\<lparr>freep := prevp\<rparr>))"

partial_function (option) malloc_loop :: "nat \<Rightarrow> nat \<Rightarrow> nat \<Rightarrow> heap \<Rightarrow> world \<Rightarrow> (nat \<times> heap) ures option" where
  "malloc_loop nunits prevp p h w =
    (if hsize h p \<ge> nunits then Some (Ret (carve nunits prevp p h) w)
     else if p = freep h then
       Option.bind (morecore nunits h w) (\<lambda>r.
         case r of
           Ret x w \<Rightarrow> if fst x = 0 then Some (Ret (0, snd x) w) else malloc_loop nunits (fst x) (hptr (snd x) (fst x)) (snd x) w
         | Exited n w \<Rightarrow> Some (Exited n w)
         | Replaced w \<Rightarrow> Some (Replaced w)
         | Waiting w \<Rightarrow> Some (Waiting w))
     else malloc_loop nunits p (hptr h p) h w)"

definition malloc :: "32 word \<Rightarrow> heap \<Rightarrow> world \<Rightarrow> (nat \<times> heap) ures option" where
  "malloc nbytes h w =
    (let nunits = (unat nbytes + 16 - 1) div 16 + 1;
         h = (if freep h = 0
              then set_size (h_base h) 0 (set_ptr (h_base h) (h_base h) (h\<lparr>freep := h_base h\<rparr>))
              else h);
         prevp = freep h in
     malloc_loop nunits prevp (hptr h prevp) h w)"

lemma set_fields [simp]:
  "hptr (set_ptr a v h) = (hptr h)(a := v)" "hsize (set_ptr a v h) = hsize h" "h_base (set_ptr a v h) = h_base h" "freep (set_ptr a v h) = freep h"
  "hptr (set_size a n h) = hptr h" "hsize (set_size a n h) = (hsize h)(a := n mod 2 ^ 32)" "h_base (set_size a n h) = h_base h"
  "freep (set_size a n h) = freep h"
  by (simp_all add: set_ptr_def set_size_def)

section \<open>The list of free blocks\<close>

text \<open>\<open>follows S x y\<close>: \<open>y\<close> is the next element of \<open>S\<close> after \<open>x\<close>, the least one after the greatest.\<close>

definition follows :: "nat set \<Rightarrow> nat \<Rightarrow> nat \<Rightarrow> bool" where
  "follows S x y \<longleftrightarrow> y \<in> S \<and> (x < y \<and> (\<forall>z\<in>S. z \<le> x \<or> y \<le> z) \<or> (\<forall>z\<in>S. y \<le> z \<and> z \<le> x))"

definition circle :: "nat set \<Rightarrow> (nat \<Rightarrow> nat) \<Rightarrow> bool" where
  "circle S next \<longleftrightarrow> finite S \<and> (\<forall>x\<in>S. follows S x (next x))"

lemma followsE:
  assumes "follows S x y"
  obtains (up) "y \<in> S" "x < y" "\<And>z. z \<in> S \<Longrightarrow> z \<le> x \<or> y \<le> z" | (wrap) "y \<in> S" "\<And>z. z \<in> S \<Longrightarrow> y \<le> z \<and> z \<le> x"
  using assms unfolding follows_def by blast

lemma follows_up: "y \<in> S \<Longrightarrow> x < y \<Longrightarrow> (\<And>z. z \<in> S \<Longrightarrow> z \<le> x \<or> y \<le> z) \<Longrightarrow> follows S x y"
  by (simp add: follows_def)

lemma follows_wrap: "y \<in> S \<Longrightarrow> (\<And>z. z \<in> S \<Longrightarrow> y \<le> z \<and> z \<le> x) \<Longrightarrow> follows S x y"
  by (simp add: follows_def)

lemma circle_insert:
  assumes c: "circle S next" and p: "p \<in> S" "p < b" "b < next p \<or> next p \<le> p"
  shows "circle (insert b S) (next(b := next p, p := b))"
proof -
  have f: "follows S x (next x)" if "x \<in> S" for x using c that by (simp add: circle_def)
  have gap: "z \<le> p \<or> b < z" if z: "z \<in> S" for z
    using f [OF p(1)]
  proof (cases rule: followsE)
    case up
    from up(3) [OF z] up(2) show ?thesis using p by auto
  next
    case wrap
    from wrap(2) [OF z] show ?thesis by simp
  qed
  have "follows (insert b S) p b" by (rule follows_up) (use p gap in \<open>auto intro: less_imp_le dest: gap\<close>)
  moreover have "follows (insert b S) b (next p)"
    using f [OF p(1)]
  proof (cases rule: followsE)
    case up
    show ?thesis by (rule follows_up) (use p up in \<open>auto dest: up(3)\<close>)
  next
    case wrap
    show ?thesis by (rule follows_wrap) (use p wrap(1) wrap(2) [OF p(1)] in \<open>auto dest: wrap(2)\<close>)
  qed
  moreover have "follows (insert b S) x (next x)" if x: "x \<in> S" "x \<noteq> p" for x
    using f [OF x(1)]
  proof (cases rule: followsE)
    case up
    have "b \<le> x \<or> next x \<le> b" using gap [OF x(1)] up(3) [OF p(1)] p(2) x(2) by auto
    then show ?thesis using up by (intro follows_up) auto
  next
    case wrap
    have "p < x" using wrap(2) [OF p(1)] x(2) by simp
    then show ?thesis using wrap gap [OF x(1)] wrap(2) [OF p(1)] p(2) by (intro follows_wrap) auto
  qed
  moreover have "b \<noteq> p" "b \<notin> S" using p(2) gap [of b] by auto
  ultimately show ?thesis using c by (auto simp: circle_def)
qed

lemma circle_remove:
  assumes c: "circle S next" and p: "p \<in> S" "p < next p"
  shows "circle (S - {next p}) (next(p := next (next p)))"
proof -
  let ?q = "next p"
  have f: "follows S x (next x)" if "x \<in> S" for x using c that by (simp add: circle_def)
  have q: "?q \<in> S" using f [OF p(1)] by (simp add: follows_def)
  have gap: "z \<le> p \<or> ?q \<le> z" if "z \<in> S" for z
    using f [OF p(1)] by (cases rule: followsE) (use that p(1) p(2) in force)+
  have "follows (S - {?q}) p (next ?q)"
    using f [OF q]
  proof (cases rule: followsE)
    case up
    have z: "z \<le> p \<or> next ?q \<le> z" if "z \<in> S - {?q}" for z using that gap [of z] up(3) [of z] by auto
    have "next ?q \<in> S - {?q}" "p < next ?q" using up(1,2) p(2) by simp_all
    then show ?thesis using z by (rule follows_up)
  next
    case wrap
    have z: "next ?q \<le> z \<and> z \<le> p" if "z \<in> S - {?q}" for z using that gap [of z] wrap(2) [of z] by auto
    have "next ?q \<noteq> ?q" using wrap(2) [OF p(1)] p(2) by simp
    then have "next ?q \<in> S - {?q}" using wrap(1) by simp
    then show ?thesis using z by (rule follows_wrap)
  qed
  moreover have "follows (S - {?q}) x (next x)" if x: "x \<in> S" "x \<noteq> p" "x \<noteq> ?q" for x
    using f [OF x(1)]
  proof (cases rule: followsE)
    case up
    have "next x \<noteq> ?q" using up(2) up(3) [OF p(1)] gap [OF x(1)] x(2) p(2) by linarith
    then have "next x \<in> S - {?q}" using up(1) by simp
    then show ?thesis using up(2) by (rule follows_up) (use up(3) in blast)
  next
    case wrap
    have "next x \<noteq> ?q" using wrap(2) [OF p(1)] p(2) by linarith
    then have "next x \<in> S - {?q}" using wrap(1) by simp
    then show ?thesis by (rule follows_wrap) (use wrap(2) in blast)
  qed
  ultimately have "follows (S - {?q}) x ((next(p := next ?q)) x)" if "x \<in> S - {?q}" for x using that by (cases "x = p") simp_all
  then show ?thesis using c unfolding circle_def by blast
qed

text \<open>The whole circle can be reached from each of its elements.\<close>

definition reaches :: "(nat \<Rightarrow> nat) \<Rightarrow> nat \<Rightarrow> nat \<Rightarrow> bool" where
  "reaches next x y \<longleftrightarrow> (\<exists>n. (next ^^ n) x = y)"

lemma reaches_refl: "reaches next x x"
  unfolding reaches_def by (rule exI [of _ 0]) simp

lemma reaches_step: "reaches next (next x) y \<Longrightarrow> reaches next x y"
  unfolding reaches_def using funpow_Suc_right [of _ "next"] by (metis comp_apply)

lemma reaches_up:
  assumes c: "circle S next" and "x \<in> S" and y: "y \<in> S" and "x \<le> y"
  shows "reaches next x y"
  using assms(2,4)
proof (induction "card {z \<in> S. x < z \<and> z \<le> y}" arbitrary: x rule: less_induct)
  case less
  show ?case
  proof (cases "x = y")
    case True
    then show ?thesis by (simp add: reaches_refl)
  next
    case False
    have fin: "finite S" and f: "follows S x (next x)" using c less.prems by (auto simp: circle_def)
    from f have n: "next x \<in> S \<and> x < next x \<and> next x \<le> y"
    proof (cases rule: followsE)
      case up
      then show ?thesis using up(3) [OF y] less.prems(2) False by linarith
    next
      case wrap
      then show ?thesis using wrap(2) [OF y] less.prems(2) False by linarith
    qed
    have "{z \<in> S. next x < z \<and> z \<le> y} \<subseteq> {z \<in> S. x < z \<and> z \<le> y} - {next x}" using n by fastforce
    also have "\<dots> \<subset> {z \<in> S. x < z \<and> z \<le> y}" using n by blast
    finally have "card {z \<in> S. next x < z \<and> z \<le> y} < card {z \<in> S. x < z \<and> z \<le> y}"
      using fin by (intro psubset_card_mono) simp_all
    then have "reaches next (next x) y" using less.hyps [of "next x"] n by blast
    then show ?thesis by (rule reaches_step)
  qed
qed

lemma reaches_trans: "reaches next x y \<Longrightarrow> reaches next y z \<Longrightarrow> reaches next x z"
  unfolding reaches_def by (metis comp_apply funpow_add)

lemma reaches_all:
  assumes c: "circle S next" and x: "x \<in> S" and y: "y \<in> S"
  shows "reaches next x y"
proof -
  let ?m = "Max S"
  have fin: "finite S" using c by (simp add: circle_def)
  have m: "?m \<in> S" "x \<le> ?m" "y \<le> ?m" using fin x y by (auto intro: Max_in)
  have "follows S ?m (next ?m)" using c m by (simp add: circle_def)
  then have b: "next ?m \<in> S \<and> next ?m \<le> y"
  proof (cases rule: followsE)
    case up
    then show ?thesis using Max_ge [OF fin up(1)] by linarith
  next
    case wrap
    then show ?thesis using y by blast
  qed
  have "reaches next ?m y" by (rule reaches_step) (use reaches_up [OF c _ y] b in blast)
  then show ?thesis using reaches_up [OF c x m(1,2)] by (rule reaches_trans [rotated])
qed

text \<open>The search of \<^verbatim>\<open>free\<close> stops at the last free block before the one to be freed, and nowhere else.\<close>

definition before :: "nat set \<Rightarrow> nat \<Rightarrow> nat \<Rightarrow> bool" where
  "before S bp q \<longleftrightarrow> q \<in> S \<and> q < bp \<and> (\<forall>z\<in>S. z \<le> q \<or> bp < z)"

lemma before_exists:
  assumes "finite S" and "m \<in> S" and "m < bp" and "bp \<notin> S"
  shows "\<exists>q. before S bp q"
proof -
  let ?q = "Max {z \<in> S. z < bp}"
  have "?q \<in> {z \<in> S. z < bp}" using assms by (intro Max_in) auto
  moreover have "z \<le> ?q \<or> bp < z" if "z \<in> S" for z
  proof (cases "z < bp")
    case True
    then show ?thesis using assms(1) that by (auto intro: Max_ge)
  next
    case False
    then show ?thesis using that assms(4) by (metis nat_neq_iff)
  qed
  ultimately show ?thesis unfolding before_def by blast
qed

lemma before_gap: "circle S next \<Longrightarrow> before S bp q \<Longrightarrow> bp < next q \<or> next q \<le> q"
  unfolding before_def circle_def follows_def by blast

lemma before_pass:
  assumes c: "circle S next" and q: "before S bp q" and lo: "m \<in> S" "m < bp" and x: "x \<in> S" "x \<noteq> q"
  shows "\<not> (bp > x \<and> bp < next x) \<and> \<not> (x \<ge> next x \<and> (bp > x \<or> bp < next x))"
proof -
  have q: "q \<in> S" "q < bp" "x \<le> q \<or> bp < x" using q x by (auto simp: before_def)
  have "follows S x (next x)" using c x by (simp add: circle_def)
  then show ?thesis
  proof (cases rule: followsE)
    case up
    then show ?thesis using up(3) [OF q(1)] q(2,3) x(2) by linarith
  next
    case wrap
    then show ?thesis using wrap(2) [OF q(1)] wrap(2) [OF lo(1)] q(2,3) lo(2) x(2) by linarith
  qed
qed

lemma free_search_finds:
  assumes c: "circle S next" and q: "before S bp q" and lo: "m \<in> S" "m < bp" and p: "p \<in> S"
  shows "free_search next bp p = Some q"
proof -
  have here: "free_search next bp q = Some q" using q before_gap [OF c q] by (subst free_search.simps) (auto simp: before_def)
  obtain n where "(next ^^ n) p = q" using reaches_all [OF c p] q by (auto simp: reaches_def before_def)
  then show ?thesis using p
  proof (induction n arbitrary: p)
    case (Suc n)
    show ?case
    proof (cases "p = q")
      case False
      have "next p \<in> S" using c Suc.prems(2) by (simp add: circle_def follows_def)
      moreover have "(next ^^ n) (next p) = q" using Suc.prems(1) by (metis comp_apply funpow_Suc_right)
      ultimately have "free_search next bp (next p) = Some q" by (intro Suc.IH)
      moreover have "free_search next bp p = free_search next bp (next p)"
        using before_pass [OF c q lo Suc.prems(2) False] by (subst free_search.simps) (simp only: if_False)
      ultimately show ?thesis by simp
    qed (use here in simp)
  qed (use here in simp)
qed

section \<open>Blocks\<close>

text \<open>
  \<open>S\<close> are the blocks of the list, with \<^verbatim>\<open>base\<close>, and \<open>A\<close> the blocks the program has. The blocks of memory are those but
  \<^verbatim>\<open>base\<close>: they lie behind it and do not overlap.
\<close>

definition blocks :: "heap \<Rightarrow> nat set \<Rightarrow> nat set \<Rightarrow> nat set" where
  "blocks h S A = (S \<union> A) - {h_base h}"

definition block_end :: "heap \<Rightarrow> nat \<Rightarrow> nat" where
  "block_end h x = x + 16 * hsize h x"

definition apart :: "heap \<Rightarrow> nat set \<Rightarrow> bool" where
  "apart h B \<longleftrightarrow> (\<forall>x\<in>B. \<forall>y\<in>B. x < y \<longrightarrow> block_end h x \<le> y)"

definition wf_heap :: "heap \<Rightarrow> nat set \<Rightarrow> nat set \<Rightarrow> bool" where
  "wf_heap h S A \<longleftrightarrow> circle S (hptr h) \<and> h_base h \<in> S \<and> 0 < h_base h \<and> hsize h (h_base h) = 0 \<and> freep h \<in> S \<and> S \<inter> A = {} \<and>
    (\<forall>x\<in>blocks h S A. 0 < hsize h x \<and> h_base h + 16 \<le> x \<and> block_end h x \<le> 2 ^ 36) \<and> apart h (blocks h S A)"

definition covered :: "heap \<Rightarrow> nat set \<Rightarrow> nat set \<Rightarrow> nat set" where
  "covered h S A = (\<Union>x\<in>blocks h S A. {x..<block_end h x})"

lemma wf_heap_insert:
  assumes wf: "wf_heap h S (insert bp A)" and n: "bp \<notin> A" and q: "before S bp q"
  defines "g \<equiv> h\<lparr>hptr := (hptr h)(bp := hptr h q, q := bp), freep := q\<rparr>"
  shows "wf_heap g (insert bp S) A" and "covered g (insert bp S) A = covered h S (insert bp A)"
proof -
  have c: "circle S (hptr h)" using wf by (simp add: wf_heap_def)
  have "circle (insert bp S) ((hptr h)(bp := hptr h q, q := bp))"
    using q before_gap [OF c q] by (intro circle_insert [OF c]) (auto simp: before_def)
  moreover have b: "blocks g (insert bp S) A = blocks h S (insert bp A)" "block_end g = block_end h"
    by (auto simp: blocks_def block_end_def g_def fun_eq_iff)
  ultimately show "wf_heap g (insert bp S) A" using wf n q by (auto simp: wf_heap_def apart_def before_def) (auto simp: g_def)
  show "covered g (insert bp S) A = covered h S (insert bp A)" by (simp add: covered_def b)
qed

lemma wf_heapD:
  assumes "wf_heap h S A"
  shows "circle S (hptr h)" "h_base h \<in> S" "0 < h_base h" "hsize h (h_base h) = 0" "freep h \<in> S" "S \<inter> A = {}"
    "x \<in> blocks h S A \<Longrightarrow> 0 < hsize h x \<and> h_base h + 16 \<le> x \<and> block_end h x \<le> 2 ^ 36"
    "x \<in> blocks h S A \<Longrightarrow> y \<in> blocks h S A \<Longrightarrow> x < y \<Longrightarrow> block_end h x \<le> y"
  using assms by (auto simp: wf_heap_def apart_def)

lemma freep_pos: "wf_heap h S A \<Longrightarrow> 0 < freep h"
  using wf_heapD(3,5) [of h S A] wf_heapD(7) [of h S A "freep h"] by (cases "freep h = h_base h") (auto simp: blocks_def)

text \<open>Joining a free block with the free block that begins at its end.\<close>

definition join :: "nat \<Rightarrow> heap \<Rightarrow> heap" where
  "join x h = set_ptr x (hptr h (hptr h x)) (set_size x (hsize h x + hsize h (hptr h x)) h)"

lemma wf_heap_join:
  assumes wf: "wf_heap h S A" and x: "x \<in> S" "x \<noteq> h_base h" "block_end h x = hptr h x" and f: "freep h \<noteq> hptr h x"
  shows "wf_heap (join x h) (S - {hptr h x}) A" and "covered (join x h) (S - {hptr h x}) A = covered h S A"
    and "hsize (join x h) = (hsize h)(x := hsize h x + hsize h (hptr h x))"
proof -
  let ?y = "hptr h x" and ?g = "join x h"
  note w = wf_heapD [OF wf]
  have bx: "x \<in> blocks h S A" using x by (simp add: blocks_def)
  have xy: "x < ?y" using w(7) [OF bx] x(3) by (simp add: block_end_def)
  have y: "?y \<in> S" using w(1) x(1) by (simp add: circle_def follows_def)
  have yb: "?y \<noteq> h_base h" using w(7) [OF bx] xy by simp
  then have b_y: "?y \<in> blocks h S A" using y by (simp add: blocks_def)
  have "x + 16 * (hsize h x + hsize h ?y) = block_end h ?y" using x(3) by (simp add: block_end_def)
  moreover have "block_end h ?y \<le> 2 ^ 36" "16 \<le> x" using w(7) [OF b_y] w(7) [OF bx] by simp_all
  ultimately have sz: "hsize h x + hsize h ?y < 2 ^ 32" by simp
  then show s: "hsize ?g = (hsize h)(x := hsize h x + hsize h ?y)" by (simp add: join_def)
  have e: "block_end ?g z = (if z = x then block_end h ?y else block_end h z)" for z using x(3) by (auto simp: block_end_def s)
  have bl: "blocks ?g (S - {?y}) A = blocks h S A - {?y}" using y w(6) by (auto simp: blocks_def join_def)
  have "circle (S - {?y}) (hptr ?g)" using circle_remove [OF w(1) x(1) xy] by (simp add: join_def)
  moreover have "apart ?g (blocks h S A - {?y})"
    unfolding apart_def
  proof (intro ballI impI)
    fix u v assume u: "u \<in> blocks h S A - {?y}" and v: "v \<in> blocks h S A - {?y}" and "u < v"
    then have "block_end h u \<le> v" using w(8) by auto
    moreover have "block_end h ?y \<le> v" if "u = x"
      using that w(8) [of ?y v] b_y v \<open>block_end h u \<le> v\<close> x(3) by auto
    ultimately show "block_end ?g u \<le> v" by (simp add: e)
  qed
  moreover have "0 < hsize ?g z \<and> h_base h + 16 \<le> z \<and> block_end ?g z \<le> 2 ^ 36" if "z \<in> blocks h S A - {?y}" for z
    using that w(7) [of z] w(7) [OF b_y] by (auto simp: s e)
  moreover have "h_base ?g = h_base h" "freep ?g = freep h" by (simp_all add: join_def)
  ultimately show "wf_heap ?g (S - {?y}) A"
    unfolding wf_heap_def bl using w(2-6) yb f x(2) s by auto
  have "{x..<block_end h ?y} = {x..<block_end h x} \<union> {?y..<block_end h ?y}"
    using x(3) xy w(7) [OF b_y] by (auto simp: block_end_def)
  moreover define R where "R = blocks h S A - {x, ?y}"
  have "blocks h S A = insert x (insert ?y R)" "blocks h S A - {?y} = insert x R" "x \<notin> R" using bx b_y xy by (auto simp: R_def)
  moreover from this(3) have "(\<Union>z\<in>R. {z..<block_end ?g z}) = (\<Union>z\<in>R. {z..<block_end h z})" by (intro SUP_cong) (auto simp: e)
  ultimately show "covered ?g (S - {?y}) A = covered h S A"
    unfolding covered_def bl by (simp add: e Un_assoc)
qed

text \<open>\<^verbatim>\<open>free\<close> puts the block into the list and joins it with its neighbours.\<close>

lemma free_eq:
  assumes "free_search (hptr h) bp (freep h) = Some q" and "q < bp" and "0 < hsize h bp" and "hptr h q \<noteq> bp"
  defines "g \<equiv> h\<lparr>hptr := (hptr h)(bp := hptr h q, q := bp), freep := q\<rparr>"
  defines "g' \<equiv> (if block_end g bp = hptr g bp then join bp g else g)"
  shows "free (bp + 16) h = Some (if block_end g' q = bp then join q g' else g')"
proof -
  have "hptr h q \<noteq> q" if "bp + 16 * hsize h bp = hptr h q" using that assms(2,3) by auto
  then show ?thesis using assms(1-4)
    by (auto simp: free_def Let_def g'_def g_def block_end_def join_def set_ptr_def set_size_def fun_upd_twist)
qed

lemma hsize_bound: "wf_heap h S A \<Longrightarrow> x \<in> blocks h S A \<Longrightarrow> hsize h x < 2 ^ 32"
  using wf_heapD(7) [of h S A x] by (simp add: block_end_def)

text \<open>One of the two joins of \<^verbatim>\<open>free\<close>, made when the blocks are neighbours.\<close>

lemma maybe_join:
  assumes wf: "wf_heap h S A" and x: "x \<in> S"
    and b: "block_end h x = hptr h x \<Longrightarrow> freep h \<noteq> hptr h x \<and> x \<noteq> h_base h"
  defines "j \<equiv> block_end h x = hptr h x"
  defines "g \<equiv> (if j then join x h else h)" and "T \<equiv> (if j then S - {hptr h x} else S)"
  shows "wf_heap g T A" and "covered g T A = covered h S A" and "x \<in> T"
    and "hsize g = (if j then (hsize h)(x := hsize h x + hsize h (hptr h x)) else hsize h)"
    and "h_base g = h_base h" and "freep g = freep h" and "z \<noteq> x \<Longrightarrow> hptr g z = hptr h z"
proof -
  show "h_base g = h_base h" and "freep g = freep h" and "z \<noteq> x \<Longrightarrow> hptr g z = hptr h z" by (simp_all add: g_def join_def)
  have "wf_heap g T A \<and> covered g T A = covered h S A \<and> x \<in> T \<and>
    hsize g = (if j then (hsize h)(x := hsize h x + hsize h (hptr h x)) else hsize h)"
  proof (cases j)
    case True
    then have e: "block_end h x = hptr h x" by (simp add: j_def)
    have n: "x \<noteq> h_base h" "freep h \<noteq> hptr h x" using b e by simp_all
    have "hptr h x \<noteq> x" using e wf_heapD(7) [OF wf, of x] x n by (auto simp: blocks_def block_end_def)
    then show ?thesis using True wf_heap_join [OF wf x n(1) e n(2)] x by (simp add: g_def T_def)
  qed (use wf x in \<open>simp add: g_def T_def\<close>)
  then show "wf_heap g T A" and "covered g T A = covered h S A" and "x \<in> T"
    and "hsize g = (if j then (hsize h)(x := hsize h x + hsize h (hptr h x)) else hsize h)" by auto
qed

lemma free_place:
  assumes wf: "wf_heap h S (insert bp A)" and n: "bp \<notin> A"
  obtains q where "before S bp q" "free_search (hptr h) bp (freep h) = Some q" "hptr h q \<noteq> bp"
proof -
  note w = wf_heapD [OF wf]
  have bS: "bp \<notin> S" using w(6) by auto
  then have "bp \<in> blocks h S (insert bp A)" using w(2) by (auto simp: blocks_def)
  then have m: "h_base h < bp" "finite S" using w(7) [of bp] w(1) by (simp_all add: circle_def)
  obtain q where q: "before S bp q" using before_exists [OF m(2) w(2) m(1) bS] by blast
  moreover have "hptr h q \<noteq> bp" using w(1) q bS by (auto simp: circle_def follows_def before_def)
  moreover have "free_search (hptr h) bp (freep h) = Some q" by (rule free_search_finds [OF w(1) q w(2) m(1) w(5)])
  ultimately show thesis by (intro that)
qed

lemma free_ok:
  assumes wf: "wf_heap h S (insert bp A)" and n: "bp \<notin> A"
  obtains h' S' where "free (bp + 16) h = Some h'" "wf_heap h' S' A" "covered h' S' A = covered h S (insert bp A)"
    "\<forall>a\<in>A. hsize h' a = hsize h a" "h_base h' = h_base h" "\<exists>x\<in>S'. hsize h bp \<le> hsize h' x"
proof -
  note w = wf_heapD [OF wf]
  have "bp \<in> blocks h S (insert bp A)" using w(2,6) by (auto simp: blocks_def)
  note bp = w(7) [OF this]
  then have m: "h_base h < bp" by simp
  obtain q where q: "before S bp q" and s: "free_search (hptr h) bp (freep h) = Some q" and hq: "hptr h q \<noteq> bp"
    by (rule free_place [OF wf n])
  then have q': "q \<in> S" "q < bp" by (simp_all add: before_def)
  define g where "g = h\<lparr>hptr := (hptr h)(bp := hptr h q, q := bp), freep := q\<rparr>"
  define g1 where "g1 = (if block_end g bp = hptr g bp then join bp g else g)"
  define g2 where "g2 = (if block_end g1 q = hptr g1 q then join q g1 else g1)"
  note i = wf_heap_insert [OF wf n q, folded g_def]
  have gf: "freep g = q" "hptr g bp = hptr h q" "hptr g q = bp" "h_base g = h_base h" "hsize g = hsize h" using q'(2) by (simp_all add: g_def)
  have "freep g \<noteq> hptr g bp \<and> bp \<noteq> h_base g" if "block_end g bp = hptr g bp" using that bp q'(2) by (auto simp: block_end_def gf)
  note j1 = maybe_join [OF i(1) _ this, folded g1_def, simplified]
  have g1: "freep g1 = q" "hptr g1 q = bp" "h_base g1 = h_base h" "hsize g1 q = hsize h q" "hsize h bp \<le> hsize g1 bp"
    using j1(4-7) gf q'(2) by auto
  have b2: "freep g1 \<noteq> hptr g1 q \<and> q \<noteq> h_base g1" if "block_end g1 q = hptr g1 q"
    using that w(4) m q'(2) by (auto simp: g1 block_end_def)
  define T where "T = (if block_end g bp = hptr g bp then insert bp S - {hptr g bp} else insert bp S)"
  note j1' = j1(1-3) [folded T_def]
  have qT: "q \<in> T" using wf_heapD(5) [OF j1'(1)] g1(1) by simp
  define U where "U = (if block_end g1 q = hptr g1 q then T - {hptr g1 q} else T)"
  note j2 = maybe_join [OF j1'(1) qT b2, folded g2_def U_def, simplified]
  have "free (bp + 16) h = Some g2"
    unfolding g2_def g1(2) unfolding g1_def g_def by (rule free_eq [OF s q'(2) _ hq]) (use bp in simp)
  moreover have "hsize g2 a = hsize h a" if "a \<in> A" for a
    using that n q'(1) w(6) j1(4) j2(4) gf(5) by auto
  moreover have "\<exists>x\<in>U. hsize h bp \<le> hsize g2 x"
  proof (cases "block_end g1 q = hptr g1 q")
    case True
    then have "hsize h bp \<le> hsize g2 q" using j2(4) g1(2,5) by simp
    then show ?thesis using j2(3) by blast
  next
    case False
    then have "hsize h bp \<le> hsize g2 bp" "bp \<in> U" using j2(4) g1(5) j1'(3) by (simp_all add: U_def)
    then show ?thesis by blast
  qed
  ultimately show thesis using that [of g2 U] j2(1,2,5) j1'(2) i(2) g1(3) by simp
qed

text \<open>Taking units of a free block makes a block of the program.\<close>

definition carved :: "heap \<Rightarrow> nat set \<Rightarrow> nat set \<Rightarrow> heap \<Rightarrow> nat \<Rightarrow> bool" where
  "carved h S A h' a \<longleftrightarrow> a \<notin> A \<and> (\<exists>S'. wf_heap h' S' (insert a A) \<and> covered h' S' (insert a A) = covered h S A) \<and>
    (\<forall>x\<in>A. hsize h' x = hsize h x) \<and> h_base h' = h_base h"

lemma next_free:
  assumes wf: "wf_heap h S A" and v: "v \<in> S" and n: "0 < hsize h (hptr h v)"
  shows "hptr h v \<in> S" "hptr h v \<noteq> h_base h" "hptr h v \<in> blocks h S A" "v < hptr h v" "hptr h v \<notin> A"
proof -
  note w = wf_heapD [OF wf]
  show p: "hptr h v \<in> S" "hptr h v \<noteq> h_base h" using w(1,4) v n by (auto simp: circle_def follows_def)
  then show b: "hptr h v \<in> blocks h S A" by (simp add: blocks_def)
  show "hptr h v \<notin> A" using p(1) w(6) by auto
  have "follows S v (hptr h v)" using w(1) v by (simp add: circle_def)
  then show "v < hptr h v"
  proof (cases rule: followsE)
    case wrap
    then show ?thesis using wrap(2) [OF w(2)] w(7) [OF b] by simp
  qed
qed

lemma carve_whole:
  assumes wf: "wf_heap h S A" and v: "v \<in> S" and n: "0 < hsize h (hptr h v)"
  shows "carved h S A ((set_ptr v (hptr h (hptr h v)) h)\<lparr>freep := v\<rparr>) (hptr h v)"
proof -
  let ?p = "hptr h v" and ?h = "(set_ptr v (hptr h (hptr h v)) h)\<lparr>freep := v\<rparr>"
  note w = wf_heapD [OF wf] and p = next_free [OF wf v n]
  have b: "blocks ?h (S - {?p}) (insert ?p A) = blocks h S A" "block_end ?h = block_end h" "hsize ?h = hsize h" "h_base ?h = h_base h"
    using p by (auto simp: blocks_def block_end_def fun_eq_iff)
  have "circle (S - {?p}) (hptr ?h)" using circle_remove [OF w(1) v p(4)] by simp
  then have "wf_heap ?h (S - {?p}) (insert ?p A)"
    using w(2-6) wf v p unfolding wf_heap_def b apart_def by auto
  moreover have "covered ?h (S - {?p}) (insert ?p A) = covered h S A" by (simp only: covered_def b)
  ultimately show ?thesis using p(5) unfolding carved_def b by blast
qed

lemma apart_split:
  assumes ap: "apart h B" and p: "p \<in> B" "p < a" "a < block_end h p" "a \<notin> B"
    and e: "\<And>z. block_end h' z = (if z = p then a else if z = a then block_end h p else block_end h z)"
  shows "apart h' (insert a B)" and "(\<Union>z\<in>insert a B. {z..<block_end h' z}) = (\<Union>z\<in>B. {z..<block_end h z})"
proof -
  have w: "block_end h x \<le> y" if "x \<in> B" "y \<in> B" "x < y" for x y using ap that by (simp add: apart_def)
  show "apart h' (insert a B)"
    unfolding apart_def
  proof (intro ballI impI)
    fix x y assume x: "x \<in> insert a B" and y: "y \<in> insert a B" and xy: "x < y"
    show "block_end h' x \<le> y"
    proof (cases "x = p \<or> x = a")
      case True
      then show ?thesis using w [OF p(1), of y] y xy p by (auto simp: e)
    next
      case False
      then have "x \<in> B" "x < p \<or> p < x" using x by auto
      then show ?thesis using w [of x y] w [of x p] w [OF p(1), of x] False y xy p by (auto simp: e)
    qed
  qed
  define R where "R = B - {p}"
  have "B = insert p R" "p \<notin> R" "a \<notin> R" using p by (auto simp: R_def)
  moreover from this(2,3) have "(\<Union>z\<in>R. {z..<block_end h' z}) = (\<Union>z\<in>R. {z..<block_end h z})" by (intro SUP_cong) (auto simp: e)
  moreover have "{p..<block_end h p} = {p..<a} \<union> {a..<block_end h p}" using p by auto
  ultimately show "(\<Union>z\<in>insert a B. {z..<block_end h' z}) = (\<Union>z\<in>B. {z..<block_end h z})" using p(2) by (simp add: e Un_ac)
qed

lemma carve_tail:
  assumes wf: "wf_heap h S A" and v: "v \<in> S" and n: "0 < n" "n < hsize h (hptr h v)"
  defines "p \<equiv> hptr h v" and "m \<equiv> hsize h (hptr h v) - n"
  defines "a \<equiv> hptr h v + 16 * m"
  defines "h' \<equiv> (set_size a n (set_size p m h))\<lparr>freep := v\<rparr>"
  shows "carved h S A h' a" and "hsize h' a = n"
proof -
  note w = wf_heapD [OF wf]
  have p: "p \<in> S" "p \<noteq> h_base h" "p \<in> blocks h S A" "v < p" "p \<notin> A" using next_free [OF wf v] n by (simp_all add: p_def)
  have sz: "hsize h p < 2 ^ 32" by (rule hsize_bound [OF wf p(3)])
  have m: "0 < m" "m + n = hsize h p" "p < a" "a + 16 * n = block_end h p" using n by (simp_all add: m_def p_def a_def block_end_def)
  have s: "hsize h' = (hsize h)(p := m, a := n)" using sz m(2) by (simp add: h'_def)
  then show "hsize h' a = n" by simp
  have base: "h_base h' = h_base h" "freep h' = v" "hptr h' = hptr h" "hsize h' (h_base h) = 0"
    using w(4) w(7) [OF p(3)] m(3) p(2) by (simp_all add: s) (simp_all add: h'_def)
  have fresh: "a \<notin> blocks h S A" using w(8) [OF p(3), of a] m(3,4) n by auto
  then have aS: "a \<notin> S \<and> a \<notin> A" using w(7) [OF p(3)] m(3) by (auto simp: blocks_def)
  have e: "block_end h' z = (if z = p then a else if z = a then block_end h p else block_end h z)" for z
    using m(3,4) by (auto simp: block_end_def s a_def p_def)
  have b: "blocks h' S (insert a A) = insert a (blocks h S A)" using w(7) [OF p(3)] m(3) by (auto simp: blocks_def h'_def)
  have ap: "apart h (blocks h S A)" using wf by (simp add: wf_heap_def)
  have "a < block_end h p" using m(4) n(1) by simp
  note split = apart_split [OF ap p(3) m(3) this fresh e]
  note split(1)
  moreover have "0 < hsize h' x \<and> h_base h + 16 \<le> x \<and> block_end h' x \<le> 2 ^ 36" if "x \<in> insert a (blocks h S A)" for x
  proof (cases "x = p \<or> x = a")
    case True
    have "h_base h + 16 \<le> p" "block_end h p \<le> 2 ^ 36" using w(7) [OF p(3)] by simp_all
    then show ?thesis using True m(1,3,4) n(1) by (elim disjE) (simp_all add: e s)
  next
    case False
    then show ?thesis using w(7) [of x] that by (simp add: e s)
  qed
  ultimately have "wf_heap h' S (insert a A)"
    using w(1-6) v aS p(2) base unfolding wf_heap_def b by simp
  moreover have "covered h' S (insert a A) = covered h S A" unfolding covered_def b by (rule split(2))
  moreover have "\<forall>x\<in>A. hsize h' x = hsize h x" using p(5) aS by (auto simp: s)
  ultimately show "carved h S A h' a" using aS unfolding carved_def by (auto simp: h'_def)
qed

lemma carve_ok:
  assumes wf: "wf_heap h S A" and v: "v \<in> S" and n: "0 < n" "n \<le> hsize h (hptr h v)"
  obtains a h' where "carve n v (hptr h v) h = (a + 16, h')" "carved h S A h' a" "hsize h' a = n"
proof (cases "hsize h (hptr h v) = n")
  case True
  then show thesis using that carve_whole [OF wf v] n(1) by (simp add: carve_def)
next
  case False
  then have lt: "n < hsize h (hptr h v)" using n by simp
  have "hsize h (hptr h v) - n < 2 ^ 32" using hsize_bound [OF wf next_free(3) [OF wf v]] lt n by simp
  then show thesis using False that carve_tail [OF wf v n(1) lt] by (simp add: carve_def Let_def)
qed

section \<open>More memory\<close>

text \<open>
  The units \<^verbatim>\<open>morecore\<close> means to ask for, and the number of bytes it does ask for. The kernel's answer to a request for \<open>i\<close> bytes is
  failure, or the address of \<open>i\<close> bytes behind \<^verbatim>\<open>base\<close>, in the first 64 GB, that are not in the memory \<open>M\<close> got before.
\<close>

definition ask_units :: "nat \<Rightarrow> nat" where
  "ask_units nu = (if nu < 4096 then 4096 else nu)"

definition sbrk_bytes :: "nat \<Rightarrow> int" where
  "sbrk_bytes nu = sint (word_of_nat (ask_units nu * 16) :: 32 word)"

definition grants :: "heap \<Rightarrow> nat set \<Rightarrow> int \<Rightarrow> int \<Rightarrow> bool" where
  "grants h M i r \<longleftrightarrow> r = -1 \<or> 0 \<le> r \<and> h_base h + 16 \<le> nat r \<and> nat r + nat i \<le> 2 ^ 36 \<and> {nat r..<nat r + nat i} \<inter> M = {}"

lemma sbrk_bytes_small: "ask_units nu * 16 < 2 ^ 31 \<Longrightarrow> nat (sbrk_bytes nu) = 16 * ask_units nu"
  unfolding sbrk_bytes_def signed_of_nat by (subst signed_take_bit_int_eq_self) simp_all

lemma wf_heap_grant:
  assumes wf: "wf_heap h S A" and n: "0 < n" and r: "grants h (covered h S A) i r" "r \<noteq> -1" "nat i = 16 * n"
  defines "g \<equiv> set_size (nat r) n h"
  shows "wf_heap g S (insert (nat r) A)" and "nat r \<notin> A" and "covered g S (insert (nat r) A) = covered h S A \<union> {nat r..<nat r + 16 * n}"
    and "hsize g = (hsize h)(nat r := n)"
proof -
  let ?a = "nat r"
  note w = wf_heapD [OF wf]
  have a: "h_base h + 16 \<le> ?a" "?a + 16 * n \<le> 2 ^ 36" and dis: "{?a..<?a + 16 * n} \<inter> covered h S A = {}" using r by (auto simp: grants_def)
  have out: "block_end h x \<le> ?a \<or> ?a + 16 * n \<le> x" if x: "x \<in> blocks h S A" for x
  proof (rule ccontr)
    assume "\<not> ?thesis"
    moreover have "x < block_end h x" using w(7) [OF x] by (simp add: block_end_def)
    ultimately have "max ?a x \<in> {?a..<?a + 16 * n}" "max ?a x \<in> {x..<block_end h x}" using n by auto
    then show False using dis x unfolding covered_def by blast
  qed
  have new: "?a \<notin> S \<and> ?a \<notin> A" using out [of ?a] a(1) n w(7) [of ?a] by (auto simp: blocks_def block_end_def)
  then show "?a \<notin> A" by simp
  show s: "hsize g = (hsize h)(?a := n)" using a n by (simp add: g_def)
  have e: "block_end g z = (if z = ?a then ?a + 16 * n else block_end h z)" for z by (simp add: block_end_def s)
  have b: "blocks g S (insert ?a A) = insert ?a (blocks h S A)" "?a \<notin> blocks h S A" using a(1) new by (auto simp: blocks_def g_def)
  have "apart g (insert ?a (blocks h S A))"
    unfolding apart_def
  proof (intro ballI impI)
    fix x y assume "x \<in> insert ?a (blocks h S A)" "y \<in> insert ?a (blocks h S A)" "x < y"
    then show "block_end g x \<le> y" using out [of x] out [of y] w(8) [of x y] by (auto simp: e) (simp_all add: block_end_def)
  qed
  moreover have "0 < hsize g x \<and> h_base h + 16 \<le> x \<and> block_end g x \<le> 2 ^ 36" if "x \<in> insert ?a (blocks h S A)" for x
    using that w(7) [of x] a n by (cases "x = ?a") (simp_all add: e s)
  moreover have "h_base g = h_base h" "freep g = freep h" "hptr g = hptr h" by (simp_all add: g_def)
  moreover have "h_base h \<noteq> ?a" using new w(2) by metis
  ultimately show "wf_heap g S (insert ?a A)" using w(1-6) new unfolding wf_heap_def b by (simp add: s)
  have "(\<Union>x\<in>blocks h S A. {x..<block_end g x}) = (\<Union>x\<in>blocks h S A. {x..<block_end h x})" using b(2) by (intro SUP_cong) (auto simp: e)
  then show "covered g S (insert ?a A) = covered h S A \<union> {?a..<?a + 16 * n}" unfolding covered_def b by (simp add: e Un_commute)
qed

lemma morecore_ok:
  assumes wf: "wf_heap h S A" and w: "replies w = (r, bs) # rs"
    and r: "grants h (covered h S A) (sbrk_bytes nu) r" "r \<noteq> -1" and small: "ask_units nu * 16 < 2 ^ 31"
  obtains h' S' w' where "morecore nu h w = Some (Ret (freep h', h') w')" "replies w' = rs" "wf_heap h' S' A"
    "covered h' S' A = covered h S A \<union> {nat r..<nat r + 16 * ask_units nu}" "\<forall>a\<in>A. hsize h' a = hsize h a"
    "h_base h' = h_base h" "\<exists>x\<in>S'. nu \<le> hsize h' x" "freep h' \<noteq> 0"
proof -
  let ?n = "ask_units nu" and ?g = "set_size (nat r) (ask_units nu) h"
  have n: "0 < ?n" "nu \<le> ?n" by (simp_all add: ask_units_def)
  note g = wf_heap_grant [OF wf n(1) r sbrk_bytes_small [OF small]]
  obtain h' S' where f: "free (nat r + 16) ?g = Some h'" "wf_heap h' S' A" "covered h' S' A = covered ?g S (insert (nat r) A)"
    "\<forall>a\<in>A. hsize h' a = hsize ?g a" "h_base h' = h_base ?g" "\<exists>x\<in>S'. hsize ?g (nat r) \<le> hsize h' x"
    by (rule free_ok [OF g(1,2)])
  obtain w' where w': "sbrk i w = Ret r (w' i)" "replies (w' i) = rs" for i
    using w by (simp add: sbrk_def syscall1_def ask_def)
  have "morecore nu h w = Some (Ret (freep h', h') (w' (sint (word_of_nat (?n * 16) :: 32 word))))"
    using f(1) r(2) by (simp add: morecore_def w'(1) Let_def ask_units_def)
  moreover have "hsize h' a = hsize h a" if "a \<in> A" for a using f(4) [unfolded g(4)] that g(2) by auto
  moreover have "\<exists>x\<in>S'. nu \<le> hsize h' x" using f(6) [unfolded g(4)] n(2) by (auto intro: le_trans)
  moreover have "freep h' \<noteq> 0" using freep_pos [OF f(2)] by simp
  ultimately show thesis using that w'(2) f(2,3,5) g(3) by simp
qed

section \<open>The loop of malloc\<close>

definition more_core :: "nat \<Rightarrow> heap \<Rightarrow> world \<Rightarrow> (nat \<times> heap) ures option" where
  "more_core nu h w = Option.bind (morecore nu h w) (\<lambda>r.
    case r of
      Ret x w \<Rightarrow> if fst x = 0 then Some (Ret (0, snd x) w) else malloc_loop nu (fst x) (hptr (snd x) (fst x)) (snd x) w
    | Exited n w \<Rightarrow> Some (Exited n w) | Replaced w \<Rightarrow> Some (Replaced w) | Waiting w \<Rightarrow> Some (Waiting w))"

lemma malloc_loop_take: "nu \<le> hsize h p \<Longrightarrow> malloc_loop nu v p h w = Some (Ret (carve nu v p h) w)"
  by (subst malloc_loop.simps) simp

lemma malloc_loop_more: "\<not> nu \<le> hsize h p \<Longrightarrow> p = freep h \<Longrightarrow> malloc_loop nu v p h w = more_core nu h w"
  by (subst malloc_loop.simps) (simp add: more_core_def)

lemma malloc_loop_next: "\<not> nu \<le> hsize h p \<Longrightarrow> p \<noteq> freep h \<Longrightarrow> malloc_loop nu v p h w = malloc_loop nu p (hptr h p) h w"
  by (subst malloc_loop.simps) simp

lemma malloc_loop_hit:
  assumes wf: "wf_heap h S A" and "v \<in> S" and "(hptr h ^^ k) (hptr h v) = x" and "nu \<le> hsize h x"
    and "\<And>j. j < k \<Longrightarrow> (hptr h ^^ j) (hptr h v) \<noteq> freep h"
  shows "\<exists>u\<in>S. nu \<le> hsize h (hptr h u) \<and> malloc_loop nu v (hptr h v) h w = Some (Ret (carve nu u (hptr h u) h) w)"
  using assms(2-)
proof (induction k arbitrary: v)
  case 0
  then show ?case using malloc_loop_take by fastforce
next
  case (Suc k)
  show ?case
  proof (cases "nu \<le> hsize h (hptr h v)")
    case True
    then show ?thesis using Suc.prems(1) malloc_loop_take by fastforce
  next
    case False
    have n: "hptr h v \<in> S" "hptr h v \<noteq> freep h"
      using wf_heapD(1) [OF wf] Suc.prems(1) Suc.prems(4) [of 0] by (simp_all add: circle_def follows_def)
    have "(hptr h ^^ k) (hptr h (hptr h v)) = x" using Suc.prems(2) by (metis comp_apply funpow_Suc_right)
    moreover have "(hptr h ^^ j) (hptr h (hptr h v)) \<noteq> freep h" if "j < k" for j
      using Suc.prems(4) [of "Suc j"] that by (metis Suc_mono comp_apply funpow_Suc_right)
    ultimately show ?thesis using Suc.IH [OF n(1) _ Suc.prems(3)] malloc_loop_next [OF False n(2)] by simp
  qed
qed

lemma malloc_loop_walk:
  assumes wf: "wf_heap h S A" and "v \<in> S"
  shows "(\<exists>u\<in>S. nu \<le> hsize h (hptr h u) \<and> malloc_loop nu v (hptr h v) h w = Some (Ret (carve nu u (hptr h u) h) w)) \<or>
    malloc_loop nu v (hptr h v) h w = more_core nu h w"
proof -
  have next_S: "hptr h x \<in> S" if "x \<in> S" for x using that wf_heapD(1) [OF wf] by (simp add: circle_def follows_def)
  obtain k where "(hptr h ^^ k) (hptr h v) = freep h"
    using reaches_all [OF wf_heapD(1) [OF wf] next_S [OF assms(2)] wf_heapD(5) [OF wf]] by (auto simp: reaches_def)
  then show ?thesis using assms(2)
  proof (induction k arbitrary: v)
    case 0
    then show ?case using malloc_loop_take malloc_loop_more by (cases "nu \<le> hsize h (hptr h v)") fastforce+
  next
    case (Suc k)
    have "(hptr h ^^ k) (hptr h (hptr h v)) = freep h" using Suc.prems(1) by (metis comp_apply funpow_Suc_right)
    note IH = Suc.IH [OF this next_S [OF Suc.prems(2)]]
    consider "nu \<le> hsize h (hptr h v)" | "\<not> nu \<le> hsize h (hptr h v)" "hptr h v = freep h" | "\<not> nu \<le> hsize h (hptr h v)" "hptr h v \<noteq> freep h"
      by blast
    then show ?case
    proof cases
      case 1
      then show ?thesis using Suc.prems(2) malloc_loop_take by blast
    next
      case 2
      then show ?thesis using malloc_loop_more by blast
    next
      case 3
      then show ?thesis using IH malloc_loop_next [OF 3] by simp
    qed
  qed
qed

text \<open>From \<^verbatim>\<open>freep\<close> the search goes once around before it comes back, so it finds a block that is large enough.\<close>

lemma malloc_loop_round:
  assumes wf: "wf_heap h S A" and x: "x \<in> S" "nu \<le> hsize h x"
  shows "\<exists>u\<in>S. nu \<le> hsize h (hptr h u) \<and> malloc_loop nu (freep h) (hptr h (freep h)) h w = Some (Ret (carve nu u (hptr h u) h) w)"
proof -
  let ?p = "hptr h (freep h)"
  note c = wf_heapD(1,5) [OF wf]
  have "?p \<in> S" using c by (simp add: circle_def follows_def)
  then have ex: "\<exists>k. (hptr h ^^ k) ?p = x" using reaches_all [OF c(1) _ x(1)] by (simp add: reaches_def)
  define k where "k = (LEAST k. (hptr h ^^ k) ?p = x)"
  have k: "(hptr h ^^ k) ?p = x" unfolding k_def by (rule LeastI_ex [OF ex])
  have "(hptr h ^^ j) ?p \<noteq> freep h" if "j < k" for j
  proof
    assume "(hptr h ^^ j) ?p = freep h"
    then have "(hptr h ^^ Suc j) ?p = ?p" by simp
    moreover have "(hptr h ^^ k) ?p = (hptr h ^^ (k - Suc j)) ((hptr h ^^ Suc j) ?p)" using that by (metis Suc_leI comp_apply funpow_add le_add_diff_inverse2)
    ultimately have "(hptr h ^^ (k - Suc j)) ?p = x" using k by simp
    then show False using not_less_Least [of "k - Suc j" "\<lambda>k. (hptr h ^^ k) ?p = x"] that by (simp add: k_def)
  qed
  then show ?thesis by (rule malloc_loop_hit [OF wf c(2) k x(2)])
qed

text \<open>The memory obtained after a call of \<^verbatim>\<open>malloc\<close>, and what the call has done.\<close>

definition obtained :: "nat set \<Rightarrow> nat \<Rightarrow> world \<Rightarrow> world \<Rightarrow> nat set" where
  "obtained M nu w w' =
    (let r = fst (hd (replies w)) in
     if replies w' = replies w \<or> r = -1 then M else M \<union> {nat r..<nat r + 16 * ask_units nu})"

definition served :: "heap \<Rightarrow> nat set \<Rightarrow> nat set \<Rightarrow> nat \<Rightarrow> world \<Rightarrow> nat \<Rightarrow> heap \<Rightarrow> world \<Rightarrow> bool" where
  "served h A M nu w p h' w' \<longleftrightarrow> h_base h' = h_base h \<and> (\<forall>x\<in>A. hsize h' x = hsize h x) \<and>
    (if p = 0 then fst (hd (replies w)) = -1 \<and> (\<exists>S. wf_heap h' S A \<and> covered h' S A = M)
     else p - 16 \<notin> A \<and> hsize h' (p - 16) = nu \<and>
       (\<exists>S. wf_heap h' S (insert (p - 16) A) \<and> covered h' S (insert (p - 16) A) = obtained M nu w w'))"

lemma served_carve:
  assumes wf: "wf_heap h S A" and u: "u \<in> S" "0 < nu" "nu \<le> hsize h (hptr h u)"
    and g: "covered h S A = obtained M nu w w'" "h_base h = h_base g" "\<forall>x\<in>A. hsize h x = hsize g x"
  shows "\<exists>p h'. carve nu u (hptr h u) h = (p, h') \<and> p \<noteq> 0 \<and> served g A M nu w p h' w'"
proof -
  obtain a h' where "carve nu u (hptr h u) h = (a + 16, h')" "carved h S A h' a" "hsize h' a = nu" by (rule carve_ok [OF wf u])
  then show ?thesis using g by (auto simp: served_def carved_def)
qed

lemma malloc_loop_ok:
  assumes wf: "wf_heap h S A" and nu: "0 < nu" "ask_units nu * 16 < 2 ^ 31"
    and ans: "\<And>r bs rs. replies w = (r, bs) # rs \<Longrightarrow> grants h (covered h S A) (sbrk_bytes nu) r"
  shows "\<exists>res. malloc_loop nu (freep h) (hptr h (freep h)) h w = Some res \<and>
    (\<forall>p h' w'. res = Ret (p, h') w' \<longrightarrow> served h A (covered h S A) nu w p h' w')"
  using malloc_loop_walk [OF wf wf_heapD(5) [OF wf], of nu w]
proof (elim disjE bexE conjE)
  fix u assume "u \<in> S" "nu \<le> hsize h (hptr h u)" "malloc_loop nu (freep h) (hptr h (freep h)) h w = Some (Ret (carve nu u (hptr h u) h) w)"
  then show ?thesis using served_carve [OF wf _ nu(1), of u "covered h S A" w w h] by (auto simp: obtained_def)
next
  assume l: "malloc_loop nu (freep h) (hptr h (freep h)) h w = more_core nu h w"
  show ?thesis
  proof (cases "replies w")
    case Nil
    then show ?thesis by (simp add: l more_core_def morecore_def Let_def sbrk_def syscall1_def ask_def)
  next
    case (Cons rb rs)
    obtain r bs where w: "replies w = (r, bs) # rs" using Cons by (cases rb) auto
    show ?thesis
    proof (cases "r = -1")
      case True
      then show ?thesis using w wf
        by (auto simp: l more_core_def morecore_def Let_def sbrk_def syscall1_def ask_def served_def)
    next
      case False
      obtain g T w' where m: "morecore nu h w = Some (Ret (freep g, g) w')" "replies w' = rs" "wf_heap g T A"
        "covered g T A = covered h S A \<union> {nat r..<nat r + 16 * ask_units nu}" "\<forall>a\<in>A. hsize g a = hsize h a"
        "h_base g = h_base h" "\<exists>x\<in>T. nu \<le> hsize g x" "freep g \<noteq> 0"
        by (rule morecore_ok [OF wf w ans [OF w] False nu(2)])
      obtain u where u: "u \<in> T" "nu \<le> hsize g (hptr g u)"
        "malloc_loop nu (freep g) (hptr g (freep g)) g w' = Some (Ret (carve nu u (hptr g u) g) w')"
        using malloc_loop_round [OF m(3)] m(7) by blast
      have "covered g T A = obtained (covered h S A) nu w w'" using m(2,4) w False by (simp add: obtained_def)
      from served_carve [OF m(3) u(1) nu(1) u(2) this m(6,5)]
      show ?thesis using u(3) m(1,8) by (auto simp: l more_core_def)
    qed
  qed
qed

section \<open>Programs that allocate\<close>

definition units :: "32 word \<Rightarrow> nat" where
  "units nbytes = (unat nbytes + 16 - 1) div 16 + 1"

lemma units_enough: "unat n + 16 \<le> 16 * units n"
  unfolding units_def using div_mult_mod_eq [of "unat n + 15" 16] mod_less_divisor [of 16 "unat n + 15"] by simp

definition heap_inv :: "heap \<Rightarrow> nat set \<Rightarrow> nat set \<Rightarrow> bool" where
  "heap_inv h A M \<longleftrightarrow> 0 < h_base h \<and> (freep h = 0 \<and> A = {} \<and> M = {} \<or> (\<exists>S. wf_heap h S A \<and> covered h S A = M))"

text \<open>A request of less than 2 GB, to which the kernel gives memory as it documents.\<close>

definition fair :: "heap \<Rightarrow> nat set \<Rightarrow> 32 word \<Rightarrow> world \<Rightarrow> bool" where
  "fair h M n w \<longleftrightarrow> ask_units (units n) * 16 < 2 ^ 31 \<and>
    (case replies w of [] \<Rightarrow> True | r # _ \<Rightarrow> grants h M (sbrk_bytes (units n)) (fst r))"

definition heap_start :: "heap \<Rightarrow> heap" where
  "heap_start h = set_size (h_base h) 0 (set_ptr (h_base h) (h_base h) (h\<lparr>freep := h_base h\<rparr>))"

lemma wf_heap_start: "0 < h_base h \<Longrightarrow> wf_heap (heap_start h) {h_base h} {}" "covered (heap_start h) {h_base h} {} = {}"
  by (auto simp: wf_heap_def heap_start_def circle_def follows_def blocks_def apart_def covered_def)

lemma malloc_inv:
  assumes i: "heap_inv h A M" and f: "fair h M n w"
  shows "\<exists>res. malloc n h w = Some res \<and> (\<forall>p h' w'. res = Ret (p, h') w' \<longrightarrow> served h A M (units n) w p h' w')"
proof -
  have nu: "0 < units n" "ask_units (units n) * 16 < 2 ^ 31" using f by (simp_all add: units_def fair_def)
  have ans: "grants h M (sbrk_bytes (units n)) r" if "replies w = (r, bs) # rs" for r bs rs using f that by (simp add: fair_def)
  show ?thesis
  proof (cases "freep h = 0")
    case True
    let ?g = "heap_start h"
    have "\<not> wf_heap h S A" for S using freep_pos [of h S A] True by auto
    then have e: "A = {}" "M = {}" and b: "0 < h_base h" using i True by (auto simp: heap_inv_def)
    have m: "malloc n h w = malloc_loop (units n) (freep ?g) (hptr ?g (freep ?g)) ?g w"
      using True by (simp add: malloc_def heap_start_def units_def Let_def)
    have g: "grants ?g (covered ?g {h_base h} {}) (sbrk_bytes (units n)) r" if "replies w = (r, bs) # rs" for r bs rs
      using ans [OF that] e(2) by (simp add: wf_heap_start grants_def) (simp add: heap_start_def)
    have "served ?g {} {} (units n) w p h' w' = served h {} {} (units n) w p h' w'" for p h' w'
      by (simp add: served_def heap_start_def)
    moreover have "\<exists>res. malloc_loop (units n) (freep ?g) (hptr ?g (freep ?g)) ?g w = Some res \<and>
        (\<forall>p h' w'. res = Ret (p, h') w' \<longrightarrow> served ?g {} (covered ?g {h_base h} {}) (units n) w p h' w')"
      by (rule malloc_loop_ok [OF wf_heap_start(1) [OF b] nu g])
    ultimately show ?thesis unfolding m e wf_heap_start(2) by (simp only:)
  next
    case False
    then obtain S where S: "wf_heap h S A" "covered h S A = M" using i by (auto simp: heap_inv_def)
    have m: "malloc n h w = malloc_loop (units n) (freep h) (hptr h (freep h)) h w" using False by (simp add: malloc_def units_def Let_def)
    show ?thesis using malloc_loop_ok [OF S(1) nu] ans unfolding m S(2) by blast
  qed
qed

text \<open>The program writes into its blocks: headers elsewhere stay.\<close>

definition writes :: "heap \<Rightarrow> nat set \<Rightarrow> heap \<Rightarrow> bool" where
  "writes h A h' \<longleftrightarrow> h_base h' = h_base h \<and> freep h' = freep h \<and>
    (\<forall>x. (\<forall>a\<in>A. {x..<x + 16} \<inter> {a + 16..<block_end h a} = {}) \<longrightarrow> hptr h' x = hptr h x \<and> hsize h' x = hsize h x)"

lemma writes_wf:
  assumes wf: "wf_heap h S A" and wr: "writes h A h'"
  shows "wf_heap h' S A" and "covered h' S A = covered h S A"
proof -
  note w = wf_heapD [OF wf]
  have base: "h_base h' = h_base h" "freep h' = freep h" using wr by (simp_all add: writes_def)
  have same: "hptr h' x = hptr h x \<and> hsize h' x = hsize h x" if x: "x \<in> S \<or> x \<in> A" for x
  proof -
    have "{x..<x + 16} \<inter> {a + 16..<block_end h a} = {}" if a: "a \<in> A" for a
    proof -
      have ba: "a \<in> blocks h S A" using a w(2,6) by (auto simp: blocks_def)
      have "x + 16 \<le> a + 16 \<or> block_end h a \<le> x"
      proof (cases "x = h_base h")
        case True
        then show ?thesis using w(7) [OF ba] by simp
      next
        case False
        then have bx: "x \<in> blocks h S A" using x by (simp add: blocks_def)
        then show ?thesis using w(8) [OF bx ba] w(8) [OF ba bx] w(7) [OF bx] by (cases x a rule: linorder_cases) (auto simp: block_end_def)
      qed
      then show ?thesis by auto
    qed
    then show ?thesis using wr by (simp add: writes_def)
  qed
  have b: "blocks h' S A = blocks h S A" by (simp add: blocks_def base)
  have e: "x \<in> blocks h S A \<Longrightarrow> block_end h' x = block_end h x" for x using same [of x] by (auto simp: block_end_def blocks_def)
  have "circle S (hptr h')" using w(1) same by (simp add: circle_def)
  moreover have "hsize h' x = hsize h x" if "x \<in> blocks h S A \<or> x = h_base h" for x using same [of x] that w(2) by (auto simp: blocks_def)
  ultimately show "wf_heap h' S A" using w(2-8) unfolding wf_heap_def b base apart_def by (auto simp: e)
  show "covered h' S A = covered h S A" unfolding covered_def b by (intro SUP_cong) (auto simp: e)
qed

text \<open>
  The runs of a program with the blocks \<open>A\<close> (by their headers) in the memory \<open>M\<close>: it calls \<^verbatim>\<open>malloc\<close>, calls \<^verbatim>\<open>free\<close> for a block
  it has, and writes into its blocks.
\<close>

inductive uses :: "heap \<Rightarrow> nat set \<Rightarrow> nat set \<Rightarrow> bool" where
  uses_start: "freep h = 0 \<Longrightarrow> 0 < h_base h \<Longrightarrow> uses h {} {}"
| uses_malloc: "uses h A M \<Longrightarrow> fair h M n w \<Longrightarrow> malloc n h w = Some (Ret (p, h') w') \<Longrightarrow>
    uses h' (if p = 0 then A else insert (p - 16) A) (if p = 0 then M else obtained M (units n) w w')"
| uses_free: "uses h A M \<Longrightarrow> a \<in> A \<Longrightarrow> free (a + 16) h = Some h' \<Longrightarrow> uses h' (A - {a}) M"
| uses_write: "uses h A M \<Longrightarrow> writes h A h' \<Longrightarrow> uses h' A M"

lemma free_inv:
  assumes "heap_inv h A M" and a: "a \<in> A"
  obtains h' where "free (a + 16) h = Some h'" "heap_inv h' (A - {a}) M"
proof -
  obtain S where S: "wf_heap h S (insert a (A - {a}))" "covered h S A = M" and b: "0 < h_base h"
    using assms by (auto simp: heap_inv_def insert_absorb)
  have n: "a \<notin> A - {a}" by simp
  obtain h' S' where f: "free (a + 16) h = Some h'" "wf_heap h' S' (A - {a})" "covered h' S' (A - {a}) = covered h S (insert a (A - {a}))"
    "\<forall>x\<in>A - {a}. hsize h' x = hsize h x" "h_base h' = h_base h" "\<exists>x\<in>S'. hsize h a \<le> hsize h' x" by (rule free_ok [OF S(1) n])
  have "covered h' S' (A - {a}) = M" using f(3) S(2) a by (simp only: insert_Diff)
  then have "heap_inv h' (A - {a}) M" using f(2,5) b unfolding heap_inv_def by metis
  then show thesis by (rule that [OF f(1)])
qed

lemma uses_inv: "uses h A M \<Longrightarrow> heap_inv h A M"
proof (induction rule: uses.induct)
  case (uses_start h)
  then show ?case by (simp add: heap_inv_def)
next
  case (uses_malloc h A M n w p h' w')
  then have "served h A M (units n) w p h' w'" using malloc_inv [of h A M n w] by auto
  then show ?case using uses_malloc.IH by (auto simp: served_def heap_inv_def)
next
  case (uses_free h A M a h')
  obtain g where "free (a + 16) h = Some g" "heap_inv g (A - {a}) M" by (rule free_inv [OF uses_free.IH uses_free.hyps(2)])
  then show ?case using uses_free.hyps(3) by simp
next
  case (uses_write h A M h')
  have b: "h_base h' = h_base h" "freep h' = freep h" using uses_write.hyps(2) by (simp_all add: writes_def)
  have "wf_heap h' S A \<and> covered h' S A = M" if "wf_heap h S A \<and> covered h S A = M" for S
    using writes_wf [OF _ uses_write.hyps(2)] that by simp
  then show ?case using uses_write.IH unfolding heap_inv_def b by blast
qed

lemma heap_inv_list:
  assumes "wf_heap h S A"
  shows "{x. reaches (hptr h) (h_base h) x} = S"
proof -
  note c = wf_heapD(1,2) [OF assms]
  have "(hptr h ^^ n) (h_base h) \<in> S" for n using c by (induction n) (auto simp: circle_def follows_def)
  then show ?thesis using reaches_all [OF c] by (auto simp: reaches_def)
qed

text \<open>
  Safety of the user memory allocator (C10). Through any run of a program that calls \<^verbatim>\<open>malloc\<close> and \<^verbatim>\<open>free\<close> and writes into its blocks,
  with requests below 2 GB and a kernel that gives fresh memory or none: the program's blocks do not overlap and lie in the memory
  the kernel gave, all of which is in the list of free blocks or in a block of the program. \<^verbatim>\<open>free\<close> of a block returns. \<^verbatim>\<open>malloc\<close> does not run
  forever; when it returns it has a new block with room for the bytes asked for behind its header, or the null pointer and the kernel had
  no memory, and the program's other blocks keep their sizes.
\<close>

theorem malloc_free_safe:
  assumes "uses h A M"
  shows "(\<forall>a\<in>A. {a..<block_end h a} \<subseteq> M) \<and>
    (\<forall>a\<in>A. \<forall>b\<in>A. a \<noteq> b \<longrightarrow> {a..<block_end h a} \<inter> {b..<block_end h b} = {}) \<and>
    (freep h \<noteq> 0 \<longrightarrow> M = covered h {x. reaches (hptr h) (h_base h) x} A) \<and>
    (\<forall>a\<in>A. free (a + 16) h \<noteq> None) \<and>
    (\<forall>n w. fair h M n w \<longrightarrow> (\<exists>res. malloc n h w = Some res \<and>
      (\<forall>p h' w'. res = Ret (p, h') w' \<longrightarrow> (\<forall>a\<in>A. hsize h' a = hsize h a) \<and>
        (if p = 0 then fst (hd (replies w)) = -1 else p - 16 \<notin> A \<and> unat n + 16 \<le> 16 * hsize h' (p - 16)))))"
proof -
  note i = uses_inv [OF assms]
  have fr: "\<forall>a\<in>A. free (a + 16) h \<noteq> None" using free_inv [OF i] by (metis option.distinct(1))
  have m: "\<exists>res. malloc n h w = Some res \<and>
      (\<forall>p h' w'. res = Ret (p, h') w' \<longrightarrow> (\<forall>a\<in>A. hsize h' a = hsize h a) \<and>
        (if p = 0 then fst (hd (replies w)) = -1 else p - 16 \<notin> A \<and> unat n + 16 \<le> 16 * hsize h' (p - 16)))" if "fair h M n w" for n w
    using malloc_inv [OF i that] units_enough [of n] by (auto simp: served_def)
  show ?thesis
  proof (cases "A = {} \<and> freep h = 0")
    case True
    then show ?thesis using m by simp
  next
    case False
    then obtain S where S: "wf_heap h S A" "covered h S A = M" using i by (auto simp: heap_inv_def)
    have b: "a \<in> blocks h S A" if "a \<in> A" for a using that wf_heapD(2,6) [OF S(1)] by (auto simp: blocks_def)
    have "{a..<block_end h a} \<inter> {b..<block_end h b} = {}" if "a \<in> A" "b \<in> A" "a \<noteq> b" for a b
      using wf_heapD(8) [OF S(1)] b that by (cases a b rule: linorder_cases) fastforce+
    moreover have "{a..<block_end h a} \<subseteq> M" if "a \<in> A" for a using b [OF that] S(2) by (auto simp: covered_def)
    ultimately show ?thesis using fr m S(2) by (simp add: heap_inv_list [OF S(1)])
  qed
qed

text \<open>The first call of \<^verbatim>\<open>malloc\<close>: one \<^verbatim>\<open>sbrk\<close>, whose memory becomes the only free block.\<close>

definition first_heap :: "heap \<Rightarrow> nat \<Rightarrow> nat \<Rightarrow> heap" where
  "first_heap h a n = h\<lparr>hptr := (hptr h)(a := h_base h, h_base h := a), hsize := (hsize h)(h_base h := 0, a := n), freep := h_base h\<rparr>"

lemma units_bound: "0 < ask_units (units n)" "ask_units (units n) < 2 ^ 32" "units n \<le> ask_units (units n)"
proof -
  have "unat n < 2 ^ 32" using unsigned_less [of n] by simp
  then have "units n < 2 ^ 32" by (simp add: units_def less_mult_imp_div_less)
  then show "0 < ask_units (units n)" "ask_units (units n) < 2 ^ 32" "units n \<le> ask_units (units n)" by (simp_all add: ask_units_def)
qed

lemma malloc_first:
  assumes h: "freep h = 0" "0 < h_base h" and w: "replies w = (r, bs) # rs" and r: "0 \<le> r" "h_base h < nat r"
  shows "malloc n h w = Some (Ret (carve (units n) (h_base h) (nat r) (first_heap h (nat r) (ask_units (units n))))
    ((tell (Sbrk (sbrk_bytes (units n)) 1) w)\<lparr>replies := rs\<rparr>))"
proof -
  let ?nu = "units n" and ?a = "nat r" and ?b = "h_base h" and ?s = "heap_start h"
  let ?n = "ask_units ?nu" let ?g = "first_heap h ?a ?n" and ?w = "(tell (Sbrk (sbrk_bytes ?nu) 1) w)\<lparr>replies := rs\<rparr>"
  have s: "free_search (hptr (set_size ?a ?n ?s)) ?a (freep (set_size ?a ?n ?s)) = Some ?b"
    using r by (subst free_search.simps) (simp add: heap_start_def)
  have "free (?a + 16) (set_size ?a ?n ?s) = Some ?g"
    unfolding free_def Let_def add_diff_cancel_right' s
    using r units_bound(1,2) [of n] by (auto simp: heap_start_def first_heap_def set_ptr_def set_size_def fun_upd_twist)
  moreover have "sbrk (sint (word_of_nat (?n * 16) :: 32 word)) w = Ret r ?w"
    using w by (simp add: sbrk_def syscall1_def ask_def sbrk_bytes_def)
  ultimately have "morecore ?nu ?s w = Some (Ret (?b, ?g) ?w)"
    using r by (simp add: morecore_def Let_def flip: ask_units_def) (simp add: first_heap_def)
  moreover have "malloc n h w = malloc_loop ?nu ?b ?b ?s w" using h by (simp add: malloc_def heap_start_def units_def Let_def)
  moreover have "malloc_loop ?nu ?b ?b ?s w = more_core ?nu ?s w" by (rule malloc_loop_more) (simp_all add: heap_start_def units_def)
  moreover have "malloc_loop ?nu ?b (hptr ?g ?b) ?g ?w = Some (Ret (carve ?nu ?b (hptr ?g ?b) ?g) ?w)"
    using r units_bound(3) [of n] by (intro malloc_loop_take) (simp add: first_heap_def)
  ultimately show ?thesis using h by (simp add: more_core_def first_heap_def)
qed

text \<open>An example, and the property above at it.\<close>

definition heap0 :: heap where
  "heap0 = \<lparr>hptr = (\<lambda>_. 0), hsize = (\<lambda>_. 0), h_base = 16, freep = 0\<rparr>"

definition heap1 :: heap where
  "heap1 = \<lparr>hptr = (\<lambda>_. 0)(4096 := 16, 16 := 4096), hsize = (\<lambda>_. 0)(4096 := 4093, 69584 := 3), h_base = 16, freep = 16\<rparr>"

lemma malloc_ex:
  "malloc 24 heap0 \<lparr>replies = [(4096, [])], calls = []\<rparr> = Some (Ret (69600, heap1) \<lparr>replies = [], calls = [Sbrk 65536 1]\<rparr>)"
proof -
  have u: "units 24 = 3" "sbrk_bytes 3 = 65536" "ask_units 3 = 4096" by (simp_all add: units_def sbrk_bytes_def ask_units_def)
  have "(\<lambda>_ :: nat. 0 :: nat)(16 := 0) = (\<lambda>_. 0)" by auto
  then show ?thesis
    by (subst malloc_first [where r = 4096 and bs = "[]" and rs = "[]"])
      (simp_all add: heap0_def u carve_def first_heap_def heap1_def set_size_def Let_def tell_def fun_upd_twist)
qed

lemma uses_ex: "uses heap1 {69584} {4096..<69632}"
proof -
  have f: "fair heap0 {} 24 \<lparr>replies = [(4096, [])], calls = []\<rparr>"
    by (simp add: fair_def units_def ask_units_def sbrk_bytes_def grants_def heap0_def)
  have "uses heap0 {} {}" by (rule uses_start) (simp_all add: heap0_def)
  from uses_malloc [OF this f malloc_ex] show ?thesis by (simp add: obtained_def units_def ask_units_def)
qed

theorem malloc_free_safe_witness:
  "uses heap1 {69584} {4096..<69632} \<and> {69584..<block_end heap1 69584} \<subseteq> {4096..<69632} \<and> free 69600 heap1 \<noteq> None \<and>
    (\<exists>res. malloc 100 heap1 \<lparr>replies = [], calls = []\<rparr> = Some res)"
proof -
  note m = malloc_free_safe [OF uses_ex]
  have "fair heap1 {4096..<69632} 100 \<lparr>replies = [], calls = []\<rparr>" by (simp add: fair_def units_def ask_units_def)
  then have "\<exists>res. malloc 100 heap1 \<lparr>replies = [], calls = []\<rparr> = Some res" using m by blast
  moreover have "free (69584 + 16) heap1 \<noteq> None" using m by blast
  ultimately show ?thesis using m uses_ex by simp
qed

text \<open>
  \<^verbatim>\<open>malloc\<close> of 4 GB (C39). The number of bytes does not fit into the argument of \<^verbatim>\<open>sbrk\<close>: the first call of \<^verbatim>\<open>malloc(0xfffffff0)\<close> asks the kernel
  for 0 bytes, which succeeds, and returns a pointer to a block of that size without any memory behind it.
\<close>

theorem malloc_overflows:
  assumes "freep h = 0" and "0 < h_base h" and "replies w = (r, bs) # rs" and "0 \<le> r" and "h_base h < nat r"
  shows "\<exists>h' w'. malloc 0xfffffff0 h w = Some (Ret (nat r + 16, h') w') \<and> calls w' = calls w @ [Sbrk 0 1] \<and>
    hsize h' (nat r) = 2 ^ 28"
proof -
  have u: "units 0xfffffff0 = 2 ^ 28" by (simp add: units_def)
  then have "ask_units (units 0xfffffff0) = 2 ^ 28" "sbrk_bytes (units 0xfffffff0) = 0" by (simp_all add: ask_units_def sbrk_bytes_def)
  then show ?thesis using malloc_first [OF assms, where n = "0xfffffff0"] assms(5) by (simp add: u carve_def first_heap_def)
qed

theorem malloc_overflows_witness:
  "\<exists>h' w'. malloc 0xfffffff0 heap0 \<lparr>replies = [(4096, [])], calls = []\<rparr> = Some (Ret (4112, h') w') \<and> calls w' = [Sbrk 0 1] \<and>
    hsize h' 4096 = 2 ^ 28"
  using malloc_overflows [where h = heap0 and w = "\<lparr>replies = [(4096, [])], calls = []\<rparr>" and r = 4096 and bs = "[]" and rs = "[]"] by (simp add: heap0_def)

end
