(* ===== verification/Fs_Rw.thy ===== *)
theory Fs_Rw
  imports Fs_Data
begin

text \<open>
  The contracts of \<^verbatim>\<open>readi\<close> and \<^verbatim>\<open>writei\<close>: a file is a sequence of bytes, reading gives a part of
  it, writing replaces a part of it or extends it, and nothing else on the disk changes.
\<close>

section \<open>Files as byte sequences\<close>

text \<open>
  \<open>file_ok s ip\<close>: the inode has a block for every byte of the file. \<open>file_bytes s ip\<close> is its
  contents.
\<close>

definition file_ok :: "'z fs_state_scheme \<Rightarrow> nat \<Rightarrow> bool" where
  "file_ok s ip \<longleftrightarrow> inode_ok s ip \<and> i_size (itable s ! ip) \<le> MAXFILE * BSIZE \<and>
    (\<forall>n. n * BSIZE < i_size (itable s ! ip) \<longrightarrow> fblk (blk s) (addrs s ip) n \<noteq> 0)"

definition file_bytes :: "'z fs_state_scheme \<Rightarrow> nat \<Rightarrow> bytes" where
  "file_bytes s ip = map (fbyte (blk s) (addrs s ip)) [0..<i_size (itable s ! ip)]"

text \<open>The caller of \<^verbatim>\<open>readi\<close> and \<^verbatim>\<open>writei\<close> holds no buffer of the data region.\<close>

definition data_free :: "'z fs_state_scheme \<Rightarrow> bool" where
  "data_free s \<longleftrightarrow> (\<forall>b\<in>held s. \<not> data_used s b)"

lemma data_freeD: "data_free s \<Longrightarrow> data_used s b \<Longrightarrow> b \<notin> held s"
  by (auto simp: data_free_def)

lemma data_free_step: "fs_step n s t \<Longrightarrow> blk t = blk s \<Longrightarrow> data_free s \<Longrightarrow> data_free t"
  using fs_step_used [of n s t] fs_stepD(2) [of n s t] by (simp add: data_free_def)

lemma div_mod_add:
  assumes "off mod 1024 + i < (1024 :: nat)"
  shows "(off + i) div 1024 = off div 1024" and "(off + i) mod 1024 = off mod 1024 + i"
proof -
  note e = div_mult_mod_eq [of off 1024] div_mult_mod_eq [of "off + i" 1024]
  have m: "off mod 1024 < 1024" "(off + i) mod 1024 < 1024" by simp_all
  show "(off + i) div 1024 = off div 1024" using e m assms by linarith
  then show "(off + i) mod 1024 = off mod 1024 + i" using e by linarith
qed

text \<open>One turn of the loop covers the bytes up to the end of the block.\<close>

lemma get_at_fbyte:
  assumes "fblk v a (off div 1024) = b" and "b \<noteq> 0" and "length (v b) = 1024" and "m \<le> 1024 - off mod 1024"
  shows "get_at (off mod 1024) m (v b) = map (fbyte v a) [off..<off + m]"
proof (rule nth_equalityI)
  fix i assume "i < length (get_at (off mod 1024) m (v b))"
  then have i: "i < m" by (simp add: get_at_def)
  then have "off mod 1024 + i < 1024" using assms(4) by linarith
  then have "(off + i) div 1024 = off div 1024" "(off + i) mod 1024 = off mod 1024 + i"
    by (rule div_mod_add)+
  then show "get_at (off mod 1024) m (v b) ! i = map (fbyte v a) [off..<off + m] ! i"
    using i assms by (simp add: get_at_def fbyte_def)
qed (use assms in \<open>simp add: get_at_def\<close>)


lemma returns_readi_step:
  assumes li: "log_inv s" and ok: "inode_ok s ip" and df: "data_free s" and room: "0 < slots s"
    and off: "off < 268 * 1024" and fb: "fblk (blk s) (addrs s ip) (off div 1024) \<noteq> 0" and m: "m \<le> 1024 - off mod 1024"
  shows "returns (readi_step ip To_local off m s) (\<lambda>(c, bs) t. c = Some 0 \<and>
    bs = map (fbyte (blk s) (addrs s ip)) [off..<off + m] \<and> fs_step 0 s t \<and> blk t = blk s)"
proof -
  let ?k = "off div 1024"
  let ?b = "fblk (blk s) (addrs s ip) ?k"
  have k: "?k < 268" using off by (simp add: less_mult_imp_div_less)
  have im: "imap_ok (data_used s) (blk s) (addrs s ip)" and dev: "i_dev (itable s ! ip) = ROOTDEV"
    using ok by (auto simp: inode_ok_def)
  have len: "length (blk s b) = 1024" for b using li length_blk [OF log_inv_bio] by auto
  have ind: "12 \<le> ?k \<Longrightarrow> addrs s ip ! 12 \<notin> held s"
    using fb imap_okD(2) [OF im] data_freeD [OF df] by (auto simp: fblk_def split: if_splits)
  show ?thesis
    unfolding readi_step_def returns_kbind
  proof (rule returns_mono [OF returns_bmap_mapped [OF li dev k fb ind room]])
    fix addr t assume a: "addr = ?b \<and> fs_step 0 s t \<and> blk t = blk s"
    note st = fs_stepD [OF conjunct1 [OF conjunct2 [OF a]]]
    have nh: "?b \<notin> held t" using data_freeD [OF df imap_okD(3) [OF im k fb]] st(2) by simp
    have room': "0 < slots t" using room st(3) by simp
    have "returns (kbind (bread ROOTDEV ?b t) (\<lambda>bp u.
        let bs = get_at (off mod 1024) m (bdata bp u) in kbind (brelse bp u) (\<lambda>_ s. Ok (Some 0, bs) s)))
      (\<lambda>(c, bs) u. c = Some 0 \<and> bs = map (fbyte (blk s) (addrs s ip)) [off..<off + m] \<and> fs_step 0 s u \<and> blk u = blk s)"
    proof (rule fs_bread [OF st(1) nh room'])
      fix i u assume l: "locked t u i ?b" and bd: "bdata i u = blk t ?b"
      show "returns (let bs = get_at (off mod 1024) m (bdata i u) in kbind (brelse i u) (\<lambda>_ s. Ok (Some 0, bs) s))
        (\<lambda>(c, bs) u. c = Some 0 \<and> bs = map (fbyte (blk s) (addrs s ip)) [off..<off + m] \<and> fs_step 0 s u \<and> blk u = blk s)"
        unfolding Let_def
        by (rule fs_release [OF l]) (use a fs_step_trans [of 0 s t 0] get_at_fbyte [OF refl fb len m] bd in auto)
    qed
    then show "returns (if addr = 0 then Ok (None, []) t
        else kbind (bread (i_dev (itable t ! ip)) addr t) (\<lambda>bp s.
          let bs = get_at (off mod 1024) m (bdata bp s) in kbind (either_copyout To_local bs s) (\<lambda>r s. kbind (brelse bp s) (\<lambda>_ s. Ok (Some r, bs) s))))
      (\<lambda>(c, bs) u. c = Some 0 \<and> bs = map (fbyte (blk s) (addrs s ip)) [off..<off + m] \<and> fs_step 0 s u \<and> blk u = blk s)"
      using a fb st(9) dev by (simp add: either_copyout_def)
  qed
qed

lemma returns_readi_loop:
  assumes "log_inv s" and "inode_ok s ip" and "data_free s" and "0 < slots s" and "tot \<le> n"
    and "off + (n - tot) \<le> 268 * 1024"
    and "\<And>i. off \<le> i \<Longrightarrow> i < off + (n - tot) \<Longrightarrow> fblk (blk s) (addrs s ip) (i div 1024) \<noteq> 0"
  shows "returns (readi_loop ip To_local off tot n s) (\<lambda>(r, bs) t. r = int n \<and>
    bs = map (fbyte (blk s) (addrs s ip)) [off..<off + (n - tot)] \<and> fs_step 0 s t \<and> blk t = blk s)"
  using assms
proof (induction "n - tot" arbitrary: off tot s rule: less_induct)
  case less
  show ?case
  proof (cases "tot < n")
    case False
    then show ?thesis using less.prems fs_step_refl [of s 0] by (simp add: readi_loop.simps)
  next
    case True
    define m where "m = min (n - tot) (1024 - off mod 1024)"
    have m: "0 < m" "m \<le> n - tot" "m \<le> 1024 - off mod 1024" using True by (auto simp: m_def)
    have e: "off + m + (n - (tot + m)) = off + (n - tot)" "n - (tot + m) < n - tot" "tot + m \<le> n" using m True by linarith+
    have fb: "fblk (blk s) (addrs s ip) (off div 1024) \<noteq> 0" using less.prems(7) [of off] True by simp
    have rest: "returns (readi_loop ip To_local (off + m) (tot + m) n u) (\<lambda>(r, bs) t. r = int n \<and>
        bs = map (fbyte (blk s) (addrs s ip)) [off + m..<off + (n - tot)] \<and> fs_step 0 s t \<and> blk t = blk s)"
      if u: "fs_step 0 s u" "blk u = blk s" for u
    proof -
      have it: "itable u = itable s" "data_used u = data_used s" using fs_stepD(9) [OF u(1)] fs_step_used [OF u] by auto
      have iok: "inode_ok u ip" using less.prems(2) it u(2) by (simp add: inode_ok_def)
      have room: "0 < slots u" using fs_stepD(3) [OF u(1)] less.prems(4) by simp
      have bnd: "off + m + (n - (tot + m)) \<le> 268 * 1024" using less.prems(6) e(1) by simp
      have "returns (readi_loop ip To_local (off + m) (tot + m) n u) (\<lambda>(r, bs) t. r = int n \<and>
        bs = map (fbyte (blk u) (addrs u ip)) [off + m..<off + m + (n - (tot + m))] \<and> fs_step 0 u t \<and> blk t = blk u)"
        by (rule less.hyps [OF e(2) fs_stepD(1) [OF u(1)] iok data_free_step [OF u less.prems(3)] room e(3) bnd])
          (use less.prems(7) it u(2) e(1) in simp)
      then show ?thesis unfolding e(1) it u(2) by (rule returns_mono) (use fs_step_trans [OF u(1)] in auto)
    qed
    have app: "map f [off..<off + m] @ map f [off + m..<off + (n - tot)] = map f [off..<off + (n - tot)]" for f :: "nat \<Rightarrow> u8"
      using upt_add_eq_append [of off "off + m" "n - tot - m"] m by simp
    have "off < 268 * 1024" using less.prems(6) True by simp
    from returns_readi_step [OF less.prems(1-4) this fb m(3)]
    show ?thesis
      unfolding readi_loop.simps [of ip To_local off tot n s] Let_def returns_kbind m_def [symmetric] if_P [OF True]
      by (rule returns_mono) (clarsimp simp: wp, drule (1) rest, erule returns_mono, auto simp: app)
  qed
qed

lemma file_ok_mapped:
  assumes "file_ok s ip" and "i < i_size (itable s ! ip)"
  shows "fblk (blk s) (addrs s ip) (i div 1024) \<noteq> 0"
proof -
  have "i div 1024 * 1024 \<le> i" by simp
  then have "i div 1024 * 1024 < i_size (itable s ! ip)" using assms(2) by linarith
  then show ?thesis using assms(1) unfolding file_ok_def by blast
qed

lemma take_upt_min: "take k [i..<j] = [i..<min j (i + k)]"
  by (cases "i + k \<le> j") (auto simp: min_def)

lemma returns_readi:
  assumes li: "log_inv s" and ok: "file_ok s ip" and df: "data_free s" and room: "0 < slots s" and n: "off + n < 2 ^ 32"
  shows "returns (readi ip To_local off n s) (\<lambda>(r, bs) t. bs = take n (drop off (file_bytes s ip)) \<and>
    r = int (length bs) \<and> fs_step 0 s t \<and> blk t = blk s)"
proof -
  let ?sz = "i_size (itable s ! ip)"
  have i: "inode_ok s ip" and sz: "?sz \<le> 268 * 1024" using ok by (auto simp: file_ok_def)
  have tk: "take k (drop off (file_bytes s ip)) = map (fbyte (blk s) (addrs s ip)) [off..<min ?sz (off + k)]" for k
    by (simp add: file_bytes_def drop_map take_map take_upt_min min.commute)
  show ?thesis
  proof (cases "off > ?sz")
    case True
    then show ?thesis using li fs_step_refl [of s 0] by (simp add: readi_def Let_def tk)
  next
    case False
    define k where "k = (if off + n > ?sz then ?sz - off else n)"
    have k: "off + k = min ?sz (off + n)" "off + k \<le> ?sz" using False by (auto simp: k_def)
    have "returns (readi_loop ip To_local off 0 k s) (\<lambda>(r, bs) t. r = int k \<and>
        bs = map (fbyte (blk s) (addrs s ip)) [off..<off + (k - 0)] \<and> fs_step 0 s t \<and> blk t = blk s)"
      by (rule returns_readi_loop [OF li i df room]) (use k sz file_ok_mapped [OF ok] in auto)
    then have "returns (readi_loop ip To_local off 0 k s) (\<lambda>(r, bs) t. bs = take n (drop off (file_bytes s ip)) \<and>
        r = int (length bs) \<and> fs_step 0 s t \<and> blk t = blk s)"
      by (rule returns_mono) (auto simp: tk k(1) [symmetric])
    moreover have "readi ip To_local off n s = readi_loop ip To_local off 0 k s"
      using False n by (simp add: readi_def Let_def k_def)
    ultimately show ?thesis by simp
  qed
qed

section \<open>Writing\<close>

text \<open>The disk blocks of a file, its indirect block included.\<close>

definition fblocks :: "'z fs_state_scheme \<Rightarrow> nat \<Rightarrow> nat set" where
  "fblocks s ip = {b. b \<noteq> 0 \<and> (b = addrs s ip ! 12 \<or> (\<exists>n<268. b = fblk (blk s) (addrs s ip) n))}"

text \<open>
  \<open>wrote_file k ip off bs s t\<close>: from \<open>s\<close> to \<open>t\<close> the bytes \<open>bs\<close> have been written at \<open>off\<close>, blocks being
  added to the file as needed, with at most \<open>k\<close> more blocks in the log.
\<close>

definition wrote_file :: "int \<Rightarrow> nat \<Rightarrow> nat \<Rightarrow> bytes \<Rightarrow> 'z fs_state_scheme \<Rightarrow> 'z fs_state_scheme \<Rightarrow> bool" where
  "wrote_file k ip off bs s t \<longleftrightarrow> fs_rel k s t \<and> blocks_inv t \<and> inode_ok t ip \<and>
    itable t = (itable s)[ip := (itable s ! ip)\<lparr>i_addrs := addrs t ip\<rparr>] \<and>
    (\<forall>i<268 * 1024. fbyte (blk t) (addrs t ip) i =
      (if off \<le> i \<and> i < off + length bs then bs ! (i - off) else fbyte (blk s) (addrs s ip) i)) \<and>
    (\<forall>n<268. fblk (blk s) (addrs s ip) n \<noteq> 0 \<longrightarrow> fblk (blk t) (addrs t ip) n = fblk (blk s) (addrs s ip) n) \<and>
    (\<forall>i. off \<le> i \<longrightarrow> i < off + length bs \<longrightarrow> fblk (blk t) (addrs t ip) (i div 1024) \<noteq> 0) \<and>
    (\<forall>c. data_used s c \<longrightarrow> data_used t c \<and> (c \<notin> fblocks s ip \<longrightarrow> blk t c = blk s c)) \<and>
    (\<forall>c\<in>fblocks t ip. data_used s c \<longrightarrow> c \<in> fblocks s ip) \<and>
    (\<forall>c<data_start (sb s). c \<notin> bitmap_blocks (sb s) \<longrightarrow> blk t c = blk s c)"

lemma wrote_fileD:
  assumes "wrote_file k ip off bs s t"
  shows "fs_rel k s t" and "blocks_inv t" and "inode_ok t ip"
    and "itable t = (itable s)[ip := (itable s ! ip)\<lparr>i_addrs := addrs t ip\<rparr>]"
    and "i < 268 * 1024 \<Longrightarrow> fbyte (blk t) (addrs t ip) i =
      (if off \<le> i \<and> i < off + length bs then bs ! (i - off) else fbyte (blk s) (addrs s ip) i)"
    and "n < 268 \<Longrightarrow> fblk (blk s) (addrs s ip) n \<noteq> 0 \<Longrightarrow> fblk (blk t) (addrs t ip) n = fblk (blk s) (addrs s ip) n"
    and "off \<le> i \<Longrightarrow> i < off + length bs \<Longrightarrow> fblk (blk t) (addrs t ip) (i div 1024) \<noteq> 0"
    and "data_used s c \<Longrightarrow> data_used t c" and "data_used s c \<Longrightarrow> c \<notin> fblocks s ip \<Longrightarrow> blk t c = blk s c"
    and "c \<in> fblocks t ip \<Longrightarrow> data_used s c \<Longrightarrow> c \<in> fblocks s ip"
    and "c < data_start (sb s) \<Longrightarrow> c \<notin> bitmap_blocks (sb s) \<Longrightarrow> blk t c = blk s c"
  using assms unfolding wrote_file_def by blast+

lemma itable_addrs_trans:
  assumes "itable t = (itable s)[ip := (itable s ! ip)\<lparr>i_addrs := a\<rparr>]"
    and "itable u = (itable t)[ip := (itable t ! ip)\<lparr>i_addrs := b\<rparr>]" and "ip < length (itable s)"
  shows "itable u = (itable s)[ip := (itable s ! ip)\<lparr>i_addrs := b\<rparr>]"
  using assms by simp

lemma wrote_file_trans:
  assumes a: "wrote_file k ip off xs s t" and b: "wrote_file j ip (off + length xs) ys t u"
    and e: "off + length xs + length ys \<le> 268 * 1024" and ip: "ip < length (itable s)"
  shows "wrote_file (k + j) ip off (xs @ ys) s u"
  unfolding wrote_file_def
proof (intro conjI allI impI ballI)
  note A = wrote_fileD [OF a] and B = wrote_fileD [OF b]
  have sb: "sb t = sb s" by (rule fs_relD(7) [OF A(1)])
  show "fs_rel (k + j) s u" by (rule fs_rel_trans [OF A(1) B(1)])
  show "blocks_inv u" "inode_ok u ip" by (rule B(2), rule B(3))
  show "itable u = (itable s)[ip := (itable s ! ip)\<lparr>i_addrs := addrs u ip\<rparr>]"
    by (rule itable_addrs_trans [OF A(4) B(4) ip])
  fix i
  show "i < 268 * 1024 \<Longrightarrow> fbyte (blk u) (addrs u ip) i =
      (if off \<le> i \<and> i < off + length (xs @ ys) then (xs @ ys) ! (i - off) else fbyte (blk s) (addrs s ip) i)"
    using A(5) [of i] B(5) [of i] by (auto simp: nth_append)
  show "fblk (blk u) (addrs u ip) (i div 1024) \<noteq> 0" if i: "off \<le> i" "i < off + length (xs @ ys)"
  proof (cases "i < off + length xs")
    case True
    have "i div 1024 < 268" using i e by (simp add: less_mult_imp_div_less)
    then show ?thesis using A(7) [OF i(1) True] B(6) by metis
  next
    case False
    then show ?thesis using i by (intro B(7)) auto
  qed
next
  note A = wrote_fileD [OF a] and B = wrote_fileD [OF b]
  have sb: "sb t = sb s" by (rule fs_relD(7) [OF A(1)])
  fix n c
  show "n < 268 \<Longrightarrow> fblk (blk s) (addrs s ip) n \<noteq> 0 \<Longrightarrow> fblk (blk u) (addrs u ip) n = fblk (blk s) (addrs s ip) n"
    using A(6) B(6) by metis
  show "data_used s c \<Longrightarrow> data_used u c" using A(8) B(8) by blast
  show "data_used s c \<Longrightarrow> c \<notin> fblocks s ip \<Longrightarrow> blk u c = blk s c" using A(8,9,10) B(9) by metis
  show "c \<in> fblocks u ip \<Longrightarrow> data_used s c \<Longrightarrow> c \<in> fblocks s ip" using A(8,10) B(10) by blast
  show "c < data_start (sb s) \<Longrightarrow> c \<notin> bitmap_blocks (sb s) \<Longrightarrow> blk u c = blk s c" using A(11) B(11) sb by simp
qed

lemma wrote_file_refl: "blocks_inv s \<Longrightarrow> inode_ok s ip \<Longrightarrow> wrote_file 0 ip off [] s s"
  unfolding wrote_file_def by (auto simp: fs_rel_refl blocks_inv_def)

lemma wrote_file_mono: "wrote_file k ip off bs s t \<Longrightarrow> k \<le> j \<Longrightarrow> wrote_file j ip off bs s t"
  unfolding wrote_file_def using fs_rel_mono by blast

text \<open>\<^verbatim>\<open>bmap\<close> adds a block and writes nothing.\<close>

lemma entry_post_wrote:
  assumes "entry_post k ip n s b t" and "n < 268"
  shows "wrote_file k ip off [] s t"
proof -
  have i: "imap_step k ip s t" and b: "fblk (blk t) (addrs t ip) n = b"
    and o: "\<And>m. m < 268 \<Longrightarrow> m \<noteq> n \<Longrightarrow> fblk (blk t) (addrs t ip) m = fblk (blk s) (addrs s ip) m"
    and f: "fblk (blk s) (addrs s ip) n = 0 \<Longrightarrow> \<not> data_used s b"
      "fblk (blk s) (addrs s ip) n \<noteq> 0 \<Longrightarrow> b = fblk (blk s) (addrs s ip) n"
    using assms by (auto simp: entry_post_def split: if_splits)
  have "c \<in> fblocks s ip" if c: "c \<in> fblocks t ip" "data_used s c" for c
  proof -
    consider "c = addrs t ip ! 12" | m where "m < 268" "c = fblk (blk t) (addrs t ip) m"
      using c(1) by (auto simp: fblocks_def)
    then have "c = addrs s ip ! 12 \<or> (\<exists>m<268. c = fblk (blk s) (addrs s ip) m)"
    proof cases
      case 1
      then show ?thesis using i c(2) unfolding imap_step_def by metis
    next
      case (2 m)
      then show ?thesis using o [of m] f b c(2) by (cases "m = n") auto
    qed
    then show ?thesis using c(1) by (auto simp: fblocks_def)
  qed
  moreover have "c \<notin> fblocks s ip \<Longrightarrow> data_used s c \<Longrightarrow> c \<noteq> addrs s ip ! 12" for c
    using data_used_0 by (auto simp: fblocks_def)
  moreover have "fblk (blk t) (addrs t ip) m = fblk (blk s) (addrs s ip) m"
    if "m < 268" "fblk (blk s) (addrs s ip) m \<noteq> 0" for m using that o f b by (cases "m = n") auto
  ultimately show ?thesis using i unfolding wrote_file_def imap_step_def by auto
qed

text \<open>The data block itself.\<close>

lemma wrote_file_block:
  assumes inv: "blocks_inv s" and ok: "inode_ok s ip" and off: "off < 268 * 1024" "length bs \<le> 1024 - off mod 1024"
    and b: "fblk (blk s) (addrs s ip) (off div 1024) = b" "b \<noteq> 0"
    and t: "fs_step 1 s t" "blk t = (blk s)(b := put_at (off mod 1024) bs (blk s b))"
  shows "wrote_file 1 ip off bs s t"
proof -
  have k: "off div 1024 < 268" using off by (simp add: less_mult_imp_div_less)
  have im: "imap_ok (data_used s) (blk s) (addrs s ip)" using ok by (simp add: inode_ok_def)
  have du: "data_used s b" and b12: "b \<noteq> addrs s ip ! 12"
    using imap_okD(3,4) [OF im k] b by auto
  note st = fs_stepD [OF t(1)]
  have len: "length (blk s b) = 1024" using inv length_blk [OF log_inv_bio] by (auto simp: blocks_inv_def)
  have f: "fblk (blk t) (addrs s ip) n = fblk (blk s) (addrs s ip) n" for n
    by (rule fblk_cong) (use t(2) b12 in simp)
  have bu: "block_used t c = block_used s c" if "c < sb_size (sb s)" for c
    using BBLOCK_bitmap [OF that] data_not_bitmap [OF du] t(2) st(8) by (auto simp: block_used_def)
  have dut: "data_used t = data_used s" using bu st(8) by (auto simp: data_used_def fun_eq_iff)
  have ino: "inode_ok t ip" using ok im unfolding inode_ok_def imap_ok_def dut f st(9) by simp
  have binv: "blocks_inv t" using inv st data_start_le [OF inv] bu by (auto simp: blocks_inv_def)
  have fby: "fbyte (blk t) (addrs s ip) i = (if off \<le> i \<and> i < off + length bs then bs ! (i - off) else fbyte (blk s) (addrs s ip) i)"
    if i: "i < 268 * 1024" for i
  proof (cases "i div 1024 = off div 1024")
    case True
    then have e: "i mod 1024 + off = i + off mod 1024"
      using div_mult_mod_eq [of i 1024] div_mult_mod_eq [of off 1024] by linarith
    have "put_at (off mod 1024) bs (blk s b) ! (i mod 1024) =
        (if off mod 1024 \<le> i mod 1024 \<and> i mod 1024 < off mod 1024 + length bs then bs ! (i mod 1024 - off mod 1024) else blk s b ! (i mod 1024))"
      using off(2) len by (intro nth_put_at) auto
    moreover have "off mod 1024 \<le> i mod 1024 \<longleftrightarrow> off \<le> i" "i mod 1024 < off mod 1024 + length bs \<longleftrightarrow> i < off + length bs"
      "i mod 1024 - off mod 1024 = i - off" using e by linarith+
    moreover have "fbyte (blk t) (addrs s ip) i = blk t b ! (i mod 1024)" "fbyte (blk s) (addrs s ip) i = blk s b ! (i mod 1024)"
      using True b by (simp_all add: fbyte_def f)
    ultimately show ?thesis by (simp add: t(2))
  next
    case False
    have "i div 1024 < 268" using i by (simp add: less_mult_imp_div_less)
    then have "fblk (blk s) (addrs s ip) (i div 1024) \<noteq> b" using imap_okD(5) [OF im _ k] False b by metis
    moreover have "\<not> (off \<le> i \<and> i < off + length bs)"
    proof
      assume a: "off \<le> i \<and> i < off + length bs"
      then have "off mod 1024 + (i - off) < 1024" using off(2) by linarith
      from div_mod_add(1) [OF this] show False using a False by simp
    qed
    ultimately show ?thesis unfolding fbyte_def f Let_def by (auto simp: t(2))
  qed
  have mp: "fblk (blk s) (addrs s ip) (i div 1024) \<noteq> 0" if "off \<le> i" "i < off + length bs" for i
  proof -
    have "off mod 1024 + (i - off) < 1024" using that off(2) by linarith
    from div_mod_add(1) [OF this] show ?thesis using that b by simp
  qed
  have fbl: "b \<in> fblocks s ip" "fblocks t ip = fblocks s ip" using b k f st(9) by (auto simp: fblocks_def)
  have "b \<ge> data_start (sb s)" using du by (simp add: data_used_def)
  then show ?thesis
    unfolding wrote_file_def fbl(2) dut f st(9) using fby mp fs_step_rel [OF t(1)] binv ino fbl(1) t(2) by auto
qed

text \<open>No block is free.\<close>

definition disk_full :: "'z fs_state_scheme \<Rightarrow> bool" where
  "disk_full s \<longleftrightarrow> (\<forall>c < sb_size (sb s). block_used s c)"

lemma data_free_rel:
  assumes "blocks_inv s" and "fs_rel k s t" and "data_free s"
  shows "data_free t"
  using assms fs_relD(2,7) [OF assms(2)] unfolding data_free_def data_used_def blocks_inv_def by auto

lemma data_loggable: "blocks_inv s \<Longrightarrow> 1 \<le> lg_outstanding s \<Longrightarrow> data_used s b \<Longrightarrow> loggable s b"
  by (auto simp: loggable_def log_area_def data_used_def data_start_def blocks_inv_def wf_sb_def)

lemma returns_writei_step:
  assumes inv: "blocks_inv s" and ok: "inode_ok s ip" and df: "data_free s" and tx: "tx 7 s"
    and off: "off < 268 * 1024" "length bs \<le> 1024 - off mod 1024"
  shows "returns (writei_step ip (From_kernel (bs @ rest)) off (length bs) s) (\<lambda>c t.
    if c then wrote_file 6 ip off bs s t else wrote_file 5 ip off [] s t \<and> disk_full t)"
proof -
  let ?Q = "\<lambda>c t. if c then wrote_file 6 ip off bs s t else wrote_file 5 ip off [] s t \<and> disk_full t"
  have k: "off div 1024 < 268" using off by (simp add: less_mult_imp_div_less)
  have e: "off + length bs \<le> 268 * 1024" using k off(2) div_mult_mod_eq [of off 1024] by linarith
  have ipl: "ip < length (itable s)" using ok by (simp add: inode_ok_def)
  have h: "addrs s ip ! 12 \<noteq> 0 \<Longrightarrow> addrs s ip ! 12 \<notin> held s"
    using ok imap_okD(2) data_freeD [OF df] by (auto simp: inode_ok_def)
  have tx6: "tx 6 s" using tx by (simp add: tx_def)
  show ?thesis
    unfolding writei_step_def returns_kbind
  proof (rule returns_mono [OF returns_bmap [OF inv ok k tx6 h]])
    fix addr t assume p: "entry_post 5 ip (off div 1024) s addr t"
    note w = entry_post_wrote [OF p k, of off] and W = wrote_fileD [OF entry_post_wrote [OF p k, of off]]
    show "returns (if addr = 0 then Ok False t
        else kbind (bread (i_dev (itable t ! ip)) addr t) (\<lambda>bp s.
          kbind (either_copyin (From_kernel (bs @ rest)) (length bs) s) (\<lambda>(r, bs) s.
          let s = set_data bp (put_at (off mod 1024) bs (bdata bp s)) s in
          if r = -1 then kbind (brelse bp s) (\<lambda>_ s. Ok False s)
          else kbind (log_write bp s) (\<lambda>_ s. kbind (brelse bp s) (\<lambda>_ s. Ok True s))))) ?Q"
    proof (cases "addr = 0")
      case True
      then show ?thesis using w p W(1) fs_relD(7) [of 5 s t] by (simp add: entry_post_def disk_full_def)
    next
      case False
      have im: "imap_ok (data_used t) (blk t) (addrs t ip)" and dev: "i_dev (itable t ! ip) = ROOTDEV"
        using W(3) by (auto simp: inode_ok_def)
      have fb: "fblk (blk t) (addrs t ip) (off div 1024) = addr" using p by (simp add: entry_post_def)
      have du: "data_used t addr" using imap_okD(3) [OF im k] fb False by metis
      have tx2: "tx 2 t" by (rule fs_rel_tx [OF W(1)]) (use tx in simp)
      have li: "log_inv t" using W(2) by (simp add: blocks_inv_def)
      have nh: "addr \<notin> held t" by (rule data_freeD [OF data_free_rel [OF inv W(1) df] du])
      have lg: "loggable t addr" by (rule data_loggable [OF W(2) _ du]) (use tx2 in \<open>simp add: tx_def\<close>)
      have len: "length (put_at (off mod 1024) bs (blk t addr)) = 1024"
        using length_blk [OF log_inv_bio [OF li]] off(2) by simp
      have "returns (kbind (bread ROOTDEV addr t) (\<lambda>bp u.
          kbind (log_write bp (set_data bp (put_at (off mod 1024) bs (bdata bp u)) u)) (\<lambda>_ s. kbind (brelse bp s) (\<lambda>_ s. Ok True s)))) ?Q"
      proof (rule fs_bread [OF li nh])
        show "0 < slots t" using tx2 by (simp add: tx_def)
        fix i u assume l: "locked t u i addr" and bd: "bdata i u = blk t addr"
        have "wrote_file 6 ip off bs s v" if "fs_step 1 t v" "blk v = (blk t)(addr := put_at (off mod 1024) bs (blk t addr))" for v
          using wrote_file_trans [OF w _ _ ipl, of 1 bs v] wrote_file_block [OF W(2,3) off fb False that] e by simp
        then show "returns (kbind (log_write i (set_data i (put_at (off mod 1024) bs (bdata i u)) u))
            (\<lambda>_ s. kbind (brelse i s) (\<lambda>_ s. Ok True s))) ?Q"
          unfolding bd by (intro fs_update [OF l lg _ len]) (use tx2 in \<open>simp_all add: tx_def\<close>)
      qed
      then show ?thesis using False dev by (simp add: either_copyin_def Let_def)
    qed
  qed
qed

text \<open>The number of blocks that \<open>len\<close> bytes from \<open>off\<close> on touch.\<close>

definition nblks :: "nat \<Rightarrow> nat \<Rightarrow> nat" where
  "nblks off len = (if len = 0 then 0 else (off mod 1024 + len + 1023) div 1024)"

lemma nblks_step:
  assumes "0 < len" and "m = min len (1024 - off mod 1024)"
  shows "nblks off len = Suc (nblks (off + m) (len - m))"
proof (cases "m = len")
  case True
  then have "0 < off mod 1024 + len" "off mod 1024 + len \<le> 1024" using assms by (auto simp: min_def split: if_splits)
  then have "(off mod 1024 + len + 1023) div 1024 = 1" by (intro div_nat_eqI) auto
  then show ?thesis using True assms by (simp add: nblks_def)
next
  case False
  then have m: "m = 1024 - off mod 1024" "m < len" using assms by (auto simp: min_def split: if_splits)
  have lt: "off mod 1024 < 1024" by simp
  have "off + m = off div 1024 * 1024 + 1024" using m lt div_mult_mod_eq [of off 1024] by linarith
  then have "(off + m) mod 1024 = 0" by (simp only: mod_add_self2 mod_mult_self2_is_0)
  moreover have "off mod 1024 + len + 1023 = len - m + 1023 + 1024" using m lt by linarith
  then have "(off mod 1024 + len + 1023) div 1024 = Suc ((len - m + 1023) div 1024)" by simp
  ultimately show ?thesis using m(2) assms(1) by (simp add: nblks_def)
qed

lemma returns_writei_loop:
  assumes "blocks_inv s" and "inode_ok s ip" and "data_free s" and "tx (6 * int (nblks off (n - tot)) + 1) s"
    and "tot \<le> n" and "off + (n - tot) \<le> 268 * 1024" and "length bs = n - tot"
  shows "returns (writei_loop ip (From_kernel bs) off tot n s) (\<lambda>(off', tot') t. tot \<le> tot' \<and> tot' \<le> n \<and>
    off' = off + (tot' - tot) \<and> wrote_file (6 * int (nblks off (n - tot))) ip off (take (tot' - tot) bs) s t \<and>
    (tot' < n \<longrightarrow> disk_full t))"
  using assms
proof (induction "n - tot" arbitrary: off tot s bs rule: less_induct)
  case less
  show ?case
  proof (cases "tot < n")
    case False
    then show ?thesis using less.prems wrote_file_refl [OF less.prems(1,2)]
      by (simp add: writei_loop.simps nblks_def)
  next
    case True
    define m where "m = min (n - tot) (1024 - off mod 1024)"
    have m: "0 < m" "m \<le> n - tot" "m \<le> 1024 - off mod 1024" using True by (auto simp: m_def)
    have e: "off + m + (n - (tot + m)) = off + (n - tot)" "n - (tot + m) < n - tot" "tot + m \<le> n"
      "n - tot - m = n - (tot + m)" using m True by linarith+
    have nb: "nblks off (n - tot) = Suc (nblks (off + m) (n - (tot + m)))"
      using nblks_step [OF _ m_def] True e(4) by simp
    have bs: "bs = take m bs @ drop m bs" "length (take m bs) = m" "length (drop m bs) = n - (tot + m)"
      using less.prems(7) m e by simp_all
    have ipl: "ip < length (itable s)" using less.prems(2) by (simp add: inode_ok_def)
    let ?Q = "\<lambda>(off', tot') t. tot \<le> tot' \<and> tot' \<le> n \<and> off' = off + (tot' - tot) \<and>
      wrote_file (6 * int (nblks off (n - tot))) ip off (take (tot' - tot) bs) s t \<and> (tot' < n \<longrightarrow> disk_full t)"
    have rest: "returns (writei_loop ip (From_kernel (drop m bs)) (off + m) (tot + m) n u) ?Q"
      if u: "wrote_file 6 ip off (take m bs) s u" for u
    proof -
      note U = wrote_fileD [OF u]
      have tx: "tx (6 * int (nblks (off + m) (n - (tot + m))) + 1) u"
        by (rule fs_rel_tx [OF U(1)]) (use less.prems(4) nb in \<open>simp add: algebra_simps\<close>)
      have bnd: "off + m + (n - (tot + m)) \<le> 268 * 1024" using less.prems(6) e(1) by simp
      have tr: "wrote_file (6 * int (nblks off (n - tot))) ip off (take (k - tot) bs) s v"
        if k: "wrote_file (6 * int (nblks (off + m) (n - (tot + m)))) ip (off + m) (take (k - (tot + m)) (drop m bs)) u v"
          "tot + m \<le> k" "k \<le> n" for k v
      proof -
        have "wrote_file (6 + 6 * int (nblks (off + m) (n - (tot + m)))) ip off (take m bs @ take (k - (tot + m)) (drop m bs)) s v"
          by (rule wrote_file_trans [OF u _ _ ipl]) (use k bs(2) bnd less.prems(7) in simp_all)
        moreover have "take m bs @ take (k - (tot + m)) (drop m bs) = take (k - tot) bs"
          using k take_add [of m "k - (tot + m)" bs] by simp
        ultimately show ?thesis using nb by simp
      qed
      show ?thesis
        by (rule returns_mono [OF less.hyps [OF e(2) U(2,3) data_free_rel [OF less.prems(1) U(1) less.prems(3)] tx e(3) bnd bs(3)]])
          (use tr m in \<open>auto simp: add.commute\<close>)
    qed
    have tx7: "tx 7 s" using less.prems(4) nb by (simp add: tx_def)
    have off: "off < 268 * 1024" "length (take m bs) \<le> 1024 - off mod 1024" using less.prems(6) True m(3) bs(2) by simp_all
    have stop: "?Q (off, tot) u" if "wrote_file 5 ip off [] s u" "disk_full u" for u
      using that wrote_file_mono [OF that(1), of "6 * int (nblks off (n - tot))"] True nb by simp
    from returns_writei_step [OF less.prems(1-3) tx7 off, of "drop m bs", folded bs(1), unfolded bs(2)]
    show ?thesis
      unfolding writei_loop.simps [of ip "From_kernel bs" off tot n s] Let_def returns_kbind m_def [symmetric] if_P [OF True]
      by (rule returns_mono) (use rest stop in \<open>auto split: if_splits\<close>)
  qed
qed


section \<open>The contract of writei\<close>

lemma IBLOCK_region:
  assumes "blocks_inv s" and "inum < sb_ninodes (sb s)"
  shows "IBLOCK inum (sb s) < sb_bmapstart (sb s)" and "IBLOCK inum (sb s) \<notin> bitmap_blocks (sb s)"
    and "1 \<le> lg_outstanding s \<Longrightarrow> loggable s (IBLOCK inum (sb s))" and "IBLOCK inum (sb s) < data_start (sb s)"
proof -
  have "inum div 16 \<le> sb_ninodes (sb s) div 16" using assms(2) by (simp add: div_le_mono)
  then show b: "IBLOCK inum (sb s) < sb_bmapstart (sb s)"
    using assms(1) by (auto simp: IBLOCK_def blocks_inv_def wf_sb_def)
  then show "IBLOCK inum (sb s) \<notin> bitmap_blocks (sb s)" "IBLOCK inum (sb s) < data_start (sb s)"
    by (auto simp: bitmap_blocks_def data_start_def)
  show "1 \<le> lg_outstanding s \<Longrightarrow> loggable s (IBLOCK inum (sb s))"
    using assms(1) b by (auto simp: loggable_def log_area_def blocks_inv_def wf_sb_def IBLOCK_def)
qed

lemma returns_iupdate:
  assumes inv: "blocks_inv s" and dev: "i_dev (itable s ! ip) = ROOTDEV" and tx: "tx 2 s"
    and inum: "i_inum (itable s ! ip) < sb_ninodes (sb s)" "IBLOCK (i_inum (itable s ! ip)) (sb s) \<notin> held s"
    and len: "length (addrs s ip) = 13"
  defines "B \<equiv> IBLOCK (i_inum (itable s ! ip)) (sb s)"
  shows "returns (iupdate ip s) (\<lambda>_ t. fs_step 1 s t \<and> blk t = (blk s)(B :=
    put_dinode (i_inum (itable s ! ip) mod 16) (inode_dinode (itable s ! ip)) (blk s B)))"
  unfolding iupdate_def Let_def dev B_def
proof (rule fs_bread [OF _ inum(2)])
  show li: "log_inv s" using inv by (simp add: blocks_inv_def)
  show "0 < slots s" using tx by (simp add: tx_def)
  let ?B = "IBLOCK (i_inum (itable s ! ip)) (sb s)"
  let ?d = "put_dinode (i_inum (itable s ! ip) mod 16) (inode_dinode (itable s ! ip)) (blk s ?B)"
  fix i t assume l: "locked s t i ?B" and bd: "bdata i t = blk s ?B" and it: "itable t = itable s"
  have "length ?d = 1024" using len length_blk [OF log_inv_bio [OF li]] by (simp add: inode_dinode_def)
  then show "returns (kbind (log_write i (set_data i (put_dinode (i_inum (itable s ! ip) mod 16) (inode_dinode (itable t ! ip)) (bdata i t)) t))
      (\<lambda>_. brelse i)) (\<lambda>_ t. fs_step 1 s t \<and> blk t = (blk s)(?B := ?d))"
    unfolding bd it by (intro fs_update_end [OF l IBLOCK_region(3) [OF inv inum(1)]]) (use tx in \<open>simp_all add: tx_def\<close>)
qed

text \<open>The inode on the disk agrees with the one in memory.\<close>

definition on_disk :: "'z fs_state_scheme \<Rightarrow> nat \<Rightarrow> bool" where
  "on_disk s ip \<longleftrightarrow> get_dinode (i_inum (itable s ! ip) mod 16) (blk s (IBLOCK (i_inum (itable s ! ip)) (sb s))) =
    inode_dinode (itable s ! ip)"

text \<open>Writing to blocks outside a file leaves the file alone.\<close>

lemma file_frame:
  assumes ok: "inode_ok s jp" and it: "itable t ! jp = itable s ! jp" "length (itable t) = length (itable s)"
    and v: "\<And>c. c \<in> fblocks s jp \<Longrightarrow> blk t c = blk s c" and du: "\<And>c. data_used s c \<Longrightarrow> data_used t c"
  shows "fblk (blk t) (addrs t jp) n = fblk (blk s) (addrs s jp) n" and "inode_ok t jp" and "fblocks t jp = fblocks s jp"
    and "i < 268 * 1024 \<Longrightarrow> fbyte (blk t) (addrs t jp) i = fbyte (blk s) (addrs s jp) i"
proof -
  show f: "fblk (blk t) (addrs t jp) n = fblk (blk s) (addrs s jp) n" for n
    unfolding it by (rule fblk_cong) (use v in \<open>simp add: fblocks_def\<close>)
  then show "fblocks t jp = fblocks s jp" by (simp add: fblocks_def it)
  show "inode_ok t jp" using ok du unfolding inode_ok_def imap_ok_def f by (simp add: it)
  show "fbyte (blk t) (addrs t jp) i = fbyte (blk s) (addrs s jp) i" if "i < 268 * 1024"
  proof -
    have "i div 1024 < 268" using that by (simp add: less_mult_imp_div_less)
    then have "fblk (blk s) (addrs s jp) (i div 1024) \<noteq> 0 \<Longrightarrow> fblk (blk s) (addrs s jp) (i div 1024) \<in> fblocks s jp"
      by (auto simp: fblocks_def)
    then show ?thesis using v unfolding fbyte_def Let_def f by auto
  qed
qed

text \<open>
  \<open>write_post ip off bs s r t\<close>: \<open>r\<close> bytes of \<open>bs\<close> were written, all of them unless the disk is full;
  the file is the old one with these bytes at \<open>off\<close>; its inode is on the disk; and every file
  that shares no block with it is as before.
\<close>

definition write_post ::
  "nat \<Rightarrow> nat \<Rightarrow> bytes \<Rightarrow> 'z fs_state_scheme \<Rightarrow> int \<Rightarrow> 'z fs_state_scheme \<Rightarrow> bool" where
  "write_post ip off bs s r t \<longleftrightarrow> (\<exists>m\<le>length bs. r = int m \<and> (m < length bs \<longrightarrow> disk_full t) \<and>
    file_bytes t ip = put_at off (take m bs) (file_bytes s ip) \<and> file_ok t ip \<and> blocks_inv t \<and> on_disk t ip \<and>
    data_free t \<and> 0 < slots t \<and>
    (\<forall>jp. jp \<noteq> ip \<longrightarrow> file_ok s jp \<longrightarrow> fblocks s jp \<inter> fblocks s ip = {} \<longrightarrow>
      file_ok t jp \<and> file_bytes t jp = file_bytes s jp))"

text \<open>The inode after the write, with its size set.\<close>

definition sized :: "nat \<Rightarrow> nat \<Rightarrow> 'z fs_state_scheme \<Rightarrow> 'z fs_state_scheme" where
  "sized ip n t = (if n > i_size (itable t ! ip) then upd_inode ip (\<lambda>x. x\<lparr>i_size := n\<rparr>) t else t)"

lemma sized_simps [simp]:
  "blk (sized ip n t) = blk t" "held (sized ip n t) = held t" "sb (sized ip n t) = sb t" "slots (sized ip n t) = slots t"
  "lg_start (sized ip n t) = lg_start t" "lg_outstanding (sized ip n t) = lg_outstanding t"
  "block_used (sized ip n t) = block_used t" "data_used (sized ip n t) = data_used t"
  "blocks_inv (sized ip n t) \<longleftrightarrow> blocks_inv t" "length (itable (sized ip n t)) = length (itable t)"
  "tx k (sized ip n t) \<longleftrightarrow> tx k t" "jp \<noteq> ip \<Longrightarrow> itable (sized ip n t) ! jp = itable t ! jp"
  by (auto simp: sized_def upd_inode_def)

lemma itable_sized:
  assumes "ip < length (itable t)"
  shows "itable (sized ip n t) ! ip = (itable t ! ip)\<lparr>i_size := max (i_size (itable t ! ip)) n\<rparr>"
  using assms by (cases "n > i_size (itable t ! ip)") (auto simp: sized_def upd_inode_def max_def)

lemma wrote_file_inode:
  assumes w: "wrote_file k ip off bs s t" and ipl: "ip < length (itable s)"
  shows "i_size (itable t ! ip) = i_size (itable s ! ip)" and "i_inum (itable t ! ip) = i_inum (itable s ! ip)"
    and "i_dev (itable t ! ip) = i_dev (itable s ! ip)" and "length (itable t) = length (itable s)"
    and "jp \<noteq> ip \<Longrightarrow> itable t ! jp = itable s ! jp"
    and "inode_dinode (itable t ! ip) = (inode_dinode (itable s ! ip))\<lparr>d_addrs := addrs t ip\<rparr>"
proof -
  note it = wrote_fileD(4) [OF w]
  have e: "itable t ! ip = (itable s ! ip)\<lparr>i_addrs := addrs t ip\<rparr>" using it ipl by (metis nth_list_update_eq)
  show "i_size (itable t ! ip) = i_size (itable s ! ip)" "i_inum (itable t ! ip) = i_inum (itable s ! ip)"
    "i_dev (itable t ! ip) = i_dev (itable s ! ip)" by (subst e, simp)+
  show "inode_dinode (itable t ! ip) = (inode_dinode (itable s ! ip))\<lparr>d_addrs := addrs t ip\<rparr>"
    by (subst e) (simp add: inode_dinode_def)
  show "length (itable t) = length (itable s)" "jp \<noteq> ip \<Longrightarrow> itable t ! jp = itable s ! jp"
    using it by (metis length_list_update, metis nth_list_update_neq)
qed

text \<open>The contents of the file once the inode block \<open>B\<close> has been written back.\<close>

lemma wrote_file_bytes:
  assumes ok: "file_ok s ip" and sz: "off \<le> i_size (itable s ! ip)" and e: "off + length bs \<le> 268 * 1024"
    and w: "wrote_file k ip off bs s t" and B: "B < data_start (sb s)"
    and v: "blk v = (blk t)(B := d)" "itable v = itable (sized ip (off + length bs) t)" "data_used v = data_used t"
  shows "file_ok v ip" and "file_bytes v ip = put_at off bs (file_bytes s ip)"
proof -
  note W = wrote_fileD [OF w]
  let ?sz = "i_size (itable s ! ip)"
  have ipl: "ip < length (itable s)" and le: "?sz \<le> 268 * 1024" using ok by (auto simp: file_ok_def inode_ok_def)
  note I = wrote_file_inode [OF w ipl]
  have iv: "itable v ! ip = (itable t ! ip)\<lparr>i_size := max ?sz (off + length bs)\<rparr>"
    unfolding v(2) using itable_sized [of ip t] ipl I by simp
  have nB: "c \<in> fblocks t ip \<Longrightarrow> c \<noteq> B" for c
    using B W(3) imap_okD(2,3) [of "data_used t" "blk t" "addrs t ip"] fs_relD(7) [OF W(1)]
    by (fastforce simp: inode_ok_def fblocks_def data_used_def)
  have iok: "inode_ok (v\<lparr>itable := (itable v)[ip := itable t ! ip]\<rparr>) ip"
    and fb: "fblk (blk v) (addrs t ip) n = fblk (blk t) (addrs t ip) n"
    and fy: "i < 268 * 1024 \<Longrightarrow> fbyte (blk v) (addrs t ip) i = fbyte (blk t) (addrs t ip) i" for n i
    using file_frame [OF W(3), of "v\<lparr>itable := (itable v)[ip := itable t ! ip]\<rparr>"] v nB ipl I(4) by simp_all
  have "inode_ok v ip" using iok iv ipl I(4) v(2) by (simp add: inode_ok_def)
  moreover have "fblk (blk v) (addrs v ip) n \<noteq> 0" if n: "n * 1024 < max ?sz (off + length bs)" for n
  proof (cases "n * 1024 < ?sz")
    case True
    then have "fblk (blk s) (addrs s ip) n \<noteq> 0" "n < 268" using ok le by (auto simp: file_ok_def)
    then show ?thesis using W(6) fb iv by simp
  next
    case False
    then show ?thesis using W(7) [of "n * 1024"] n sz fb iv by simp
  qed
  ultimately show "file_ok v ip" using iv e le by (simp add: file_ok_def)
  show "file_bytes v ip = put_at off bs (file_bytes s ip)"
  proof (rule nth_equalityI)
    show "length (file_bytes v ip) = length (put_at off bs (file_bytes s ip))"
      using sz by (auto simp: file_bytes_def put_at_def iv)
    fix i assume "i < length (file_bytes v ip)"
    then have i: "i < max ?sz (off + length bs)" "i < 268 * 1024" using e le by (auto simp: file_bytes_def iv)
    then show "file_bytes v ip ! i = put_at off bs (file_bytes s ip) ! i"
      using sz W(5) [OF i(2)] fy [OF i(2)] by (auto simp: file_bytes_def put_at_def iv nth_append)
  qed
qed

lemma inode_ok_addrs:
  assumes "blocks_inv s" and "inode_ok s ip"
  shows "length (addrs s ip) = 13" and "\<forall>a\<in>set (addrs s ip). a < 2 ^ 32"
proof -
  have im: "imap_ok (data_used s) (blk s) (addrs s ip)" using assms by (simp add: inode_ok_def)
  then show l: "length (addrs s ip) = 13" by (simp add: imap_ok_def)
  have lt: "data_used s b \<Longrightarrow> b < 2 ^ 32" for b using assms(1) by (auto simp: data_used_def blocks_inv_def wf_sb_def)
  have "addrs s ip ! i < 2 ^ 32" if "i < 13" for i
  proof (cases "i < 12")
    case True
    then have "fblk (blk s) (addrs s ip) i = addrs s ip ! i" by (simp add: fblk_def)
    then show ?thesis using imap_okD(3) [OF im, of i] lt True by (cases "addrs s ip ! i = 0") auto
  next
    case False
    then have "i = 12" using that by simp
    then show ?thesis using imap_okD(2) [OF im] lt by (cases "addrs s ip ! 12 = 0") auto
  qed
  then show "\<forall>a\<in>set (addrs s ip). a < 2 ^ 32" using l by (auto simp: in_set_conv_nth)
qed

lemma write_post_end:
  assumes inv: "blocks_inv s" and ok: "file_ok s ip" and df: "data_free s" and sz: "off \<le> i_size (itable s ! ip)" and e: "off + length bs \<le> 268 * 1024"
    and inum: "i_inum (itable s ! ip) < sb_ninodes (sb s)" and di: "dinode_ok (inode_dinode (itable s ! ip))"
    and m: "m \<le> length bs" "m < length bs \<longrightarrow> disk_full t"
    and w: "wrote_file k ip off (take m bs) s t" and tx: "tx 2 t"
    and v: "fs_step 1 (sized ip (off + m) t) v" "blk v = (blk t)(IBLOCK (i_inum (itable s ! ip)) (sb s) :=
      put_dinode (i_inum (itable s ! ip) mod 16) (inode_dinode (itable (sized ip (off + m) t) ! ip)) (blk t (IBLOCK (i_inum (itable s ! ip)) (sb s))))"
  shows "write_post ip off bs s (int m) v"
proof -
  let ?B = "IBLOCK (i_inum (itable s ! ip)) (sb s)"
  note W = wrote_fileD [OF w] and V = fs_stepD [OF v(1)] and B = IBLOCK_region [OF inv inum]
  have ipl: "ip < length (itable s)" using ok by (simp add: file_ok_def inode_ok_def)
  note I = wrote_file_inode [OF w ipl]
  have sbs: "sb v = sb s" "sb t = sb s" using V(8) fs_relD(7) [OF W(1)] by simp_all
  have bu: "block_used v c = block_used t c" if "c < sb_size (sb s)" for c
    using BBLOCK_bitmap [OF that] B(2) sbs v(2) by (auto simp: block_used_def)
  have du: "data_used v = data_used t" using bu sbs by (auto simp: data_used_def fun_eq_iff)
  have lm: "length (take m bs) = m" using m by simp
  have em: "off + length (take m bs) \<le> 268 * 1024" using e m by simp
  have v9: "itable v = itable (sized ip (off + length (take m bs)) t)" using V(9) lm by simp
  note f = wrote_file_bytes [OF ok sz em w B(4) v(2) v9 du]
  have binv: "blocks_inv v" using W(2) V data_start_le [OF W(2)] bu sbs by (auto simp: blocks_inv_def)
  have full: "m < length bs \<longrightarrow> disk_full v" using m(2) bu sbs by (simp add: disk_full_def)
  have iv: "itable v ! ip = (itable t ! ip)\<lparr>i_size := max (i_size (itable s ! ip)) (off + m)\<rparr>"
    unfolding V(9) using itable_sized [of ip t] ipl I by simp
  have li: "log_inv t" using W(2) by (simp add: blocks_inv_def)
  have "inode_dinode (itable v ! ip) = (inode_dinode (itable s ! ip))\<lparr>d_addrs := addrs t ip, d_size := max (i_size (itable s ! ip)) (off + m)\<rparr>"
    using I(6) iv by (simp add: inode_dinode_def)
  then have "dinode_ok (inode_dinode (itable v ! ip))"
    using di inode_ok_addrs [OF W(2,3)] e m ok by (simp add: dinode_ok_def file_ok_def)
  then have od: "on_disk v ip" using length_blk [OF log_inv_bio [OF li]] I(2) iv sbs v(2) V(9) by (simp add: on_disk_def)
  have "file_ok v jp \<and> file_bytes v jp = file_bytes s jp"
    if j: "jp \<noteq> ip" "file_ok s jp" "fblocks s jp \<inter> fblocks s ip = {}" for jp
  proof -
    have jok: "inode_ok s jp" using j(2) by (simp add: file_ok_def)
    have "blk v c = blk s c" if "c \<in> fblocks s jp" for c
    proof -
      have "data_used s c" using that jok imap_okD(2,3) [of "data_used s" "blk s" "addrs s jp"] by (auto simp: inode_ok_def fblocks_def)
      then show ?thesis using W(9) [of c] j(3) that v(2) B(4) by (auto simp: data_used_def)
    qed
    moreover have it: "itable v ! jp = itable s ! jp" "length (itable v) = length (itable s)" using V(9) j(1) I(4,5) by simp_all
    ultimately have F: "inode_ok v jp" "fblk (blk v) (addrs v jp) n = fblk (blk s) (addrs s jp) n"
      "i < 268 * 1024 \<Longrightarrow> fbyte (blk v) (addrs v jp) i = fbyte (blk s) (addrs s jp) i" for n i
      using file_frame [OF jok, of v] W(8) du by auto
    show ?thesis using j(2) F(1) F(2) F(3) by (auto simp: file_ok_def file_bytes_def it)
  qed
  moreover have "data_free v" using data_free_rel [OF inv W(1) df] V(2) du by (simp add: data_free_def)
  moreover have "0 < slots v" using tx V(3) by (simp add: tx_def)
  ultimately show ?thesis unfolding write_post_def using m(1) full f binv od by blast
qed

lemma returns_writei:
  assumes inv: "blocks_inv s" and ok: "file_ok s ip" and df: "data_free s" and sz: "off \<le> i_size (itable s ! ip)"
    and e: "off + length bs \<le> 268 * 1024" and tx: "tx (6 * int (nblks off (length bs)) + 2) s"
    and inum: "i_inum (itable s ! ip) < sb_ninodes (sb s)" "IBLOCK (i_inum (itable s ! ip)) (sb s) \<notin> held s"
    and di: "dinode_ok (inode_dinode (itable s ! ip))"
  shows "returns (writei ip (From_kernel bs) off (length bs) s) (write_post ip off bs s)"
proof -
  let ?K = "6 * int (nblks off (length bs))"
  have iok: "inode_ok s ip" and ipl: "ip < length (itable s)" using ok by (auto simp: file_ok_def inode_ok_def)
  have tx1: "tx (?K + 1) s" using tx by (simp add: tx_def)
  have fin: "returns (kbind (iupdate ip (sized ip (off + m) t)) (\<lambda>_. Ok (int m))) (write_post ip off bs s)"
    if m: "m \<le> length bs" "m < length bs \<longrightarrow> disk_full t" and w: "wrote_file ?K ip off (take m bs) s t" for m t
  proof -
    note W = wrote_fileD [OF w] and I = wrote_file_inode [OF w ipl]
    let ?u = "sized ip (off + m) t"
    have iu: "itable ?u ! ip = (itable t ! ip)\<lparr>i_size := max (i_size (itable s ! ip)) (off + m)\<rparr>"
      using itable_sized [of ip t] ipl I by simp
    have sb: "sb ?u = sb s" using fs_relD(7) [OF W(1)] by simp
    have u1': "tx 2 t" using fs_rel_tx [OF W(1), of 2] tx by simp
    then have u1: "tx 2 ?u" by simp
    have u2: "blocks_inv ?u" using W(2) by simp
    have u3: "length (addrs ?u ip) = 13" using inode_ok_addrs(1) [OF W(2,3)] iu by simp
    have u4: "i_dev (itable ?u ! ip) = ROOTDEV" "i_inum (itable ?u ! ip) = i_inum (itable s ! ip)"
      using iu I iok by (simp_all add: inode_ok_def)
    have u5: "held ?u = held s" using fs_relD(2) [OF W(1)] by simp
    have "returns (iupdate ip ?u) (\<lambda>_ v. write_post ip off bs s (int m) v)"
      by (rule returns_mono [OF returns_iupdate [OF u2 u4(1) u1 _ _ u3, unfolded u4(2) u5 sb, OF inum]])
        (use write_post_end [OF inv ok df sz e inum(1) di m w u1'] fs_stepD(9) in auto)
    then show ?thesis by (simp add: wp)
  qed
  have "returns (writei_loop ip (From_kernel bs) off 0 (length bs) s) (\<lambda>(off', tot') t. 0 \<le> tot' \<and> tot' \<le> length bs \<and>
    off' = off + (tot' - 0) \<and> wrote_file (6 * int (nblks off (length bs - 0))) ip off (take (tot' - 0) bs) s t \<and>
    (tot' < length bs \<longrightarrow> disk_full t))"
    by (rule returns_writei_loop [OF inv iok df]) (use tx1 e in simp_all)
  then have "returns (kbind (writei_loop ip (From_kernel bs) off 0 (length bs) s) (\<lambda>(off', tot) t.
      kbind (iupdate ip (sized ip off' t)) (\<lambda>_. Ok (int tot)))) (write_post ip off bs s)"
    unfolding returns_kbind by (rule returns_mono) (use fin in \<open>auto simp: wp\<close>)
  moreover have "writei ip (From_kernel bs) off (length bs) s = kbind (writei_loop ip (From_kernel bs) off 0 (length bs) s)
      (\<lambda>(off', tot) t. kbind (iupdate ip (sized ip off' t)) (\<lambda>_. Ok (int tot)))"
    using sz e unfolding writei_def sized_def Let_def by simp
  ultimately show ?thesis by simp
qed

section \<open>Properties\<close>



text \<open>
  (C13) What is written is read back: after a complete \<open>writei\<close>, \<open>readi\<close> at the same offset gives the
  bytes written.
\<close>

theorem write_then_read:
  assumes "blocks_inv s" and "file_ok s ip" and "data_free s" and "off \<le> i_size (itable s ! ip)"
    and "off + length bs \<le> MAXFILE * BSIZE" and "tx (6 * int (nblks off (length bs)) + 2) s"
    and "i_inum (itable s ! ip) < sb_ninodes (sb s)" and "IBLOCK (i_inum (itable s ! ip)) (sb s) \<notin> held s"
    and "dinode_ok (inode_dinode (itable s ! ip))"
  shows "returns (kbind (writei ip (From_kernel bs) off (length bs) s) (\<lambda>r t.
      kbind (readi ip To_local off (length bs) t) (\<lambda>(k, xs) u. Ok (r, k, xs) u)))
    (\<lambda>(r, k, xs) t. if r = int (length bs) then xs = bs \<and> k = r else disk_full t)"
proof -
  have w: "returns (writei ip (From_kernel bs) off (length bs) s) (write_post ip off bs s)"
    by (rule returns_writei) (use assms in simp_all)
  show ?thesis
    unfolding returns_kbind
  proof (rule returns_mono [OF w])
    fix r t assume "write_post ip off bs s r t"
    then obtain m where m: "m \<le> length bs" "r = int m" "m < length bs \<longrightarrow> disk_full t"
      "file_bytes t ip = put_at off (take m bs) (file_bytes s ip)" "file_ok t ip" "blocks_inv t" "data_free t" "0 < slots t"
      by (auto simp: write_post_def)
    have "length (file_bytes s ip) = i_size (itable s ! ip)" by (simp add: file_bytes_def)
    then have full: "take (length bs) (drop off (put_at off bs (file_bytes s ip))) = bs"
      using assms(4) by (simp add: put_at_def)
    have df: "disk_full u" if "fs_step 0 t u" "blk u = blk t" "disk_full t" for u
      using that fs_stepD(8) [OF that(1)] by (simp add: disk_full_def block_used_def)
    have "log_inv t" and e: "off + length bs < 2 ^ 32" using m(6) assms(5) by (auto simp: blocks_inv_def)
    from returns_readi [OF this(1) m(5,7,8) e]
    show "returns (readi ip To_local off (length bs) t) (\<lambda>x u. returns ((case x of (k, xs) \<Rightarrow> Ok (r, k, xs)) u)
        (\<lambda>(r, k, xs) t. if r = int (length bs) then xs = bs \<and> k = r else disk_full t))"
      by (rule returns_mono)
        (use m full df in auto)
  qed
qed

text \<open>An empty file of the example file system.\<close>

definition file_ex :: fs_state where
  "file_ex = upd_inode 0 (\<lambda>x. x\<lparr>i_dev := ROOTDEV, i_inum := 1, i_type := T_FILE, i_nlink := 1\<rparr>) (fs_boot fs_disk 1)"

lemma file_ex_ok:
  "blocks_inv file_ex" "log_inv file_ex" "file_ok file_ex 0" "data_free file_ex" "tx 8 file_ex" "0 < slots file_ex"
  "i_size (itable file_ex ! 0) = 0" "i_inum (itable file_ex ! 0) < sb_ninodes (sb file_ex)"
  "IBLOCK (i_inum (itable file_ex ! 0)) (sb file_ex) \<notin> held file_ex" "dinode_ok (inode_dinode (itable file_ex ! 0))"
proof -
  have it: "itable file_ex ! 0 = inode0\<lparr>i_dev := ROOTDEV, i_inum := 1, i_type := T_FILE, i_nlink := 1\<rparr>"
    "length (itable file_ex) = NINODE"
    by (simp_all add: file_ex_def upd_inode_def fs_boot_disk NINODE_def)
  have h: "held file_ex = {}" "slots file_ex = 30" "sb file_ex = sb_ex"
    by (simp_all add: file_ex_def upd_inode_def fs_boot_disk)
  show "blocks_inv file_ex" using fs_boot_blocks by (simp add: file_ex_def)
  then show "log_inv file_ex" by (simp add: blocks_inv_def)
  show "tx 8 file_ex" by (simp add: file_ex_def) (simp add: tx_def fs_boot_disk)
  show "0 < slots file_ex" "data_free file_ex" "IBLOCK (i_inum (itable file_ex ! 0)) (sb file_ex) \<notin> held file_ex"
    using h by (simp_all add: data_free_def)
  have "fblk v (replicate 13 0) n = 0" for v n by (simp add: fblk_def)
  then show "file_ok file_ex 0"
    using it by (simp add: file_ok_def inode_ok_def imap_ok_def inode0_def NINODE_def)
  show "i_size (itable file_ex ! 0) = 0" "i_inum (itable file_ex ! 0) < sb_ninodes (sb file_ex)"
    "dinode_ok (inode_dinode (itable file_ex ! 0))"
    using it h by (simp_all add: inode0_def sb_ex_def dinode_ok_def inode_dinode_def is_short_def)
qed

lemma nblks_ex: "nblks 0 (Suc (Suc 0)) = 1"
  by (simp add: nblks_def)



theorem write_then_read_witness:
  "returns (kbind (writei 0 (From_kernel [104, 105]) 0 2 file_ex) (\<lambda>r t.
      kbind (readi 0 To_local 0 2 t) (\<lambda>(k, xs) u. Ok (r, k, xs) u)))
    (\<lambda>(r, k, xs) t. if r = 2 then xs = [104, 105] \<and> k = r else disk_full t)"
  using write_then_read [OF file_ex_ok(1,3,4), of 0 "[104, 105]"] file_ex_ok nblks_ex by (simp add: numeral_2_eq_2)


end
