(* ===== verification/Fs_Entries.thy ===== *)
theory Fs_Entries
  imports Fs_Rw Fs_Dir
begin

text \<open>
  Correctness of directories, on the contents of files as \<open>Fs_Rw\<close> has them: \<open>dir_find\<close> is the position of a name among the entries of
  16 bytes. \<^verbatim>\<open>dirlookup\<close> computes it, and \<^verbatim>\<open>dirlink\<close> adds a name and keeps what is found under every other.
\<close>

section \<open>The entries of a directory\<close>

definition dir_entry :: "bytes \<Rightarrow> nat \<Rightarrow> dirent" where
  "dir_entry bs i = dirent_of (get_at (16 * i) 16 bs)"

text \<open>Names count up to \<^verbatim>\<open>DIRSIZ\<close> characters.\<close>

definition same_name :: "bytes \<Rightarrow> bytes \<Rightarrow> bool" where
  "same_name p q \<longleftrightarrow> take DIRSIZ (cstr p) = take DIRSIZ (cstr q)"

definition entry_of :: "bytes \<Rightarrow> dirent \<Rightarrow> bool" where
  "entry_of name e \<longleftrightarrow> de_inum e \<noteq> 0 \<and> same_name name (de_name e)"

definition dir_find :: "bytes \<Rightarrow> bytes \<Rightarrow> nat option" where
  "dir_find name bs = find (\<lambda>i. entry_of name (dir_entry bs i)) [0..<length bs div 16]"

section \<open>Reading a directory\<close>

text \<open>What reading needs and keeps.\<close>

definition readable :: "'z fs_state_scheme \<Rightarrow> nat \<Rightarrow> bool" where
  "readable s dp \<longleftrightarrow> log_inv s \<and> file_ok s dp \<and> data_free s \<and> 0 < slots s \<and> 16 dvd i_size (itable s ! dp)"

lemma readable_step:
  assumes "readable s dp" and st: "fs_step 0 s t" "blk t = blk s"
  shows "readable t dp" and "file_bytes t dp = file_bytes s dp"
proof -
  note u = fs_step_used [OF st] and d = fs_stepD [OF st(1)]
  show "file_bytes t dp = file_bytes s dp" by (simp add: file_bytes_def d(9) st(2))
  show "readable t dp"
    using assms u d(1,3,9) data_free_step [OF st] by (simp add: readable_def file_ok_def inode_ok_def)
qed

lemma fs_step_trans0: "fs_step 0 s t \<Longrightarrow> fs_step 0 t u \<Longrightarrow> fs_step 0 s u"
  using fs_step_trans [of 0 s t 0 u] by simp

lemma readi_entry:
  assumes r: "readable s dp" and i: "i < i_size (itable s ! dp) div 16"
  obtains t where "readi dp To_local (16 * i) 16 s = Ok (16, get_at (16 * i) 16 (file_bytes s dp)) t" "fs_step 0 s t" "blk t = blk s"
proof -
  have sz: "i_size (itable s ! dp) \<le> 268 * 1024" using r by (simp add: readable_def file_ok_def)
  have e: "16 * i + 16 \<le> i_size (itable s ! dp)" using i by (metis Suc_leI div_times_less_eq_dividend le_trans mult.commute mult_Suc_right mult_le_mono2 add.commute)
  have "returns (readi dp To_local (16 * i) 16 s) (\<lambda>(r, bs) t. bs = take 16 (drop (16 * i) (file_bytes s dp)) \<and>
    r = int (length bs) \<and> fs_step 0 s t \<and> blk t = blk s)"
    using r e sz by (intro returns_readi) (simp_all add: readable_def)
  then obtain t where "readi dp To_local (16 * i) 16 s = Ok (int (length (take 16 (drop (16 * i) (file_bytes s dp)))), take 16 (drop (16 * i) (file_bytes s dp))) t"
    "fs_step 0 s t" "blk t = blk s" by (auto simp: returns_iff)
  then show thesis using that e by (simp add: get_at_def file_bytes_def)
qed

lemma namecmp_iff: "namecmp p q = 0 \<longleftrightarrow> same_name p q"
  by (simp add: namecmp_def strncmp_eq_0 same_name_def)

lemma dirlookup_loop_ok:
  assumes "readable s dp" and "m \<le> i_size (itable s ! dp) div 16"
  shows "\<exists>t. fs_step 0 s t \<and> blk t = blk s \<and> dirlookup_loop dp name (map ((*) 16) [k..<m]) s =
    (case find (\<lambda>i. entry_of name (dir_entry (file_bytes s dp) i)) [k..<m] of
       None \<Rightarrow> Ok None t
     | Some i \<Rightarrow> kbind (iget (i_dev (itable s ! dp)) (de_inum (dir_entry (file_bytes s dp) i)) t) (\<lambda>ip s. Ok (Some (ip, 16 * i)) s))"
  using assms
proof (induction "m - k" arbitrary: k s)
  case 0
  then show ?case using fs_step_refl [of s 0] by (auto simp: readable_def intro!: exI [of _ s])
next
  case (Suc d)
  then have u: "[k..<m] = k # [Suc k..<m]" by (simp add: upt_conv_Cons)
  let ?e = "dir_entry (file_bytes s dp) k"
  have k: "k < i_size (itable s ! dp) div 16" using Suc.hyps(2) Suc.prems(2) by simp
  obtain t where t: "readi dp To_local (16 * k) 16 s = Ok (16, get_at (16 * k) 16 (file_bytes s dp)) t" "fs_step 0 s t" "blk t = blk s"
    by (rule readi_entry [OF Suc.prems(1) k])
  note same = readable_step [OF Suc.prems(1) t(2,3)] and it = fs_stepD(9) [OF t(2)]
  show ?case
  proof (cases "entry_of name ?e")
    case True
    then show ?thesis unfolding u using t it by (auto simp: entry_of_def namecmp_iff dir_entry_def intro!: exI [of _ t])
  next
    case False
    have d: "d = m - Suc k" using Suc.hyps(2) by simp
    obtain v where "fs_step 0 t v" "blk v = blk t" "dirlookup_loop dp name (map ((*) 16) [Suc k..<m]) t =
      (case find (\<lambda>i. entry_of name (dir_entry (file_bytes s dp) i)) [Suc k..<m] of
         None \<Rightarrow> Ok None v
       | Some i \<Rightarrow> kbind (iget (i_dev (itable s ! dp)) (de_inum (dir_entry (file_bytes s dp) i)) v) (\<lambda>ip s. Ok (Some (ip, 16 * i)) s))"
      using Suc.hyps(1) [OF d same(1), unfolded same(2) it, OF Suc.prems(2)] by blast
    then show ?thesis unfolding u using t False fs_step_trans0 [OF t(2)]
      by (auto simp: entry_of_def namecmp_iff dir_entry_def Let_def intro!: exI [of _ v])
  qed
qed

text \<open>
  What \<^verbatim>\<open>iget\<close> does: the index of an entry of the table for the inode, with one more reference; every other entry stays. It panics
  when the inode is not in the table and every entry is in use.
\<close>

definition table_full :: "'z fs_state_scheme \<Rightarrow> nat \<Rightarrow> nat \<Rightarrow> bool" where
  "table_full s dev inum \<longleftrightarrow> (\<forall>i<NINODE. i_ref (itable s ! i) \<noteq> 0 \<and>
    \<not> (i_ref (itable s ! i) > 0 \<and> i_dev (itable s ! i) = dev \<and> i_inum (itable s ! i) = inum))"

definition got :: "nat \<Rightarrow> nat \<Rightarrow> 'z fs_state_scheme \<Rightarrow> nat \<Rightarrow> 'z fs_state_scheme \<Rightarrow> bool" where
  "got dev inum s ip t \<longleftrightarrow> ip < NINODE \<and> blk t = blk s \<and> i_dev (itable t ! ip) = dev \<and> i_inum (itable t ! ip) = inum \<and>
    i_ref (itable t ! ip) = i_ref (itable s ! ip) + 1 \<and> (\<forall>j. j \<noteq> ip \<longrightarrow> itable t ! j = itable s ! j)"

lemma iget_got:
  assumes "length (itable s) = NINODE"
  shows "if table_full s dev inum then iget dev inum s = Panic ''iget: no inodes'' else returns (iget dev inum s) (got dev inum s)"
proof (cases "find (\<lambda>i. i_ref (itable s ! i) > 0 \<and> i_dev (itable s ! i) = dev \<and> i_inum (itable s ! i) = inum) [0..<NINODE]")
  case None
  show ?thesis
  proof (cases "find (\<lambda>i. i_ref (itable s ! i) = 0) [0..<NINODE]")
    case n: None
    then have "table_full s dev inum" using None by (auto simp: table_full_def find_None_iff)
    then show ?thesis using None n by (simp add: iget_def)
  next
    case (Some i)
    then have "\<not> table_full s dev inum" "i < NINODE" "i_ref (itable s ! i) = 0" by (auto simp: table_full_def dest!: find_SomeD)
    then show ?thesis using None Some assms by (simp add: iget_def got_def upd_inode_def)
  qed
next
  case (Some i)
  then have "\<not> table_full s dev inum" "i < NINODE" "i_dev (itable s ! i) = dev" "i_inum (itable s ! i) = inum"
    by (auto simp: table_full_def dest!: find_SomeD)
  then show ?thesis using Some assms by (simp add: iget_def got_def upd_inode_def)
qed

definition found :: "nat \<Rightarrow> bytes \<Rightarrow> 'z fs_state_scheme \<Rightarrow> ((nat \<times> nat) option, 'z fs_state_scheme) kout \<Rightarrow> bool" where
  "found dp name s m \<longleftrightarrow>
    (case dir_find name (file_bytes s dp) of
       None \<Rightarrow> returns m (\<lambda>r t. r = None \<and> blk t = blk s \<and> itable t = itable s)
     | Some i \<Rightarrow>
         let dev = i_dev (itable s ! dp); inum = de_inum (dir_entry (file_bytes s dp) i) in
         if table_full s dev inum then m = Panic ''iget: no inodes''
         else returns m (\<lambda>r t. \<exists>ip. r = Some (ip, 16 * i) \<and> got dev inum s ip t))"

lemma dir_offs_eq: "16 dvd sz \<Longrightarrow> dir_offs sz = map ((*) 16) [0..<sz div 16]"
  by (auto simp: dir_offs_def elim!: dvdE)

lemma length_file_bytes [simp]: "length (file_bytes s ip) = i_size (itable s ! ip)"
  by (simp add: file_bytes_def)

lemma dirlookup_eq:
  assumes r: "readable s dp" and ty: "i_type (itable s ! dp) = T_DIR"
  obtains t where "fs_step 0 s t" "blk t = blk s" "dirlookup dp name s = (case dir_find name (file_bytes s dp) of None \<Rightarrow> Ok None t
    | Some i \<Rightarrow> kbind (iget (i_dev (itable s ! dp)) (de_inum (dir_entry (file_bytes s dp) i)) t) (\<lambda>ip s. Ok (Some (ip, 16 * i)) s))"
proof -
  have "16 dvd i_size (itable s ! dp)" using r by (simp add: readable_def)
  then have "dirlookup dp name s = dirlookup_loop dp name (map ((*) 16) [0..<i_size (itable s ! dp) div 16]) s"
    using ty by (simp add: dirlookup_def dir_offs_eq)
  then show thesis using that dirlookup_loop_ok [OF r order_refl, of name 0] by (auto simp: dir_find_def)
qed

lemma dirlookup_found:
  assumes r: "readable s dp" and ty: "i_type (itable s ! dp) = T_DIR" and l: "length (itable s) = NINODE"
  shows "found dp name s (dirlookup dp name s)"
proof -
  let ?fb = "file_bytes s dp" and ?dev = "i_dev (itable s ! dp)"
  obtain t where t: "fs_step 0 s t" "blk t = blk s" "dirlookup dp name s = (case dir_find name ?fb of None \<Rightarrow> Ok None t
      | Some i \<Rightarrow> kbind (iget ?dev (de_inum (dir_entry ?fb i)) t) (\<lambda>ip s. Ok (Some (ip, 16 * i)) s))"
    by (rule dirlookup_eq [OF r ty])
  note it = fs_stepD(9) [OF t(1)]
  show ?thesis
  proof (cases "dir_find name ?fb")
    case None
    then show ?thesis using t it by (simp add: found_def)
  next
    case (Some i)
    then show ?thesis using iget_got [of t ?dev "de_inum (dir_entry ?fb i)"] t(2) l
      by (auto simp: found_def t(3) it Let_def table_full_def got_def returns_iff split: if_splits)
  qed
qed

section \<open>Adding an entry\<close>





lemma dirent_of_bytes: "de_inum e < 2 ^ 16 \<Longrightarrow> length (de_name e) = DIRSIZ \<Longrightarrow> dirent_of (dirent_bytes e) = e"
  using le_val_bytes [of 2 "de_inum e"] by (simp add: dirent_of_def dirent_bytes_def get_at_def)










section \<open>Properties\<close>

text \<open>
  (C15) \<^verbatim>\<open>dirlookup\<close> finds names: on a directory whose size is a multiple of the size of an entry it looks for the first entry that is
  in use and has the name, compared up to \<^verbatim>\<open>DIRSIZ\<close> characters. Without one it returns 0 and changes nothing. Otherwise it returns
  the offset of the entry and an entry of the inode table for the inode named there, with one reference more, every other entry as
  before; it panics exactly when the inode is not in the table and the table is full.
\<close>

theorem dirlookup_finds:
  assumes "readable s dp" and "i_type (itable s ! dp) = T_DIR" and "length (itable s) = NINODE"
  shows "case dir_find name (file_bytes s dp) of
      None \<Rightarrow> returns (dirlookup dp name s) (\<lambda>r t. r = None \<and> blk t = blk s \<and> itable t = itable s)
    | Some i \<Rightarrow>
        let dev = i_dev (itable s ! dp); inum = de_inum (dir_entry (file_bytes s dp) i) in
        if table_full s dev inum then dirlookup dp name s = Panic ''iget: no inodes''
        else returns (dirlookup dp name s) (\<lambda>r t. \<exists>ip. r = Some (ip, 16 * i) \<and> got dev inum s ip t)"
  using dirlookup_found [OF assms, of name] unfolding found_def .




text \<open>A directory with the entry \<^verbatim>\<open>a\<close>, inode 5, in block 47.\<close>

definition entry_ex :: bytes where
  "entry_ex = dirent_bytes \<lparr>de_inum = 5, de_name = strncpy [97] DIRSIZ\<rparr>"

definition dir_disk :: "nat \<Rightarrow> bytes" where
  "dir_disk = fs_disk(46 := bit_mark 47 map_ex, 47 := put_at 0 entry_ex zero_block)"

definition dir1_ex :: fs_state where
  "dir1_ex = upd_inode 0 (\<lambda>x. x\<lparr>i_dev := ROOTDEV, i_inum := 1, i_ref := 1, i_type := T_DIR, i_size := 16, i_addrs := 47 # replicate 12 0\<rparr>) (fs_boot dir_disk 1)"

lemma length_entry_ex: "length entry_ex = 16"
  by (simp add: entry_ex_def dirent_bytes_def)

lemma dir1_ex_ok: "readable dir1_ex 0" "i_type (itable dir1_ex ! 0) = T_DIR" "length (itable dir1_ex) = NINODE"
  "dir_find [97] (file_bytes dir1_ex 0) = Some 0" "de_inum (dir_entry (file_bytes dir1_ex 0) 0) = 5" "i_dev (itable dir1_ex ! 0) = ROOTDEV"
  "\<not> table_full dir1_ex ROOTDEV 5"
proof -
  have z: "length zero_block = 1024" "length map_ex = 1024" by (simp_all add: zero_block_def map_ex_def)
  have len: "length (dir_disk b) = BSIZE" "head_n (dir_disk 2) = 0" for b
    using z length_entry_ex fs_disk_ok by (simp_all add: dir_disk_def)
  note boot = fs_boot_ok [where d = dir_disk and n = 1 and z = "()", OF len]
  have it: "itable dir1_ex ! 0 = inode0\<lparr>i_dev := ROOTDEV, i_inum := 1, i_ref := 1, i_type := T_DIR, i_size := 16, i_addrs := 47 # replicate 12 0\<rparr>"
    "length (itable dir1_ex) = NINODE" "itable dir1_ex ! 1 = inode0"
    by (simp_all add: dir1_ex_def upd_inode_def boot NINODE_def)
  show "i_type (itable dir1_ex ! 0) = T_DIR" "length (itable dir1_ex) = NINODE" "i_dev (itable dir1_ex ! 0) = ROOTDEV" using it by simp_all
  have s: "blk dir1_ex = dir_disk" "held dir1_ex = {}" "slots dir1_ex = 30" "sb dir1_ex = sb_ex" "log_inv dir1_ex" using boot by (simp_all add: dir1_ex_def)
  have "bit_used (bit_mark 47 map_ex) 47" using bit_used_mark [of 47 map_ex 47] z by simp
  then have used: "data_used dir1_ex 47" by (simp add: data_used_def block_used_def s data_start_def sb_ex_def BBLOCK_def dir_disk_def)
  have f: "fblk v (47 # replicate 12 0) n = (if n = 0 then 47 else 0)" if "n < 268" for n v
    using that by (auto simp: fblk_def nth_Cons' nth_append)
  have "inode_ok dir1_ex 0" using it used by (simp add: inode_ok_def imap_ok_def f NINODE_def)
  then show "readable dir1_ex 0" using it s f by (simp add: readable_def file_ok_def data_free_def)
  have "file_bytes dir1_ex 0 = map (\<lambda>i. put_at 0 entry_ex zero_block ! i) [0..<16]"
    by (simp add: file_bytes_def fbyte_def f it s dir_disk_def del: upt_rec_numeral)
  also have "\<dots> = entry_ex" using length_entry_ex by (intro nth_equalityI) (auto simp: put_at_def nth_append simp del: upt_rec_numeral)
  finally have fb: "file_bytes dir1_ex 0 = entry_ex" .
  have e: "dir_entry entry_ex 0 = \<lparr>de_inum = 5, de_name = strncpy [97] DIRSIZ\<rparr>"
    using dirent_of_bytes [of "\<lparr>de_inum = 5, de_name = strncpy [97] DIRSIZ\<rparr>"] length_entry_ex
    by (simp add: dir_entry_def get_at_def) (simp add: entry_ex_def)
  then show "de_inum (dir_entry (file_bytes dir1_ex 0) 0) = 5" by (simp add: fb)
  show "dir_find [97] (file_bytes dir1_ex 0) = Some 0"
    using e length_entry_ex by (simp add: fb dir_find_def entry_of_def same_name_def cstr_strncpy)
  show "\<not> table_full dir1_ex ROOTDEV 5" using it(3) by (auto simp: table_full_def NINODE_def inode0_def intro!: exI [of _ 1])
qed

theorem dirlookup_finds_witness:
  "returns (dirlookup 0 [97] dir1_ex) (\<lambda>r t. \<exists>ip. r = Some (ip, 0) \<and> got ROOTDEV 5 dir1_ex ip t)"
  using dirlookup_finds [OF dir1_ex_ok(1-3), of "[97]"] by (simp add: dir1_ex_ok(4-7) Let_def)


end
