(* ===== verification/Vm_Map.thy ===== *)
theory Vm_Map
  imports Vm
begin

text \<open>
  Correctness of the page tables: a table is a tree of distinct pages; \<open>pte\<close> is the entry a
  virtual address has in it. Walking with allocation changes no entry, and mapping a range
  changes the entries of that range and no other.
\<close>

section \<open>Memory by pages\<close>

text \<open>\<open>mem_only P m m'\<close>: \<open>m'\<close> differs from \<open>m\<close> at most in the pages of \<open>P\<close>.\<close>

definition mem_only :: "u64 set \<Rightarrow> memory \<Rightarrow> memory \<Rightarrow> bool" where
  "mem_only P m m' \<longleftrightarrow> (\<forall>a. PGROUNDDOWN a \<notin> P \<longrightarrow> m' a = m a)"

lemma mem_only_refl [simp]: "mem_only P m m"
  by (simp add: mem_only_def)

lemma mem_only_trans: "mem_only P m m' \<Longrightarrow> mem_only Q m' m'' \<Longrightarrow> P \<union> Q \<subseteq> R \<Longrightarrow> mem_only R m m''"
  unfolding mem_only_def by (metis Un_iff subsetD)

lemma mem_only_mono: "mem_only P m m' \<Longrightarrow> P \<subseteq> Q \<Longrightarrow> mem_only Q m m'"
  by (auto simp: mem_only_def)

lemma PGROUNDDOWN_in_page:
  assumes "page_aligned p" and "i < 4096"
  shows "PGROUNDDOWN (p + of_nat i) = p"
proof -
  have "unat (p + of_nat i) = unat p + i"
    using page_aligned_room [OF assms(1)] assms(2) by (simp add: unat_word_ariths)
  moreover obtain k where "unat p = 4096 * k"
    using assms(1) by (auto simp: page_aligned_unat mod_eq_0_iff_dvd)
  ultimately have "unat (PGROUNDDOWN (p + of_nat i)) = unat p" using assms(2) by (simp add: unat_PGROUNDDOWN)
  then show ?thesis by (simp add: word_unat_eq_iff)
qed

lemma in_page_iff:
  assumes "page_aligned p"
  shows "unat (a - p) < 4096 \<longleftrightarrow> PGROUNDDOWN a = p"
proof
  assume "unat (a - p) < 4096"
  then show "PGROUNDDOWN a = p" using PGROUNDDOWN_in_page [OF assms, of "unat (a - p)"] by simp
next
  assume "PGROUNDDOWN a = p"
  then have "p = a - a mod 4096" unfolding PGROUNDDOWN_def and_not_pagemask by simp
  then have "a - p = a mod 4096" by simp
  then show "unat (a - p) < 4096" by (simp add: unat_mod)
qed

lemma mem_only_put:
  assumes "page_aligned p" and "i + length bs \<le> 4096"
  shows "mem_only {p} m (mem_put m (p + of_nat i) bs)"
  unfolding mem_only_def
proof (intro allI impI)
  fix a assume a: "PGROUNDDOWN a \<notin> {p}"
  have "length bs \<le> unat (a - (p + of_nat i))"
  proof (rule ccontr)
    assume "\<not> ?thesis"
    then have l: "unat (a - (p + of_nat i)) < length bs" by simp
    have "a = p + of_nat (i + unat (a - (p + of_nat i)))" by simp
    moreover have "PGROUNDDOWN (p + of_nat (i + unat (a - (p + of_nat i)))) = p"
      using l assms by (intro PGROUNDDOWN_in_page) auto
    ultimately show False using a by simp
  qed
  then show "mem_put m (p + of_nat i) bs a = m a" by (simp add: mem_put_def)
qed

lemma mem_only_memset: "page_aligned p \<Longrightarrow> mem_only {p} m (memset m p c 4096)"
  using mem_only_put [of p 0 "replicate 4096 c" m] by (simp add: memset_put)

text \<open>Entry \<open>i\<close> of the table page \<open>p\<close>.\<close>

definition ent :: "memory \<Rightarrow> u64 \<Rightarrow> nat \<Rightarrow> u64" where
  "ent m p i = load64 m (pte_at p (of_nat i))"

lemma pte_at_of_nat: "pte_at p (of_nat i) = p + of_nat (8 * i)"
  by (simp add: pte_at_def)

lemma mem_only_store:
  "page_aligned p \<Longrightarrow> i < 512 \<Longrightarrow> mem_only {p} m (store64 m (pte_at p (of_nat i)) v)"
  unfolding pte_at_of_nat store64_def by (rule mem_only_put) auto

lemma load64_mem_only:
  assumes "mem_only P m m'" and "page_aligned p" and "p \<notin> P" and "i + 8 \<le> 4096"
  shows "load64 m' (p + of_nat i) = load64 m (p + of_nat i)"
proof -
  have "m' (p + of_nat i + of_nat j) = m (p + of_nat i + of_nat j)" if "j < 8" for j
  proof -
    have "PGROUNDDOWN (p + of_nat (i + j)) = p" using assms that by (intro PGROUNDDOWN_in_page) auto
    then show ?thesis using assms(1,3) by (simp add: mem_only_def add.assoc)
  qed
  then have "mem_bytes m' (p + of_nat i) 8 = mem_bytes m (p + of_nat i) 8" by (intro nth_equalityI) simp_all
  then show ?thesis by (simp add: load64_def)
qed

lemma ent_mem_only:
  "mem_only P m m' \<Longrightarrow> page_aligned p \<Longrightarrow> p \<notin> P \<Longrightarrow> i < 512 \<Longrightarrow> ent m' p i = ent m p i"
  unfolding ent_def pte_at_of_nat by (rule load64_mem_only) auto

lemma ent_store:
  assumes "page_aligned p" and "page_aligned q" and "i < 512" and "j < 512"
  shows "ent (store64 m (pte_at q (of_nat j)) v) p i = (if p = q \<and> i = j then v else ent m p i)"
proof (cases "p = q")
  case False
  then show ?thesis using ent_mem_only [OF mem_only_store [OF assms(2,4)] assms(1), of i] assms(3) by auto
next
  case True
  show ?thesis
  proof (cases "i = j")
    case False
    have "disjoint_runs (p + of_nat (8 * i)) 8 (p + of_nat (8 * j)) 8"
      unfolding disjoint_runs_def
    proof (intro allI impI)
      fix k :: nat assume k: "k < 8"
      define x y where "x = 8 * i + k" and "y = 8 * j"
      have xy: "x < 4096" "y < 4096" "x + 1 \<le> y \<or> y + 8 \<le> x" using k False assms by (auto simp: x_def y_def)
      have "p + of_nat (8 * i) + of_nat k - (p + of_nat (8 * j)) = of_nat x - of_nat y" by (simp add: x_def y_def)
      moreover have "8 \<le> unat (of_nat x - of_nat y :: u64)"
      proof (cases "y \<le> x")
        case True
        then have "unat (of_nat x - of_nat y :: u64) = x - y" using xy by (simp flip: of_nat_diff)
        then show ?thesis using xy True by simp
      next
        case False
        then have "x + 1 \<le> y" using xy by simp
        then have "unat (of_nat x - of_nat y :: u64) = x + 2 ^ 64 - y" using xy by (simp add: unat_sub_if')
        then show ?thesis using xy by simp
      qed
      ultimately show "8 \<le> unat (p + of_nat (8 * i) + of_nat k - (p + of_nat (8 * j)))" by simp
    qed
    then show ?thesis using True False by (simp add: ent_def pte_at_of_nat load64_store64_other del: of_nat_mult)
  qed (use True in \<open>simp add: ent_def\<close>)
qed


section \<open>Page tables as trees\<close>

text \<open>
  The pages of the table of height \<open>l\<close> at \<open>p\<close>; \<open>leaf\<close> is the address of the last-level entry
  of a virtual address and \<open>pte\<close> its value, 0 when there is no table for it. In a proper tree
  no page occurs twice and an inner entry points to a table.
\<close>

definition px :: "nat \<Rightarrow> u64 \<Rightarrow> nat" where
  "px l va = unat (PX l va)"

abbreviation valid :: "u64 \<Rightarrow> bool" where
  "valid e \<equiv> e AND PTE_V \<noteq> 0"

fun tset :: "nat \<Rightarrow> memory \<Rightarrow> u64 \<Rightarrow> u64 set" where
  "tset 0 m p = {p}"
| "tset (Suc l) m p = insert p (\<Union>i \<in> {i. i < 512 \<and> valid (ent m p i)}. tset l m (PTE2PA (ent m p i)))"

fun tree_ok :: "nat \<Rightarrow> memory \<Rightarrow> u64 \<Rightarrow> bool" where
  "tree_ok 0 m p \<longleftrightarrow> page_aligned p"
| "tree_ok (Suc l) m p \<longleftrightarrow> page_aligned p \<and>
    (\<forall>i<512. valid (ent m p i) \<longrightarrow> tree_ok l m (PTE2PA (ent m p i)) \<and> p \<notin> tset l m (PTE2PA (ent m p i)) \<and>
      ent m p i AND (PTE_R OR PTE_W OR PTE_X) = 0) \<and>
    (\<forall>i<512. \<forall>j<512. i \<noteq> j \<longrightarrow> valid (ent m p i) \<longrightarrow> valid (ent m p j) \<longrightarrow>
      tset l m (PTE2PA (ent m p i)) \<inter> tset l m (PTE2PA (ent m p j)) = {})"

fun leaf :: "nat \<Rightarrow> memory \<Rightarrow> u64 \<Rightarrow> u64 \<Rightarrow> u64 option" where
  "leaf 0 m p va = Some (pte_at p (PX 0 va))"
| "leaf (Suc l) m p va =
    (let e = ent m p (px (Suc l) va) in if valid e then leaf l m (PTE2PA e) va else None)"

definition pte :: "nat \<Rightarrow> memory \<Rightarrow> u64 \<Rightarrow> u64 \<Rightarrow> u64" where
  "pte l m p va = (case leaf l m p va of None \<Rightarrow> 0 | Some e \<Rightarrow> load64 m e)"

lemma px_eq: "px l va = unat va div 2 ^ (12 + 9 * l) mod 512"
proof -
  have "PX l va = take_bit 9 (drop_bit (12 + 9 * l) va)" by (simp add: PX_def take_bit_eq_mask mask_eq_exp_minus_1)
  then have "unat (PX l va) = unat (drop_bit (12 + 9 * l) va) mod 2 ^ 9"
    by (simp add: take_bit_eq_mod unat_mod)
  moreover have "unat (drop_bit (12 + 9 * l) va) = unat va div 2 ^ (12 + 9 * l)"
    using unsigned_less [of va, where ?'a = nat]
    unfolding drop_bit_eq_div [symmetric] by (simp add: unsigned_drop_bit_eq take_bit_nat_eq_self)
  ultimately show ?thesis by (simp add: px_def)
qed

lemma px_less [simp]: "px l va < 512"
  by (simp add: px_eq)

lemma PX_px: "PX l va = of_nat (px l va)"
  by (simp add: px_def)

lemma walk_loop_lookup: "walk_loop l p va False s = Ok (leaf l (mem s) p va) s"
  by (induction l arbitrary: p) (simp_all add: Let_def ent_def PX_px)

lemma pte_0: "pte 0 m p va = ent m p (px 0 va)"
  by (simp add: pte_def ent_def PX_px)

lemma pte_Suc:
  "pte (Suc l) m p va = (let e = ent m p (px (Suc l) va) in if valid e then pte l m (PTE2PA e) va else 0)"
  by (simp add: pte_def Let_def)

lemma tset_root [simp]: "p \<in> tset l m p"
  by (cases l) auto

lemma tset_child: "i < 512 \<Longrightarrow> valid (ent m p i) \<Longrightarrow> tset l m (PTE2PA (ent m p i)) \<subseteq> tset (Suc l) m p"
  by auto

lemma tree_ok_aligned: "tree_ok l m p \<Longrightarrow> page_aligned p"
  by (cases l) auto

text \<open>A tree depends on its own pages only.\<close>

lemma tree_mem_only:
  assumes "mem_only P m m'" and "tree_ok l m p" and "tset l m p \<inter> P = {}"
  shows "tset l m' p = tset l m p" and "tree_ok l m' p" and "leaf l m' p = leaf l m p" and "pte l m' p = pte l m p"
proof -
  have "tset l m' p = tset l m p \<and> tree_ok l m' p \<and> leaf l m' p = leaf l m p \<and> pte l m' p = pte l m p"
    using assms(2,3)
  proof (induction l arbitrary: p)
    case 0
    then show ?case using ent_mem_only [OF assms(1)] by (auto simp: fun_eq_iff pte_0)
  next
    case (Suc l)
    have e: "ent m' p i = ent m p i" if "i < 512" for i
      using ent_mem_only [OF assms(1)] Suc.prems that by auto
    have IH: "tset l m' (PTE2PA (ent m p i)) = tset l m (PTE2PA (ent m p i)) \<and> tree_ok l m' (PTE2PA (ent m p i)) \<and>
        leaf l m' (PTE2PA (ent m p i)) = leaf l m (PTE2PA (ent m p i)) \<and> pte l m' (PTE2PA (ent m p i)) = pte l m (PTE2PA (ent m p i))"
      if "i < 512" "valid (ent m p i)" for i
      using Suc.prems that by (intro Suc.IH) auto
    have "tset (Suc l) m' p = tset (Suc l) m p"
      using IH by (auto simp: e cong: conj_cong)
    moreover have "tree_ok (Suc l) m' p" using Suc.prems(1) IH by (simp add: e)
    moreover have "leaf (Suc l) m' p va = leaf (Suc l) m p va" "pte (Suc l) m' p va = pte (Suc l) m p va" for va
      using IH [of "px (Suc l) va"] by (simp_all add: e Let_def pte_Suc)
    ultimately show ?case by (simp add: fun_eq_iff)
  qed
  then show "tset l m' p = tset l m p" "tree_ok l m' p" "leaf l m' p = leaf l m p" "pte l m' p = pte l m p" by auto
qed


text \<open>Changing a last-level entry changes the translation of its page and nothing else.\<close>

definition same_px :: "nat \<Rightarrow> u64 \<Rightarrow> u64 \<Rightarrow> bool" where
  "same_px l va va' \<longleftrightarrow> (\<forall>k\<le>l. px k va = px k va')"

lemma same_px_Suc: "same_px (Suc l) va va' \<longleftrightarrow> same_px l va va' \<and> px (Suc l) va = px (Suc l) va'"
  by (auto simp: same_px_def le_Suc_eq)

lemma leaf_page:
  assumes "tree_ok l m p" and "leaf l m p va = Some e"
  shows "\<exists>q \<in> tset l m p. page_aligned q \<and> e = pte_at q (of_nat (px 0 va))"
  using assms
proof (induction l arbitrary: p)
  case 0
  then show ?case by (auto simp: PX_px)
next
  case (Suc l)
  let ?e = "ent m p (px (Suc l) va)"
  have v: "valid ?e" "leaf l m (PTE2PA ?e) va = Some e"
    using Suc.prems(2) by (auto simp: Let_def split: if_splits)
  moreover from v(1) Suc.prems(1) have "tree_ok l m (PTE2PA ?e)" by simp
  ultimately have "\<exists>q \<in> tset l m (PTE2PA ?e). page_aligned q \<and> e = pte_at q (of_nat (px 0 va))" by (intro Suc.IH)
  then obtain q where q: "q \<in> tset l m (PTE2PA ?e)" "page_aligned q" "e = pte_at q (of_nat (px 0 va))" by blast
  have "q \<in> tset (Suc l) m p" using tset_child [OF px_less v(1)] q(1) by blast
  with q show ?case by blast
qed

lemma set_leaf:
  fixes v :: u64
  assumes "tree_ok l m p" and "leaf l m p va = Some e"
  defines "m' \<equiv> store64 m e v"
  shows "mem_only (tset l m p) m m'" and "tset l m' p = tset l m p" and "tree_ok l m' p" and "leaf l m' p = leaf l m p"
    and "pte l m' p va' = (if same_px l va va' then v else pte l m p va')"
proof -
  have "mem_only (tset l m p) m m' \<and> tset l m' p = tset l m p \<and> tree_ok l m' p \<and> leaf l m' p = leaf l m p \<and>
      (\<forall>va'. pte l m' p va' = (if same_px l va va' then v else pte l m p va'))"
    using assms(1,2)
  proof (induction l arbitrary: p)
    case 0
    then have e: "e = pte_at p (of_nat (px 0 va))" and al: "page_aligned p" by (simp_all add: PX_px)
    have "ent m' p i = (if i = px 0 va then v else ent m p i)" if "i < 512" for i
      unfolding m'_def e using ent_store [OF al al that px_less [of 0 va], of m v] by simp
    moreover have "mem_only {p} m m'" unfolding m'_def e using al by (rule mem_only_store) simp
    ultimately show ?case using al by (auto simp: fun_eq_iff pte_0 same_px_def)
  next
    case (Suc l)
    let ?i = "px (Suc l) va"
    let ?c = "\<lambda>i. PTE2PA (ent m p i)"
    have vi: "valid (ent m p ?i)" and lf: "leaf l m (?c ?i) va = Some e"
      using Suc.prems(2) by (auto simp: Let_def split: if_splits)
    have tr: "tree_ok l m (?c ?i)" "p \<notin> tset l m (?c ?i)" using Suc.prems(1) vi by auto
    note IH = Suc.IH [OF tr(1) lf]
    have e: "ent m' p j = ent m p j" if "j < 512" for j
      using ent_mem_only [of "tset l m (?c ?i)" m m' p j] IH tr(2) Suc.prems(1) that by auto
    have other: "tset l m' (?c j) = tset l m (?c j) \<and> tree_ok l m' (?c j) \<and> leaf l m' (?c j) = leaf l m (?c j) \<and>
        pte l m' (?c j) = pte l m (?c j)" if "j < 512" "valid (ent m p j)" "j \<noteq> ?i" for j
      using tree_mem_only [of "tset l m (?c ?i)" m m' l "?c j"] IH Suc.prems(1) that vi by auto
    have all: "tset l m' (?c j) = tset l m (?c j) \<and> tree_ok l m' (?c j) \<and> leaf l m' (?c j) = leaf l m (?c j)"
      if "j < 512" "valid (ent m p j)" for j
      using other [OF that] IH by (cases "j = ?i") auto
    have "mem_only (tset (Suc l) m p) m m'" using IH vi by (auto intro!: mem_only_mono [of "tset l m (?c ?i)"] px_less)
    moreover have "tset (Suc l) m' p = tset (Suc l) m p" using all by (auto simp: e cong: conj_cong)
    moreover have "tree_ok (Suc l) m' p" using Suc.prems(1) all by (simp add: e)
    moreover have "leaf (Suc l) m' p va' = leaf (Suc l) m p va'" for va'
      using all [of "px (Suc l) va'"] by (simp add: e Let_def)
    moreover have "pte (Suc l) m' p va' = (if same_px (Suc l) va va' then v else pte (Suc l) m p va')" for va'
      using other [of "px (Suc l) va'"] IH vi by (cases "px (Suc l) va' = ?i") (auto simp: e Let_def pte_Suc same_px_Suc)
    ultimately show ?case by (simp add: fun_eq_iff)
  qed
  then show "mem_only (tset l m p) m m'" "tset l m' p = tset l m p" "tree_ok l m' p" "leaf l m' p = leaf l m p"
    "pte l m' p va' = (if same_px l va va' then v else pte l m p va')" by auto
qed


section \<open>Walking with allocation\<close>

lemma PTE2PA_PA2PTE:
  assumes "page_aligned pa" and "unat flags < 1024"
  shows "PTE2PA (PA2PTE pa OR flags) = pa"
proof -
  have "take_bit 12 pa = 0" using assms(1) by (simp add: page_aligned_def take_bit_eq_mod)
  then have p: "\<not> bit pa n" if "n < 12" for n using that by (metis bit_take_bit_iff bit_0_eq bot_apply bot_bool_def)
  have "take_bit 10 flags = flags" using assms(2) by (simp add: take_bit_eq_mod word_unat_eq_iff unat_mod)
  then have f: "\<not> bit flags n" if "10 \<le> n" for n using that by (metis bit_take_bit_iff leD)
  show ?thesis
  proof (rule bit_word_eqI)
    fix n assume "n < LENGTH(64)"
    then show "bit (PTE2PA (PA2PTE pa OR flags)) n = bit pa n"
      using p [of n] f by (cases "n < 12") (auto simp: PTE2PA_def PA2PTE_def bit_simps)
  qed
qed

lemma valid_OR_V: "valid (x OR PTE_V)"
proof -
  have "bit ((x OR 1) AND 1) 0" by (simp add: bit_simps)
  then show ?thesis by auto
qed

lemma PA2PTE_table: "(PA2PTE pa OR PTE_V) AND (PTE_R OR PTE_W OR PTE_X) = 0"
proof -
  have "(PTE_R OR PTE_W OR PTE_X) = push_bit 1 (mask 3)" by (simp add: mask_eq_exp_minus_1)
  moreover have "(PA2PTE pa OR PTE_V) AND push_bit 1 (mask 3) = 0"
    by (rule bit_word_eqI, unfold PA2PTE_def bit_and_iff bit_or_iff bit_push_bit_iff bit_mask_iff) (auto simp: bit_1_iff)
  ultimately show ?thesis by (simp only:)
qed

text \<open>A fresh zeroed table has no valid entry.\<close>

lemma ent_memset_0: "i < 512 \<Longrightarrow> ent (memset m p 0 4096) p i = 0"
proof -
  assume i: "i < 512"
  have "mem_bytes (memset m p 0 4096) (p + of_nat (8 * i)) 8 = replicate 8 0"
  proof (rule nth_equalityI)
    fix j assume "j < length (mem_bytes (memset m p 0 4096) (p + of_nat (8 * i)) 8)"
    then have j: "j < 8" by simp
    have "p + of_nat (8 * i) + of_nat j - p = of_nat (8 * i + j)" by simp
    then have "unat (p + of_nat (8 * i) + of_nat j - p) = 8 * i + j" using i j by (simp del: of_nat_add of_nat_mult)
    then show "mem_bytes (memset m p 0 4096) (p + of_nat (8 * i)) 8 ! j = replicate 8 0 ! j"
      using i j by (simp add: memset_eq del: of_nat_mult)
  qed simp
  moreover have "le_val (replicate 8 0) = 0" by (simp add: numeral_eq_Suc)
  ultimately show ?thesis unfolding ent_def pte_at_of_nat load64_def by simp
qed

lemma empty_table:
  assumes "page_aligned p" and "\<And>i. i < 512 \<Longrightarrow> ent m p i = 0"
  shows "tset l m p = {p}" and "tree_ok l m p" and "pte l m p va = 0"
  using assms by (cases l; auto simp: pte_0 pte_Suc)+


text \<open>Replacing one subtree of a table: the other subtrees stay.\<close>

lemma graft:
  fixes m p i m' l
  defines "c \<equiv> PTE2PA (ent m' p i)" and "K \<equiv> {j. j < 512 \<and> j \<noteq> i \<and> valid (ent m p j)}"
  assumes tr: "tree_ok (Suc l) m p" and i: "i < 512" and only: "mem_only Q m m'"
    and ents': "\<forall>j<512. j \<noteq> i \<longrightarrow> ent m' p j = ent m p j"
    and kids': "\<forall>j \<in> K. tset l m (PTE2PA (ent m p j)) \<inter> (Q \<union> tset l m' c) = {}"
    and e: "valid (ent m' p i)" "ent m' p i AND (PTE_R OR PTE_W OR PTE_X) = 0" and c: "tree_ok l m' c" "p \<notin> tset l m' c"
  shows "tree_ok (Suc l) m' p"
    and "tset (Suc l) m' p = insert p (tset l m' c \<union> (\<Union>j \<in> K. tset l m (PTE2PA (ent m p j))))"
    and "pte (Suc l) m' p va = (if px (Suc l) va = i then pte l m' c va else pte (Suc l) m p va)"
    and "leaf (Suc l) m' p va = (if px (Suc l) va = i then leaf l m' c va else leaf (Suc l) m p va)"
proof -
  have ents: "j < 512 \<Longrightarrow> j \<noteq> i \<Longrightarrow> ent m' p j = ent m p j"
    and kids: "j \<in> K \<Longrightarrow> tset l m (PTE2PA (ent m p j)) \<inter> (Q \<union> tset l m' c) = {}" for j
    using ents' kids' by blast+
  have other: "tset l m' (PTE2PA (ent m p j)) = tset l m (PTE2PA (ent m p j))" "tree_ok l m' (PTE2PA (ent m p j))"
    "leaf l m' (PTE2PA (ent m p j)) = leaf l m (PTE2PA (ent m p j))" "pte l m' (PTE2PA (ent m p j)) = pte l m (PTE2PA (ent m p j))"
    if "j \<in> K" for j
    using tree_mem_only [OF only, of l "PTE2PA (ent m p j)"] tr kids [OF that] that by (auto simp: K_def)
  have idx: "{j. j < 512 \<and> valid (ent m' p j)} = insert i K" using i e ents by (auto simp: K_def)
  show "tset (Suc l) m' p = insert p (tset l m' c \<union> (\<Union>j \<in> K. tset l m (PTE2PA (ent m p j))))"
    unfolding tset.simps idx using other ents by (auto simp: K_def c_def)
  have one: "tree_ok l m' (PTE2PA (ent m' p j)) \<and> p \<notin> tset l m' (PTE2PA (ent m' p j)) \<and>
      ent m' p j AND (PTE_R OR PTE_W OR PTE_X) = 0" if "j < 512" "valid (ent m' p j)" for j
  proof (cases "j = i")
    case False
    then have "j \<in> K" using that ents by (simp add: K_def)
    then show ?thesis using other [of j] ents [of j] tr False that by simp
  qed (use e c in \<open>simp add: c_def\<close>)
  have two: "tset l m' (PTE2PA (ent m' p j)) \<inter> tset l m' (PTE2PA (ent m' p k)) = {}"
    if "j < 512" "k < 512" "j \<noteq> k" "valid (ent m' p j)" "valid (ent m' p k)" for j k
  proof -
    have K: "j \<noteq> i \<Longrightarrow> j \<in> K" "k \<noteq> i \<Longrightarrow> k \<in> K" using that ents by (auto simp: K_def)
    have ne: "j \<noteq> k" by fact
    consider "j = i" "k \<noteq> i" | "j \<noteq> i" "k = i" | "j \<noteq> i" "k \<noteq> i" using ne by blast
    then show ?thesis
    proof cases
      case 1
      then show ?thesis using kids [OF K(2)] other(1) [OF K(2)] ents that(2) by (auto simp: c_def)
    next
      case 2
      then show ?thesis using kids [OF K(1)] other(1) [OF K(1)] ents that(1) by (auto simp: c_def)
    next
      case 3
      then show ?thesis using other(1) [OF K(1)] other(1) [OF K(2)] ents that tr by simp
    qed
  qed
  show "tree_ok (Suc l) m' p" using tr one two by simp
  show "pte (Suc l) m' p va = (if px (Suc l) va = i then pte l m' c va else pte (Suc l) m p va)"
    "leaf (Suc l) m' p va = (if px (Suc l) va = i then leaf l m' c va else leaf (Suc l) m p va)"
    using e(1) ents [of "px (Suc l) va"] other(3,4) [of "px (Suc l) va"] by (auto simp: c_def pte_Suc Let_def K_def)
qed

lemma kmem_rep_mem_only:
  assumes "kmem_rep s xs" and "mem_only P (mem s) m" and "set xs \<inter> P = {}"
  shows "kmem_rep (s\<lparr>mem := m\<rparr>) xs"
proof -
  have "load64 m a = load64 (mem s) a" if "a \<in> set xs" for a
    using load64_mem_only [OF assms(2), of a 0] that assms(1,3) by (auto simp: kmem_rep_def phys_page_def)
  then have "free_path m (freelist s) xs = free_path (mem s) (freelist s) xs" by (rule free_path_cong)
  then show ?thesis using assms(1) by (simp add: kmem_rep_def)
qed


text \<open>
  The contract of \<^verbatim>\<open>walk\<close> with allocation, over the pages \<open>xs\<close> of the free list: it takes the pages
  \<open>new\<close> from its front for tables, leaves every translation as it was, and returns the
  entry, or no entry when the free list ran out.
\<close>

definition walk_post :: "nat \<Rightarrow> u64 \<Rightarrow> u64 \<Rightarrow> u64 list \<Rightarrow> 'z kmem_state_scheme \<Rightarrow> u64 option \<Rightarrow> 'z kmem_state_scheme \<Rightarrow> bool" where
  "walk_post l p va xs s r t \<longleftrightarrow> (\<exists>new ys. xs = new @ ys \<and> kmem_rep t ys \<and>
    (\<exists>m f. t = s\<lparr>mem := m, freelist := f\<rparr>) \<and> tree_ok l (mem t) p \<and>
    tset l (mem t) p \<subseteq> tset l (mem s) p \<union> set new \<and> mem_only (tset l (mem s) p \<union> set new) (mem s) (mem t) \<and>
    pte l (mem t) p = pte l (mem s) p \<and> r = leaf l (mem t) p va \<and> (r = None \<longrightarrow> ys = []))"

lemma walk_post_child:
  assumes tr: "tree_ok (Suc l) (mem s) p" and i: "i = px (Suc l) va" and v: "valid (ent (mem s) p i)"
    and free: "set xs \<inter> tset (Suc l) (mem s) p = {}"
    and w: "walk_post l (PTE2PA (ent (mem s) p i)) va xs s r t"
  shows "walk_post (Suc l) p va xs s r t"
proof -
  let ?c = "PTE2PA (ent (mem s) p i)"
  obtain new ys m f where w: "xs = new @ ys" "kmem_rep t ys" "t = s\<lparr>mem := m, freelist := f\<rparr>"
    "tree_ok l (mem t) ?c" "tset l (mem t) ?c \<subseteq> tset l (mem s) ?c \<union> set new"
    "mem_only (tset l (mem s) ?c \<union> set new) (mem s) (mem t)" "pte l (mem t) ?c = pte l (mem s) ?c"
    "r = leaf l (mem t) ?c va" "r = None \<longrightarrow> ys = []"
    using w unfolding walk_post_def by (elim exE conjE) (rule that)
  have i5: "i < 512" using i by simp
  have sub: "tset l (mem s) ?c \<subseteq> tset (Suc l) (mem s) p" using tset_child [OF i5 v] .
  have p: "p \<notin> tset l (mem s) ?c \<union> set new" using tr v i5 free w(1) by auto
  have ents: "ent (mem t) p j = ent (mem s) p j" if "j < 512" for j
    using ent_mem_only [OF w(6) tree_ok_aligned [OF tr] p that] .
  have kids: "tset l (mem s) (PTE2PA (ent (mem s) p j)) \<inter> ((tset l (mem s) ?c \<union> set new) \<union> tset l (mem t) ?c) = {}"
    if "j < 512" "j \<noteq> i" "valid (ent (mem s) p j)" for j
  proof -
    have "tset l (mem s) (PTE2PA (ent (mem s) p j)) \<inter> tset l (mem s) ?c = {}" using tr that i5 v by simp
    moreover have "tset l (mem s) (PTE2PA (ent (mem s) p j)) \<inter> set new = {}"
      using tset_child [OF that(1,3), of l] free w(1) by auto
    ultimately show ?thesis using w(5) by blast
  qed
  have e: "ent (mem t) p i = ent (mem s) p i" using ents i5 .
  have ents': "\<forall>j<512. j \<noteq> i \<longrightarrow> ent (mem t) p j = ent (mem s) p j" using ents by blast
  have kids': "\<forall>j \<in> {j. j < 512 \<and> j \<noteq> i \<and> valid (ent (mem s) p j)}. tset l (mem s) (PTE2PA (ent (mem s) p j)) \<inter>
      ((tset l (mem s) ?c \<union> set new) \<union> tset l (mem t) ?c) = {}"
    using kids by blast
  have inner: "ent (mem s) p i AND (PTE_R OR PTE_W OR PTE_X) = 0" using tr v i5 by simp
  have pc: "p \<notin> tset l (mem t) ?c" using p w(5) by blast
  note g = graft [OF tr i5 w(6), unfolded e, OF ents' kids' v inner w(4) pc]
  have g4: "leaf (Suc l) (mem t) p va = leaf l (mem t) ?c va"
    using e v by (simp add: i [symmetric] Let_def)
  show ?thesis unfolding walk_post_def
  proof (intro exI conjI)
    show "tset (Suc l) (mem t) p \<subseteq> tset (Suc l) (mem s) p \<union> set new" 
    proof
      fix x assume "x \<in> tset (Suc l) (mem t) p"
      then consider "x = p" | "x \<in> tset l (mem t) ?c" | j where "j < 512" "valid (ent (mem s) p j)" "x \<in> tset l (mem s) (PTE2PA (ent (mem s) p j))"
        unfolding g(2) by blast
      then show "x \<in> tset (Suc l) (mem s) p \<union> set new"
        by cases (use w(5) sub tset_child [of _ "mem s" p l] in \<open>blast intro: tset_root\<close>)+
    qed
    show "mem_only (tset (Suc l) (mem s) p \<union> set new) (mem s) (mem t)" by (rule mem_only_mono [OF w(6)]) (use sub in blast)
    show "pte (Suc l) (mem t) p = pte (Suc l) (mem s) p"
      using g(3) w(7) v by (auto simp: fun_eq_iff pte_Suc Let_def)
  qed (use w g(1) g4 in simp_all)
qed


text \<open>The state after a new table page \<open>a\<close> has been linked into entry \<open>i\<close> of \<open>p\<close>.\<close>

definition link_table :: "u64 \<Rightarrow> nat \<Rightarrow> u64 \<Rightarrow> memory \<Rightarrow> memory" where
  "link_table p i a m = store64 (memset (memset m a 5 4096) a 0 4096) (pte_at p (of_nat i)) (PA2PTE a OR PTE_V)"

lemma link_table:
  assumes "page_aligned p" and "page_aligned a" and "a \<noteq> p" and "i < 512"
  shows "mem_only {a, p} m (link_table p i a m)"
    and "j < 512 \<Longrightarrow> ent (link_table p i a m) p j = (if j = i then PA2PTE a OR PTE_V else ent m p j)"
    and "j < 512 \<Longrightarrow> ent (link_table p i a m) a j = 0"
proof -
  let ?m = "memset (memset m a 5 4096) a 0 4096"
  have z: "mem_only {a} m ?m" by (rule mem_only_trans [OF mem_only_memset mem_only_memset]) (use assms in auto)
  show "mem_only {a, p} m (link_table p i a m)"
    unfolding link_table_def by (rule mem_only_trans [OF z mem_only_store]) (use assms in auto)
  show "ent (link_table p i a m) p j = (if j = i then PA2PTE a OR PTE_V else ent m p j)" if "j < 512"
    using ent_mem_only [OF z assms(1)] assms that by (simp add: link_table_def ent_store)
  show "ent (link_table p i a m) a j = 0" if "j < 512"
    using assms that by (simp add: link_table_def ent_store ent_memset_0)
qed

lemma walk_post_new:
  fixes s :: "'z kmem_state_scheme"
  assumes tr: "tree_ok (Suc l) (mem s) p" and i: "i = px (Suc l) va" and v: "\<not> valid (ent (mem s) p i)"
    and free: "set (a # xs) \<inter> tset (Suc l) (mem s) p = {}" and dist: "distinct (a # xs)" and al: "page_aligned a"
    and w: "walk_post l a va xs (s\<lparr>freelist := f, mem := link_table p i a (mem s)\<rparr>) r t"
  shows "walk_post (Suc l) p va (a # xs) s r t"
proof -
  let ?m = "link_table p i a (mem s)"
  have i5: "i < 512" using i by simp
  have pa: "page_aligned p" using tree_ok_aligned [OF tr] .
  have ap: "a \<noteq> p" using free tset_root [of p "Suc l" "mem s"] by force
  note lk = link_table [OF pa al ap i5, where m = "mem s"]
  have fresh: "tset l ?m a = {a}" "tree_ok l ?m a" "\<And>va. pte l ?m a va = 0"
    using empty_table [OF al, of ?m] lk(3) by auto
  obtain new ys m g where w: "xs = new @ ys" "kmem_rep t ys" "t = s\<lparr>mem := m, freelist := g\<rparr>" "tree_ok l m a"
      "tset l m a \<subseteq> {a} \<union> set new" "mem_only ({a} \<union> set new) ?m m" "\<And>va. pte l m a va = 0"
      "r = leaf l m a va" "r = None \<longrightarrow> ys = []"
  proof -
    let ?s = "s\<lparr>freelist := f, mem := ?m\<rparr>"
    from w obtain new ys m g where "xs = new @ ys" "kmem_rep t ys" "t = ?s\<lparr>mem := m, freelist := g\<rparr>"
      "tree_ok l (mem t) a" "tset l (mem t) a \<subseteq> tset l (mem ?s) a \<union> set new" "mem_only (tset l (mem ?s) a \<union> set new) (mem ?s) (mem t)"
      "pte l (mem t) a = pte l (mem ?s) a" "r = leaf l (mem t) a va" "r = None \<longrightarrow> ys = []"
      unfolding walk_post_def by (elim exE conjE) (rule that)
    then show thesis using fresh by (intro that [of new ys g m]) (simp_all add: fun_eq_iff)
  qed
  have p: "p \<notin> {a} \<union> set new" using ap free w(1) tset_root [of p "Suc l" "mem s"] by (auto simp del: tset.simps tset_root)
  have ents: "ent m p j = ent ?m p j" if "j < 512" for j using ent_mem_only [OF w(6) pa p that] .
  have only: "mem_only ({a, p} \<union> set new) (mem s) m" by (rule mem_only_trans [OF lk(1) w(6)]) auto
  have e: "ent m p i = PA2PTE a OR PTE_V" using ents [OF i5] lk(2) [OF i5] by simp
  have c: "PTE2PA (ent m p i) = a" unfolding e using al by (rule PTE2PA_PA2PTE) simp
  have ents': "\<forall>j<512. j \<noteq> i \<longrightarrow> ent m p j = ent (mem s) p j" using ents lk(2) by simp
  have kids': "\<forall>j \<in> {j. j < 512 \<and> j \<noteq> i \<and> valid (ent (mem s) p j)}.
      tset l (mem s) (PTE2PA (ent (mem s) p j)) \<inter> (({a, p} \<union> set new) \<union> tset l m a) = {}"
  proof
    fix j assume j: "j \<in> {j. j < 512 \<and> j \<noteq> i \<and> valid (ent (mem s) p j)}"
    then have "p \<notin> tset l (mem s) (PTE2PA (ent (mem s) p j))" using tr by simp
    moreover have "tset l (mem s) (PTE2PA (ent (mem s) p j)) \<inter> ({a} \<union> set new) = {}"
      using tset_child [of j "mem s" p l] j free w(1) by auto
    ultimately show "tset l (mem s) (PTE2PA (ent (mem s) p j)) \<inter> (({a, p} \<union> set new) \<union> tset l m a) = {}"
      using w(5) by blast
  qed
  have ve: "valid (ent m p i)" "ent m p i AND (PTE_R OR PTE_W OR PTE_X) = 0"
    unfolding e by (rule valid_OR_V PA2PTE_table)+
  have pc: "p \<notin> tset l m a" using p w(5) by blast
  note g = graft [OF tr i5 only, unfolded c, OF ents' kids' ve w(4) pc]
  show ?thesis unfolding walk_post_def
  proof (intro exI conjI)
    show "a # xs = (a # new) @ ys" using w(1) by simp
    show "tset (Suc l) (mem t) p \<subseteq> tset (Suc l) (mem s) p \<union> set (a # new)"
    proof
      fix x assume "x \<in> tset (Suc l) (mem t) p"
      then consider "x = p" | "x \<in> tset l m a"
        | j where "j < 512" "valid (ent (mem s) p j)" "x \<in> tset l (mem s) (PTE2PA (ent (mem s) p j))"
        unfolding w(3) using g(2) by auto
      then show "x \<in> tset (Suc l) (mem s) p \<union> set (a # new)"
        by cases (use w(5) tset_child [of _ "mem s" p l] in \<open>auto simp del: tset.simps\<close>)
    qed
    show "mem_only (tset (Suc l) (mem s) p \<union> set (a # new)) (mem s) (mem t)"
      unfolding w(3) using mem_only_mono [OF only, of "tset (Suc l) (mem s) p \<union> set (a # new)"] tset_root [of p "Suc l" "mem s"]
      by (auto simp del: tset.simps)
    show "pte (Suc l) (mem t) p = pte (Suc l) (mem s) p"
      unfolding w(3) using g(3) w(7) v i by (auto simp: fun_eq_iff pte_Suc Let_def)
    show "r = leaf (Suc l) (mem t) p va" unfolding w(3) using g(4) [of va] w(8) i by simp
  qed (use w g(1) in simp_all)
qed

lemma walk_loop_alloc:
  assumes "tree_ok l (mem s) p" and "kmem_rep s xs" and "set xs \<inter> tset l (mem s) p = {}"
  shows "returns (walk_loop l p va True s) (walk_post l p va xs s)"
  using assms
proof (induction l arbitrary: p s xs)
  case 0
  have "walk_post 0 p va xs s (Some (pte_at p (PX 0 va))) s"
    unfolding walk_post_def using 0 by (intro exI [of _ "[]"] exI [of _ xs] conjI exI [of _ "mem s"] exI [of _ "freelist s"]) auto
  then show ?case by simp
next
  case (Suc l)
  let ?i = "px (Suc l) va" let ?e = "ent (mem s) p (px (Suc l) va)"
  have pte: "load64 (mem s) (pte_at p (PX (Suc l) va)) = ?e" by (simp add: ent_def PX_px)
  show ?case
  proof (cases "valid ?e")
    case True
    have "tree_ok l (mem s) (PTE2PA ?e)" "set xs \<inter> tset l (mem s) (PTE2PA ?e) = {}"
      using Suc.prems True tset_child [OF px_less True, of l] by auto
    from Suc.IH [OF this(1) Suc.prems(2) this(2)]
    have "returns (walk_loop l (PTE2PA ?e) va True s) (walk_post (Suc l) p va xs s)"
      by (rule returns_mono) (rule walk_post_child [OF Suc.prems(1) refl True Suc.prems(3)])
    then show ?thesis using True by (simp add: pte)
  next
    case False
    show ?thesis
    proof (cases xs)
      case Nil
      have "walk_post (Suc l) p va [] s None s"
        unfolding walk_post_def using Suc.prems False Nil
        by (intro exI [of _ "[]"] exI [of _ "mem s"] exI [of _ "freelist s"] conjI) (auto simp: Let_def)
      then show ?thesis using False Nil kalloc_Nil [of s] Suc.prems(2) by (simp add: pte)
    next
      case (Cons a ys)
      from Suc.prems(2) obtain f where k: "kalloc s = Ok a (s\<lparr>freelist := f, mem := memset (mem s) a 5 4096\<rparr>)"
        "kmem_rep (s\<lparr>freelist := f, mem := memset (mem s) a 5 4096\<rparr>) ys"
        unfolding Cons by (rule kalloc_Cons)
      have a: "page_aligned a" "a \<noteq> 0" "distinct (a # ys)" "\<forall>x \<in> set ys. page_aligned x"
        using Suc.prems(2) Cons by (auto simp: kmem_rep_def phys_page_def)
      let ?t = "s\<lparr>freelist := f, mem := link_table p ?i a (mem s)\<rparr>"
      have pa: "page_aligned p" using tree_ok_aligned [OF Suc.prems(1)] .
      have ap: "a \<noteq> p" "p \<notin> set ys" using Suc.prems(3) Cons tset_root [of p "Suc l" "mem s"] by (auto simp del: tset.simps tset_root)
      note lk = link_table [OF pa a(1) ap(1) px_less [of "Suc l" va], where m = "mem s"]
      have rep: "kmem_rep ?t ys"
      proof -
        have "mem_only {a, p} (memset (mem s) a 5 4096) (link_table p ?i a (mem s))"
          unfolding link_table_def
          by (rule mem_only_trans [OF mem_only_memset mem_only_store]) (use a pa in auto)
        from kmem_rep_mem_only [OF k(2) _, of "{a, p}"] this show ?thesis using a(3) ap(2) by simp
      qed
      have fresh: "tset l (mem ?t) a = {a}" "tree_ok l (mem ?t) a"
        using empty_table [OF a(1), of "mem ?t"] lk(3) by auto
      have "returns (walk_loop l a va True ?t) (walk_post (Suc l) p va (a # ys) s)"
        by (rule returns_mono [OF Suc.IH [OF fresh(2) rep]])
          (use fresh(1) a Suc.prems Cons False walk_post_new [OF Suc.prems(1) refl False] in auto)
      then show ?thesis using False Cons k(1) a(2) by (simp add: pte link_table_def PX_px [symmetric])
    qed
  qed
qed


section \<open>Mapping a range\<close>

abbreviation vpn :: "u64 \<Rightarrow> nat" where
  "vpn va \<equiv> unat va div 4096"

lemma same_px_vpn:
  assumes "va < MAXVA" and "va' < MAXVA"
  shows "same_px 2 va va' \<longleftrightarrow> vpn va = vpn va'"
proof
  have b: "vpn va < 2 ^ 26" if "va < MAXVA" for va
    using that by (simp add: word_less_nat_alt MAXVA_unat less_mult_imp_div_less)
  have p: "px 0 va = vpn va mod 512" "px 1 va = vpn va div 512 mod 512" "px 2 va = vpn va div 512 div 512 mod 512" for va
    by (simp_all add: px_eq div_mult2_eq [symmetric])
  have split: "vpn va = px 0 va + 512 * (px 1 va + 512 * px 2 va)" if "va < MAXVA" for va
  proof -
    have "vpn va div 512 div 512 < 512" using b [OF that] by (simp add: div_mult2_eq [symmetric] less_mult_imp_div_less)
    then show ?thesis using p [of va] by simp
  qed
  show "vpn va = vpn va'" if "same_px 2 va va'"
    using split [OF assms(1)] split [OF assms(2)] that by (simp add: same_px_def)
  show "same_px 2 va va'" if "vpn va = vpn va'"
    using that p [of va] p [of va'] by (auto simp: same_px_def le_Suc_eq numeral_2_eq_2)
qed

text \<open>The entries after \<open>k\<close> pages from \<open>a\<close> on have been mapped to the frames from \<open>pa\<close> on.\<close>

definition mapped :: "u64 \<Rightarrow> nat \<Rightarrow> u64 \<Rightarrow> u64 \<Rightarrow> (u64 \<Rightarrow> u64) \<Rightarrow> u64 \<Rightarrow> u64" where
  "mapped a k pa perm old va = (if vpn a \<le> vpn va \<and> vpn va < vpn a + k
    then PA2PTE (pa + of_nat (4096 * (vpn va - vpn a))) OR perm OR PTE_V else old va)"

lemma mapped_Suc:
  assumes "unat a + 4096 < 2 ^ 64" and "unat a mod 4096 = 0"
  shows "mapped (a + PGSIZE) k (pa + PGSIZE) perm (\<lambda>va. if vpn va = vpn a then PA2PTE pa OR perm OR PTE_V else old va) va =
    mapped a (Suc k) pa perm old va"
proof -
  have "vpn (a + PGSIZE) = Suc (vpn a)" using assms(1) by (simp add: unat_word_ariths)
  moreover have "pa + 4096 + of_nat (4096 * (vpn va - Suc (vpn a))) = pa + of_nat (4096 * (vpn va - vpn a))" if "Suc (vpn a) \<le> vpn va"
  proof -
    have "vpn va - vpn a = Suc (vpn va - Suc (vpn a))" using that by simp
    then show ?thesis by simp
  qed
  ultimately show ?thesis by (auto simp: mapped_def)
qed

text \<open>
  The state after \<open>k\<close> pages have been mapped from \<open>a\<close> on, to the frames from \<open>pa\<close> on, with the
  pages \<open>new\<close> of the free list turned into tables. A result 0 means that all \<open>n\<close> pages have been
  mapped; otherwise the free list ran out.
\<close>

definition map_rel :: "u64 \<Rightarrow> u64 \<Rightarrow> nat \<Rightarrow> u64 \<Rightarrow> u64 \<Rightarrow> u64 list \<Rightarrow> u64 list \<Rightarrow> 'z kmem_state_scheme \<Rightarrow> 'z kmem_state_scheme \<Rightarrow> bool" where
  "map_rel pt a k pa perm new ys s t \<longleftrightarrow> kmem_rep t ys \<and> (\<exists>m f. t = s\<lparr>mem := m, freelist := f\<rparr>) \<and> tree_ok 2 (mem t) pt \<and>
    tset 2 (mem t) pt \<subseteq> tset 2 (mem s) pt \<union> set new \<and> mem_only (tset 2 (mem s) pt \<union> set new) (mem s) (mem t) \<and>
    (\<forall>va<MAXVA. pte 2 (mem t) pt va = mapped a k pa perm (pte 2 (mem s) pt) va)"

definition map_post :: "u64 \<Rightarrow> u64 \<Rightarrow> nat \<Rightarrow> u64 \<Rightarrow> u64 \<Rightarrow> u64 list \<Rightarrow> 'z kmem_state_scheme \<Rightarrow> int \<Rightarrow> 'z kmem_state_scheme \<Rightarrow> bool" where
  "map_post pt a n pa perm xs s r t \<longleftrightarrow> (\<exists>k new ys. xs = new @ ys \<and> map_rel pt a k pa perm new ys s t \<and>
    (r = 0 \<and> k = n \<or> r = -1 \<and> k < n \<and> ys = []))"

lemma mapped_0 [simp]: "mapped a 0 pa perm old va = old va"
  by (auto simp: mapped_def)

lemma map_rel_walk:
  assumes "walk_post 2 pt a xs s r t"
  obtains new ys where "xs = new @ ys" and "map_rel pt a 0 pa perm new ys s t" and "r = leaf 2 (mem t) pt a" and "r = None \<longrightarrow> ys = []"
proof -
  from assms obtain new ys m f where w: "xs = new @ ys" "kmem_rep t ys" "t = s\<lparr>mem := m, freelist := f\<rparr>" "tree_ok 2 (mem t) pt"
    "tset 2 (mem t) pt \<subseteq> tset 2 (mem s) pt \<union> set new" "mem_only (tset 2 (mem s) pt \<union> set new) (mem s) (mem t)"
    "pte 2 (mem t) pt = pte 2 (mem s) pt" "r = leaf 2 (mem t) pt a" "r = None \<longrightarrow> ys = []"
    unfolding walk_post_def by (elim exE conjE) (rule that)
  have "map_rel pt a 0 pa perm new ys s t"
    unfolding map_rel_def using w by (intro conjI exI [of _ m] exI [of _ f]) auto
  with w show thesis by (intro that [of new ys]) simp_all
qed

lemma map_rel_store:
  assumes r: "map_rel pt a 0 pa perm new ys s t" and e: "leaf 2 (mem t) pt a = Some e" and a: "a < MAXVA"
    and free: "set (new @ ys) \<inter> tset 2 (mem s) pt = {}" "distinct (new @ ys)"
  shows "map_rel pt a 1 pa perm new ys s (t\<lparr>mem := store64 (mem t) e (PA2PTE pa OR perm OR PTE_V)\<rparr>)"
proof -
  let ?m = "store64 (mem t) e (PA2PTE pa OR perm OR PTE_V)"
  note r = r [unfolded map_rel_def]
  have tr: "tree_ok 2 (mem t) pt" using r by blast
  note l = set_leaf [OF tr e, of "PA2PTE pa OR perm OR PTE_V"]
  have sub: "tset 2 (mem t) pt \<subseteq> tset 2 (mem s) pt \<union> set new" using r by blast
  have "kmem_rep (t\<lparr>mem := ?m\<rparr>) ys"
    by (rule kmem_rep_mem_only [OF _ l(1)]) (use r free sub in auto)
  moreover have "mem_only (tset 2 (mem s) pt \<union> set new) (mem s) ?m"
    by (rule mem_only_trans [of "tset 2 (mem s) pt \<union> set new", OF _ l(1)]) (use r sub in auto)
  moreover have "pte 2 ?m pt va = mapped a 1 pa perm (pte 2 (mem s) pt) va" if "va < MAXVA" for va
    using l(5) [of va] same_px_vpn [OF a that] r that by (auto simp: mapped_def)
  moreover have "\<exists>m f. t\<lparr>mem := ?m\<rparr> = s\<lparr>mem := m, freelist := f\<rparr>"
  proof -
    obtain m f where "t = s\<lparr>mem := m, freelist := f\<rparr>" using r by blast
    then have "t\<lparr>mem := ?m\<rparr> = s\<lparr>mem := ?m, freelist := f\<rparr>" by simp
    then show ?thesis by blast
  qed
  ultimately show ?thesis using l(2,3) sub by (simp add: map_rel_def)
qed

lemma map_rel_next:
  assumes r: "map_rel pt a 1 pa perm new (new' @ ys) s t" and q: "map_rel pt (a + PGSIZE) k (pa + PGSIZE) perm new' ys t u"
    and a: "unat a + 4096 < 2 ^ 64" "unat a mod 4096 = 0"
  shows "map_rel pt a (Suc k) pa perm (new @ new') ys s u"
proof -
  note r = r [unfolded map_rel_def] and q = q [unfolded map_rel_def]
  have "mem_only (tset 2 (mem s) pt \<union> set (new @ new')) (mem s) (mem u)"
    by (rule mem_only_trans [of "tset 2 (mem s) pt \<union> set new" _ "mem t" "tset 2 (mem t) pt \<union> set new'"]) (use r q in auto)
  moreover have "pte 2 (mem u) pt va = mapped a (Suc k) pa perm (pte 2 (mem s) pt) va" if "va < MAXVA" for va
  proof -
    have "pte 2 (mem u) pt va = mapped (a + PGSIZE) k (pa + PGSIZE) perm (pte 2 (mem t) pt) va" using q that by blast
    also have "\<dots> = mapped (a + PGSIZE) k (pa + PGSIZE) perm
        (\<lambda>va. if vpn va = vpn a then PA2PTE pa OR perm OR PTE_V else pte 2 (mem s) pt va) va"
      using r that by (auto simp: mapped_def)
    finally show ?thesis using mapped_Suc [OF a] by simp
  qed
  moreover have "\<exists>m f. u = s\<lparr>mem := m, freelist := f\<rparr>"
  proof -
    obtain m f m' f' where "t = s\<lparr>mem := m, freelist := f\<rparr>" "u = t\<lparr>mem := m', freelist := f'\<rparr>" using r q by blast
    then have "u = s\<lparr>mem := m', freelist := f'\<rparr>" by simp
    then show ?thesis by blast
  qed
  moreover have "tset 2 (mem u) pt \<subseteq> tset 2 (mem s) pt \<union> set (new @ new')" using r q by auto
  ultimately show ?thesis using q by (simp add: map_rel_def)
qed

lemma mappages_loop_step:
  fixes s :: "'z kmem_state_scheme"
  assumes tr: "tree_ok 2 (mem s) pt" and rep: "kmem_rep s xs" and free: "set xs \<inter> tset 2 (mem s) pt = {}"
    and al: "unat a mod 4096 = 0" and a: "unat a + 4096 \<le> 2 ^ 38" and nv: "\<not> valid (pte 2 (mem s) pt a)"
    and n: "0 < n" and last: "a = lst \<Longrightarrow> n = 1"
    and K: "\<And>new ys t. a \<noteq> lst \<Longrightarrow> xs = new @ ys \<Longrightarrow> map_rel pt a 1 pa perm new ys s t \<Longrightarrow>
      returns (mappages_loop pt (a + PGSIZE) lst (pa + PGSIZE) perm t) (map_post pt a n pa perm xs s)"
  shows "returns (mappages_loop pt a lst pa perm s) (map_post pt a n pa perm xs s)"
proof -
  have am: "a < MAXVA" using a by (simp add: word_less_nat_alt MAXVA_unat)
  have "returns (walk pt a True s) (walk_post 2 pt a xs s)"
    using walk_loop_alloc [OF tr rep free] am by (simp add: walk_def)
  then show ?thesis
    unfolding mappages_loop.simps [of pt a] returns_kbind
  proof (rule returns_mono)
    fix r t assume "walk_post 2 pt a xs s r t"
    then obtain new ys where w: "xs = new @ ys" "map_rel pt a 0 pa perm new ys s t" "r = leaf 2 (mem t) pt a" "r = None \<longrightarrow> ys = []"
      by (rule map_rel_walk [where pa = pa and perm = perm])
    show "returns (case r of None \<Rightarrow> Ok (- 1) t
      | Some e \<Rightarrow> if valid (load64 (mem t) e) then Panic ''mappages: remap''
          else let s = t\<lparr>mem := store64 (mem t) e (PA2PTE pa OR perm OR PTE_V)\<rparr>
            in if a = lst then Ok 0 s else mappages_loop pt (a + PGSIZE) lst (pa + PGSIZE) perm s) (map_post pt a n pa perm xs s)"
    proof (cases r)
      case None
      then show ?thesis using w n by (auto simp: map_post_def)
    next
      case (Some e)
      have lf: "leaf 2 (mem t) pt a = Some e" using w(3) Some by simp
      have "pte 2 (mem t) pt a = pte 2 (mem s) pt a" using w(2) am unfolding map_rel_def mapped_0 by blast
      then have "load64 (mem t) e = pte 2 (mem s) pt a" using lf by (simp add: pte_def)
      then have nv': "\<not> valid (load64 (mem t) e)" using nv by simp
      have "distinct (new @ ys)" "set (new @ ys) \<inter> tset 2 (mem s) pt = {}"
        using rep free w(1) by (auto simp: kmem_rep_def)
      then have u: "map_rel pt a 1 pa perm new ys s (t\<lparr>mem := store64 (mem t) e (PA2PTE pa OR perm OR PTE_V)\<rparr>)"
        using map_rel_store [OF w(2) lf am] by blast
      show ?thesis
      proof (cases "a = lst")
        case True
        then have "map_post pt a n pa perm xs s 0 (t\<lparr>mem := store64 (mem t) e (PA2PTE pa OR perm OR PTE_V)\<rparr>)"
          using w(1) u last unfolding map_post_def by blast
        then show ?thesis using Some nv' True by (simp add: Let_def)
      next
        case False
        then show ?thesis using Some nv' K [OF False w(1) u] by (simp add: Let_def)
      qed
    qed
  qed
qed

lemma mappages_loop_ok:
  fixes s :: "'z kmem_state_scheme"
  assumes "tree_ok 2 (mem s) pt" and "kmem_rep s xs" and "set xs \<inter> tset 2 (mem s) pt = {}"
    and "unat a mod 4096 = 0" and "unat a + 4096 * Suc n \<le> 2 ^ 38" and "lst = a + of_nat (4096 * n)"
    and "\<forall>va<MAXVA. vpn a \<le> vpn va \<and> vpn va \<le> vpn a + n \<longrightarrow> \<not> valid (pte 2 (mem s) pt va)"
  shows "returns (mappages_loop pt a lst pa perm s) (map_post pt a (Suc n) pa perm xs s)"
  using assms
proof (induction n arbitrary: a pa s xs)
  case (0 a pa s xs)
  have "a < MAXVA" using 0(5) by (simp add: word_less_nat_alt MAXVA_unat)
  then have "\<not> valid (pte 2 (mem s) pt a)" using 0(7) by simp
  then show ?case
    by (rule mappages_loop_step [OF 0(1-4), rotated]) (use 0(5,6) in auto)
next
  case (Suc n a pa s xs)
  have b: "unat (a + PGSIZE) = unat a + 4096" using Suc.prems(5) by (simp add: unat_word_ariths)
  have ne: "a \<noteq> lst"
  proof
    assume "a = lst"
    then have "of_nat (4096 * Suc n) = (0 :: u64)" using Suc.prems(6) by simp
    moreover have "unat (of_nat (4096 * Suc n) :: u64) = 4096 * Suc n" using Suc.prems(5) by (intro unat_of_nat_u64) simp
    ultimately show False by simp
  qed
  show ?case
  proof (rule mappages_loop_step [OF Suc.prems(1-4)])
    fix new ys t
    assume t: "xs = new @ ys" "map_rel pt a 1 pa perm new ys s t"
    note r = t(2) [unfolded map_rel_def]
    have "returns (mappages_loop pt (a + PGSIZE) lst (pa + PGSIZE) perm t) (map_post pt (a + PGSIZE) (Suc n) (pa + PGSIZE) perm ys t)"
    proof (rule Suc.IH)
      show "tree_ok 2 (mem t) pt" "kmem_rep t ys" using r by blast+
      show "set ys \<inter> tset 2 (mem t) pt = {}"
        using r t(1) Suc.prems(3) kmem_rep_def [of s xs] Suc.prems(2) by auto
      show "lst = a + PGSIZE + of_nat (4096 * n)" using Suc.prems(6) by simp
      show "\<forall>va<MAXVA. vpn (a + PGSIZE) \<le> vpn va \<and> vpn va \<le> vpn (a + PGSIZE) + n \<longrightarrow> \<not> valid (pte 2 (mem t) pt va)"
        using r Suc.prems(7) b by (auto simp: mapped_def)
    qed (use Suc.prems(4,5) b in simp_all)
    then show "returns (mappages_loop pt (a + PGSIZE) lst (pa + PGSIZE) perm t) (map_post pt a (Suc (Suc n)) pa perm xs s)"
    proof (rule returns_mono)
      fix r u assume "map_post pt (a + PGSIZE) (Suc n) (pa + PGSIZE) perm ys t r u"
      then obtain k new' ys' where u: "ys = new' @ ys'" "map_rel pt (a + PGSIZE) k (pa + PGSIZE) perm new' ys' t u"
        "r = 0 \<and> k = Suc n \<or> r = -1 \<and> k < Suc n \<and> ys' = []" unfolding map_post_def by blast
      have "map_rel pt a (Suc k) pa perm (new @ new') ys' s u"
        using map_rel_next [OF t(2) [unfolded u(1)] u(2)] Suc.prems(4,5) by simp
      then show "map_post pt a (Suc (Suc n)) pa perm xs s r u"
        unfolding map_post_def using t(1) u by (intro exI [of _ "Suc k"] exI [of _ "new @ new'"] exI [of _ ys']) auto
    qed
  next
    show "\<not> valid (pte 2 (mem s) pt a)"
      using Suc.prems(5,7) by (simp add: word_less_nat_alt MAXVA_unat)
  qed (use Suc.prems(5) ne in auto)
qed


section \<open>Properties\<close>

text \<open>
  (C20) \<^verbatim>\<open>mappages\<close> on an unmapped, aligned range returns; when it returns 0, every page of the range has the
  entry for its frame with the permissions asked for, every other page of the address space
  keeps its entry, and the table is again a proper tree. It returns -1 only when no page is
  free, with a prefix of the range mapped.
\<close>

theorem mappages_maps:
  assumes "tree_ok 2 (mem s) pt" and "kmem_rep s xs" and "set xs \<inter> tset 2 (mem s) pt = {}"
    and "page_aligned va" and "page_aligned sz" and "0 < sz" and "unat va + unat sz \<le> unat MAXVA"
    and "\<forall>a<MAXVA. vpn va \<le> vpn a \<and> vpn a < vpn va + vpn sz \<longrightarrow> \<not> valid (pte 2 (mem s) pt a)"
  shows "returns (mappages pt va sz pa perm s) (\<lambda>r t. (r = 0 \<or> r = -1 \<and> freelist t = 0) \<and> tree_ok 2 (mem t) pt \<and>
    (\<exists>k. (r = 0 \<longleftrightarrow> k = vpn sz) \<and> k \<le> vpn sz \<and> (\<forall>a<MAXVA. pte 2 (mem t) pt a =
      (if vpn va \<le> vpn a \<and> vpn a < vpn va + k then PA2PTE (pa + of_nat (4096 * (vpn a - vpn va))) OR perm OR PTE_V
       else pte 2 (mem s) pt a))))"
proof -
  have al: "unat va mod 4096 = 0" "unat sz mod 4096 = 0" using assms(4,5) by (simp_all add: page_aligned_unat)
  have nz: "unat sz \<noteq> 0" using assms(6) by (simp add: unat_eq_0 word_gt_0)
  then obtain n where n: "unat sz = 4096 * Suc n"
    using al(2) by (metis mod_eq_0_iff_dvd dvdE mult_0_right not0_implies_Suc)
  then have vs: "vpn sz = Suc n" by simp
  have "of_nat (unat sz) = sz" by simp
  then have "sz = of_nat (4096 * Suc n)" unfolding n by (rule sym)
  then have lst: "va + sz - PGSIZE = va + of_nat (4096 * n)" by simp
  have nv: "\<forall>a<MAXVA. vpn va \<le> vpn a \<and> vpn a \<le> vpn va + n \<longrightarrow> \<not> valid (pte 2 (mem s) pt a)"
    using assms(8) unfolding vs by (simp add: less_Suc_eq_le)
  have "returns (mappages_loop pt va (va + sz - PGSIZE) pa perm s) (map_post pt va (Suc n) pa perm xs s)"
    by (rule mappages_loop_ok [OF assms(1-3) al(1) _ lst nv]) (use assms(7) n in \<open>simp add: MAXVA_unat\<close>)
  then have "returns (mappages pt va sz pa perm s) (map_post pt va (Suc n) pa perm xs s)"
    using assms(4,5,6) by (auto simp: mappages_def page_aligned_def)
  then show ?thesis
  proof (rule returns_mono)
    fix r t assume "map_post pt va (Suc n) pa perm xs s r t"
    then obtain k new ys where p: "map_rel pt va k pa perm new ys s t" "r = 0 \<and> k = Suc n \<or> r = -1 \<and> k < Suc n \<and> ys = []"
      by (auto simp: map_post_def)
    have f: "ys = [] \<Longrightarrow> freelist t = 0" using p(1) by (auto simp: map_rel_def kmem_rep_def)
    show "(r = 0 \<or> r = -1 \<and> freelist t = 0) \<and> tree_ok 2 (mem t) pt \<and>
      (\<exists>k. (r = 0 \<longleftrightarrow> k = vpn sz) \<and> k \<le> vpn sz \<and> (\<forall>a<MAXVA. pte 2 (mem t) pt a =
        (if vpn va \<le> vpn a \<and> vpn a < vpn va + k then PA2PTE (pa + of_nat (4096 * (vpn a - vpn va))) OR perm OR PTE_V
         else pte 2 (mem s) pt a)))"
      using p f unfolding vs map_rel_def mapped_def by (intro conjI exI [of _ k]) auto
  qed
qed

text \<open>An empty table with two free pages for its lower levels.\<close>

lemma two_free_pages:
  obtains s :: kmem_state where "kmem_rep s [0x80002000, 0x80001000]" and "tree_ok 2 (mem s) 0x80003000"
    and "tset 2 (mem s) 0x80003000 = {0x80003000}" and "\<forall>va. pte 2 (mem s) 0x80003000 va = 0"
proof -
  let ?s = "\<lparr>mem = (\<lambda>_. 0), freelist = 0, k_end = 0x80000000\<rparr> :: kmem_state"
  have pp: "phys_page 0x80000000 0x80001000" "phys_page 0x80000000 0x80002000" "page_aligned 0x80003000"
    by (simp_all add: phys_page_def page_aligned_def PHYSTOP_eq)
  have "kmem_rep ?s []" by (simp add: kmem_rep_def)
  from kfree_Ok [OF this, of "0x80001000"] pp obtain m where m: "kmem_rep (?s\<lparr>mem := m, freelist := 0x80001000\<rparr>) [0x80001000]"
    "same_outside 0x80001000 (\<lambda>_. 0) m" by auto
  from kfree_Ok [OF m(1), of "0x80002000"] pp obtain m' where m': "kmem_rep (?s\<lparr>mem := m', freelist := 0x80002000\<rparr>) [0x80002000, 0x80001000]"
    "same_outside 0x80002000 m m'" by auto
  have "m' a = 0" if "PGROUNDDOWN a = 0x80003000" for a
  proof -
    have "page_aligned 0x80001000" "page_aligned 0x80002000" by (simp_all add: page_aligned_def)
    then have "4096 \<le> unat (a - 0x80001000)" "4096 \<le> unat (a - 0x80002000)"
      using in_page_iff [of "0x80001000" a] in_page_iff [of "0x80002000" a] that by (auto simp: not_less)
    then show ?thesis using m(2) m'(2) by (simp add: same_outside_def)
  qed
  then have only: "mem_only (- {0x80003000}) (\<lambda>_. 0) m'" by (auto simp: mem_only_def)
  have "load64 (\<lambda>_. 0) a = 0" for a by (simp add: load64_def mem_bytes_def map_replicate_const numeral_eq_Suc)
  then have "ent m' 0x80003000 i = 0" if "i < 512" for i
    using ent_mem_only [OF only pp(3) _ that] by (simp add: ent_def)
  from empty_table [OF pp(3) this] show thesis
    using m'(1) by (intro that [of "?s\<lparr>mem := m', freelist := 0x80002000\<rparr>"]) auto
qed

theorem mappages_maps_witness:
  "\<exists>(s :: kmem_state) xs. kmem_rep s xs \<and> xs \<noteq> [] \<and>
    returns (mappages 0x80003000 0 4096 0x80004000 (PTE_R OR PTE_U) s) (\<lambda>r t. r = 0 \<longrightarrow>
      pte 2 (mem t) 0x80003000 0 = PA2PTE 0x80004000 OR (PTE_R OR PTE_U) OR PTE_V)"
proof -
  obtain s :: kmem_state where s: "kmem_rep s [0x80002000, 0x80001000]" "tree_ok 2 (mem s) 0x80003000"
    "tset 2 (mem s) 0x80003000 = {0x80003000}" "\<forall>va. pte 2 (mem s) 0x80003000 va = 0"
    by (rule two_free_pages)
  have "returns (mappages 0x80003000 0 4096 0x80004000 (PTE_R OR PTE_U) s) (\<lambda>r t. r = 0 \<longrightarrow>
      pte 2 (mem t) 0x80003000 0 = PA2PTE 0x80004000 OR (PTE_R OR PTE_U) OR PTE_V)"
    by (rule returns_mono [OF mappages_maps [OF s(2,1), of 0 4096 "0x80004000" "PTE_R OR PTE_U"]])
      (use s in \<open>auto simp: page_aligned_def MAXVA_unat word_less_nat_alt\<close>)
  with s(1) show ?thesis by blast
qed


end
