(* ===== verification/Vm_Copy.thy ===== *)
theory Vm_Copy
  imports Vm_Map
begin

text \<open>
  Correctness of \<^verbatim>\<open>copyin\<close> and \<^verbatim>\<open>copyout\<close> on user memory that is mapped: they move bytes between a
  kernel buffer and the frames of the user pages, across page boundaries.
\<close>

text \<open>
  User memory through a page table: \<open>present\<close> says that \<^verbatim>\<open>walkaddr\<close> finds the page of an address
  and \<open>ubyte\<close> is the byte there.
\<close>

definition present :: "memory \<Rightarrow> u64 \<Rightarrow> u64 \<Rightarrow> bool" where
  "present m pt va \<longleftrightarrow> va < MAXVA \<and> valid (pte 2 m pt va) \<and> pte 2 m pt va AND PTE_U \<noteq> 0 \<and> PTE2PA (pte 2 m pt va) \<noteq> 0"

definition frame_of :: "memory \<Rightarrow> u64 \<Rightarrow> u64 \<Rightarrow> u64" where
  "frame_of m pt va = PTE2PA (pte 2 m pt va)"

definition ubyte :: "memory \<Rightarrow> u64 \<Rightarrow> u64 \<Rightarrow> u8" where
  "ubyte m pt va = m (frame_of m pt va + (va - PGROUNDDOWN va))"

definition ubytes :: "memory \<Rightarrow> u64 \<Rightarrow> u64 \<Rightarrow> nat \<Rightarrow> bytes" where
  "ubytes m pt va n = map (\<lambda>i. ubyte m pt (va + of_nat i)) [0..<n]"

lemma pte_vpn:
  assumes "va < MAXVA" and "va' < MAXVA" and "vpn va = vpn va'" and "l \<le> 2"
  shows "pte l m p va = pte l m p va'"
proof -
  have s: "px k va = px k va'" if "k \<le> 2" for k
    using same_px_vpn [OF assms(1,2)] assms(3) that by (simp add: same_px_def)
  show ?thesis using assms(4)
  proof (induction l arbitrary: p)
    case 0
    then show ?case by (simp add: pte_0 s)
  next
    case (Suc l)
    then show ?case by (simp add: pte_Suc s Let_def)
  qed
qed

lemma vpn_PGROUNDDOWN [simp]: "vpn (PGROUNDDOWN va) = vpn va"
  by (simp add: unat_PGROUNDDOWN)

lemma PGROUNDDOWN_le: "unat (PGROUNDDOWN va) \<le> unat va"
  by (simp add: unat_PGROUNDDOWN)

lemma PGROUNDDOWN_MAXVA: "va < MAXVA \<Longrightarrow> PGROUNDDOWN va < MAXVA"
  using PGROUNDDOWN_le [of va] by (simp add: word_less_nat_alt)

lemma present_page:
  assumes "present m pt va" and "va' < MAXVA" and "vpn va' = vpn va"
  shows "present m pt va'" and "frame_of m pt va' = frame_of m pt va"
  using assms pte_vpn [of va' va 2 m pt] by (auto simp: present_def frame_of_def)

lemma walkaddr_pte:
  "va < MAXVA \<Longrightarrow> walkaddr pt va s = Ok (let e = pte 2 (mem s) pt va in if e AND PTE_V = 0 \<or> e AND PTE_U = 0 then 0 else PTE2PA e) s"
  by (auto simp: walkaddr_def walk_def walk_loop_lookup pte_def Let_def split: option.splits)

lemma fault_in_present:
  assumes "present (mem s) pt va"
  shows "fault_in pt (PGROUNDDOWN va) s = Ok (frame_of (mem s) pt va) s"
proof -
  have va: "PGROUNDDOWN va < MAXVA" using assms PGROUNDDOWN_MAXVA by (simp add: present_def)
  note p = present_page [OF assms va vpn_PGROUNDDOWN]
  then show ?thesis using va
    by (simp add: fault_in_def walkaddr_pte present_def frame_of_def Let_def)
qed

text \<open>The part of a range that is in the page of its start.\<close>

lemma in_first_page:
  assumes "i < page_rest va" and "unat va + i < 2 ^ 64"
  shows "PGROUNDDOWN (va + of_nat i) = PGROUNDDOWN va" and "vpn (va + of_nat i) = vpn va"
proof -
  have u: "unat (va + of_nat i) = unat va + i" using assms(2) by (simp add: unat_word_ariths)
  have c: "unat va mod 4096 + i < 4096" using assms(1) by (simp add: page_rest)
  have "unat va + i = vpn va * 4096 + (unat va mod 4096 + i)" by simp
  also have "\<dots> < vpn va * 4096 + 4096" using c by (rule add_strict_left_mono)
  finally have "unat va + i < 4096 * Suc (vpn va)" by simp
  moreover have "4096 * vpn va \<le> unat va + i" by (rule trans_le_add1) simp
  ultimately have b: "4096 * vpn va \<le> unat va + i" "unat va + i < 4096 * Suc (vpn va)" by simp_all
  show v: "vpn (va + of_nat i) = vpn va" unfolding u using div_nat_eqI [OF b] .
  show "PGROUNDDOWN (va + of_nat i) = PGROUNDDOWN va"
    using v by (simp add: word_unat_eq_iff unat_PGROUNDDOWN)
qed

lemma next_page:
  assumes "unat va + 4096 \<le> 2 ^ 63"
  shows "unat (PGROUNDDOWN va + PGSIZE) = unat va + page_rest va" and "PGROUNDDOWN va + PGSIZE = va + of_nat (page_rest va)"
proof -
  have "unat va = vpn va * 4096 + unat va mod 4096" "unat va mod 4096 < 4096" by simp_all
  then have e: "vpn va * 4096 + 4096 = unat va + (4096 - unat va mod 4096)" by linarith
  moreover have "vpn va * 4096 \<le> unat va" by simp
  ultimately show u: "unat (PGROUNDDOWN va + PGSIZE) = unat va + page_rest va"
    using assms unfolding page_rest e [symmetric] by (simp add: unat_word_ariths unat_PGROUNDDOWN)
  have "page_rest va \<le> 4096" by (simp add: page_rest)
  then have "unat (va + of_nat (page_rest va)) = unat va + page_rest va"
    using assms by (simp add: unat_word_ariths)
  then show "PGROUNDDOWN va + PGSIZE = va + of_nat (page_rest va)" using u by (simp add: word_unat_eq_iff)
qed


section \<open>Copying in\<close>

lemma ubytes_append: "ubytes m pt va (a + b) = ubytes m pt va a @ ubytes m pt (va + of_nat a) b"
proof -
  have "map (\<lambda>i. ubyte m pt (va + of_nat i)) [a..<a + b] = map (\<lambda>i. ubyte m pt (va + of_nat a + of_nat i)) [0..<b]"
    by (rule nth_equalityI) (simp_all add: add.assoc)
  then show ?thesis by (simp add: ubytes_def upt_add_eq_append [of 0 a b])
qed

lemma ubytes_first_page:
  assumes "present m pt va" and "n \<le> page_rest va" and "unat va + n \<le> 2 ^ 38"
  shows "mem_bytes m (frame_of m pt va + (va - PGROUNDDOWN va)) n = ubytes m pt va n"
proof (rule nth_equalityI)
  fix i assume "i < length (mem_bytes m (frame_of m pt va + (va - PGROUNDDOWN va)) n)"
  then have i: "i < n" by simp
  then have p: "PGROUNDDOWN (va + of_nat i) = PGROUNDDOWN va" "vpn (va + of_nat i) = vpn va"
    using in_first_page [of i va] assms by auto
  have "unat (va + of_nat i) = unat va + i" using i assms(3) by (simp add: unat_word_ariths)
  then have "va + of_nat i < MAXVA" using i assms(3) by (simp add: word_less_nat_alt MAXVA_unat)
  from present_page(2) [OF assms(1) this p(2)]
  show "mem_bytes m (frame_of m pt va + (va - PGROUNDDOWN va)) n ! i = ubytes m pt va n ! i"
    using i by (simp add: ubytes_def ubyte_def p(1) algebra_simps)
qed (simp add: ubytes_def)

lemma copyin_present:
  assumes "\<forall>i<n. present (mem s) pt (va + of_nat i)" and "unat va + n \<le> 2 ^ 38"
  shows "copyin pt va n s = Ok (0, ubytes (mem s) pt va n) s"
  using assms
proof (induction n arbitrary: va rule: less_induct)
  case (less n)
  show ?case
  proof (cases "n = 0")
    case True
    then show ?thesis by (simp add: copyin.simps ubytes_def)
  next
    case False
    then have p: "present (mem s) pt va" using less.prems(1) by (auto dest: spec [of _ 0])
    define k where "k = min (page_rest va) n"
    have k: "k \<le> page_rest va" "k \<le> n" "0 < k" using False page_rest_pos [of va] by (auto simp: k_def)
    have chunk: "mem_bytes (mem s) (frame_of (mem s) pt va + (va - PGROUNDDOWN va)) k = ubytes (mem s) pt va k"
      using ubytes_first_page [OF p k(1)] less.prems(2) k(2) by simp
    have rest: "copyin pt (PGROUNDDOWN va + PGSIZE) (n - k) s = Ok (0, ubytes (mem s) pt (va + of_nat k) (n - k)) s"
    proof (cases "k = n")
      case True
      then show ?thesis by (simp add: copyin.simps ubytes_def)
    next
      case False
      then have kr: "k = page_rest va" by (simp add: k_def min_def split: if_splits)
      have e: "PGROUNDDOWN va + PGSIZE = va + of_nat k" unfolding kr by (rule next_page) (use less.prems in simp)
      have "unat (va + of_nat k) = unat va + k" using less.prems(2) k(2) by (simp add: unat_word_ariths)
      then show ?thesis unfolding e
        using less.prems k by (intro less.IH) (auto simp: add.assoc simp flip: of_nat_add)
    qed
    have nz: "frame_of (mem s) pt va \<noteq> 0" using p by (simp add: present_def frame_of_def)
    have "copyin pt va n s = Ok (0, ubytes (mem s) pt va k @ ubytes (mem s) pt (va + of_nat k) (n - k)) s"
      unfolding copyin.simps [of pt va n] Let_def k_def [symmetric]
      using False fault_in_present [OF p] nz rest chunk by simp
    then show ?thesis using ubytes_append [of "mem s" pt va k "n - k"] k(2) by simp
  qed
qed

section \<open>Copying out\<close>

text \<open>
  An address space: the table is a tree, and each user page has a frame of its own that is not
  a page of the table.
\<close>

definition space_ok :: "memory \<Rightarrow> u64 \<Rightarrow> bool" where
  "space_ok m pt \<longleftrightarrow> tree_ok 2 m pt \<and> (\<forall>x. present m pt x \<longrightarrow> frame_of m pt x \<notin> tset 2 m pt) \<and>
    (\<forall>x y. present m pt x \<longrightarrow> present m pt y \<longrightarrow> frame_of m pt x = frame_of m pt y \<longrightarrow> vpn x = vpn y)"

lemma page_aligned_PTE2PA [simp]: "page_aligned (PTE2PA e)"
proof -
  have "PTE2PA e mod 2 ^ 12 = 0" unfolding take_bit_eq_mod [symmetric]
    by (rule bit_word_eqI) (auto simp: PTE2PA_def bit_simps)
  then show ?thesis by (simp add: page_aligned_def)
qed

lemma page_aligned_frame [simp]: "page_aligned (frame_of m pt va)"
  by (simp add: frame_of_def)

lemma page_off: "va - PGROUNDDOWN va = of_nat (unat va mod 4096)"
proof -
  have "va - PGROUNDDOWN va = va mod 4096" unfolding PGROUNDDOWN_def and_not_pagemask by simp
  then show ?thesis by (simp add: word_unat_eq_iff unat_mod)
qed

lemma space_mem_only:
  assumes "space_ok m pt" and "mem_only P m m'" and "P \<inter> tset 2 m pt = {}"
  shows "pte 2 m' pt = pte 2 m pt" and "present m' pt = present m pt" and "frame_of m' pt = frame_of m pt" and "space_ok m' pt"
proof -
  note t = tree_mem_only [OF assms(2), of 2 pt]
  have tr: "tree_ok 2 m pt" "tset 2 m pt \<inter> P = {}" using assms by (auto simp: space_ok_def)
  show p: "pte 2 m' pt = pte 2 m pt" using t(4) [OF tr] .
  show q: "present m' pt = present m pt" "frame_of m' pt = frame_of m pt"
    unfolding present_def [abs_def] frame_of_def [abs_def] p by (rule refl)+
  show "space_ok m' pt" using assms(1) t(2) [OF tr] unfolding space_ok_def q t(1) [OF tr] by blast
qed


lemma ubyte_chunk:
  assumes sp: "space_ok m pt" and va: "present m pt va" and k: "length bs \<le> page_rest va" "unat va + length bs \<le> 2 ^ 38"
  defines "m' \<equiv> mem_put m (frame_of m pt va + (va - PGROUNDDOWN va)) bs"
  shows "mem_only {frame_of m pt va} m m'" and "space_ok m' pt" and "pte 2 m' pt = pte 2 m pt"
    and "present m pt x \<Longrightarrow> ubyte m' pt x = (if unat (x - va) < length bs then bs ! unat (x - va) else ubyte m pt x)"
proof -
  let ?f = "frame_of m pt va"
  show only: "mem_only {?f} m m'"
    unfolding m'_def page_off using k(1) by (intro mem_only_put) (simp_all add: page_rest)
  have "{?f} \<inter> tset 2 m pt = {}" using sp va by (simp add: space_ok_def)
  note q = space_mem_only [OF sp only this]
  show "space_ok m' pt" "pte 2 m' pt = pte 2 m pt" using q by blast+
  assume x: "present m pt x"
  have first: "vpn x = vpn va" if "unat (x - va) < length bs"
    using in_first_page(2) [of "unat (x - va)" va] that k by simp
  have u: "ubyte m' pt x = m' (frame_of m pt x + (x - PGROUNDDOWN x))" by (simp add: ubyte_def q(3))
  show "ubyte m' pt x = (if unat (x - va) < length bs then bs ! unat (x - va) else ubyte m pt x)"
  proof (cases "vpn x = vpn va")
    case True
    then have pg: "PGROUNDDOWN x = PGROUNDDOWN va" by (simp add: word_unat_eq_iff unat_PGROUNDDOWN)
    have fr: "frame_of m pt x = ?f" using present_page(2) [OF va _ True] x by (simp add: present_def)
    have "?f + (x - PGROUNDDOWN va) - (?f + (va - PGROUNDDOWN va)) = x - va" by simp
    then have "m' (?f + (x - PGROUNDDOWN va)) = (if unat (x - va) < length bs then bs ! unat (x - va) else m (?f + (x - PGROUNDDOWN va)))"
      unfolding m'_def mem_put_def by simp
    then show ?thesis unfolding u fr pg ubyte_def [of m] .
  next
    case False
    then have "frame_of m pt x \<noteq> ?f" using sp va x unfolding space_ok_def by blast
    moreover have "PGROUNDDOWN (frame_of m pt x + (x - PGROUNDDOWN x)) = frame_of m pt x"
      unfolding page_off by (rule PGROUNDDOWN_in_page) simp_all
    ultimately have "ubyte m' pt x = ubyte m pt x" unfolding u using only by (simp add: mem_only_def ubyte_def)
    then show ?thesis using first False by auto
  qed
qed

text \<open>The bytes of user memory after \<open>src\<close> has been copied to \<open>va\<close>.\<close>

definition copied_out :: "memory \<Rightarrow> memory \<Rightarrow> u64 \<Rightarrow> u64 \<Rightarrow> bytes \<Rightarrow> bool" where
  "copied_out m m' pt va src \<longleftrightarrow> space_ok m' pt \<and> pte 2 m' pt = pte 2 m pt \<and>
    (\<forall>x. present m pt x \<longrightarrow> ubyte m' pt x = (if unat (x - va) < length src then src ! unat (x - va) else ubyte m pt x))"

lemma copied_out_append:
  assumes "copied_out m m' pt va src" and "copied_out m' m'' pt (va + of_nat (length src)) src'"
    and "unat va + length src + length src' < 2 ^ 64"
  shows "copied_out m m'' pt va (src @ src')"
  unfolding copied_out_def
proof (intro conjI allI impI)
  show "space_ok m'' pt" "pte 2 m'' pt = pte 2 m pt" using assms by (simp_all add: copied_out_def)
  fix x assume x: "present m pt x"
  have pr: "present m' pt = present m pt" using assms(1) unfolding copied_out_def present_def [abs_def] by simp
  define d where "d = unat (x - va)"
  have d: "unat (x - (va + of_nat (length src))) = d - length src" if "length src \<le> d"
  proof -
    have "x - (va + of_nat (length src)) = of_nat d - of_nat (length src)" by (simp add: d_def)
    also have "\<dots> = of_nat (d - length src)" using that by simp
    also have "unat \<dots> = d - length src"
      by (rule unat_of_nat_u64) (use unsigned_less [of "x - va", where ?'a = nat] in \<open>simp add: d_def\<close>)
    finally show ?thesis .
  qed
  have far: "length src' \<le> unat (x - (va + of_nat (length src)))" if "d < length src"
  proof -
    have e: "x - (va + of_nat (length src)) = of_nat d - of_nat (length src)" by (simp add: d_def)
    have "unat (of_nat d - of_nat (length src) :: u64) = d + 2 ^ 64 - length src"
      using that assms(3) by (simp add: unat_sub_if')
    then show ?thesis unfolding e using assms(3) that by simp
  qed
  let ?y = "unat (x - (va + of_nat (length src)))"
  have a: "ubyte m' pt x = (if d < length src then src ! d else ubyte m pt x)"
    using assms(1) x unfolding copied_out_def d_def by blast
  have b: "ubyte m'' pt x = (if ?y < length src' then src' ! ?y else ubyte m' pt x)"
    using assms(2) x unfolding copied_out_def pr by blast
  show "ubyte m'' pt x = (if unat (x - va) < length (src @ src') then (src @ src') ! unat (x - va) else ubyte m pt x)"
    unfolding d_def [symmetric] a b using d far by (cases "d < length src") (auto simp: nth_append)
qed

lemma copyout_present:
  assumes "space_ok (mem s) pt" and "\<forall>i<length src. present (mem s) pt (va + of_nat i) \<and> pte 2 (mem s) pt (va + of_nat i) AND PTE_W \<noteq> 0"
    and "unat va + length src \<le> 2 ^ 38"
  shows "\<exists>m. copyout pt va src s = Ok 0 (s\<lparr>mem := m\<rparr>) \<and> copied_out (mem s) m pt va src"
  using assms
proof (induction "length src" arbitrary: va src s rule: less_induct)
  case less
  show ?case
  proof (cases "src = []")
    case True
    then show ?thesis using less.prems(1) by (auto simp: copyout.simps copied_out_def intro!: exI [of _ "mem s"])
  next
    case False
    then have p: "present (mem s) pt va" "pte 2 (mem s) pt va AND PTE_W \<noteq> 0" using less.prems(2) by (auto dest: spec [of _ 0])
    have vm: "va < MAXVA" using p(1) by (simp add: present_def)
    then have vm0: "PGROUNDDOWN va < MAXVA" by (rule PGROUNDDOWN_MAXVA)
    define k where "k = min (page_rest va) (length src)"
    have k: "k \<le> page_rest va" "k \<le> length src" "0 < k" using False page_rest_pos [of va] by (auto simp: k_def)
    let ?m = "mem_put (mem s) (frame_of (mem s) pt va + (va - PGROUNDDOWN va)) (take k src)"
    note ch = ubyte_chunk [OF less.prems(1) p(1), of "take k src"]
    have lk: "length (take k src) = k" using k by simp
    have b: "length (take k src) \<le> page_rest va" "unat va + length (take k src) \<le> 2 ^ 38" using k less.prems(3) by simp_all
    have first: "copied_out (mem s) ?m pt va (take k src)" using ch [OF b] by (simp add: copied_out_def)
    have pr: "present ?m pt = present (mem s) pt" using ch(3) [OF b] by (simp add: present_def [abs_def])
    have rest: "\<exists>m. copyout pt (PGROUNDDOWN va + PGSIZE) (drop k src) (s\<lparr>mem := ?m\<rparr>) = Ok 0 (s\<lparr>mem := m\<rparr>) \<and>
        copied_out ?m m pt (va + of_nat k) (drop k src)"
    proof (cases "k = length src")
      case True
      then show ?thesis using ch(2) [OF b] by (auto simp: copyout.simps copied_out_def intro!: exI [of _ ?m])
    next
      case F: False
      then have kr: "k = page_rest va" by (simp add: k_def min_def split: if_splits)
      have e: "PGROUNDDOWN va + PGSIZE = va + of_nat k" unfolding kr by (rule next_page) (use less.prems in simp)
      have u: "unat (va + of_nat k) = unat va + k" using less.prems(3) k(2) by (simp add: unat_word_ariths)
      have "\<exists>m. copyout pt (va + of_nat k) (drop k src) (s\<lparr>mem := ?m\<rparr>) = Ok 0 (s\<lparr>mem := ?m\<rparr>\<lparr>mem := m\<rparr>) \<and>
          copied_out (mem (s\<lparr>mem := ?m\<rparr>)) m pt (va + of_nat k) (drop k src)"
        by (rule less.hyps) (use less.prems k u ch(2,3) [OF b] pr in \<open>auto simp: add.assoc simp flip: of_nat_add\<close>)
      then show ?thesis unfolding e by simp
    qed
    then obtain m where m: "copyout pt (PGROUNDDOWN va + PGSIZE) (drop k src) (s\<lparr>mem := ?m\<rparr>) = Ok 0 (s\<lparr>mem := m\<rparr>)"
      "copied_out ?m m pt (va + of_nat k) (drop k src)" by blast
    have "copied_out (mem s) m pt va (take k src @ drop k src)"
      using copied_out_append [OF first, of m "drop k src"] m(2) less.prems(3) lk by simp
    moreover have "copyout pt va src s = Ok 0 (s\<lparr>mem := m\<rparr>)"
    proof -
      have nz: "frame_of (mem s) pt va \<noteq> 0" using p(1) by (simp add: present_def frame_of_def)
      have pg: "pte 2 (mem s) pt (PGROUNDDOWN va) = pte 2 (mem s) pt va" using pte_vpn [OF vm0 vm] by simp
      then have "valid (pte 2 (mem s) pt (PGROUNDDOWN va))" using p(1) by (simp add: present_def)
      then obtain e where e: "leaf 2 (mem s) pt (PGROUNDDOWN va) = Some e" "load64 (mem s) e = pte 2 (mem s) pt va"
        using pg by (cases "leaf 2 (mem s) pt (PGROUNDDOWN va)") (auto simp: pte_def)
      then have "walk pt (PGROUNDDOWN va) False s = Ok (Some e) s" using vm0 by (simp add: walk_def walk_loop_lookup)
      then show ?thesis
        unfolding copyout.simps [of pt va src] Let_def k_def [symmetric]
        using False vm0 fault_in_present [OF p(1)] nz e(2) p(2) m(1) by (simp add: leD)
    qed
    ultimately show ?thesis by auto
  qed
qed


section \<open>One byte at a time\<close>

lemma copyin_byte:
  assumes "present (mem s) pt va"
  shows "copyin pt va 1 s = Ok (0, [ubyte (mem s) pt va]) s"
proof -
  have "unat va + 1 \<le> 2 ^ 38" using assms by (simp add: present_def word_less_nat_alt MAXVA_unat)
  then show ?thesis using copyin_present [of 1 s pt va] assms by (simp add: ubytes_def)
qed

lemma ubytes_Suc: "ubytes m pt va (Suc n) = ubyte m pt va # ubytes m pt (va + 1) n"
  using ubytes_append [of m pt va 1 n] by (simp add: ubytes_def)

lemma copied_out_present: "copied_out m m' pt va src \<Longrightarrow> present m' pt = present m pt"
  unfolding copied_out_def present_def [abs_def] by simp

lemma copyout_byte:
  assumes "space_ok (mem s) pt" and "present (mem s) pt va" and "pte 2 (mem s) pt va AND PTE_W \<noteq> 0"
  obtains m where "copyout pt va [c] s = Ok 0 (s\<lparr>mem := m\<rparr>)" and "copied_out (mem s) m pt va [c]"
proof -
  have "unat va + length [c] \<le> 2 ^ 38" using assms(2) by (simp add: present_def word_less_nat_alt MAXVA_unat)
  then show thesis using copyout_present [OF assms(1), of "[c]" va] assms(2,3) that by auto
qed

lemma copied_out_refl: "space_ok m pt \<Longrightarrow> copied_out m m pt va []"
  by (simp add: copied_out_def)

section \<open>Properties\<close>

text \<open>
  (C21) What \<^verbatim>\<open>copyout\<close> stores in user memory \<^verbatim>\<open>copyin\<close> reads back, over any number of pages: on a range of
  writable user pages of a proper address space both return 0, the bytes come back unchanged,
  and no other byte of the address space changes.
\<close>

theorem copyout_copyin:
  assumes "space_ok (mem s) pt" and "unat va + length src \<le> unat MAXVA"
    and "\<forall>i<length src. present (mem s) pt (va + of_nat i) \<and> pte 2 (mem s) pt (va + of_nat i) AND PTE_W \<noteq> 0"
  shows "\<exists>t. copyout pt va src s = Ok 0 t \<and> copyin pt va (length src) t = Ok (0, src) t \<and>
    (\<forall>x. present (mem s) pt x \<longrightarrow> length src \<le> unat (x - va) \<longrightarrow> ubyte (mem t) pt x = ubyte (mem s) pt x)"
proof -
  have b: "unat va + length src \<le> 2 ^ 38" using assms(2) by (simp add: MAXVA_unat)
  obtain m where m: "copyout pt va src s = Ok 0 (s\<lparr>mem := m\<rparr>)" "copied_out (mem s) m pt va src"
    using copyout_present [OF assms(1,3) b] by blast
  have pr: "present m pt = present (mem s) pt" using m(2) unfolding copied_out_def present_def [abs_def] by simp
  have "copyin pt va (length src) (s\<lparr>mem := m\<rparr>) = Ok (0, ubytes m pt va (length src)) (s\<lparr>mem := m\<rparr>)"
    using copyin_present [of "length src" "s\<lparr>mem := m\<rparr>" pt va] assms(3) b pr by simp
  moreover have "ubytes m pt va (length src) = src"
  proof (rule nth_equalityI)
    fix i assume "i < length (ubytes m pt va (length src))"
    then have i: "i < length src" by (simp add: ubytes_def)
    moreover have "unat (va + of_nat i - va) = i" using i b by simp
    ultimately show "ubytes m pt va (length src) ! i = src ! i"
      using m(2) assms(3) by (simp add: copied_out_def ubytes_def)
  qed (simp add: ubytes_def)
  ultimately show ?thesis using m by (intro exI [of _ "s\<lparr>mem := m\<rparr>"]) (auto simp: copied_out_def)
qed

text \<open>A table with one page mapped, at address 0.\<close>

definition space_ex :: memory where
  "space_ex = store64 (store64 (store64 (\<lambda>_. 0) (pte_at 0x80001000 0) (PA2PTE 0x80002000 OR PTE_V))
    (pte_at 0x80002000 0) (PA2PTE 0x80003000 OR PTE_V)) (pte_at 0x80003000 0) (PA2PTE 0x80004000 OR 0x17)"

lemma space_ex_ent:
  "\<forall>i<512. ent space_ex 0x80001000 i = (if i = 0 then PA2PTE 0x80002000 OR PTE_V else 0)"
  "\<forall>i<512. ent space_ex 0x80002000 i = (if i = 0 then PA2PTE 0x80003000 OR PTE_V else 0)"
  "\<forall>i<512. ent space_ex 0x80003000 i = (if i = 0 then PA2PTE 0x80004000 OR 0x17 else 0)"
proof -
  have "load64 (\<lambda>_. 0) a = 0" for a by (simp add: load64_def mem_bytes_def map_replicate_const numeral_eq_Suc)
  then have z: "ent (\<lambda>_. 0) p i = 0" for p i by (simp add: ent_def)
  have al: "page_aligned 0x80001000" "page_aligned 0x80002000" "page_aligned 0x80003000" by (simp_all add: page_aligned_def)
  show "\<forall>i<512. ent space_ex 0x80001000 i = (if i = 0 then PA2PTE 0x80002000 OR PTE_V else 0)"
    "\<forall>i<512. ent space_ex 0x80002000 i = (if i = 0 then PA2PTE 0x80003000 OR PTE_V else 0)"
    "\<forall>i<512. ent space_ex 0x80003000 i = (if i = 0 then PA2PTE 0x80004000 OR 0x17 else 0)"
    unfolding space_ex_def by (simp_all add: ent_store [where j = 0, simplified] al z)
qed

lemma one_entry:
  assumes "page_aligned p" and "\<forall>i<512. ent m p i = (if i = 0 then PA2PTE c OR PTE_V else 0)" and "page_aligned c"
  shows "tset (Suc l) m p = insert p (tset l m c)"
    and "tree_ok l m c \<Longrightarrow> p \<notin> tset l m c \<Longrightarrow> tree_ok (Suc l) m p"
    and "pte (Suc l) m p va = (if px (Suc l) va = 0 then pte l m c va else 0)"
proof -
  have e: "ent m p i = (if i = 0 then PA2PTE c OR PTE_V else 0)" if "i < 512" for i using assms(2) that by blast
  have c: "PTE2PA (PA2PTE c OR PTE_V) = c" using assms(3) by (rule PTE2PA_PA2PTE) simp
  have v: "valid (PA2PTE c OR PTE_V)" "(PA2PTE c OR PTE_V) AND (PTE_R OR PTE_W OR PTE_X) = 0"
    by (rule valid_OR_V PA2PTE_table)+
  have "{i. i < 512 \<and> valid (ent m p i)} = {0}" using e v(1) by (auto split: if_splits)
  then show "tset (Suc l) m p = insert p (tset l m c)" using e [of 0] c by simp
  show "tree_ok (Suc l) m p" if "tree_ok l m c" "p \<notin> tset l m c"
    using assms(1) e c v that by (auto split: if_splits)
  show "pte (Suc l) m p va = (if px (Suc l) va = 0 then pte l m c va else 0)"
    using e [of "px (Suc l) va"] c v(1) by (simp add: pte_Suc)
qed

lemma space_ex_ok:
  "space_ok space_ex 0x80001000"
  "va < MAXVA \<Longrightarrow> pte 2 space_ex 0x80001000 va = (if vpn va = 0 then PA2PTE 0x80004000 OR 0x17 else 0)"
proof -
  have al: "page_aligned 0x80001000" "page_aligned 0x80002000" "page_aligned 0x80003000" "page_aligned 0x80004000"
    by (simp_all add: page_aligned_def)
  note a = one_entry [where l = 0, OF al(2) space_ex_ent(2) al(3)] and b = one_entry [where l = 1, OF al(1) space_ex_ent(1) al(2)]
  have t1: "tset 1 space_ex 0x80002000 = {0x80002000, 0x80003000}" using a(1) by (simp only: One_nat_def tset.simps(1))
  have o1: "tree_ok 1 space_ex 0x80002000" unfolding One_nat_def by (rule a(2)) (use al(3) in simp_all)
  have t2: "tset 2 space_ex 0x80001000 = {0x80001000, 0x80002000, 0x80003000}" using b(1) t1 by (simp only: Suc_1)
  have o2: "tree_ok 2 space_ex 0x80001000" using b(2) [OF o1] unfolding t1 Suc_1 by simp
  have px0: "same_px 2 0 va \<longleftrightarrow> px 2 va = 0 \<and> px 1 va = 0 \<and> px 0 va = 0" for va
    by (auto simp: same_px_def px_eq le_Suc_eq numeral_2_eq_2)
  have p: "pte 2 space_ex 0x80001000 va = (if vpn va = 0 then PA2PTE 0x80004000 OR 0x17 else 0)" if "va < MAXVA" for va
  proof -
    have "pte 2 space_ex 0x80001000 va = (if same_px 2 0 va then PA2PTE 0x80004000 OR 0x17 else 0)"
    proof -
      have "pte 0 space_ex 0x80003000 va = (if px 0 va = 0 then PA2PTE 0x80004000 OR 0x17 else 0)"
        unfolding pte_0 using space_ex_ent(3) px_less by blast
      moreover have "pte 1 space_ex 0x80002000 va = (if px 1 va = 0 then pte 0 space_ex 0x80003000 va else 0)"
        using a(3) [of va] by (simp only: One_nat_def)
      moreover have "pte 2 space_ex 0x80001000 va = (if px 2 va = 0 then pte 1 space_ex 0x80002000 va else 0)"
        using b(3) [of va] by (simp only: Suc_1)
      ultimately show ?thesis unfolding px0 by simp
    qed
    moreover have "(0 :: u64) < MAXVA" by (simp add: word_less_nat_alt MAXVA_unat)
    then have "same_px 2 0 va \<longleftrightarrow> vpn va = 0" using same_px_vpn [OF _ that, of 0] by auto
    ultimately show ?thesis by simp
  qed
  then show "va < MAXVA \<Longrightarrow> pte 2 space_ex 0x80001000 va = (if vpn va = 0 then PA2PTE 0x80004000 OR 0x17 else 0)" .
  have z: "vpn x = 0" if "present space_ex 0x80001000 x" for x using that p [of x] by (auto simp: present_def split: if_splits)
  have f: "frame_of space_ex 0x80001000 x = 0x80004000" if "present space_ex 0x80001000 x" for x
  proof -
    have "PTE2PA (PA2PTE 0x80004000 OR 0x17) = 0x80004000" by (rule PTE2PA_PA2PTE [OF al(4)]) simp
    then show ?thesis using p [of x] z [OF that] that by (simp add: frame_of_def present_def)
  qed
  then show "space_ok space_ex 0x80001000" using t2 o2 z by (simp add: space_ok_def)
qed

theorem copyout_copyin_witness:
  "\<exists>(s :: proc_state) t. copyout 0x80001000 100 [1, 2, 3] s = Ok 0 t \<and> copyin 0x80001000 100 3 t = Ok (0, [1, 2, 3]) t"
proof -
  define s :: proc_state where "s = \<lparr>mem = space_ex, freelist = 0, k_end = 0x80000000, procs = [], cur = 0, nextpid = 1, initproc = 0\<rparr>"
  have f: "PTE2PA (PA2PTE 0x80004000 OR 0x17) = 0x80004000" by (rule PTE2PA_PA2PTE) (simp_all add: page_aligned_def)
  have pr: "present space_ex 0x80001000 (100 + of_nat i) \<and> pte 2 space_ex 0x80001000 (100 + of_nat i) AND PTE_W \<noteq> 0" if "i < 3" for i
  proof -
    have u: "unat (100 + of_nat i :: u64) = 100 + i" using that by (simp add: unat_word_ariths)
    then have "100 + of_nat i < MAXVA" using that by (simp add: word_less_nat_alt MAXVA_unat)
    moreover have "(PA2PTE 0x80004000 OR 0x17) AND PTE_W \<noteq> 0" "valid (PA2PTE 0x80004000 OR 0x17)" "(PA2PTE 0x80004000 OR 0x17) AND PTE_U \<noteq> 0"
      by (simp_all add: PA2PTE_def)
    ultimately show ?thesis using space_ex_ok(2) [of "100 + of_nat i"] u that f by (simp add: present_def)
  qed
  have "\<forall>i<length [1, 2, 3 :: u8]. present (mem s) 0x80001000 (100 + of_nat i) \<and> pte 2 (mem s) 0x80001000 (100 + of_nat i) AND PTE_W \<noteq> 0"
    using pr by (simp add: s_def)
  from copyout_copyin [OF _ _ this] show ?thesis
    using space_ex_ok(1) by (auto simp: s_def MAXVA_unat numeral_3_eq_3)
qed

end
