(* ===== verification/Ring_Buffer.thy ===== *)
theory Ring_Buffer
  imports Prelude
begin

text \<open>
  Ring buffers indexed by free-running \<^verbatim>\<open>uint\<close> counters, as pipes (\<^verbatim>\<open>nread\<close>, \<^verbatim>\<open>nwrite\<close>) and the console
  input (\<^verbatim>\<open>r\<close>, \<^verbatim>\<open>w\<close>, \<^verbatim>\<open>e\<close>) are. The size is a power of two, so the contents survive the wrap-around
  of the counters.
\<close>

section \<open>The contents of a ring\<close>

definition ring :: "nat \<Rightarrow> 'a list \<Rightarrow> u32 \<Rightarrow> u32 \<Rightarrow> 'a list" where
  "ring k d r w = map (\<lambda>i. d ! (unat (r + of_nat i) mod 2 ^ k)) [0..<unat (w - r)]"

lemma length_ring [simp]: "length (ring k d r w) = unat (w - r)"
  by (simp add: ring_def)

lemma ring_empty: "ring k d r w = [] \<longleftrightarrow> r = w"
  by (auto simp: ring_def unat_eq_0)

lemma unat_Suc_diff:
  fixes r w :: u32
  assumes "unat (w - r) < 2 ^ 32 - 1"
  shows "unat (w + 1 - r) = Suc (unat (w - r))"
proof -
  have "w + 1 - r = (w - r) + 1" by simp
  then show ?thesis using assms by (simp only: unat_word_ariths) simp
qed

lemma ring_step_index:
  assumes "k \<le> 31" and "i \<noteq> j" and "i < 2 ^ k" and "j < 2 ^ k"
  shows "unat (r + of_nat i :: u32) mod 2 ^ k \<noteq> unat (r + of_nat j :: u32) mod 2 ^ k"
proof -
  have dvd: "(2 :: nat) ^ k dvd 2 ^ 32" using assms(1) by (intro le_imp_power_dvd) simp
  have u: "unat (r + of_nat n :: u32) mod 2 ^ k = (unat r + n) mod 2 ^ k" for n
  proof -
    have "unat (r + of_nat n :: u32) = (unat r + n) mod 2 ^ 32"
      by (simp add: unat_word_ariths unat_of_nat mod_simps)
    then show ?thesis using dvd by (simp add: mod_mod_cancel)
  qed
  have ne: "(unat r + a) mod 2 ^ k \<noteq> (unat r + b) mod 2 ^ k" if "a < b" "b < 2 ^ k" for a b
  proof
    assume "(unat r + a) mod 2 ^ k = (unat r + b) mod 2 ^ k"
    then have "2 ^ k dvd (unat r + b) - (unat r + a)" using that by (metis add_le_cancel_left less_imp_le mod_eq_dvd_iff_nat)
    then have "2 ^ k dvd b - a" by simp
    then show False using that by (auto dest: dvd_imp_le)
  qed
  show ?thesis unfolding u using ne [of i j] ne [of j i] assms(2-4) by (cases "i < j") auto
qed

lemma ring_put:
  assumes "k \<le> 31" and "length d = 2 ^ k" and "unat (w - r) < 2 ^ k"
  shows "ring k (d[unat w mod 2 ^ k := c]) r (w + 1) = ring k d r w @ [c]"
proof -
  let ?n = "unat (w - r)"
  have "(2 :: nat) ^ k \<le> 2 ^ 31" using assms(1) by (intro power_increasing) simp_all
  then have "?n < 2 ^ 32 - 1" using assms(3) by simp
  then have "unat (w + 1 - r) = Suc ?n" by (rule unat_Suc_diff)
  moreover have w: "r + of_nat ?n = w" by simp
  moreover have "d[unat w mod 2 ^ k := c] ! (unat (r + of_nat i) mod 2 ^ k) = d ! (unat (r + of_nat i) mod 2 ^ k)" if "i < ?n" for i
    using ring_step_index [OF assms(1), of i ?n r] that assms(3) w by simp
  ultimately show ?thesis using assms(2) by (simp add: ring_def cong: map_cong)
qed

lemma ring_get:
  assumes "r \<noteq> w"
  shows "ring k d r w = d ! (unat r mod 2 ^ k) # ring k d (r + 1) w"
proof -
  have nz: "unat (w - r) \<noteq> 0" using assms by (simp add: unat_eq_0)
  then obtain n where n: "unat (w - r) = Suc n" by (cases "unat (w - r)") auto
  have "of_nat (unat (w - r)) = w - r" by simp
  then have "1 + of_nat n = w - r" unfolding n by simp
  then have "w - (r + 1) = of_nat n" by (metis add_diff_cancel_left' diff_diff_add)
  moreover have "n < 2 ^ 32" using n unsigned_less [of "w - r", where ?'a = nat] by simp
  ultimately have "unat (w - (r + 1)) = n" by (simp add: unat_of_nat)
  then show ?thesis unfolding ring_def n
    by (simp add: upt_conv_Cons map_Suc_upt [symmetric] add.assoc comp_def del: upt_Suc)
qed

section \<open>Parts of a ring\<close>

lemma ring_split:
  assumes "unat (w - r) \<le> unat (e - r)"
  shows "ring k d r e = ring k d r w @ ring k d w e"
proof -
  have ew: "unat (e - w) = unat (e - r) - unat (w - r)"
    using assms unat_sub [of "w - r" "e - r"] by (simp add: word_le_nat_alt)
  have "ring k d r e = map (\<lambda>i. d ! (unat (r + of_nat i) mod 2 ^ k)) ([0..<unat (w - r)] @ [unat (w - r)..<unat (e - r)])"
    using assms upt_add_eq_append [of 0 "unat (w - r)" "unat (e - r) - unat (w - r)"] by (simp add: ring_def)
  moreover have "map (\<lambda>i. d ! (unat (r + of_nat i) mod 2 ^ k)) [unat (w - r)..<unat (e - r)] = ring k d w e"
    by (rule nth_equalityI) (auto simp: ring_def ew add.assoc [symmetric])
  ultimately show ?thesis by (simp add: ring_def)
qed

lemma unat_diff_pred: "w \<noteq> e \<Longrightarrow> unat (e - 1 - w) = unat (e - w) - 1" for e w :: u32
proof -
  assume "w \<noteq> e"
  then have "e - w \<noteq> 0" by simp
  then have "unat (e - w - 1) = unat (e - w) - 1" by (rule unat_minus_one)
  then show ?thesis by (simp add: algebra_simps)
qed

lemma ring_unput: "w \<noteq> e \<Longrightarrow> ring k d w (e - 1) = butlast (ring k d w e)"
  by (rule nth_equalityI) (simp_all add: ring_def unat_diff_pred nth_butlast less_diff_conv)

lemma ring_last: "w \<noteq> e \<Longrightarrow> d ! (unat (e - 1) mod 2 ^ k) = last (ring k d w e)"
proof -
  assume ne: "w \<noteq> e"
  have nz: "unat (e - w) \<noteq> 0" using ne by (simp add: unat_eq_0)
  have "w + of_nat (unat (e - w) - 1) = e - 1"
    using nz by (simp add: of_nat_diff)
  then show ?thesis using nz by (simp add: ring_def last_conv_nth)
qed

section \<open>A queue interface\<close>

text \<open>
  What the users of a bounded queue rely on: \<open>put\<close> appends when there is room, \<open>take\<close> removes the
  first element. The elements that go in come out in the order they went in.
\<close>

locale bounded_queue =
  fixes put :: "'c \<Rightarrow> 'q \<Rightarrow> 'q" and first :: "'q \<Rightarrow> 'c" and rest :: "'q \<Rightarrow> 'q"
    and contents :: "'q \<Rightarrow> 'c list" and cap :: nat and ok :: "'q \<Rightarrow> bool"
  assumes put_ok: "ok q \<Longrightarrow> length (contents q) < cap \<Longrightarrow> ok (put c q)"
    and put_contents: "ok q \<Longrightarrow> length (contents q) < cap \<Longrightarrow> contents (put c q) = contents q @ [c]"
    and rest_ok: "ok q \<Longrightarrow> contents q \<noteq> [] \<Longrightarrow> ok (rest q)"
    and first_rest: "ok q \<Longrightarrow> contents q \<noteq> [] \<Longrightarrow> contents q = first q # contents (rest q)"
    and ok_length: "ok q \<Longrightarrow> length (contents q) \<le> cap"
begin

lemma put_all:
  "ok q \<Longrightarrow> length (contents q) + length cs \<le> cap \<Longrightarrow> ok (fold put cs q) \<and> contents (fold put cs q) = contents q @ cs"
  by (induction cs arbitrary: q) (simp_all add: put_ok put_contents)

lemma take_all:
  "ok q \<Longrightarrow> n \<le> length (contents q) \<Longrightarrow> ok ((rest ^^ n) q) \<and> contents ((rest ^^ n) q) = drop n (contents q)"
proof (induction n)
  case (Suc n)
  then have "ok ((rest ^^ n) q)" "contents ((rest ^^ n) q) = drop n (contents q)" by simp_all
  moreover from this(2) Suc.prems(2) have "contents ((rest ^^ n) q) \<noteq> []" by simp
  ultimately show ?case using rest_ok first_rest by (metis comp_apply drop_Suc funpow.simps(2) list.sel(3) tl_drop)
qed simp

end

end
