(* ===== verification/Pipe.thy ===== *)
theory Pipe
  imports Proc Vm_Copy Ring_Buffer
begin

text \<open>
  Correctness of pipes: the ring of a pipe provides the bounded queue of \<open>Ring_Buffer\<close>, and
  \<^verbatim>\<open>pipewrite\<close> and \<^verbatim>\<open>piperead\<close> move bytes between it and user memory.
\<close>

section \<open>A pipe is a bounded queue\<close>

definition pipe_queue :: "pipe \<Rightarrow> bytes" where
  "pipe_queue q = ring 9 (pi_data q) (pi_nread q) (pi_nwrite q)"

definition pipe_ok :: "pipe \<Rightarrow> bool" where
  "pipe_ok q \<longleftrightarrow> length (pi_data q) = 512 \<and> unat (pi_nwrite q - pi_nread q) \<le> 512"

lemma unat_mod_512: "unat (x mod PIPESIZE :: u32) = unat x mod 2 ^ 9"
  by (simp add: unat_mod)

interpretation pq: bounded_queue pipe_put pipe_ch pipe_next pipe_queue 512 pipe_ok
proof
  fix q c
  assume q: "pipe_ok q" "length (pipe_queue q) < 512"
  then show "pipe_queue (pipe_put c q) = pipe_queue q @ [c]"
    using ring_put [of 9 "pi_data q" "pi_nwrite q" "pi_nread q" c]
    by (simp add: pipe_queue_def pipe_put_def pipe_ok_def unat_mod_512)
  show "pipe_ok (pipe_put c q)"
    using q unat_Suc_diff [of "pi_nwrite q" "pi_nread q"] by (simp add: pipe_queue_def pipe_put_def pipe_ok_def)
next
  fix q
  assume q: "pipe_ok q" "pipe_queue q \<noteq> []"
  then have ne: "pi_nread q \<noteq> pi_nwrite q" by (simp add: pipe_queue_def ring_empty)
  show fr: "pipe_queue q = pipe_ch q # pipe_queue (pipe_next q)"
    using ring_get [OF ne, of 9 "pi_data q"] by (simp add: pipe_queue_def pipe_ch_def pipe_next_def unat_mod_512)
  have "length (pipe_queue q) = Suc (length (pipe_queue (pipe_next q)))" using fr by simp
  then show "pipe_ok (pipe_next q)" using q(1) by (simp add: pipe_ok_def pipe_queue_def pipe_next_def)
qed (simp add: pipe_ok_def pipe_queue_def)


lemma pipe_full: "pipe_ok q \<Longrightarrow> pi_nwrite q = pi_nread q + PIPESIZE \<longleftrightarrow> length (pipe_queue q) = 512"
proof -
  have "pi_nwrite q = pi_nread q + 512 \<longleftrightarrow> pi_nwrite q - pi_nread q = 512" by (auto simp: algebra_simps)
  also have "\<dots> \<longleftrightarrow> unat (pi_nwrite q - pi_nread q) = 512" by (simp add: word_unat_eq_iff)
  finally show ?thesis by (simp add: pipe_queue_def)
qed

lemma pipe_empty: "pi_nread q = pi_nwrite q \<longleftrightarrow> pipe_queue q = []"
  by (simp add: pipe_queue_def ring_empty)

section \<open>Writing\<close>

lemma upd_pipe_simps [simp]:
  "pipes (upd_pipe p g s) p = g (pipes s p)" "mem (upd_pipe p g s) = mem s" "procs (upd_pipe p g s) = procs s"
  "cur (upd_pipe p g s) = cur s" "killed i (upd_pipe p g s) = killed i s" "upd_pipe p g (upd_pipe p f s) = upd_pipe p (g \<circ> f) s"
  by (simp_all add: upd_pipe_def killed_def comp_def)

lemma pipe_put_open [simp]: "pi_readopen (pipe_put c q) = pi_readopen q"
  by (simp add: pipe_put_def)

lemma pipewrite_loop_ok:
  fixes s :: "'z file_state_scheme"
  defines "pt \<equiv> p_pagetable (myproc s)"
  assumes "pipe_ok (pipes s p)" and "pi_readopen (pipes s p)" and "\<not> killed (cur s) s" and "i \<le> n"
    and "\<forall>k<n. present (mem s) pt (addr + of_nat k)"
  shows "pipewrite_loop p addr (int n) (int i) s =
    (let room = 512 - length (pipe_queue (pipes s p)); k = min room (n - i) in
     Ok (if n - i \<le> room then Return (int n) else Block (int (i + k)))
       (wakeup (Chan_nread p) (upd_pipe p (fold pipe_put (ubytes (mem s) pt (addr + of_nat i) k)) s)))"
  using assms(2-6) unfolding pt_def
proof (induction "n - i" arbitrary: i s)
  case 0
  then show ?case by (simp add: pipewrite_loop.simps [of p addr] ubytes_def upd_pipe_def Let_def)
next
  case (Suc d)
  let ?q = "pipes s p" let ?pt = "p_pagetable (myproc s)"
  have i: "i < n" using Suc.hyps(2) by simp
  show ?case
  proof (cases "length (pipe_queue ?q) = 512")
    case True
    then have "pi_nwrite ?q = pi_nread ?q + PIPESIZE" using pipe_full [OF Suc.prems(1)] by simp
    then show ?thesis using True i Suc.prems(2,3)
      by (simp add: pipewrite_loop.simps [of p addr] ubytes_def upd_pipe_def Let_def)
  next
    case False
    then have room: "length (pipe_queue ?q) < 512" using pq.ok_length [OF Suc.prems(1)] by simp
    have nf: "pi_nwrite ?q \<noteq> pi_nread ?q + PIPESIZE" using False pipe_full [OF Suc.prems(1)] by simp
    let ?c = "ubyte (mem s) ?pt (addr + of_nat i)"
    let ?s = "upd_pipe p (pipe_put ?c) s"
    have cin: "copyin ?pt (addr + of_nat i) 1 s = Ok (0, [?c]) s" using Suc.prems(5) i by (intro copyin_byte) simp
    have one: "pipewrite_loop p addr (int n) (int i) s = pipewrite_loop p addr (int n) (int (Suc i)) ?s"
      using i Suc.prems(2,3) nf cin by (subst pipewrite_loop.simps) (simp add: add.commute)
    have ok: "pipe_ok (pipe_put ?c ?q)" "pipe_queue (pipe_put ?c ?q) = pipe_queue ?q @ [?c]"
      using pq.put_ok [OF Suc.prems(1) room] pq.put_contents [OF Suc.prems(1) room] by auto
    have "d = n - Suc i" using Suc.hyps(2) by simp
    from Suc.hyps(1) [OF this, of ?s] Suc.prems ok i
    have "pipewrite_loop p addr (int n) (int (Suc i)) ?s =
      (let room = 512 - length (pipe_queue (pipe_put ?c ?q)); k = min room (n - Suc i) in
       Ok (if n - Suc i \<le> room then Return (int n) else Block (int (Suc i + k)))
         (wakeup (Chan_nread p) (upd_pipe p (fold pipe_put (ubytes (mem s) ?pt (addr + of_nat (Suc i)) k)) ?s)))"
      by simp
    moreover have "min (512 - length (pipe_queue ?q)) (n - i) = Suc (min (511 - length (pipe_queue ?q)) (n - Suc i))"
      using room i by auto
    ultimately show ?thesis unfolding one using room i ok
      by (auto simp: Let_def ubytes_Suc add_ac comp_def)
  qed
qed


section \<open>Reading\<close>

lemma piperead_copy_ok:
  fixes s :: "'z file_state_scheme" and p :: u64
  defines "pt \<equiv> p_pagetable (myproc s)" and "Q \<equiv> pipe_queue (pipes s p)"
  assumes "pipe_ok (pipes s p)" and "space_ok (mem s) pt" and "i \<le> n" and "unat addr + n < 2 ^ 64"
    and "\<forall>k<n. present (mem s) pt (addr + of_nat k) \<and> pte 2 (mem s) pt (addr + of_nat k) AND PTE_W \<noteq> 0"
  shows "\<exists>m. piperead_copy p addr (int n) (int i) s = Ok (int (i + min (n - i) (length Q)))
      (upd_pipe p (pipe_next ^^ min (n - i) (length Q)) (s\<lparr>mem := m\<rparr>)) \<and>
    copied_out (mem s) m pt (addr + of_nat i) (take (n - i) Q)"
  using assms(3-7) unfolding pt_def Q_def
proof (induction "n - i" arbitrary: i s)
  case 0
  then show ?case
    by (intro exI [of _ "mem s"]) (simp add: piperead_copy.simps [of p addr] upd_pipe_def copied_out_refl)
next
  case (Suc d)
  let ?q = "pipes s p" let ?pt = "p_pagetable (myproc s)"
  have i: "i < n" using Suc.hyps(2) by simp
  show ?case
  proof (cases "pipe_queue ?q")
    case Nil
    then show ?thesis using i Suc.prems(2) pipe_empty [of ?q]
      by (intro exI [of _ "mem s"]) (simp add: piperead_copy.simps [of p addr] upd_pipe_def copied_out_refl)
  next
    case (Cons c cs)
    then have q: "pipe_ch ?q = c" "pipe_queue (pipe_next ?q) = cs" "pipe_ok (pipe_next ?q)"
      using pq.first_rest [OF Suc.prems(1)] pq.rest_ok [OF Suc.prems(1)] by auto
    have ne: "pi_nread ?q \<noteq> pi_nwrite ?q" using Cons pipe_empty [of ?q] by simp
    have pr: "present (mem s) ?pt (addr + of_nat i)" "pte 2 (mem s) ?pt (addr + of_nat i) AND PTE_W \<noteq> 0"
      using Suc.prems(5) i by auto
    obtain m where m: "copyout ?pt (addr + of_nat i) [c] s = Ok 0 (s\<lparr>mem := m\<rparr>)" "copied_out (mem s) m ?pt (addr + of_nat i) [c]"
      by (rule copyout_byte [OF Suc.prems(2) pr])
    let ?s = "upd_pipe p pipe_next (s\<lparr>mem := m\<rparr>)"
    have one: "piperead_copy p addr (int n) (int i) s = piperead_copy p addr (int n) (int (Suc i)) ?s"
      using i ne m(1) q(1) by (subst piperead_copy.simps) (simp add: add.commute)
    have mm: "space_ok m ?pt" "present m ?pt = present (mem s) ?pt" "pte 2 m ?pt = pte 2 (mem s) ?pt"
      using m(2) copied_out_present [OF m(2)] by (auto simp: copied_out_def)
    have "d = n - Suc i" using Suc.hyps(2) by simp
    from Suc.hyps(1) [OF this, of ?s] obtain m' where m': "piperead_copy p addr (int n) (int (Suc i)) ?s =
        Ok (int (Suc i + min (n - Suc i) (length cs))) (upd_pipe p (pipe_next ^^ min (n - Suc i) (length cs)) (?s\<lparr>mem := m'\<rparr>))"
      "copied_out m m' ?pt (addr + of_nat (Suc i)) (take (n - Suc i) cs)"
      using Suc.prems mm q i by auto
    have ni: "n - i = Suc (n - Suc i)" using i by simp
    have "copied_out (mem s) m' ?pt (addr + of_nat i) ([c] @ take (n - Suc i) cs)"
    proof (rule copied_out_append [OF m(2)])
      show "copied_out m m' ?pt (addr + of_nat i + of_nat (length [c])) (take (n - Suc i) cs)"
        using m'(2) by (simp add: add_ac)
      have "unat (addr + of_nat i) = unat addr + i" using Suc.prems(4) i by (simp add: unat_word_ariths)
      then show "unat (addr + of_nat i) + length [c] + length (take (n - Suc i) cs) < 2 ^ 64" using Suc.prems(4) i by simp
    qed
    moreover have "upd_pipe p (pipe_next ^^ min (n - Suc i) (length cs)) (?s\<lparr>mem := m'\<rparr>) =
        upd_pipe p (pipe_next ^^ Suc (min (n - Suc i) (length cs))) (s\<lparr>mem := m'\<rparr>)"
      by (simp add: upd_pipe_def funpow_swap1)
    ultimately show ?thesis unfolding one m'(1) Cons ni by (intro exI [of _ m']) simp
  qed
qed


section \<open>Properties\<close>

lemma min_take_ubytes: "ubytes m pt va (min a n) = take a (ubytes m pt va n)"
  by (rule nth_equalityI) (auto simp: ubytes_def)

text \<open>
  (C23) \<^verbatim>\<open>pipewrite\<close> refines appending to a queue of at most \<^verbatim>\<open>PIPESIZE\<close> bytes: from a mapped user buffer it
  appends, in order, as many bytes as there is room for, also when the 32-bit counters wrap
  around; it returns the count when all fit, and otherwise goes to sleep on the full pipe
  having written exactly the room.
\<close>

theorem pipewrite_appends:
  assumes "pipe_ok (pipes s p)" and "pi_readopen (pipes s p)" and "\<not> killed (cur s) s"
    and "\<forall>k<n. present (mem s) (p_pagetable (myproc s)) (addr + of_nat k)"
  shows "\<exists>t. pipewrite_loop p addr (int n) 0 s =
      Ok (if n \<le> 512 - length (pipe_queue (pipes s p)) then Return (int n) else Block (int (512 - length (pipe_queue (pipes s p))))) t \<and>
    pipe_ok (pipes t p) \<and> pipe_queue (pipes t p) = pipe_queue (pipes s p) @
      take (512 - length (pipe_queue (pipes s p))) (ubytes (mem s) (p_pagetable (myproc s)) addr n)"
proof -
  let ?q = "pipes s p" let ?pt = "p_pagetable (myproc s)"
  define room where "room = 512 - length (pipe_queue ?q)"
  define bs where "bs = take room (ubytes (mem s) ?pt addr n)"
  let ?t = "wakeup (Chan_nread p) (upd_pipe p (fold pipe_put bs) s)"
  have "pipewrite_loop p addr (int n) 0 s = Ok (if n \<le> room then Return (int n) else Block (int room)) ?t"
    using pipewrite_loop_ok [OF assms(1-3), of 0 n addr] assms(4)
    by (auto simp: Let_def room_def [symmetric] bs_def min_take_ubytes [symmetric])
  moreover have "pipes ?t p = fold pipe_put bs ?q" by (simp add: wakeup_def upd_pipe_def)
  moreover have "length (pipe_queue ?q) + length bs \<le> 512"
    using pq.ok_length [OF assms(1)] by (simp add: bs_def room_def)
  ultimately show ?thesis using pq.put_all [OF assms(1), of bs] unfolding room_def [symmetric] bs_def [symmetric] by auto
qed

text \<open>
  (C28) \<^verbatim>\<open>piperead\<close> refines taking from the front of the queue: into a mapped, writable user buffer it
  delivers the oldest bytes in the order they were written, at most \<open>n\<close>, removes exactly those
  from the pipe, and returns their number.
\<close>

theorem piperead_takes:
  assumes "pipe_ok (pipes s p)" and "pipe_queue (pipes s p) \<noteq> [] \<or> \<not> pi_writeopen (pipes s p)"
    and "space_ok (mem s) (p_pagetable (myproc s))" and "unat addr + n \<le> unat MAXVA" and "cur s < length (procs s)"
    and "\<forall>k<n. present (mem s) (p_pagetable (myproc s)) (addr + of_nat k) \<and>
      pte 2 (mem s) (p_pagetable (myproc s)) (addr + of_nat k) AND PTE_W \<noteq> 0"
  shows "\<exists>t. piperead p addr (int n) s = Ok (int (min n (length (pipe_queue (pipes s p))))) t \<and> pipe_ok (pipes t p) \<and>
    pipe_queue (pipes t p) = drop n (pipe_queue (pipes s p)) \<and>
    ubytes (mem t) (p_pagetable (myproc s)) addr (min n (length (pipe_queue (pipes s p)))) = take n (pipe_queue (pipes s p))"
proof -
  let ?q = "pipes s p" let ?pt = "p_pagetable (myproc s)" let ?Q = "pipe_queue (pipes s p)"
  let ?k = "min n (length ?Q)"
  have "unat addr + n < 2 ^ 64" using assms(4) by (simp add: MAXVA_unat)
  from piperead_copy_ok [OF assms(1,3) _ this assms(6), of 0] obtain m where
    m: "piperead_copy p addr (int n) 0 s = Ok (int ?k) (upd_pipe p (pipe_next ^^ ?k) (s\<lparr>mem := m\<rparr>))"
      "copied_out (mem s) m ?pt addr (take n ?Q)" by auto
  let ?t = "wakeup (Chan_nwrite p) (upd_pipe p (pipe_next ^^ ?k) (s\<lparr>mem := m\<rparr>))"
  have "piperead p addr (int n) s = Ok (int ?k) ?t"
    using m(1) assms(2) pipe_empty [of ?q] by (auto simp: piperead_def)
  moreover have "pipes ?t p = (pipe_next ^^ ?k) ?q" "mem ?t = m" by (simp_all add: wakeup_def upd_pipe_def)
  moreover have "ubytes m ?pt addr ?k = take n ?Q"
  proof (rule nth_equalityI)
    fix i assume "i < length (ubytes m ?pt addr ?k)"
    then have i: "i < n" "i < length ?Q" by (simp_all add: ubytes_def)
    then have "unat (addr + of_nat i - addr) = i" using assms(4) by (simp add: MAXVA_unat)
    then show "ubytes m ?pt addr ?k ! i = take n ?Q ! i"
      using m(2) assms(6) i by (simp add: copied_out_def ubytes_def)
  qed (simp add: ubytes_def)
  ultimately show ?thesis using pq.take_all [OF assms(1), of ?k] by (intro exI [of _ ?t]) (auto simp: min_def)
qed

text \<open>A process with one page and a pipe whose counters are about to wrap around.\<close>

definition pipe_ex :: kern_state where
  "pipe_ex = kern0\<lparr>mem := space_ex, procs := [proc1\<lparr>p_pagetable := 0x80001000\<rparr>],
    pipes := (\<lambda>_. \<lparr>pi_data = replicate 512 7, pi_nread = - 2, pi_nwrite = 1, pi_readopen = True, pi_writeopen = True\<rparr>)\<rparr>"

lemma pipe_ex_ok:
  "pipe_ok (pipes pipe_ex p)" "pipe_queue (pipes pipe_ex p) = [7, 7, 7]" "p_pagetable (myproc pipe_ex) = 0x80001000"
  "pi_readopen (pipes pipe_ex p)" "\<not> killed (cur pipe_ex) pipe_ex" "mem pipe_ex = space_ex" "cur pipe_ex < length (procs pipe_ex)"
proof -
  have r: "ring 9 (replicate 512 (7 :: u8)) (- 2) 1 = [7, 7, 7]" by (simp add: ring_def upt_conv_Cons)
  then show "pipe_queue (pipes pipe_ex p) = [7, 7, 7]" by (simp add: pipe_ex_def pipe_queue_def)
qed (simp_all add: pipe_ex_def pipe_ok_def kern0_def killed_def proc1_def proc0_def)

lemma space_ex_present:
  assumes "k < 4096"
  shows "present space_ex 0x80001000 (of_nat k) \<and> pte 2 space_ex 0x80001000 (of_nat k) AND PTE_W \<noteq> 0"
proof -
  have f: "PTE2PA (PA2PTE 0x80004000 OR 0x17) = 0x80004000" by (rule PTE2PA_PA2PTE) (simp_all add: page_aligned_def)
  have u: "unat (of_nat k :: u64) = k" using assms by simp
  then have "of_nat k < MAXVA" using assms by (simp add: word_less_nat_alt MAXVA_unat)
  moreover have "(PA2PTE 0x80004000 OR 0x17) AND PTE_W \<noteq> 0" "valid (PA2PTE 0x80004000 OR 0x17)" "(PA2PTE 0x80004000 OR 0x17) AND PTE_U \<noteq> 0"
    by (simp_all add: PA2PTE_def)
  ultimately show ?thesis using space_ex_ok(2) [of "of_nat k"] u assms f by (simp add: present_def)
qed

theorem pipewrite_appends_witness:
  "\<exists>t. pipewrite_loop 0 0 2 0 pipe_ex = Ok (Return 2) t \<and>
    pipe_queue (pipes t 0) = [7, 7, 7] @ take 509 (ubytes space_ex 0x80001000 0 2)"
  using pipewrite_appends [OF pipe_ex_ok(1,4,5), of 2 0 0] pipe_ex_ok(2,3,6) space_ex_present by auto

theorem piperead_takes_witness:
  "\<exists>t. piperead 0 0 2 pipe_ex = Ok 2 t \<and> pipe_queue (pipes t 0) = [7] \<and> ubytes (mem t) 0x80001000 0 2 = [7, 7]"
proof -
  have two: "min 2 (length [7, 7, 7 :: u8]) = 2" by simp
  have "\<exists>t. piperead 0 0 (int 2) pipe_ex = Ok (int (min 2 (length [7, 7, 7 :: u8]))) t \<and> pipe_ok (pipes t 0) \<and>
      pipe_queue (pipes t 0) = drop 2 [7, 7, 7] \<and>
      ubytes (mem t) 0x80001000 0 (min 2 (length [7, 7, 7 :: u8])) = take 2 [7, 7, 7]"
    using piperead_takes [OF pipe_ex_ok(1), of 0 0 2] space_ex_present space_ex_ok(1) pipe_ex_ok(7)
    unfolding pipe_ex_ok(2,3,6) by (simp add: MAXVA_unat)
  then show ?thesis unfolding two by auto
qed

end
