(* ===== verification/Console_Line.thy ===== *)
theory Console_Line
  imports Pipe
begin

text \<open>
  Correctness of the console's line discipline. The input buffer is one ring with three counters:
  from \<^verbatim>\<open>cons.r\<close> to \<^verbatim>\<open>cons.w\<close> the input that readers may have, from \<^verbatim>\<open>cons.w\<close> to \<^verbatim>\<open>cons.e\<close> the line that is being
  edited. Over these two sequences the interrupt handler is a line editor, and \<^verbatim>\<open>consoleread\<close> takes
  one line.
\<close>

section \<open>The two sequences\<close>

definition committed :: "'z cons_state_scheme \<Rightarrow> bytes" where
  "committed s = ring 7 (cons_buf s) (cons_r s) (cons_w s)"

definition editing :: "'z cons_state_scheme \<Rightarrow> bytes" where
  "editing s = ring 7 (cons_buf s) (cons_w s) (cons_e s)"

definition input_queue :: "'z cons_state_scheme \<Rightarrow> bytes" where
  "input_queue s = ring 7 (cons_buf s) (cons_r s) (cons_e s)"

definition cons_ok :: "'z cons_state_scheme \<Rightarrow> bool" where
  "cons_ok s \<longleftrightarrow> length (cons_buf s) = 128 \<and> unat (cons_e s - cons_r s) \<le> 128"

text \<open>The counters are in order, and a line being edited has no end yet.\<close>

definition console_inv :: "'z cons_state_scheme \<Rightarrow> bool" where
  "console_inv s \<longleftrightarrow> cons_ok s \<and> unat (cons_w s - cons_r s) \<le> unat (cons_e s - cons_r s) \<and> 10 \<notin> set (editing s)"

lemma unat_mod_128: "unat (x mod 128 :: u32) = unat x mod 2 ^ 7"
  by (simp add: unat_mod)

interpretation cq: bounded_queue cons_put cons_ch cons_next input_queue 128 cons_ok
proof
  fix q :: "'a cons_state_scheme" and c
  assume q: "cons_ok q" "length (input_queue q) < 128"
  then show "input_queue (cons_put c q) = input_queue q @ [c]"
    using ring_put [of 7 "cons_buf q" "cons_e q" "cons_r q" c]
    by (simp add: input_queue_def cons_put_def cons_ok_def unat_mod_128)
  show "cons_ok (cons_put c q)"
    using q unat_Suc_diff [of "cons_e q" "cons_r q"] by (simp add: input_queue_def cons_put_def cons_ok_def)
next
  fix q :: "'a cons_state_scheme"
  assume q: "cons_ok q" "input_queue q \<noteq> []"
  then have ne: "cons_r q \<noteq> cons_e q" by (simp add: input_queue_def ring_empty)
  show fr: "input_queue q = cons_ch q # input_queue (cons_next q)"
    using ring_get [OF ne, of 7 "cons_buf q"] by (simp add: input_queue_def cons_ch_def cons_next_def unat_mod_128)
  have "length (input_queue q) = Suc (length (input_queue (cons_next q)))" using fr by simp
  then show "cons_ok (cons_next q)" using q(1) by (simp add: cons_ok_def input_queue_def cons_next_def)
qed (simp add: cons_ok_def input_queue_def)

lemma input_queue_parts: "console_inv s \<Longrightarrow> input_queue s = committed s @ editing s"
  by (simp add: input_queue_def committed_def editing_def console_inv_def ring_split)

text \<open>The line editor that the console implements.\<close>

definition edit :: "u8 \<Rightarrow> bytes \<times> bytes \<Rightarrow> bytes \<times> bytes" where
  "edit c = (\<lambda>(q, l).
    if c = 16 then (q, l)
    else if c = 21 then (q, [])
    else if c = 8 \<or> c = 127 then (q, butlast l)
    else if c \<noteq> 0 \<and> length q + length l < 128 then
      let c = (if c = 13 then 10 else c) in
      if c = 10 \<or> c = 4 \<or> length q + length l = 127 then (q @ l @ [c], []) else (q, l @ [c])
    else (q, l))"

definition lines :: "'z cons_state_scheme \<Rightarrow> bytes \<times> bytes" where
  "lines s = (committed s, editing s)"

section \<open>Input interrupts\<close>

lemma uartputc_sync_fields [simp]:
  "cons_buf (uartputc_sync c s) = cons_buf s" "cons_r (uartputc_sync c s) = cons_r s" "cons_w (uartputc_sync c s) = cons_w s"
  "cons_e (uartputc_sync c s) = cons_e s" "u_rx (uart (uartputc_sync c s)) = u_rx (uart s)"
  by (simp_all add: uartputc_sync_def put_THR_def WriteReg_def)

lemma put_bytes_fields [simp]:
  "cons_buf (put_bytes bs s) = cons_buf s" "cons_r (put_bytes bs s) = cons_r s" "cons_w (put_bytes bs s) = cons_w s"
  "cons_e (put_bytes bs s) = cons_e s" "u_rx (uart (put_bytes bs s)) = u_rx (uart s)"
  by (induction bs arbitrary: s) (simp_all add: put_bytes_def)

text \<open>What \<open>lines\<close> and the invariant read of the state.\<close>

definition counters :: "'z cons_state_scheme \<Rightarrow> bytes \<times> u32 \<times> u32 \<times> u32" where
  "counters s = (cons_buf s, cons_r s, cons_w s, cons_e s)"

lemma lines_counters:
  assumes "counters s = counters t"
  shows "lines s = lines t" and "console_inv s = console_inv t"
  using assms by (simp_all add: counters_def lines_def committed_def editing_def console_inv_def cons_ok_def)

lemma counters_put_bytes [simp]: "counters (put_bytes bs s) = counters s"
  by (simp add: counters_def)

lemma erase_last:
  assumes "console_inv s" and "cons_e s \<noteq> cons_w s"
  shows "console_inv (s\<lparr>cons_e := cons_e s - 1\<rparr>)" and "lines (s\<lparr>cons_e := cons_e s - 1\<rparr>) = (committed s, butlast (editing s))"
proof -
  have "editing s \<noteq> []" using assms(2) by (auto simp: editing_def ring_empty)
  then have "0 < length (editing s)" by simp
  moreover have "length (input_queue s) = length (committed s) + length (editing s)" using input_queue_parts [OF assms(1)] by simp
  ultimately have l: "unat (cons_w s - cons_r s) < unat (cons_e s - cons_r s)"
    by (simp add: input_queue_def committed_def editing_def)
  then have "cons_r s \<noteq> cons_e s" by auto
  then have "unat (cons_e s - 1 - cons_r s) = unat (cons_e s - cons_r s) - 1" by (rule unat_diff_pred)
  moreover have e: "ring 7 (cons_buf s) (cons_w s) (cons_e s - 1) = butlast (editing s)"
    using assms(2) ring_unput [of "cons_w s" "cons_e s"] by (auto simp: editing_def)
  ultimately show "console_inv (s\<lparr>cons_e := cons_e s - 1\<rparr>)"
    using assms(1) l in_set_butlastD [of 10 "editing s"] by (auto simp: console_inv_def cons_ok_def editing_def)
  show "lines (s\<lparr>cons_e := cons_e s - 1\<rparr>) = (committed s, butlast (editing s))"
    using e by (simp add: lines_def committed_def editing_def)
qed

lemma kill_line_edits:
  assumes "console_inv s" and "length (editing s) \<le> k"
  shows "console_inv (kill_line k s) \<and> lines (kill_line k s) = (committed s, []) \<and> u_rx (uart (kill_line k s)) = u_rx (uart s)"
  using assms
proof (induction k arbitrary: s)
  case 0
  then show ?case by (simp add: lines_def)
next
  case (Suc k)
  show ?case
  proof (cases "cons_e s = cons_w s")
    case True
    then show ?thesis using Suc.prems by (simp add: lines_def editing_def ring_empty)
  next
    case False
    then have ne: "editing s \<noteq> []" by (auto simp: editing_def ring_empty)
    have "cons_buf s ! unat ((cons_e s - 1) mod 128) = last (editing s)"
      using False ring_last [of "cons_w s" "cons_e s" "cons_buf s" 7] by (auto simp: editing_def unat_mod_128)
    then have c: "cons_buf s ! unat ((cons_e s - 1) mod 128) \<noteq> 10"
      using Suc.prems(1) ne last_in_set by (fastforce simp: console_inv_def)
    let ?s = "put_bytes (consputc 0x100) (s\<lparr>cons_e := cons_e s - 1\<rparr>)"
    have "console_inv ?s" "lines ?s = (committed s, butlast (editing s))"
      using erase_last [OF Suc.prems(1) False] lines_counters [of ?s "s\<lparr>cons_e := cons_e s - 1\<rparr>"] by simp_all
    then show ?thesis using Suc.IH [of ?s] Suc.prems(2) False c by (simp add: lines_def)
  qed
qed

text \<open>Storing a character, and handing the line over to the readers.\<close>

lemma cons_put_edits:
  assumes "console_inv s" and "length (committed s) + length (editing s) < 128"
  shows "cons_ok (cons_put c s)" and "committed (cons_put c s) = committed s" and "editing (cons_put c s) = editing s @ [c]"
    and "input_queue (cons_put c s) = input_queue s @ [c]" and "cons_e (cons_put c s) - cons_r (cons_put c s) = cons_e s - cons_r s + 1"
proof -
  have ok: "cons_ok s" using assms(1) by (simp add: console_inv_def)
  have len: "length (input_queue s) < 128" using assms(2) input_queue_parts [OF assms(1)] by simp
  show "cons_ok (cons_put c s)" "input_queue (cons_put c s) = input_queue s @ [c]"
    using cq.put_ok [OF ok len] cq.put_contents [OF ok len] by simp_all
  have d: "length (cons_buf s) = 2 ^ 7" using ok by (simp add: cons_ok_def)
  have "length (editing s) < 2 ^ 7" using assms(2) by simp
  then show e: "editing (cons_put c s) = editing s @ [c]"
    using ring_put [OF _ d, of "cons_e s" "cons_w s" c] by (simp add: editing_def cons_put_def unat_mod_128)
  have "unat (cons_w s - cons_r s) \<le> unat (cons_e s + 1 - cons_r s)"
    using assms(1) len unat_Suc_diff [of "cons_e s" "cons_r s"] by (simp add: console_inv_def input_queue_def)
  then have "input_queue (cons_put c s) = committed (cons_put c s) @ editing (cons_put c s)"
    by (simp add: input_queue_def committed_def editing_def cons_put_def ring_split)
  then show "committed (cons_put c s) = committed s"
    using \<open>input_queue (cons_put c s) = input_queue s @ [c]\<close> input_queue_parts [OF assms(1)] e by simp
  show "cons_e (cons_put c s) - cons_r (cons_put c s) = cons_e s - cons_r s + 1" by (simp add: cons_put_def)
qed

lemma commit_line:
  assumes "cons_ok s"
  shows "console_inv (wakeup ch (s\<lparr>cons_w := cons_e s\<rparr>))" and "lines (wakeup ch (s\<lparr>cons_w := cons_e s\<rparr>)) = (input_queue s, [])"
  using assms
  by (simp_all add: console_inv_def cons_ok_def lines_def committed_def editing_def input_queue_def ring_def wakeup_def)

lemma full_word: "unat (a :: u32) < 128 \<Longrightarrow> a + 1 = 128 \<longleftrightarrow> unat a = 127"
  by (auto simp: word_unat_eq_iff unat_word_ariths)

lemma input_length: "console_inv s \<Longrightarrow> unat (cons_e s - cons_r s) = length (committed s) + length (editing s)"
  using input_queue_parts [of s] by (metis input_queue_def length_append length_ring)

lemma consoleintr_stores:
  assumes s: "console_inv s" and store: "c \<notin> {16, 21, 8, 127, 0}" "length (committed s) + length (editing s) < 128"
  shows "console_inv (consoleintr c s) \<and> lines (consoleintr c s) = edit c (lines s) \<and>
    u_rx (uart (consoleintr c s)) = u_rx (uart s)"
proof -
  let ?c = "if c = 13 then 10 else c" let ?p = "put_bytes (consputc (ucast ?c)) s"
  have p: "console_inv ?p" "committed ?p = committed s" "editing ?p = editing s" "input_queue ?p = input_queue s"
    using s lines_counters [of ?p s] by (simp_all add: lines_def input_queue_def)
  let ?t = "cons_put ?c ?p"
  have t: "cons_ok ?t" "committed ?t = committed s" "editing ?t = editing s @ [?c]" "input_queue ?t = input_queue s @ [?c]"
      "cons_e ?t - cons_r ?t = cons_e s - cons_r s + 1" "u_rx (uart ?t) = u_rx (uart s)"
    using cons_put_edits [OF p(1), of ?c] p(2-4) store(2) by (simp_all add: cons_put_def)
  have room: "cons_e s - cons_r s < 128" using input_length [OF s] store(2) by (simp add: word_less_nat_alt)
  have eq: "consoleintr c s = (if ?c = 10 \<or> ?c = 4 \<or> length (committed s) + length (editing s) = 127
      then wakeup Chan_cons (?t\<lparr>cons_w := cons_e ?t\<rparr>) else ?t)"
    using store room full_word [of "cons_e s - cons_r s"] t(5) input_length [OF s]
    by (simp only: consoleintr_def Let_def) auto
  show ?thesis
  proof (cases "?c = 10 \<or> ?c = 4 \<or> length (committed s) + length (editing s) = 127")
    case True
    then have "edit c (lines s) = (committed s @ editing s @ [?c], [])" using store by (auto simp: edit_def lines_def)
    then show ?thesis using True eq commit_line [OF t(1)] t(4,6) input_queue_parts [OF s] by (simp add: wakeup_def)
  next
    case False
    then have "edit c (lines s) = (committed s, editing s @ [?c])" using store by (auto simp: edit_def lines_def)
    moreover have "length (committed ?t) \<le> length (input_queue ?t)" using t(2,4) input_queue_parts [OF s] by simp
    then have "console_inv ?t" using False s t(1,3)
      by (auto simp: console_inv_def committed_def input_queue_def)
    ultimately show ?thesis using False eq t(2,3,6) by (simp add: lines_def)
  qed
qed

lemma consoleintr_edits:
  assumes s: "console_inv s"
  shows "console_inv (consoleintr c s) \<and> lines (consoleintr c s) = edit c (lines s) \<and>
    u_rx (uart (consoleintr c s)) = u_rx (uart s)"
proof -
  have kl: "unat (cons_e s - cons_w s) = length (editing s)" by (simp add: editing_def)
  consider (dump) "c = 16" | (kill) "c = 21" | (erase) "c = 8 \<or> c = 127"
    | (store) "c \<notin> {16, 21, 8, 127, 0}" "length (committed s) + length (editing s) < 128"
    | (drop) "c \<notin> {16, 21, 8, 127}" "c = 0 \<or> \<not> length (committed s) + length (editing s) < 128"
    by fastforce
  then show ?thesis
  proof cases
    case dump
    then show ?thesis using s lines_counters [of "put_bytes (procdump (procs s)) s" s]
      by (simp add: consoleintr_def edit_def lines_def)
  next
    case kill
    then show ?thesis using kill_line_edits [OF s] by (simp add: consoleintr_def edit_def lines_def kl)
  next
    case erase
    let ?s = "put_bytes (consputc 0x100) (s\<lparr>cons_e := cons_e s - 1\<rparr>)"
    show ?thesis
    proof (cases "cons_e s = cons_w s")
      case True
      then have "editing s = []" by (simp add: editing_def ring_empty)
      then show ?thesis using True erase s by (auto simp: consoleintr_def edit_def lines_def)
    next
      case False
      then show ?thesis using erase erase_last [OF s False] lines_counters [of ?s "s\<lparr>cons_e := cons_e s - 1\<rparr>"]
        by (auto simp: consoleintr_def edit_def lines_def)
    qed
  next
    case store
    then show ?thesis by (intro consoleintr_stores [OF s])
  next
    case drop
    then have "c = 0 \<or> \<not> cons_e s - cons_r s < 128" using input_length [OF s] by (simp add: word_less_nat_alt)
    then show ?thesis using drop s by (auto simp: consoleintr_def edit_def lines_def)
  qed
qed

lemma uartintr_fold:
  assumes "console_inv s" and "u_rx (uart s) = cs @ rest"
  shows "console_inv (fold (\<lambda>c s. consoleintr c (snd (uartgetc s))) cs s) \<and>
    lines (fold (\<lambda>c s. consoleintr c (snd (uartgetc s))) cs s) = fold edit cs (lines s) \<and>
    u_rx (uart (fold (\<lambda>c s. consoleintr c (snd (uartgetc s))) cs s)) = rest"
  using assms
proof (induction cs arbitrary: s)
  case (Cons c cs)
  let ?s = "snd (uartgetc s)"
  have g: "u_rx (uart ?s) = cs @ rest" "counters ?s = counters s" using Cons.prems by (simp_all add: uartgetc_def counters_def)
  have "console_inv ?s" "lines ?s = lines s" using lines_counters [OF g(2)] Cons.prems by simp_all
  then show ?case using consoleintr_edits [of ?s c] Cons.IH [of "consoleintr c ?s"] g(1) by simp
qed simp

section \<open>Reading\<close>

lemma take_char:
  assumes "console_inv s" and "committed s = c # q"
  shows "cons_r s \<noteq> cons_w s" and "cons_ch s = c" and "console_inv (cons_next s)"
    and "lines (cons_next s) = (q, editing s)"
proof -
  show ne: "cons_r s \<noteq> cons_w s" using assms(2) ring_empty [of 7 "cons_buf s" "cons_r s" "cons_w s"] by (auto simp: committed_def)
  from ring_get [OF this, of 7 "cons_buf s"] show c: "cons_ch s = c" and l: "lines (cons_next s) = (q, editing s)"
    using assms(2) by (simp_all add: committed_def cons_ch_def cons_next_def lines_def editing_def unat_mod_128)
  have p: "input_queue s = c # q @ editing s" using input_queue_parts [OF assms(1)] assms(2) by simp
  have ok: "cons_ok s" using assms(1) by (simp add: console_inv_def)
  have n: "input_queue (cons_next s) = q @ editing s" "cons_ok (cons_next s)"
    using cq.first_rest [OF ok] cq.rest_ok [OF ok] p by simp_all
  then have "length (committed (cons_next s)) \<le> length (input_queue (cons_next s))" using l by (simp add: lines_def)
  then show "console_inv (cons_next s)" using n(2) l assms(1)
    by (auto simp: console_inv_def committed_def input_queue_def lines_def)
qed

text \<open>What a read of at most \<open>n\<close> bytes delivers of a line \<open>xs\<close> that ends with \<open>c\<close>.\<close>

definition line_part :: "nat \<Rightarrow> bytes \<Rightarrow> u8 \<Rightarrow> bytes" where
  "line_part n xs c = take n (if c = 10 then xs @ [c] else xs)"

definition writable :: "memory \<Rightarrow> u64 \<Rightarrow> u64 \<Rightarrow> nat \<Rightarrow> bool" where
  "writable m pt addr n \<longleftrightarrow> (\<forall>k<n. present m pt (addr + of_nat k) \<and> pte 2 m pt (addr + of_nat k) AND PTE_W \<noteq> 0)"

lemma writable_Suc:
  "writable m pt addr (Suc n) \<Longrightarrow> present m pt addr \<and> pte 2 m pt addr AND PTE_W \<noteq> 0 \<and> writable m pt (addr + 1) n"
  by (force simp: writable_def add.assoc dest: spec [of _ "Suc _"] spec [of _ 0])

lemma writable_copied: "copied_out m m' pt va src \<Longrightarrow> writable m' pt = writable m pt"
  by (simp add: writable_def [abs_def] copied_out_present) (simp add: copied_out_def)

text \<open>One character that is delivered.\<close>

lemma consoleread_char:
  assumes "console_inv s" and "committed s = c # q" and "c \<noteq> 4" and "space_ok (mem s) (p_pagetable (myproc s))"
    and "writable (mem s) (p_pagetable (myproc s)) addr (Suc n)"
  obtains m where "copied_out (mem s) m (p_pagetable (myproc s)) addr [c]"
    and "consoleread_loop (To_user addr) target (Suc n) s =
      (if c = 10 then Ok (Return (int target - int n)) (cons_next s\<lparr>mem := m\<rparr>)
       else consoleread_loop (To_user (addr + 1)) target n (cons_next s\<lparr>mem := m\<rparr>))"
proof -
  have same: "mem (cons_next s) = mem s" "myproc (cons_next s) = myproc s" by (simp_all add: cons_next_def)
  obtain m where "copyout (p_pagetable (myproc s)) addr [c] (cons_next s) = Ok 0 (cons_next s\<lparr>mem := m\<rparr>)"
    "copied_out (mem s) m (p_pagetable (myproc s)) addr [c]"
    using copyout_byte [of "cons_next s" "p_pagetable (myproc s)" addr c] assms(4) writable_Suc [OF assms(5)] same by auto
  then show thesis using that [of m] take_char(1,2) [OF assms(1,2)] assms(3) same by (simp add: either_copyout_def Let_def)
qed

lemma lines_mem: "lines (s\<lparr>mem := m\<rparr>) = lines s" "console_inv (s\<lparr>mem := m\<rparr>) = console_inv s"
  by (rule lines_counters, simp add: counters_def)+

lemma consoleread_loop_line:
  fixes s :: "'z cons_state_scheme"
  defines "pt \<equiv> p_pagetable (myproc s)"
  assumes "console_inv s" and "committed s = xs @ c # ys" and "c = 10 \<or> c = 4" and "10 \<notin> set xs" and "4 \<notin> set xs"
    and "n \<le> target" and "space_ok (mem s) pt" and "unat addr + n < 2 ^ 64" and "writable (mem s) pt addr n"
  shows "\<exists>t. consoleread_loop (To_user addr) target n s = Ok (Return (int target - int n + int (length (line_part n xs c)))) t \<and>
    console_inv t \<and> copied_out (mem s) (mem t) pt addr (line_part n xs c) \<and>
    lines t = (drop (if c = 4 \<and> xs = [] \<and> 0 < n \<and> n = target then 1 else length (line_part n xs c)) (committed s), editing s)"
  using assms(2-) unfolding pt_def
proof (induction xs arbitrary: n addr s)
  case Nil
  show ?case
  proof (cases n)
    case 0
    then show ?thesis using Nil by (intro exI [of _ s]) (simp add: line_part_def copied_out_refl lines_def)
  next
    case (Suc k)
    have q: "committed s = c # ys" using Nil.prems(2) by simp
    show ?thesis
    proof (cases "c = 4")
      case True
      have undo: "cons_next s\<lparr>cons_r := cons_r (cons_next s) - 1\<rparr> = s" by (simp add: cons_next_def)
      show ?thesis using True Suc Nil.prems take_char [OF Nil.prems(1) q] undo
        by (auto simp: line_part_def Let_def lines_def cons_next_def copied_out_refl)
    next
      case False
      then have c: "c = 10" using Nil.prems(3) by simp
      obtain m where m: "copied_out (mem s) m (p_pagetable (myproc s)) addr [c]"
        "consoleread_loop (To_user addr) target (Suc k) s = Ok (Return (int target - int k)) (cons_next s\<lparr>mem := m\<rparr>)"
        using consoleread_char [OF Nil.prems(1) q False Nil.prems(7), of addr k target] Nil.prems(9) Suc c by auto
      then show ?thesis using Suc c take_char(3,4) [OF Nil.prems(1) q] q
        by (simp add: line_part_def lines_mem)
    qed
  qed
next
  case (Cons x xs)
  show ?case
  proof (cases n)
    case 0
    then show ?thesis using Cons.prems by (intro exI [of _ s]) (simp add: line_part_def copied_out_refl lines_def)
  next
    case (Suc k)
    have q: "committed s = x # xs @ c # ys" and x: "x \<noteq> 4" "x \<noteq> 10" using Cons.prems by auto
    obtain m where m: "copied_out (mem s) m (p_pagetable (myproc s)) addr [x]"
      "consoleread_loop (To_user addr) target (Suc k) s = consoleread_loop (To_user (addr + 1)) target k (cons_next s\<lparr>mem := m\<rparr>)"
      using consoleread_char [OF Cons.prems(1) q x(1) Cons.prems(7), of addr k target] Cons.prems(9) Suc x(2) by auto
    let ?s = "cons_next s\<lparr>mem := m\<rparr>"
    have s: "console_inv ?s" "lines ?s = (xs @ c # ys, editing s)" "myproc ?s = myproc s"
      using take_char(3,4) [OF Cons.prems(1) q] by (simp_all add: lines_mem cons_next_def)
    have a: "unat (addr + 1) = Suc (unat addr)" using Cons.prems(8) Suc by (simp add: unat_word_ariths)
    have w: "writable m (p_pagetable (myproc s)) (addr + 1) k"
      using writable_Suc Cons.prems(9) writable_copied [OF m(1)] Suc by metis
    obtain t where t: "consoleread_loop (To_user (addr + 1)) target k ?s = Ok (Return (int target - int k + int (length (line_part k xs c)))) t"
      "console_inv t" "copied_out m (mem t) (p_pagetable (myproc s)) (addr + 1) (line_part k xs c)"
      "lines t = (drop (length (line_part k xs c)) (xs @ c # ys), editing s)"
      using Cons.IH [of ?s k "addr + 1"] Cons.prems s a w m(1) Suc by (auto simp: lines_def copied_out_def)
    have "line_part (Suc k) (x # xs) c = [x] @ line_part k xs c" by (simp add: line_part_def)
    moreover have "copied_out (mem s) (mem t) (p_pagetable (myproc s)) addr ([x] @ line_part k xs c)"
      using t(3) Cons.prems(8) Suc by (intro copied_out_append [OF m(1)]) (auto simp: line_part_def)
    ultimately show ?thesis using t m(2) Suc q by auto
  qed
qed

section \<open>Properties\<close>

text \<open>
  (C22) The input interrupt handler refines a line editor: for any bytes that the UART has received, and
  also when the 32-bit counters wrap around, the input that readers may have and the line being
  edited become what the editor makes of those bytes (erase, kill line, end of line, end of file,
  a buffer of 128 bytes in all), every byte is consumed, and \<^verbatim>\<open>r\<close>, \<^verbatim>\<open>w\<close>, \<^verbatim>\<open>e\<close> stay in order.
\<close>

theorem uartintr_edits:
  assumes "console_inv s"
  shows "console_inv (uartintr s) \<and> lines (uartintr s) = fold edit (u_rx (uart s)) (lines s) \<and> u_rx (uart (uartintr s)) = []"
proof -
  let ?s = "if u_idle (uart s) then wakeup Chan_tx (s\<lparr>tx_busy := False\<rparr>) else s"
  have "counters ?s = counters s" "u_rx (uart ?s) = u_rx (uart s)" by (simp_all add: counters_def wakeup_def)
  then show ?thesis using uartintr_fold [of ?s "u_rx (uart s)" "[]"] lines_counters [of ?s s] assms
    by (simp add: uartintr_def Let_def)
qed

text \<open>
  (C38) \<^verbatim>\<open>consoleread\<close> delivers one line: when the input begins with \<open>xs\<close> ended by a newline or by
  end-of-file, a read of \<open>n\<close> bytes into mapped, writable user memory gives the line with its
  newline, cut to \<open>n\<close>, and leaves the rest. An end-of-file that comes first is consumed and gives a
  read of 0 bytes; after a part of a line it stays for the next read.
\<close>

theorem consoleread_takes_line:
  assumes "console_inv s" and "committed s = xs @ c # ys" and "c = 10 \<or> c = 4" and "10 \<notin> set xs" and "4 \<notin> set xs" and "0 < n"
    and "space_ok (mem s) (p_pagetable (myproc s))" and "unat addr + n \<le> unat MAXVA"
    and "writable (mem s) (p_pagetable (myproc s)) addr n"
  shows "\<exists>t. consoleread (To_user addr) (int n) s = Ok (int (length (line_part n xs c))) t \<and> console_inv t \<and>
    ubytes (mem t) (p_pagetable (myproc s)) addr (length (line_part n xs c)) = line_part n xs c \<and>
    lines t = (drop (if c = 4 \<and> xs = [] then 1 else length (line_part n xs c)) (committed s), editing s)"
proof -
  let ?pt = "p_pagetable (myproc s)" let ?d = "line_part n xs c"
  have a: "unat addr + n < 2 ^ 64" using assms(8) by (simp add: MAXVA_unat)
  obtain t where t: "consoleread_loop (To_user addr) n n s = Ok (Return (int (length ?d))) t" "console_inv t"
      "copied_out (mem s) (mem t) ?pt addr ?d"
      "lines t = (drop (if c = 4 \<and> xs = [] then 1 else length ?d) (committed s), editing s)"
    using consoleread_loop_line [OF assms(1-5) order.refl assms(7) a assms(9)] assms(6) by auto
  have "length ?d \<le> n" by (simp add: line_part_def)
  then have "ubytes (mem t) ?pt addr (length ?d) = ?d"
    using t(3) assms(8,9)
    by (intro nth_equalityI) (auto simp: copied_out_def ubytes_def writable_def MAXVA_unat)
  then show ?thesis using t by (simp add: consoleread_def collapse_def)
qed

text \<open>A user types \<^verbatim>\<open>lt\<close>, erases the \<^verbatim>\<open>t\<close>, types \<^verbatim>\<open>s\<close> and return, as the counters wrap around.\<close>

definition console_ex :: kern_state where
  "console_ex = kern0\<lparr>mem := space_ex, procs := [proc1\<lparr>p_pagetable := 0x80001000\<rparr>], cons_r := -2, cons_w := -2, cons_e := -2,
    uart := \<lparr>u_rx = [108, 116, 127, 115, 13], u_tx = [], u_idle = True, u_regs = []\<rparr>\<rparr>"

lemma console_ex_inv: "console_inv console_ex" "lines console_ex = ([], [])"
  by (simp_all add: console_ex_def console_inv_def cons_ok_def kern0_def lines_def committed_def editing_def ring_def)

theorem uartintr_edits_witness: "lines (uartintr console_ex) = ([108, 115, 10], [])"
  using uartintr_edits [OF console_ex_inv(1)] console_ex_inv(2) by (simp add: console_ex_def edit_def)

definition console_line_ex :: kern_state where
  "console_line_ex = console_ex\<lparr>cons_buf := [10] @ replicate 125 0 @ [108, 115], cons_w := 1, cons_e := 1\<rparr>"

lemma console_line_ex_inv: "console_inv console_line_ex" "committed console_line_ex = [108, 115] @ 10 # []" "editing console_line_ex = []"
proof -
  have "ring 7 ([10] @ replicate 125 0 @ [108, 115 :: u8]) (- 2) 1 = [108, 115, 10]" by (simp add: ring_def upt_conv_Cons nth_append unsigned_minus_1_eq_mask mask_eq_exp_minus_1)
  then show "committed console_line_ex = [108, 115] @ 10 # []" by (simp add: console_line_ex_def console_ex_def committed_def)
  show "editing console_line_ex = []" by (simp add: console_line_ex_def console_ex_def editing_def ring_def)
  then show "console_inv console_line_ex" by (simp add: console_inv_def) (simp add: console_line_ex_def console_ex_def cons_ok_def)
qed

theorem consoleread_takes_line_witness:
  "\<exists>t. consoleread (To_user 0) 100 console_line_ex = Ok 3 t \<and> lines t = ([], []) \<and> ubytes (mem t) 0x80001000 0 3 = [108, 115, 10]"
proof -
  have s: "mem console_line_ex = space_ex" "p_pagetable (myproc console_line_ex) = 0x80001000"
    by (simp_all add: console_line_ex_def console_ex_def kern0_def)
  have w: "writable space_ex 0x80001000 0 100" using space_ex_present by (simp add: writable_def)
  show ?thesis
    using consoleread_takes_line [OF console_line_ex_inv(1,2), of 100 0] console_line_ex_inv(2,3) space_ex_ok(1) w
    unfolding s by (auto simp: MAXVA_unat line_part_def numeral_3_eq_3)
qed

end
