(* ===== verification/Vm_Frame.thy ===== *)
theory Vm_Frame
  imports Proc
begin

text \<open>
  What the operations on pages and page tables leave alone: they neither sleep nor change anything
  but the memory and the list of free pages.
\<close>

section \<open>Operations on memory only\<close>

text \<open>
  \<open>stays z m\<close>: the call does not sleep, and when it returns, everything but the memory and the free
  list is \<open>z\<close> as before.
\<close>

definition stays :: "'z \<Rightarrow> ('a, 'z kmem_state_scheme) kout \<Rightarrow> bool" where
  "stays z m \<longleftrightarrow> (case m of Ok _ t \<Rightarrow> kmem_state.more t = z | Sleep _ \<Rightarrow> False | Panic _ \<Rightarrow> True)"

lemma stays_simps [simp]:
  "stays z (Ok x t) \<longleftrightarrow> kmem_state.more t = z" "stays z (Panic msg)" "\<not> stays z (Sleep t)"
  by (simp_all add: stays_def)

lemma stays_kbind:
  assumes "stays z m" and "\<And>x t. m = Ok x t \<Longrightarrow> kmem_state.more t = z \<Longrightarrow> stays z (f x t)"
  shows "stays z (kbind m f)"
  using assms by (cases m) auto

lemma stays_kfor:
  assumes "kmem_state.more s = z" and "\<And>i t. i \<in> set xs \<Longrightarrow> kmem_state.more t = z \<Longrightarrow> stays z (f i t)"
  shows "stays z (kfor xs f s)"
  using assms by (induction xs arbitrary: s) (auto intro!: stays_kbind)

lemma stays_same: "stays (kmem_state.more s) m \<Longrightarrow> kmem_state.more s = z \<Longrightarrow> stays z m"
  by simp

named_theorems stays_intros \<open>operations that change only the memory\<close>

lemma stays_kalloc [stays_intros]: "kmem_state.more s = z \<Longrightarrow> stays z (kalloc s)"
  by (simp add: kalloc_def Let_def)

lemma stays_kfree [stays_intros]: "kmem_state.more s = z \<Longrightarrow> stays z (kfree pa s)"
  by (simp add: kfree_def Let_def)

lemma stays_walk [stays_intros]: "kmem_state.more s = z \<Longrightarrow> stays z (walk pt va alloc s)"
proof -
  have "stays z (walk_loop l pt va alloc s)" if "kmem_state.more s = z" for l pt s
    using that by (induction l arbitrary: pt s) (auto simp: Let_def intro!: stays_kbind stays_kalloc)
  then show "kmem_state.more s = z \<Longrightarrow> stays z (walk pt va alloc s)" by (simp add: walk_def)
qed

lemma stays_mappages_loop: "kmem_state.more s = z \<Longrightarrow> stays z (mappages_loop pt a lst pa perm s)"
proof (induction pt a lst pa perm s rule: mappages_loop.induct)
  case (1 pt a lst pa perm s)
  show ?case
    by (subst mappages_loop.simps)
      (use 1 in \<open>auto simp: Let_def intro!: stays_kbind stays_walk split: option.splits\<close>)
qed

lemma stays_mappages [stays_intros]: "kmem_state.more s = z \<Longrightarrow> stays z (mappages pt va sz pa perm s)"
  by (simp add: mappages_def stays_mappages_loop)

lemma stays_uvmunmap_loop: "kmem_state.more s = z \<Longrightarrow> stays z (uvmunmap_loop pt a e d s)"
proof (induction pt a e d s rule: uvmunmap_loop.induct)
  case (1 pt a e d s)
  show ?case
    by (subst uvmunmap_loop.simps)
      (use 1 in \<open>auto intro!: stays_kbind stays_intros split: option.splits\<close>)
qed

lemma stays_uvmunmap [stays_intros]: "kmem_state.more s = z \<Longrightarrow> stays z (uvmunmap pt va n d s)"
  by (simp add: uvmunmap_def stays_uvmunmap_loop)

lemma stays_freewalk [stays_intros]: "kmem_state.more s = z \<Longrightarrow> stays z (freewalk d pt s)"
  by (induction d arbitrary: pt s) (auto simp: Let_def intro!: stays_kbind stays_kfor stays_kfree)

lemma stays_uvmfree [stays_intros]: "kmem_state.more s = z \<Longrightarrow> stays z (uvmfree pt sz s)"
  by (auto simp: uvmfree_def intro!: stays_kbind stays_intros)

lemma stays_uvmcreate [stays_intros]: "kmem_state.more s = z \<Longrightarrow> stays z (uvmcreate s)"
  by (auto simp: uvmcreate_def intro!: stays_kbind stays_intros)

lemma stays_uvmcopy_loop: "kmem_state.more s = z \<Longrightarrow> stays z (uvmcopy_loop old new i sz s)"
proof (induction old new i sz s rule: uvmcopy_loop.induct)
  case (1 old new i sz s)
  show ?case
    by (subst uvmcopy_loop.simps)
      (use 1 in \<open>auto simp: Let_def intro!: stays_kbind stays_intros split: option.splits\<close>)
qed

lemma stays_uvmcopy [stays_intros]: "kmem_state.more s = z \<Longrightarrow> stays z (uvmcopy old new sz s)"
  by (simp add: uvmcopy_def stays_uvmcopy_loop)

lemma stays_proc_freepagetable [stays_intros]: "kmem_state.more s = z \<Longrightarrow> stays z (proc_freepagetable pt sz s)"
  by (auto simp: proc_freepagetable_def intro!: stays_kbind stays_intros)

lemma stays_proc_pagetable [stays_intros]: "kmem_state.more s = z \<Longrightarrow> stays z (proc_pagetable p s)"
  by (auto simp: proc_pagetable_def intro!: stays_kbind stays_intros)

lemma stays_fault_in [stays_intros]: "kmem_state.more s = z \<Longrightarrow> stays z (fault_in pt va s)"
  by (auto simp: fault_in_def vmfault_def walkaddr_def ismapped_def Let_def intro!: stays_kbind stays_intros split: option.splits)

lemma stays_copyout [stays_intros]: "kmem_state.more s = z \<Longrightarrow> stays z (copyout pt va src s)"
proof (induction pt va src s rule: copyout.induct)
  case (1 pt va src s)
  show ?case
    by (subst copyout.simps)
      (use 1 in \<open>auto simp: Let_def intro!: stays_kbind stays_intros split: option.splits\<close>)
qed

lemma same_procs:
  "kmem_state.more t = kmem_state.more s \<Longrightarrow> procs t = procs s \<and> cur t = cur s \<and> nextpid t = nextpid s \<and> initproc t = initproc s"
  by (cases s; cases t) simp

end
