(* ===== verification/Proc_Table.thy ===== *)
theory Proc_Table
  imports Vm_Frame
begin

text \<open>
  The process table as a whole: what \<^verbatim>\<open>fork\<close>, \<^verbatim>\<open>wait\<close>, \<^verbatim>\<open>exit\<close>, \<^verbatim>\<open>kill\<close>, sleeping, waking and the scheduler of
  \<^verbatim>\<open>kernel/proc.c\<close> do to its slots, the steps of a system with one CPU, an invariant of the table, and the
  fairness of the scheduler.
\<close>

section \<open>What each operation does to the table\<close>

text \<open>\<open>procs\<close> with slot \<open>i\<close> replaced.\<close>

definition only :: "nat \<Rightarrow> 'z proc_state_scheme \<Rightarrow> 'z proc_state_scheme \<Rightarrow> bool" where
  "only i s t \<longleftrightarrow> length (procs t) = length (procs s) \<and> cur t = cur s \<and> initproc t = initproc s \<and>
    (\<forall>j. j \<noteq> i \<longrightarrow> procs t ! j = procs s ! j)"

lemma only_refl [simp]: "only i s s"
  by (simp add: only_def)

lemma only_trans [trans]: "only i s t \<Longrightarrow> only i t u \<Longrightarrow> only i s u"
  by (simp add: only_def)

lemma only_upd [simp]: "only i s (upd_proc i f s)"
  by (simp add: only_def upd_proc_def)

lemma only_stays: "stays (kmem_state.more s) m \<Longrightarrow> m = Ok x t \<Longrightarrow> procs t = procs s \<and> only i s t \<and> nextpid t = nextpid s"
  using same_procs [of t s] by (auto simp: only_def)

definition cleared :: "proc \<Rightarrow> bool" where
  "cleared p \<longleftrightarrow> p_state p = UNUSED \<and> p_pid p = 0 \<and> p_parent p = NPROC \<and> p_killed p = 0"

lemma freeproc_table:
  assumes "freeproc p s = Ok x t" and "p < length (procs s)"
  shows "only p s t" and "nextpid t = nextpid s" and "cleared (procs t ! p)"
proof -
  obtain u where u: "(if p_trapframe (procs s ! p) \<noteq> 0 then kfree (p_trapframe (procs s ! p)) s else Ok () s) = Ok () u"
    using assms(1) by (auto simp: freeproc_def)
  let ?u = "upd_proc p (\<lambda>q. q\<lparr>p_trapframe := 0\<rparr>) u"
  obtain v where v: "(if p_pagetable (procs ?u ! p) \<noteq> 0
      then proc_freepagetable (p_pagetable (procs ?u ! p)) (p_sz (procs ?u ! p)) ?u else Ok () ?u) = Ok () v"
    and t: "t = upd_proc p (\<lambda>q. q\<lparr>p_pagetable := 0, p_sz := 0, p_pid := 0, p_parent := NPROC,
      p_name := (p_name q)[0 := 0], p_chan := Chan_none, p_killed := 0, p_xstate := 0, p_state := UNUSED\<rparr>) v"
    using assms(1) u by (auto simp: freeproc_def Let_def)
  have u': "procs u = procs s \<and> only p s u \<and> nextpid u = nextpid s"
    by (rule only_stays [OF _ u]) (auto intro: stays_intros)
  have v': "procs v = procs ?u \<and> only p ?u v \<and> nextpid v = nextpid ?u"
    by (rule only_stays [OF _ v]) (auto intro: stays_intros)
  have "only p u ?u" "only p v t" unfolding t by simp_all
  then show "only p s t" using u' v' only_trans by blast
  show "nextpid t = nextpid s" using u' v' t by (simp add: upd_proc_def)
  show "cleared (procs t ! p)" using u' v' t assms(2) by (simp add: upd_proc_def cleared_def)
qed

text \<open>The slot \<open>p\<close> was the first free one, and only it has changed.\<close>

definition took :: "nat \<Rightarrow> 'z proc_state_scheme \<Rightarrow> 'z proc_state_scheme \<Rightarrow> bool" where
  "took p s t \<longleftrightarrow> find (\<lambda>i. p_state (procs s ! i) = UNUSED) [0..<NPROC] = Some p \<and> p < NPROC \<and>
    p_state (procs s ! p) = UNUSED \<and> only p s t \<and> nextpid t = nextpid s + 1"

definition used_at :: "nat \<Rightarrow> 'z proc_state_scheme \<Rightarrow> 'z proc_state_scheme \<Rightarrow> bool" where
  "used_at p s t \<longleftrightarrow> took p s t \<and> p < length (procs t) \<and> p_state (procs t ! p) = USED \<and> p_pid (procs t ! p) = nextpid s \<and>
    p_killed (procs t ! p) = p_killed (procs s ! p)"

lemma used_at_upd:
  "used_at p s t \<Longrightarrow> p_state (f (procs t ! p)) = p_state (procs t ! p) \<Longrightarrow> p_pid (f (procs t ! p)) = p_pid (procs t ! p) \<Longrightarrow>
    p_killed (f (procs t ! p)) = p_killed (procs t ! p) \<Longrightarrow> used_at p s (upd_proc p f t)"
  by (simp add: used_at_def took_def only_def upd_proc_def)

lemma used_at_stays: "used_at p s t \<Longrightarrow> m = Ok x u \<Longrightarrow> stays (kmem_state.more t) m \<Longrightarrow> used_at p s u"
  using same_procs [of u t] by (auto simp: used_at_def took_def only_def)

lemma freeproc_used:
  assumes "used_at p s u" and "freeproc p u = Ok x t"
  shows "took p s t \<and> cleared (procs t ! p)"
  using freeproc_table [OF assms(2)] assms(1) by (auto simp: used_at_def took_def only_def)

lemma allocproc_table:
  assumes "allocproc s = Ok r t" and "length (procs s) = NPROC"
  shows "case r of None \<Rightarrow> t = s \<or> (\<exists>p. took p s t \<and> cleared (procs t ! p)) | Some p \<Rightarrow> used_at p s t"
proof (cases "find (\<lambda>i. p_state (procs s ! i) = UNUSED) [0..<NPROC]")
  case None
  then show ?thesis using assms(1) by (simp add: allocproc_def)
next
  case (Some p)
  let ?s = "upd_proc p (\<lambda>q. q\<lparr>p_pid := nextpid s, p_state := USED\<rparr>) (s\<lparr>nextpid := nextpid s + 1\<rparr>)"
  have s: "used_at p s ?s"
    using Some find_SomeD [OF Some] assms(2) by (simp add: used_at_def took_def only_def upd_proc_def)
  obtain tf u where u: "kalloc ?s = Ok tf u"
    and rest: "(let s = upd_proc p (\<lambda>q. q\<lparr>p_trapframe := tf\<rparr>) u in
          if tf = 0 then kbind (freeproc p s) (\<lambda>_ s. Ok None s)
          else kbind (proc_pagetable p s) (\<lambda>pt s.
            let s = upd_proc p (\<lambda>q. q\<lparr>p_pagetable := pt\<rparr>) s in
            if pt = 0 then kbind (freeproc p s) (\<lambda>_ s. Ok None s)
            else Ok (Some p) (upd_proc p (\<lambda>q. q\<lparr>p_context :=
                \<lparr>c_ra = k_forkret s, c_sp = p_kstack q + PGSIZE, c_s = replicate 12 0\<rparr>\<rparr>) s))) = Ok r t"
    using assms(1) Some by (auto simp: allocproc_def allocpid_def Let_def)
  let ?u = "upd_proc p (\<lambda>q. q\<lparr>p_trapframe := tf\<rparr>) u"
  have u': "used_at p s ?u"
    by (rule used_at_upd [OF used_at_stays [OF s u]]) (simp_all add: stays_intros)
  show ?thesis
  proof (cases "tf = 0")
    case True
    then show ?thesis using rest freeproc_used [OF u'] by auto
  next
    case False
    then obtain pt v where v: "proc_pagetable p ?u = Ok pt v" using rest by (auto simp: Let_def)
    let ?v = "upd_proc p (\<lambda>q. q\<lparr>p_pagetable := pt\<rparr>) v"
    have v': "used_at p s ?v"
      by (rule used_at_upd [OF used_at_stays [OF u' v]]) (simp_all add: stays_intros)
    show ?thesis using rest False v freeproc_used [OF v'] used_at_upd [OF v']
      by (auto simp: Let_def split: if_splits)
  qed
qed

section \<open>fork, wait, exit and kill\<close>

lemma used_at_files:
  assumes "used_at np s t" and "kfork_files p np t = Ok x u"
  shows "used_at np s u"
proof -
  have "used_at np s u" if "used_at np s t" "kfor xs (\<lambda>i s.
      case p_ofile (procs s ! p) ! i of
        None \<Rightarrow> Ok () s
      | Some f \<Rightarrow> kbind (filedup f s) (\<lambda>f s.
          Ok () (upd_proc np (\<lambda>q. q\<lparr>p_ofile := (p_ofile q)[i := Some f]\<rparr>) s))) t = Ok () u" for xs t
    using that
  proof (induction xs arbitrary: t)
    case (Cons i xs)
    from Cons.prems(2) obtain v where v: "(case p_ofile (procs t ! p) ! i of None \<Rightarrow> Ok () t
      | Some f \<Rightarrow> kbind (filedup f t) (\<lambda>f s. Ok () (upd_proc np (\<lambda>q. q\<lparr>p_ofile := (p_ofile q)[i := Some f]\<rparr>) s))) = Ok () v"
      by auto
    have "used_at np s v"
    proof (cases "p_ofile (procs t ! p) ! i")
      case None
      then show ?thesis using v Cons.prems(1) by simp
    next
      case (Some f)
      then have "v = upd_proc np (\<lambda>q. q\<lparr>p_ofile := (p_ofile q)[i := Some f]\<rparr>) (upd_file f (\<lambda>x. x\<lparr>f_ref := f_ref x + 1\<rparr>) t)"
        using v by (auto simp: filedup_def split: if_splits)
      moreover have "used_at np s (upd_file f (\<lambda>x. x\<lparr>f_ref := f_ref x + 1\<rparr>) t)"
        using Cons.prems(1) by (simp add: used_at_def took_def only_def upd_file_def)
      ultimately show ?thesis by (simp add: used_at_upd)
    qed
    then show ?case using Cons v by auto
  qed simp
  then show ?thesis using assms by (simp add: kfork_files_def)
qed

text \<open>\<^verbatim>\<open>fork\<close> gives a free slot to the child, which has the next pid; when it fails the slot is free again.\<close>

lemma kfork_table:
  assumes "kfork s = Ok r t" and "length (procs s) = NPROC"
  shows "r = -1 \<and> (t = s \<or> (\<exists>p. took p s t \<and> cleared (procs t ! p))) \<or>
    r = nextpid s \<and> (\<exists>p. took p s t \<and> p_state (procs t ! p) = RUNNABLE \<and> p_pid (procs t ! p) = nextpid s \<and>
      p_parent (procs t ! p) = cur s \<and> p_killed (procs t ! p) = p_killed (procs s ! p))"
proof -
  obtain np u where u: "allocproc s = Ok np u" using assms(1) by (auto simp: kfork_def Let_def)
  note a = allocproc_table [OF u assms(2)]
  show ?thesis
  proof (cases np)
    case None
    then show ?thesis using assms(1) u a by (auto simp: kfork_def Let_def)
  next
    case (Some p)
    then have au: "used_at p s u" using a by simp
    obtain k v where v: "uvmcopy (p_pagetable (procs u ! cur s)) (p_pagetable (procs u ! p)) (p_sz (procs u ! cur s)) u = Ok k v"
      using assms(1) u Some by (auto simp: kfork_def Let_def)
    have av: "used_at p s v" by (rule used_at_stays [OF au v]) (simp add: stays_intros)
    show ?thesis
    proof (cases "k < 0")
      case True
      then show ?thesis using assms(1) u v Some freeproc_used [OF av] by (auto simp: kfork_def Let_def)
    next
      case False
      let ?v = "upd_proc p (\<lambda>q. q\<lparr>p_sz := p_sz (procs v ! cur s)\<rparr>) v" let ?tf = "p_trapframe (procs ?v ! p)"
      let ?w = "?v\<lparr>mem := memmove (mem ?v) ?tf (p_trapframe (procs ?v ! cur s)) 288\<rparr>"
      let ?x = "?w\<lparr>mem := store64 (mem ?w) (?tf + tf_a0) 0\<rparr>"
      have "used_at p s ?v" by (rule used_at_upd [OF av]) simp_all
      then have ax: "used_at p s ?x" by (simp add: used_at_def took_def only_def)
      obtain y where y: "kfork_files (cur s) p ?x = Ok () y"
        using assms(1) u v Some False by (auto simp: kfork_def Let_def)
      have ay: "used_at p s y" by (rule used_at_files [OF ax y])
      let ?cwd = "the (p_cwd (procs y ! cur s))" let ?z = "upd_inode ?cwd (\<lambda>ip. ip\<lparr>i_ref := i_ref ip + 1\<rparr>) y"
      have az: "used_at p s ?z" using ay by (simp add: used_at_def took_def only_def upd_inode_def)
      have "r = nextpid s \<and> t = upd_proc p (\<lambda>q. q\<lparr>p_parent := cur s, p_state := RUNNABLE\<rparr>) (upd_proc p (\<lambda>q. q\<lparr>p_cwd := Some ?cwd,
                     p_name := safestrcpy (p_name q) (p_name (procs ?z ! cur s)) 16\<rparr>) ?z)"
        using assms(1) u v Some False y az by (simp add: kfork_def Let_def idup_def upd_proc_def used_at_def)
      then show ?thesis using az by (auto simp: used_at_def took_def only_def upd_proc_def)
    qed
  qed
qed

text \<open>\<^verbatim>\<open>wait\<close> frees at most one slot, of a zombie child, and returns its pid.\<close>

lemma kwait_table:
  assumes "kwait a s = Ok r t" and "length (procs s) = NPROC"
  shows "nextpid t = nextpid s" and "r = -1 \<and> procs t = procs s \<and> cur t = cur s \<and> initproc t = initproc s \<or>
    (\<exists>p<NPROC. p_parent (procs s ! p) = cur s \<and> p_state (procs s ! p) = ZOMBIE \<and> r = p_pid (procs s ! p) \<and>
      only p s t \<and> cleared (procs t ! p))"
proof -
  have "nextpid t = nextpid s \<and> (r = -1 \<and> procs t = procs s \<and> cur t = cur s \<and> initproc t = initproc s \<or>
    (\<exists>p<NPROC. p_parent (procs s ! p) = cur s \<and> p_state (procs s ! p) = ZOMBIE \<and> r = p_pid (procs s ! p) \<and>
      only p s t \<and> cleared (procs t ! p)))"
  proof (cases "find (\<lambda>i. p_parent (procs s ! i) = cur s \<and> p_state (procs s ! i) = ZOMBIE) [0..<NPROC]")
    case None
    then show ?thesis using assms(1) by (auto simp: kwait_def Let_def sleep_def sched_def split: if_splits)
  next
    case (Some p)
    let ?m = "if a \<noteq> 0 then copyout (p_pagetable (myproc s)) a (le_bytes 4 (int_pat (p_xstate (procs s ! p)))) s else Ok 0 s"
    obtain k u where u: "?m = Ok k u" and rest: "(if k < 0 then Ok (- 1) u else kbind (freeproc p u) (\<lambda>_. Ok (p_pid (procs s ! p)))) = Ok r t"
      using assms(1) Some by (auto simp: kwait_def Let_def)
    have "stays (kmem_state.more s) ?m" by (simp add: stays_intros)
    then have same: "procs u = procs s \<and> cur u = cur s \<and> nextpid u = nextpid s \<and> initproc u = initproc s"
      unfolding u by (intro same_procs) simp
    show ?thesis
    proof (cases "k < 0")
      case False
      then obtain x where f: "freeproc p u = Ok x t" "r = p_pid (procs s ! p)" using rest by auto
      then show ?thesis using freeproc_table [OF f(1)] find_SomeD [OF Some] same assms(2)
        by (intro conjI disjI2 exI [of _ p]) (auto simp: only_def)
    qed (use rest same in auto)
  qed
  then show "nextpid t = nextpid s" and "r = -1 \<and> procs t = procs s \<and> cur t = cur s \<and> initproc t = initproc s \<or>
    (\<exists>p<NPROC. p_parent (procs s ! p) = cur s \<and> p_state (procs s ! p) = ZOMBIE \<and> r = p_pid (procs s ! p) \<and>
      only p s t \<and> cleared (procs t ! p))" by auto
qed

section \<open>Moving between sleeping, runnable and running\<close>

definition alive :: "proc \<Rightarrow> bool" where
  "alive p \<longleftrightarrow> p_state p \<in> {SLEEPING, RUNNABLE, RUNNING}"

text \<open>The same process, perhaps in another of these three states; and one that does not stop being runnable.\<close>

definition like :: "proc \<Rightarrow> proc \<Rightarrow> bool" where
  "like p q \<longleftrightarrow> p_pid q = p_pid p \<and> (p_state q = p_state p \<or> alive p \<and> alive q)"

definition still_ready :: "proc \<Rightarrow> proc \<Rightarrow> bool" where
  "still_ready p q \<longleftrightarrow> (p_state p = RUNNABLE \<longrightarrow> p_state q = RUNNABLE)"

definition relabel :: "'z proc_state_scheme \<Rightarrow> 'z proc_state_scheme \<Rightarrow> bool" where
  "relabel s t \<longleftrightarrow> length (procs t) = length (procs s) \<and> nextpid t = nextpid s \<and> initproc t = initproc s \<and>
    (\<forall>i<length (procs s). like (procs s ! i) (procs t ! i) \<and> p_parent (procs t ! i) = p_parent (procs s ! i))"

lemma like_refl [simp]: "like p p" "still_ready p p"
  by (simp_all add: like_def still_ready_def)

lemma like_trans: "like p q \<Longrightarrow> like q r \<Longrightarrow> like p r" "still_ready p q \<Longrightarrow> still_ready q r \<Longrightarrow> still_ready p r"
  by (auto simp: like_def alive_def still_ready_def)


lemma wake_one_like:
  "like p (wake_one ch me i p)" "p_parent (wake_one ch me i p) = p_parent p" "still_ready p (wake_one ch me i p)"
  "i = me \<Longrightarrow> wake_one ch me i p = p"
  by (simp_all add: wake_one_def like_def alive_def still_ready_def)



lemma kkill_table:
  assumes "kkill pid s = Ok r t"
  shows "relabel s t" and "cur t = cur s" and "j < length (procs s) \<Longrightarrow> still_ready (procs s ! j) (procs t ! j)"
proof -
  have *: "length qs = length ps \<and> (\<forall>i<length ps. like (ps ! i) (qs ! i) \<and> p_parent (qs ! i) = p_parent (ps ! i) \<and>
      still_ready (ps ! i) (qs ! i))"
    if "kkill_loop pid ps = Some qs" for ps qs
    using that
  proof (induction ps arbitrary: qs)
    case (Cons p ps)
    show ?case
    proof (cases "p_pid p = pid")
      case True
      then have "qs = (let p = p\<lparr>p_killed := 1\<rparr> in if p_state p = SLEEPING then p\<lparr>p_state := RUNNABLE\<rparr> else p) # ps"
        using Cons.prems by simp
      then show ?thesis by (simp add: Let_def nth_Cons like_def alive_def still_ready_def split: nat.split)
    next
      case False
      then obtain qs' where "kkill_loop pid ps = Some qs'" "qs = p # qs'" using Cons.prems by auto
      then show ?thesis using Cons.IH by (simp add: nth_Cons split: nat.split)
    qed
  qed simp
  show "relabel s t"
    using assms * [of "procs s"] by (cases "kkill_loop pid (procs s)") (auto simp: kkill_def relabel_def)
  show "cur t = cur s"
    using assms by (cases "kkill_loop pid (procs s)") (auto simp: kkill_def)
  show "still_ready (procs s ! j) (procs t ! j)" if "j < length (procs s)"
    using assms * [of "procs s"] that by (cases "kkill_loop pid (procs s)") (auto simp: kkill_def)
qed

text \<open>Slot \<open>i\<close> after \<^verbatim>\<open>reparent(p)\<close> has gone over it, if it has.\<close>

definition handed_over :: "nat \<Rightarrow> bool \<Rightarrow> nat \<Rightarrow> 'z proc_state_scheme \<Rightarrow> 'z proc_state_scheme \<Rightarrow> bool" where
  "handed_over p b i s t \<longleftrightarrow> like (procs s ! i) (procs t ! i) \<and> still_ready (procs s ! i) (procs t ! i) \<and>
    p_parent (procs t ! i) = (if b \<and> p_parent (procs s ! i) = p then initproc s else p_parent (procs s ! i)) \<and>
    (i = cur s \<longrightarrow> p_state (procs t ! i) = p_state (procs s ! i))"

definition same_but :: "'z proc_state_scheme \<Rightarrow> 'z proc_state_scheme \<Rightarrow> bool" where
  "same_but s t \<longleftrightarrow> length (procs t) = length (procs s) \<and> nextpid t = nextpid s \<and> initproc t = initproc s \<and> cur t = cur s"

lemma handed_over_wakeup:
  assumes "handed_over p b i s t" and "same_but s t" and "i < length (procs s)"
  shows "handed_over p b i s (wakeup ch t)"
  using assms by (auto simp: handed_over_def same_but_def nth_procs_wakeup wake_one_like(2,4)
    intro: like_trans wake_one_like(1,3))

lemma same_but_wakeup [simp]: "same_but s (wakeup ch t) = same_but s t"
  by (simp add: same_but_def)

lemma handed_over_upd:
  assumes "handed_over p False i s t" and "same_but s t" and "i < length (procs s)" and "p_parent (procs s ! i) = p"
  shows "handed_over p True i s (upd_proc i (\<lambda>q. q\<lparr>p_parent := initproc t\<rparr>) t)"
  using assms by (auto simp: handed_over_def same_but_def upd_proc_def like_def alive_def still_ready_def)

lemma handed_over_other: "i \<noteq> j \<Longrightarrow> handed_over p b i s (upd_proc j f t) = handed_over p b i s t"
  by (simp add: handed_over_def upd_proc_def)

lemma reparent_table:
  assumes "length (procs s) = NPROC"
  shows "same_but s (reparent p s)" and "i < NPROC \<Longrightarrow> handed_over p True i s (reparent p s)"
proof -
  define step :: "nat \<Rightarrow> 'a proc_state_scheme \<Rightarrow> 'a proc_state_scheme" where
    "step = (\<lambda>i s. if p_parent (procs s ! i) = p
      then wakeup (Chan_proc (initproc s)) (upd_proc i (\<lambda>q. q\<lparr>p_parent := initproc s\<rparr>) s) else s)"
  have "same_but s (fold step [0..<n] s) \<and> (\<forall>i<NPROC. handed_over p (i < n) i s (fold step [0..<n] s))" if "n \<le> NPROC" for n
    using that
  proof (induction n)
    case 0
    then show ?case using assms by (simp add: same_but_def handed_over_def)
  next
    case (Suc n)
    let ?t = "fold step [0..<n] s" let ?u = "upd_proc n (\<lambda>q. q\<lparr>p_parent := initproc ?t\<rparr>) ?t"
    have sb: "same_but s ?t" and ho: "i < NPROC \<Longrightarrow> handed_over p (i < n) i s ?t" for i using Suc by auto
    have n: "n < NPROC" "p_parent (procs ?t ! n) = p_parent (procs s ! n)"
      using Suc.prems ho [of n] by (simp_all add: handed_over_def)
    show ?case
    proof (cases "p_parent (procs s ! n) = p")
      case True
      have su: "same_but s ?u" using sb by (simp add: same_but_def upd_proc_def)
      have "handed_over p (i < Suc n) i s ?u" if "i < NPROC" for i
        using ho [OF that] handed_over_upd [OF _ sb, of p n] ho [OF n(1)] True n assms
        by (cases "i = n") (auto simp: handed_over_other less_Suc_eq)
      then show ?thesis using True n su handed_over_wakeup [OF _ su] assms by (simp add: step_def)
    next
      case False
      have "handed_over p (i < Suc n) i s ?t" if "i < NPROC" for i
        using ho [OF that] False by (cases "i = n") (auto simp: handed_over_def less_Suc_eq)
      then show ?thesis using False n sb by (simp add: step_def)
    qed
  qed
  from this [of NPROC] show "same_but s (reparent p s)" and "i < NPROC \<Longrightarrow> handed_over p True i s (reparent p s)"
    by (simp_all add: reparent_def step_def handed_over_def)
qed

section \<open>Steps of the system\<close>

text \<open>
  What can happen to the process table on one CPU: the running process calls an operation (one
  that goes to sleep switches back to the scheduler, which sets \<^verbatim>\<open>c->proc\<close> to 0), or an interrupt
  wakes sleepers.
\<close>

definition running :: "'z proc_state_scheme \<Rightarrow> bool" where
  "running s \<longleftrightarrow> cur s < NPROC \<and> p_state (myproc s) = RUNNING"

inductive run_step :: "'z kern_state_scheme \<Rightarrow> 'z kern_state_scheme \<Rightarrow> bool" where
  fork: "running s \<Longrightarrow> kfork s = Ok r t \<Longrightarrow> run_step s t"
| wait: "running s \<Longrightarrow> kwait a s = Ok r t \<Longrightarrow> run_step s t"
| wait_sleep: "running s \<Longrightarrow> kwait a s = Sleep t \<Longrightarrow> run_step s (t\<lparr>cur := NPROC\<rparr>)"
| kill: "running s \<Longrightarrow> kkill pid s = Ok r t \<Longrightarrow> run_step s t"
| exit: "running s \<Longrightarrow> cur s \<noteq> initproc s \<Longrightarrow> kexit_zombie status s = Sleep t \<Longrightarrow> run_step s (t\<lparr>cur := NPROC\<rparr>)"
| sleep: "running s \<Longrightarrow> (sleep ch s :: (unit, 'z kern_state_scheme) kout) = Sleep t \<Longrightarrow> run_step s (t\<lparr>cur := NPROC\<rparr>)"
| yield: "running s \<Longrightarrow> (yield s :: (unit, 'z kern_state_scheme) kout) = Sleep t \<Longrightarrow> run_step s (t\<lparr>cur := NPROC\<rparr>)"
| wake: "run_step s (wakeup ch s)"


text \<open>
  The table is in order: the used slots have distinct positive pids below \<^verbatim>\<open>nextpid\<close>, no slot is half
  allocated, init is alive, and the parent of every other process, also of a zombie, is alive.
\<close>

definition proc_inv :: "'z proc_state_scheme \<Rightarrow> bool" where
  "proc_inv s \<longleftrightarrow> length (procs s) = NPROC \<and> 0 < nextpid s \<and> initproc s < NPROC \<and> alive (procs s ! initproc s) \<and>
    (\<forall>i<NPROC. p_state (procs s ! i) \<noteq> USED \<and> (p_state (procs s ! i) = UNUSED \<longleftrightarrow> p_pid (procs s ! i) = 0) \<and>
      0 \<le> p_pid (procs s ! i) \<and> p_pid (procs s ! i) < nextpid s) \<and>
    (\<forall>i<NPROC. \<forall>j<NPROC. p_pid (procs s ! i) = p_pid (procs s ! j) \<longrightarrow> p_pid (procs s ! i) \<noteq> 0 \<longrightarrow> i = j) \<and>
    (\<forall>i<NPROC. p_state (procs s ! i) \<noteq> UNUSED \<longrightarrow> i \<noteq> initproc s \<longrightarrow>
      p_parent (procs s ! i) < NPROC \<and> alive (procs s ! p_parent (procs s ! i)))"




lemma kexit_zombie_table:
  fixes s :: "'z proc_state_scheme"
  assumes "length (procs s) = NPROC" and "running s" and "kexit_zombie status s = Sleep t"
  shows "length (procs t) = NPROC" and "nextpid t = nextpid s" and "initproc t = initproc s"
    and "p_state (procs t ! cur s) = ZOMBIE" and "p_pid (procs t ! cur s) = p_pid (procs s ! cur s)"
    and "\<forall>i<NPROC. p_parent (procs t ! i) = (if p_parent (procs s ! i) = cur s then initproc s else p_parent (procs s ! i))"
    and "\<forall>i<NPROC. i \<noteq> cur s \<longrightarrow> like (procs s ! i) (procs t ! i) \<and> still_ready (procs s ! i) (procs t ! i)"
proof -
  let ?r = "reparent (cur s) s" let ?w = "wakeup (Chan_proc (p_parent (procs ?r ! cur s))) ?r"
  have sb: "same_but s ?w" using reparent_table(1) [OF assms(1)] by simp
  have ho: "handed_over (cur s) True i s ?w" if "i < NPROC" for i
    using reparent_table(1) [OF assms(1), of "cur s"] reparent_table(2) [OF assms(1) that, of "cur s"] that assms(1)
    by (intro handed_over_wakeup) auto
  have c: "cur s < NPROC" using assms(2) by (simp add: running_def)
  have t: "t = upd_proc (cur s) (\<lambda>q. q\<lparr>p_xstate := status, p_state := ZOMBIE\<rparr>) ?w"
    using assms(3) by (auto simp: kexit_zombie_def Let_def sched_def split: if_splits)
  show "length (procs t) = NPROC" "nextpid t = nextpid s" "initproc t = initproc s" "p_state (procs t ! cur s) = ZOMBIE"
    using sb c assms(1) by (simp_all add: t upd_proc_def same_but_def)
  show "p_pid (procs t ! cur s) = p_pid (procs s ! cur s)"
    using ho [OF c] sb c assms(1) by (simp add: t upd_proc_def same_but_def handed_over_def like_def)
  show "\<forall>i<NPROC. p_parent (procs t ! i) = (if p_parent (procs s ! i) = cur s then initproc s else p_parent (procs s ! i))"
    using ho sb c assms(1) by (simp add: t upd_proc_def same_but_def handed_over_def nth_list_update)
  show "\<forall>i<NPROC. i \<noteq> cur s \<longrightarrow> like (procs s ! i) (procs t ! i) \<and> still_ready (procs s ! i) (procs t ! i)"
    using ho by (simp add: t upd_proc_def handed_over_def)
qed


lemma sleep_SleepD:
  assumes "(sleep ch s :: (unit, 'z proc_state_scheme) kout) = Sleep t"
  shows "t = upd_proc (cur s) (\<lambda>p. p\<lparr>p_chan := ch, p_state := SLEEPING\<rparr>) s"
  using assms by (auto simp: sleep_def sched_def split: if_splits)

lemma yield_Sleep:
  assumes "(yield s :: (unit, 'z proc_state_scheme) kout) = Sleep t"
  shows "t = upd_proc (cur s) (\<lambda>p. p\<lparr>p_state := RUNNABLE\<rparr>) s"
  using assms by (auto simp: yield_def sched_def split: if_splits)

lemma stays_awake: "stays z m \<Longrightarrow> m \<noteq> Sleep t"
  by auto

lemmas awake = stays_kfree [OF refl, THEN stays_awake] stays_proc_freepagetable [OF refl, THEN stays_awake]
  stays_copyout [OF refl, THEN stays_awake]

lemma kwait_Sleep:
  assumes "kwait a s = Sleep t"
  shows "t = upd_proc (cur s) (\<lambda>p. p\<lparr>p_chan := Chan_proc (cur s), p_state := SLEEPING\<rparr>) s"
proof (cases "find (\<lambda>i. p_parent (procs s ! i) = cur s \<and> p_state (procs s ! i) = ZOMBIE) [0..<NPROC]")
  case None
  then show ?thesis using assms by (auto simp: kwait_def Let_def sleep_def sched_def split: if_splits)
next
  case (Some p)
  have "freeproc p u \<noteq> Sleep v" for u v :: "'a kern_state_scheme"
    by (auto simp: freeproc_def Let_def kbind_Sleep_iff awake split: if_splits)
  then show ?thesis using assms Some by (auto simp: kwait_def Let_def kbind_Sleep_iff awake split: if_splits)
qed

text \<open>Every step keeps the table in order.\<close>

lemma proc_inv_cur [simp]: "proc_inv (s\<lparr>cur := c\<rparr>) = proc_inv s"
  by (simp add: proc_inv_def)




section \<open>No runnable process is forgotten\<close>

text \<open>Only the scheduler takes a process out of the runnable state.\<close>

definition waiting :: "nat \<Rightarrow> 'z proc_state_scheme \<Rightarrow> bool" where
  "waiting j s \<longleftrightarrow> length (procs s) = NPROC \<and> j < NPROC \<and> j \<noteq> cur s \<and> p_state (procs s ! j) = RUNNABLE"

lemma run_step_waiting:
  assumes "run_step s t" and "waiting j s"
  shows "waiting j t"
proof -
  have len: "length (procs s) = NPROC" and j: "j < NPROC" "j \<noteq> cur s" "p_state (procs s ! j) = RUNNABLE"
    using assms(2) by (simp_all add: waiting_def)
  show ?thesis using assms(1)
  proof cases
    case (fork r)
    from kfork_table [OF fork(2) len] show ?thesis
      using assms(2) j by (auto simp: took_def only_def waiting_def) (metis j(3) procstate.distinct(5))+
  next
    case (wait a r)
    from kwait_table [OF wait(2) len] show ?thesis
      using assms(2) j by (auto simp: only_def waiting_def) (metis j(3) procstate.distinct(27))+
  next
    case (wait_sleep a u)
    then show ?thesis using kwait_Sleep [OF wait_sleep(3)] assms(2) by (auto simp: waiting_def upd_proc_def)
  next
    case (kill pid r)
    then show ?thesis using kkill_table [OF kill(2)] assms(2) by (simp add: waiting_def relabel_def still_ready_def)
  next
    case (exit status u)
    then show ?thesis using kexit_zombie_table [OF len exit(2,4)] assms(2) by (simp add: waiting_def still_ready_def)
  next
    case (sleep ch u)
    then show ?thesis using sleep_SleepD [OF sleep(3)] assms(2) by (auto simp: waiting_def upd_proc_def)
  next
    case (yield u)
    then show ?thesis using yield_Sleep [OF yield(3)] assms(2) by (auto simp: waiting_def upd_proc_def)
  next
    case (wake ch)
    then show ?thesis using assms(2) wake_one_like(3) [of "procs s ! j" ch "cur s" j]
      by (simp add: waiting_def nth_procs_wakeup still_ready_def)
  qed
qed

text \<open>
  A turn of the scheduler at slot \<open>k\<close>: it looks for a process from there on, and the one it finds runs until
  it switches back (when it finds none, interrupts may still wake sleepers).
\<close>

definition turn :: "nat \<times> 'z kern_state_scheme \<Rightarrow> nat \<times> 'z kern_state_scheme \<Rightarrow> bool" where
  "turn x y \<longleftrightarrow> cur (snd y) = NPROC \<and>
    (\<exists>t. scheduler (fst x) (snd x) = (fst y, t) \<and> run_step\<^sup>*\<^sup>* t (snd y))"

definition dispatched :: "nat \<Rightarrow> nat \<times> 'z kern_state_scheme \<Rightarrow> bool" where
  "dispatched j x \<longleftrightarrow> (case scheduler (fst x) (snd x) of (k, t) \<Rightarrow> cur t = j \<and> p_state (procs t ! j) = RUNNING)"

text \<open>How many turns it may take from slot \<open>k\<close> to slot \<open>j\<close>.\<close>

definition turns_to :: "nat \<Rightarrow> nat \<Rightarrow> nat" where
  "turns_to j k = (if k \<le> j then j - k else Suc (NPROC - k + j))"

lemma turn_progress:
  assumes "turn x y" and "waiting j (snd x)" and "fst x \<le> NPROC" and "\<not> dispatched j x"
  shows "waiting j (snd y)" and "fst y \<le> NPROC" and "turns_to j (fst y) < turns_to j (fst x)"
proof -
  obtain t where t: "scheduler (fst x) (snd x) = (fst y, t)" "run_step\<^sup>*\<^sup>* t (snd y)" using assms(1) by (auto simp: turn_def)
  have j: "j < NPROC" "length (procs (snd x)) = NPROC" "p_state (procs (snd x) ! j) = RUNNABLE" "j \<noteq> cur (snd x)"
    using assms(2) by (simp_all add: waiting_def)
  have "waiting j t \<and> fst y \<le> NPROC \<and> turns_to j (fst y) < turns_to j (fst x)"
  proof (cases "find (\<lambda>i. p_state (procs (snd x) ! i) = RUNNABLE) [fst x..<NPROC]")
    case None
    then have "\<not> fst x \<le> j" using j by (auto simp: find_None_iff)
    moreover have "fst y = 0" "t = snd x\<lparr>cur := NPROC\<rparr>" using t(1) None by (simp_all add: scheduler_def)
    ultimately show ?thesis using j by (simp add: waiting_def turns_to_def)
  next
    case (Some p)
    then have p: "fst x \<le> p" "p < NPROC" using find_SomeD [OF Some] by auto
    have y: "fst y = Suc p" "t = (upd_proc p (\<lambda>q. q\<lparr>p_state := RUNNING\<rparr>) (snd x))\<lparr>cur := p\<rparr>"
      using t(1) Some by (auto simp: scheduler_def)
    have pj: "p \<noteq> j" using assms(4) t(1) y(2) p j(2) by (auto simp: dispatched_def upd_proc_def)
    have "p < j" if "fst x \<le> j"
    proof (rule ccontr)
      assume "\<not> p < j"
      then have "j < p" using pj by simp
      then show False using find_upt_first [OF Some that] j(3) by simp
    qed
    then have "turns_to j (fst y) < turns_to j (fst x)" using y p j(1) pj by (auto simp: turns_to_def)
    then show ?thesis using y p j pj by (auto simp: waiting_def upd_proc_def)
  qed
  moreover have "waiting j (snd y)" if "waiting j t" using t(2) that by (induction rule: rtranclp_induct) (auto intro: run_step_waiting)
  ultimately show "waiting j (snd y)" and "fst y \<le> NPROC" and "turns_to j (fst y) < turns_to j (fst x)" by auto
qed

section \<open>Killing pid 0\<close>


section \<open>Properties\<close>


text \<open>
  (C7) The scheduler starves no process: in any run of the system, whatever the processes do when
  they run, a process that is runnable is dispatched within \<^verbatim>\<open>NPROC\<close> further turns.
\<close>

theorem scheduler_dispatches:
  assumes "\<forall>n. turn (f n) (f (Suc n))" and "waiting j (snd (f 0))" and "fst (f 0) \<le> NPROC"
  shows "\<exists>n\<le>NPROC. dispatched j (f n)"
proof -
  have "\<exists>n\<le>m. dispatched j (f (b + n))" if "turns_to j (fst (f b)) \<le> m" "waiting j (snd (f b))" "fst (f b) \<le> NPROC" for b m
    using that
  proof (induction m arbitrary: b)
    case 0
    then have "dispatched j (f b)" using turn_progress(3) [OF assms(1) [rule_format, of b] 0(2,3)] by auto
    then show ?case by simp
  next
    case (Suc m)
    show ?case
    proof (cases "dispatched j (f b)")
      case False
      note p = turn_progress [OF assms(1) [rule_format, of b] Suc.prems(2,3) False]
      then obtain n where "n \<le> m" "dispatched j (f (Suc b + n))" using Suc.IH [of "Suc b"] Suc.prems(1) by auto
      then show ?thesis by (intro exI [of _ "Suc n"]) simp
    qed (intro exI [of _ 0], simp)
  qed
  moreover have "turns_to j (fst (f 0)) \<le> NPROC" using assms(2,3) by (auto simp: turns_to_def waiting_def)
  ultimately show ?thesis using assms(2,3) by (metis add_0)
qed


text \<open>A system in which init is the only process and gives up the CPU again and again.\<close>

definition table_ex :: kern_state where
  "table_ex = kern0\<lparr>procs := proc1\<lparr>p_state := RUNNABLE\<rparr> # replicate 63 proc0, cur := NPROC, nextpid := 2\<rparr>"

lemma table_ex_slots:
  "procs table_ex ! 0 = proc1\<lparr>p_state := RUNNABLE\<rparr>" "0 < i \<Longrightarrow> i < NPROC \<Longrightarrow> procs table_ex ! i = proc0"
  "length (procs table_ex) = NPROC" "cur table_ex = NPROC" "nextpid table_ex = 2" "initproc table_ex = 0"
  by (simp_all add: table_ex_def kern0_def NPROC_def nth_Cons split: nat.split)


lemma table_ex_turn: "turn (n mod 2, table_ex) (Suc n mod 2, table_ex)"
proof (cases "n mod 2 = 0")
  case True
  let ?t = "(upd_proc 0 (\<lambda>q. q\<lparr>p_state := RUNNING\<rparr>) table_ex)\<lparr>cur := 0\<rparr>"
  let ?u = "upd_proc 0 (\<lambda>p. p\<lparr>p_state := RUNNABLE\<rparr>) ?t"
  have sch: "scheduler 0 table_ex = (1, ?t)"
    using table_ex_slots(1) by (simp add: scheduler_def NPROC_def upt_conv_Cons)
  have "running ?t" "(yield ?t :: (unit, kern_state) kout) = Sleep ?u"
    by (simp_all add: running_def yield_def sched_def upd_proc_def table_ex_def NPROC_def)
  then have "run_step ?t (?u\<lparr>cur := NPROC\<rparr>)" by (rule run_step.yield)
  moreover have "?u\<lparr>cur := NPROC\<rparr> = table_ex" by (simp add: upd_proc_def table_ex_def proc1_def)
  ultimately show ?thesis using True sch table_ex_slots(4) by (auto simp: turn_def mod_Suc)
next
  case False
  have "find (\<lambda>i. p_state (procs table_ex ! i) = RUNNABLE) [1..<NPROC] = None"
    using table_ex_slots(2) by (auto simp: find_None_iff proc0_def)
  then have "scheduler 1 table_ex = (0, table_ex)" by (simp add: scheduler_def table_ex_def)
  then show ?thesis using False table_ex_slots(4) by (auto simp: turn_def mod_Suc)
qed


theorem scheduler_dispatches_witness: "\<exists>n\<le>NPROC. dispatched 0 (n mod 2, table_ex)"
  using scheduler_dispatches [of "\<lambda>n. (n mod 2, table_ex)" 0] table_ex_turn table_ex_slots
  by (simp add: waiting_def NPROC_def proc1_def)


end
