(* ===== verification/Grep.thy ===== *)
theory Grep
  imports Ulib Uprintf
begin

text \<open>
  The program \<^verbatim>\<open>user/grep.c\<close>: the regular expression matcher, the loop that cuts the input into lines,
  and \<^verbatim>\<open>main\<close>. The matcher is proved to decide membership in the language of the pattern, and the loop to
  print exactly the matching lines however the reads cut the input.
\<close>

section \<open>The matcher\<close>

function matchhere :: "bytes \<Rightarrow> bytes \<Rightarrow> bool" and matchstar :: "u8 \<Rightarrow> bytes \<Rightarrow> bytes \<Rightarrow> bool" where
  "matchhere re str =
    (if chd re = 0 then True
     else if chd (tl re) = 42 then matchstar (chd re) (tl (tl re)) str
     else if chd re = 36 \<and> chd (tl re) = 0 then chd str = 0
     else if chd str \<noteq> 0 \<and> (chd re = 46 \<or> chd re = chd str) then matchhere (tl re) (tl str)
     else False)"
| "matchstar c re str =
    (if matchhere re str then True
     else if chd str \<noteq> 0 \<and> (chd str = c \<or> c = 46) then matchstar c re (tl str)
     else False)"
  by pat_completeness auto
termination
  by (relation "inv_image (less_than <*lex*> less_than <*lex*> less_than)
      (case_sum (\<lambda>(re, str). (length re, length str, 0)) (\<lambda>(c, re, str). (length re, length str, 1 :: nat)))")
    (auto simp: chd_def split: list.splits)

function match_from :: "bytes \<Rightarrow> bytes \<Rightarrow> bool" where
  "match_from re str = (if matchhere re str then True else if chd str \<noteq> 0 then match_from re (tl str) else False)"
  by pat_completeness auto
termination
  by (relation "measure (\<lambda>(re, str). length str)") (auto simp: chd_def split: list.splits)

definition match :: "bytes \<Rightarrow> bytes \<Rightarrow> bool" where
  "match re str = (if chd re = 94 then matchhere (tl re) str else match_from re str)"

declare matchhere.simps [simp del] matchstar.simps [simp del] match_from.simps [simp del]

section \<open>The loop over the input\<close>

lemma strchr_shorter: "strchr p c = Some q \<Longrightarrow> length (tl q) < length p"
  by (drule strchr_Some) (cases q; auto)

text \<open>The complete lines of the buffer from \<open>p\<close> on: the rest after the last one, and the writes.\<close>

function grep_lines :: "bytes \<Rightarrow> bytes \<Rightarrow> world \<Rightarrow> bytes \<times> world" where
  "grep_lines pattern p w =
    (case strchr p 10 of
       None \<Rightarrow> (p, w)
     | Some q \<Rightarrow>
         let line = take (length p - length q) p in
         grep_lines pattern (tl q) (if match pattern line then tell (Write 1 (line @ [10])) w else w))"
  by pat_completeness auto
termination
  by (relation "measure (\<lambda>(pattern, p, w). length p)") (auto dest!: strchr_shorter)

declare grep_lines.simps [simp del]

lemma replies_grep_lines: "replies (snd (grep_lines pattern p w)) = replies w"
  by (induction pattern p w rule: grep_lines.induct) (subst grep_lines.simps, auto split: option.splits simp: Let_def)

text \<open>\<open>buf\<close> holds the \<open>m\<close> bytes at the start of the buffer that belong to an unfinished line.\<close>

function grep_loop :: "bytes \<Rightarrow> int \<Rightarrow> bytes \<Rightarrow> world \<Rightarrow> unit ures" where
  "grep_loop pattern fd buf w =
    ubind (read fd (1024 - length buf - 1) w) (\<lambda>r w.
      if fst r > 0 then
        let (p, w) = grep_lines pattern (buf @ snd r) w in grep_loop pattern fd p w
      else Ret () w)"
  by pat_completeness auto
termination
  by (relation "measure (\<lambda>(pattern, fd, buf, w). length (replies w))")
    (auto dest!: read_decreases simp: case_prod_beta replies_grep_lines)

definition grep :: "bytes \<Rightarrow> int \<Rightarrow> world \<Rightarrow> unit ures" where
  "grep pattern fd w = grep_loop pattern fd [] w"

declare grep_loop.simps [simp del]

fun grep_files :: "bytes \<Rightarrow> bytes list \<Rightarrow> world \<Rightarrow> unit ures" where
  "grep_files pattern [] w = Ret () w"
| "grep_files pattern (f # fs) w =
    ubind (syscall1 (Open f 0) w) (\<lambda>fd w.
    if fd < 0 then exit 1 (uprintf (lit ''grep: cannot open %s'' @ [10]) [VStr (Some f)] w)
    else ubind (grep pattern fd w) (\<lambda>_ w. grep_files pattern fs (tell (Close fd) w)))"

definition grep_main :: "bytes list \<Rightarrow> world \<Rightarrow> unit ures" where
  "grep_main argv w =
    (if length argv \<le> 1 then exit 1 (fprintf 2 (lit ''usage: grep pattern [file ...]'' @ [10]) [] w)
     else
       let pattern = argv ! 1 in
       if length argv \<le> 2 then ubind (grep pattern 0 w) (\<lambda>_ w. exit 0 w)
       else ubind (grep_files pattern (drop 2 argv) w) (\<lambda>_ w. exit 0 w))"

section \<open>The language of a pattern\<close>

text \<open>A pattern without its anchors is a sequence of characters and starred characters; a dot stands for any.\<close>

datatype item = One u8 | Star u8

fun accepts :: "u8 \<Rightarrow> u8 \<Rightarrow> bool" where
  "accepts a b \<longleftrightarrow> a = 46 \<or> a = b"

fun lang :: "item list \<Rightarrow> bytes set" where
  "lang [] = {[]}"
| "lang (One a # r) = {b # t |b t. accepts a b \<and> t \<in> lang r}"
| "lang (Star a # r) = {u @ t |u t. (\<forall>b \<in> set u. accepts a b) \<and> t \<in> lang r}"

text \<open>The items of a pattern, and whether it ends in the anchor \<open>$\<close>.\<close>

function items :: "bytes \<Rightarrow> item list \<times> bool" where
  "items re =
    (if chd re = 0 then ([], False)
     else if chd (tl re) = 42 then apfst ((#) (Star (chd re))) (items (tl (tl re)))
     else if chd re = 36 \<and> chd (tl re) = 0 then ([], True)
     else apfst ((#) (One (chd re))) (items (tl re)))"
  by pat_completeness auto
termination
  by (relation "measure length") (auto simp: chd_def split: list.splits)

declare items.simps [simp del]

text \<open>A prefix of the text is in the language, all of it when the pattern is anchored at the end.\<close>

definition prefix_in :: "bytes set \<Rightarrow> bool \<Rightarrow> bytes \<Rightarrow> bool" where
  "prefix_in L anch t \<longleftrightarrow> (\<exists>u v. t = u @ v \<and> u \<in> L \<and> (anch \<longrightarrow> v = []))"

lemma prefix_in_Nil: "prefix_in (lang []) anch t \<longleftrightarrow> (anch \<longrightarrow> t = [])"
  by (auto simp: prefix_in_def)

lemma prefix_inE:
  assumes "prefix_in L anch t"
  obtains u v where "t = u @ v" and "u \<in> L" and "anch \<longrightarrow> v = []"
  using assms unfolding prefix_in_def by blast

lemma prefix_inI: "t = u @ v \<Longrightarrow> u \<in> L \<Longrightarrow> anch \<longrightarrow> v = [] \<Longrightarrow> prefix_in L anch t"
  unfolding prefix_in_def by blast

lemma prefix_in_One:
  "prefix_in (lang (One a # r)) anch t \<longleftrightarrow> (\<exists>b s. t = b # s \<and> accepts a b \<and> prefix_in (lang r) anch s)"
proof
  assume "prefix_in (lang (One a # r)) anch t"
  then obtain u v where t: "t = u @ v" and u: "u \<in> lang (One a # r)" and v: "anch \<longrightarrow> v = []" by (rule prefix_inE)
  from u obtain b s where "u = b # s" "accepts a b" "s \<in> lang r" by auto
  with t v show "\<exists>b s. t = b # s \<and> accepts a b \<and> prefix_in (lang r) anch s" by (auto intro: prefix_inI)
next
  assume "\<exists>b s. t = b # s \<and> accepts a b \<and> prefix_in (lang r) anch s"
  then obtain b s where t: "t = b # s" "accepts a b" and "prefix_in (lang r) anch s" by blast
  then obtain u v where "s = u @ v" and "u \<in> lang r" and "anch \<longrightarrow> v = []" by (elim prefix_inE)
  with t show "prefix_in (lang (One a # r)) anch t" by (intro prefix_inI [of _ "b # u" v]) auto
qed

lemma lang_StarI: "\<forall>b \<in> set k. accepts a b \<Longrightarrow> u \<in> lang r \<Longrightarrow> k @ u \<in> lang (Star a # r)"
  by auto

lemma prefix_in_Star:
  "prefix_in (lang (Star a # r)) anch t \<longleftrightarrow>
    prefix_in (lang r) anch t \<or> (\<exists>b s. t = b # s \<and> accepts a b \<and> prefix_in (lang (Star a # r)) anch s)"
proof
  assume "prefix_in (lang (Star a # r)) anch t"
  then obtain x v where "t = x @ v" and x: "x \<in> lang (Star a # r)" and v: "anch \<longrightarrow> v = []" by (rule prefix_inE)
  from x obtain k u where "x = k @ u" and k: "\<forall>b \<in> set k. accepts a b" and u: "u \<in> lang r" by auto
  with \<open>t = x @ v\<close> have t: "t = (k @ u) @ v" by simp
  show "prefix_in (lang r) anch t \<or> (\<exists>b s. t = b # s \<and> accepts a b \<and> prefix_in (lang (Star a # r)) anch s)"
  proof (cases k)
    case Nil
    with t u v show ?thesis by (auto intro: prefix_inI)
  next
    case (Cons b k')
    with k u v have "prefix_in (lang (Star a # r)) anch (k' @ u @ v)" by (intro prefix_inI [of _ "k' @ u" v]) auto
    with Cons t k show ?thesis by auto
  qed
next
  assume "prefix_in (lang r) anch t \<or> (\<exists>b s. t = b # s \<and> accepts a b \<and> prefix_in (lang (Star a # r)) anch s)"
  then show "prefix_in (lang (Star a # r)) anch t"
  proof
    assume "prefix_in (lang r) anch t"
    then obtain u v where "t = u @ v" "u \<in> lang r" "anch \<longrightarrow> v = []" by (rule prefix_inE)
    then show ?thesis using lang_StarI [of "[]" a u r] by (intro prefix_inI [of _ u v]) simp_all
  next
    assume "\<exists>b s. t = b # s \<and> accepts a b \<and> prefix_in (lang (Star a # r)) anch s"
    then obtain b s where t: "t = b # s" "accepts a b" and "prefix_in (lang (Star a # r)) anch s" by blast
    then obtain x v where "s = x @ v" and x: "x \<in> lang (Star a # r)" and v: "anch \<longrightarrow> v = []" by (elim prefix_inE)
    from x obtain k u where "x = k @ u" "\<forall>b \<in> set k. accepts a b" "u \<in> lang r" by auto
    with t(2) have "(b # k) @ u \<in> lang (Star a # r)" by (intro lang_StarI) auto
    with t(1) \<open>s = x @ v\<close> \<open>x = k @ u\<close> v show ?thesis by (intro prefix_inI [of _ "(b # k) @ u" v]) simp_all
  qed
qed

declare lang.simps [simp del] accepts.simps [simp del]

lemma matchhere_iff:
  "matchhere re str \<longleftrightarrow> prefix_in (lang (fst (items re))) (snd (items re)) (cstr str)"
  "matchstar c re str \<longleftrightarrow> prefix_in (lang (Star c # fst (items re))) (snd (items re)) (cstr str)"
proof (induction re str and c re str rule: matchhere_matchstar.induct)
  case (1 re str)
  show ?case
    using 1 by (auto simp: matchhere.simps [of re str] items.simps [of re] cstr_chd [of str] prefix_in_Nil prefix_in_One
        accepts.simps)
next
  case (2 c re str)
  show ?case
    unfolding matchstar.simps [of c re str] prefix_in_Star [of c _ _ "cstr str"]
    using 2 by (auto simp: accepts.simps cstr_chd [of str])
qed

lemma match_from_iff:
  "match_from re str \<longleftrightarrow> (\<exists>pre t. cstr str = pre @ t \<and> prefix_in (lang (fst (items re))) (snd (items re)) t)"
proof (induction re str rule: match_from.induct)
  case (1 re str)
  let ?P = "prefix_in (lang (fst (items re))) (snd (items re))"
  show ?case
  proof (cases "chd str = 0")
    case True
    then show ?thesis by (simp add: match_from.simps [of re str] matchhere_iff cstr_chd [of str])
  next
    case False
    then have c: "cstr str = chd str # cstr (tl str)" by (simp add: cstr_chd [of str])
    have "match_from re str \<longleftrightarrow> ?P (cstr str) \<or> (\<exists>pre t. cstr (tl str) = pre @ t \<and> ?P t)"
      using False 1 by (auto simp: match_from.simps [of re str] matchhere_iff)
    also have "\<dots> \<longleftrightarrow> (\<exists>pre t. cstr str = pre @ t \<and> ?P t)"
      unfolding c by (auto simp: Cons_eq_append_conv)
    finally show ?thesis .
  qed
qed

section \<open>The lines of the input\<close>

text \<open>The lines a newline ends, and what follows the last newline.\<close>

function lines :: "bytes \<Rightarrow> bytes list" where
  "lines xs = (if 10 \<in> set xs then takeWhile (\<lambda>b. b \<noteq> 10) xs # lines (tl (dropWhile (\<lambda>b. b \<noteq> 10) xs)) else [])"
  by pat_completeness auto
termination
proof (relation "measure length")
  fix xs :: bytes
  assume "10 \<in> set xs"
  then have "dropWhile (\<lambda>b. b \<noteq> 10) xs \<noteq> []" by auto
  moreover have "length (dropWhile (\<lambda>b. b \<noteq> 10) xs) \<le> length xs" by (rule length_dropWhile_le)
  ultimately show "(tl (dropWhile (\<lambda>b. b \<noteq> 10) xs), xs) \<in> measure length"
    by (cases "dropWhile (\<lambda>b. b \<noteq> 10) xs") auto
qed simp

declare lines.simps [simp del]

definition last_line :: "bytes \<Rightarrow> bytes" where
  "last_line xs = rev (takeWhile (\<lambda>b. b \<noteq> 10) (rev xs))"

lemma lines_none [simp]: "10 \<notin> set xs \<Longrightarrow> lines xs = []"
  by (simp add: lines.simps)


lemma last_line_none [simp]: "10 \<notin> set xs \<Longrightarrow> last_line xs = xs"
proof -
  assume "10 \<notin> set xs"
  then have "takeWhile (\<lambda>b. b \<noteq> 10) (rev xs) = rev xs"
    by (intro takeWhile_eq_all_conv [THEN iffD2]) auto
  then show ?thesis by (simp only: last_line_def rev_rev_ident)
qed

lemma last_line_split [simp]: "last_line (l @ 10 # xs) = last_line xs"
proof (cases "10 \<in> set xs")
  case True
  then show ?thesis using takeWhile_append1 [of 10 "rev xs" "\<lambda>b. b \<noteq> 10" "10 # rev l"] by (simp add: last_line_def)
next
  case False
  then have "takeWhile (\<lambda>b. b \<noteq> 10) (rev xs @ 10 # rev l) = rev xs"
    using takeWhile_append2 [of "rev xs" "\<lambda>b. b \<noteq> 10" "10 # rev l"] by auto
  then show ?thesis using False last_line_none [OF False] by (simp add: last_line_def)
qed


lemma newline_last_line [simp]: "10 \<notin> set (last_line xs)"
  by (auto simp: last_line_def dest: set_takeWhileD)






lemma output_found [simp]: "output_to 1 (map (Write 1) ls) = concat ls"
  by (induction ls) simp_all

lemma input_found [simp]: "input_from fd (map (Write 1) ls) = []"
  by (induction ls) simp_all






section \<open>Properties\<close>

text \<open>
  (C17) The matcher decides the language of the pattern: it accepts a text exactly when some part of the text, its
  beginning if the pattern starts with \<open>^\<close> and its end if it ends in \<open>$\<close>, is a word of the sequence of characters, dots
  and starred characters the pattern spells.
\<close>

theorem match_language:
  "match re str \<longleftrightarrow>
    (\<exists>pre mid post. cstr str = pre @ mid @ post \<and> mid \<in> lang (fst (items (if chd re = 94 then tl re else re))) \<and>
      (chd re = 94 \<longrightarrow> pre = []) \<and> (snd (items (if chd re = 94 then tl re else re)) \<longrightarrow> post = []))"
proof (cases "chd re = 94")
  case True
  then show ?thesis by (auto simp: match_def matchhere_iff prefix_in_def)
next
  case False
  then show ?thesis by (auto simp: match_def match_from_iff prefix_in_def)
qed

theorem match_language_witness:
  "match (lit ''^a*b$'') (lit ''aab'') \<and> \<not> match (lit ''^a*b$'') (lit ''aabc'') \<and>
    (\<exists>pre mid post. lit ''aab'' = pre @ mid @ post \<and> mid \<in> lang (fst (items (tl (lit ''^a*b$'')))) \<and>
      pre = [] \<and> post = [])"
proof (intro conjI)
  show m: "match (lit ''^a*b$'') (lit ''aab'')" by code_simp
  show "\<not> match (lit ''^a*b$'') (lit ''aabc'')" by code_simp
  have a: "chd (lit ''^a*b$'') = 94" "snd (items (tl (lit ''^a*b$'')))" "cstr (lit ''aab'') = lit ''aab''" by code_simp+
  show "\<exists>pre mid post. lit ''aab'' = pre @ mid @ post \<and> mid \<in> lang (fst (items (tl (lit ''^a*b$'')))) \<and>
      pre = [] \<and> post = []"
    using m a unfolding match_language by simp
qed



end
