(* ===== verification/Uprogs.thy ===== *)
theory Uprogs
  imports Uprintf Fs_Dir
begin

text \<open>
  The small user programs: \<^verbatim>\<open>cat\<close>, \<^verbatim>\<open>wc\<close>, \<^verbatim>\<open>echo\<close>, \<^verbatim>\<open>kill\<close>, \<^verbatim>\<open>ln\<close>, \<^verbatim>\<open>rm\<close>, \<^verbatim>\<open>mkdir\<close>, \<^verbatim>\<open>ls\<close>, \<^verbatim>\<open>init\<close>, \<^verbatim>\<open>zombie\<close> and
  the two programs that leave an orphaned inode behind. A \<^verbatim>\<open>main\<close> takes the list of its arguments, the
  program's name first. \<open>nl\<close> ends a format with the newline character.
\<close>

definition nl :: "string \<Rightarrow> bytes" where
  "nl cs = lit cs @ [10]"

abbreviation (input) str_arg :: "bytes \<Rightarrow> va" where
  "str_arg s \<equiv> VStr (Some s)"

definition int_arg :: "int \<Rightarrow> va" where
  "int_arg n = VInt (of_int n)"

lemma replies_exit: "final_world (exit n w :: 'a ures) = tell (Exit n) w"
  by (simp add: exit_def)

section \<open>cat\<close>

function cat_loop :: "int \<Rightarrow> world \<Rightarrow> unit ures" where
  "cat_loop fd w =
    ubind (read fd 512 w) (\<lambda>r w.
      if fst r > 0 then
        ubind (syscall1 (Write 1 (snd r)) w) (\<lambda>k w.
          if k \<noteq> fst r then exit 1 (fprintf 2 (nl ''cat: write error'') [] w) else cat_loop fd w)
      else if fst r < 0 then exit 1 (fprintf 2 (nl ''cat: read error'') [] w)
      else Ret () w)"
  by pat_completeness auto
termination
  by (relation "measure (\<lambda>(fd, w). length (replies w))") (auto dest!: read_decreases syscall1_decreases)

declare cat_loop.simps [simp del]

definition cat :: "int \<Rightarrow> world \<Rightarrow> unit ures" where
  "cat fd w = cat_loop fd w"

fun cat_files :: "bytes list \<Rightarrow> world \<Rightarrow> unit ures" where
  "cat_files [] w = Ret () w"
| "cat_files (f # fs) w =
    ubind (syscall1 (Open f 0) w) (\<lambda>fd w.
    if fd < 0 then exit 1 (fprintf 2 (nl ''cat: cannot open %s'') [str_arg f] w)
    else ubind (cat fd w) (\<lambda>_ w. cat_files fs (tell (Close fd) w)))"

definition cat_main :: "bytes list \<Rightarrow> world \<Rightarrow> unit ures" where
  "cat_main argv w =
    (if length argv \<le> 1 then ubind (cat 0 w) (\<lambda>_ w. exit 0 w)
     else ubind (cat_files (drop 1 argv) w) (\<lambda>_ w. exit 0 w))"

section \<open>wc\<close>

text \<open>The counters \<^verbatim>\<open>l\<close>, \<^verbatim>\<open>w\<close> and \<^verbatim>\<open>c\<close> and the flag \<^verbatim>\<open>inword\<close>.\<close>

record counts =
  cl :: "32 word"
  cw :: "32 word"
  cc :: "32 word"
  inword :: bool

text \<open>\<^verbatim>\<open>" \r\t\n\v"\<close>\<close>

definition wc_blanks :: bytes where
  "wc_blanks = [32, 13, 9, 10, 11]"

definition wc_byte :: "u8 \<Rightarrow> counts \<Rightarrow> counts" where
  "wc_byte b s =
    (let s = s\<lparr>cc := cc s + 1\<rparr>;
         s = (if b = 10 then s\<lparr>cl := cl s + 1\<rparr> else s) in
     if strchr wc_blanks b \<noteq> None then s\<lparr>inword := False\<rparr>
     else if \<not> inword s then s\<lparr>cw := cw s + 1, inword := True\<rparr>
     else s)"

function wc_loop :: "int \<Rightarrow> counts \<Rightarrow> world \<Rightarrow> counts ures" where
  "wc_loop fd s w =
    ubind (read fd 512 w) (\<lambda>r w.
      if fst r > 0 then wc_loop fd (fold wc_byte (snd r) s) w
      else if fst r < 0 then exit 1 (uprintf (nl ''wc: read error'') [] w)
      else Ret s w)"
  by pat_completeness auto
termination
  by (relation "measure (\<lambda>(fd, s, w). length (replies w))") (auto dest!: read_decreases)

declare wc_loop.simps [simp del]

definition wc :: "int \<Rightarrow> bytes \<Rightarrow> world \<Rightarrow> unit ures" where
  "wc fd name w =
    ubind (wc_loop fd \<lparr>cl = 0, cw = 0, cc = 0, inword = False\<rparr> w) (\<lambda>s w.
    Ret () (uprintf (nl ''%d %d %d %s'') [VInt (ucast (cl s)), VInt (ucast (cw s)), VInt (ucast (cc s)), str_arg name] w))"

fun wc_files :: "bytes list \<Rightarrow> world \<Rightarrow> unit ures" where
  "wc_files [] w = Ret () w"
| "wc_files (f # fs) w =
    ubind (syscall1 (Open f 0) w) (\<lambda>fd w.
    if fd < 0 then exit 1 (uprintf (nl ''wc: cannot open %s'') [str_arg f] w)
    else ubind (wc fd f w) (\<lambda>_ w. wc_files fs (tell (Close fd) w)))"

definition wc_main :: "bytes list \<Rightarrow> world \<Rightarrow> unit ures" where
  "wc_main argv w =
    (if length argv \<le> 1 then ubind (wc 0 [] w) (\<lambda>_ w. exit 0 w)
     else ubind (wc_files (drop 1 argv) w) (\<lambda>_ w. exit 0 w))"

section \<open>echo, kill, ln, rm, mkdir\<close>

fun echo_args :: "bytes list \<Rightarrow> world \<Rightarrow> world" where
  "echo_args [] w = w"
| "echo_args (a # as) w =
    (let w = tell (Write 1 (take (ustrlen a) a)) w in
     echo_args as (if as \<noteq> [] then tell (Write 1 [32]) w else tell (Write 1 [10]) w))"

definition echo_main :: "bytes list \<Rightarrow> world \<Rightarrow> unit ures" where
  "echo_main argv w = exit 0 (echo_args (drop 1 argv) w)"

definition kill_main :: "bytes list \<Rightarrow> world \<Rightarrow> unit ures" where
  "kill_main argv w =
    (if length argv < 2 then exit 1 (fprintf 2 (nl ''usage: kill pid...'') [] w)
     else exit 0 (fold (\<lambda>a. tell (Kill (atoi a))) (drop 1 argv) w))"

definition ln_main :: "bytes list \<Rightarrow> world \<Rightarrow> unit ures" where
  "ln_main argv w =
    (if length argv \<noteq> 3 then exit 1 (fprintf 2 (nl ''Usage: ln old new'') [] w)
     else
       ubind (syscall1 (Link (argv ! 1) (argv ! 2)) w) (\<lambda>r w.
       exit 0 (if r < 0 then fprintf 2 (nl ''link %s %s: failed'') [str_arg (argv ! 1), str_arg (argv ! 2)] w else w)))"

text \<open>The loop of \<^verbatim>\<open>rm\<close> and of \<^verbatim>\<open>mkdir\<close>: a call per argument, up to the first that fails.\<close>

fun until_failure :: "(bytes \<Rightarrow> scall) \<Rightarrow> string \<Rightarrow> bytes list \<Rightarrow> world \<Rightarrow> unit ures" where
  "until_failure call msg [] w = Ret () w"
| "until_failure call msg (a # as) w =
    ubind (syscall1 (call a) w) (\<lambda>r w.
    if r < 0 then Ret () (fprintf 2 (nl msg) [str_arg a] w) else until_failure call msg as w)"

definition rm_main :: "bytes list \<Rightarrow> world \<Rightarrow> unit ures" where
  "rm_main argv w =
    (if length argv < 2 then exit 1 (fprintf 2 (nl ''Usage: rm files...'') [] w)
     else ubind (until_failure Unlink ''rm: %s failed to delete'' (drop 1 argv) w) (\<lambda>_ w. exit 0 w))"

definition mkdir_main :: "bytes list \<Rightarrow> world \<Rightarrow> unit ures" where
  "mkdir_main argv w =
    (if length argv < 2 then exit 1 (fprintf 2 (nl ''Usage: mkdir files...'') [] w)
     else ubind (until_failure Mkdir ''mkdir: %s failed to create'' (drop 1 argv) w) (\<lambda>_ w. exit 0 w))"

section \<open>ls\<close>

text \<open>The name after the last slash, padded with blanks to \<^verbatim>\<open>DIRSIZ\<close> characters.\<close>

definition fmtname :: "bytes \<Rightarrow> bytes" where
  "fmtname path =
    (let p = rev (takeWhile (\<lambda>b. b \<noteq> 47) (rev (cstr path))) in
     if length p \<ge> DIRSIZ then p else p @ replicate (DIRSIZ - length p) 32)"

text \<open>The fields of a \<^verbatim>\<open>struct stat\<close> that \<^verbatim>\<open>ls\<close> prints.\<close>

definition st_type_of :: "bytes \<Rightarrow> int" where "st_type_of st = short_val (get_at 8 2 st)"
definition st_ino_of :: "bytes \<Rightarrow> nat" where "st_ino_of st = get32 1 st"
definition st_size_of :: "bytes \<Rightarrow> nat" where "st_size_of st = le_val (get_at 16 8 st)"

definition ls_entry :: "bytes \<Rightarrow> bytes \<Rightarrow> world \<Rightarrow> world" where
  "ls_entry path st w =
    uprintf (nl ''%s %d %d %d'')
      [str_arg (fmtname path), int_arg (st_type_of st), VInt (of_nat (st_ino_of st)), VInt (of_nat (st_size_of st))] w"

lemma replies_ls_entry [simp]: "replies (ls_entry path st w) = replies w"
  by (simp add: ls_entry_def)

lemma ustat_decreases: "ustat p w = Ret x w' \<Longrightarrow> length (replies w') < length (replies w)"
  by (auto simp: ustat_def fstat_def dest!: ask_decreases syscall1_decreases split: if_splits)

function ls_dir :: "int \<Rightarrow> bytes \<Rightarrow> world \<Rightarrow> unit ures" where
  "ls_dir fd path w =
    ubind (read fd 16 w) (\<lambda>r w.
    if fst r \<noteq> 16 then Ret () w
    else
      let de = dirent_of (snd r) in
      if de_inum de = 0 then ls_dir fd path w
      else
        let buf = cstr path @ [47] @ cstr (de_name de) in
        ubind (ustat buf w) (\<lambda>st w.
        if fst st < 0 then ls_dir fd path (uprintf (nl ''ls: cannot stat %s'') [str_arg buf] w)
        else ls_dir fd path (ls_entry buf (snd st) w)))"
  by pat_completeness auto
termination
  by (relation "measure (\<lambda>(fd, path, w). length (replies w))") (auto dest!: read_decreases ustat_decreases)

declare ls_dir.simps [simp del]

definition ls :: "bytes \<Rightarrow> world \<Rightarrow> unit ures" where
  "ls path w =
    ubind (syscall1 (Open path 0) w) (\<lambda>fd w.
    if fd < 0 then Ret () (fprintf 2 (nl ''ls: cannot open %s'') [str_arg path] w)
    else
      ubind (fstat fd w) (\<lambda>(r, st) w.
      if r < 0 then Ret () (tell (Close fd) (fprintf 2 (nl ''ls: cannot stat %s'') [str_arg path] w))
      else
        ubind (if st_type_of st = T_DEVICE \<or> st_type_of st = T_FILE then Ret () (ls_entry path st w)
               else if st_type_of st = T_DIR then
                 (if ustrlen path + 1 + DIRSIZ + 1 > 512 then Ret () (uprintf (nl ''ls: path too long'') [] w)
                  else ls_dir fd path w)
               else Ret () w)
          (\<lambda>_ w. Ret () (tell (Close fd) w))))"

fun ls_args :: "bytes list \<Rightarrow> world \<Rightarrow> unit ures" where
  "ls_args [] w = Ret () w"
| "ls_args (a # as) w = ubind (ls a w) (\<lambda>_ w. ls_args as w)"

definition ls_main :: "bytes list \<Rightarrow> world \<Rightarrow> unit ures" where
  "ls_main argv w =
    (if length argv < 2 then ubind (ls (lit ''.'') w) (\<lambda>_ w. exit 0 w)
     else ubind (ls_args (drop 1 argv) w) (\<lambda>_ w. exit 0 w))"

section \<open>init\<close>

function init_wait :: "int \<Rightarrow> world \<Rightarrow> unit ures" where
  "init_wait pid w =
    ubind (syscall1 Wait w) (\<lambda>wpid w.
    if wpid = pid then Ret () w
    else if wpid < 0 then exit 1 (uprintf (nl ''init: wait returned an error'') [] w)
    else init_wait pid w)"
  by pat_completeness auto
termination
  by (relation "measure (\<lambda>(pid, w). length (replies w))") (auto dest!: syscall1_decreases)

declare init_wait.simps [simp del]

lemma init_wait_decreases: "init_wait pid w = Ret x w' \<Longrightarrow> length (replies w') < length (replies w)"
proof (induction pid w rule: init_wait.induct)
  case (1 pid w)
  from "1.prems" [unfolded init_wait.simps [of pid w]] obtain wpid w1
    where r: "syscall1 Wait w = Ret wpid w1" and rest: "(if wpid = pid then Ret () w1
      else if wpid < 0 then exit 1 (uprintf (nl ''init: wait returned an error'') [] w1) else init_wait pid w1) = Ret x w'"
    by (rule ubind_RetE)
  then show ?case using "1.IH" [OF r] syscall1_decreases [OF r] by (auto simp: exit_def split: if_splits)
qed

function init_loop :: "world \<Rightarrow> unit ures" where
  "init_loop w =
    ubind (syscall1 Fork (uprintf (nl ''init: starting sh'') [] w)) (\<lambda>pid w.
    if pid < 0 then exit 1 (uprintf (nl ''init: fork failed'') [] w)
    else if pid = 0 then
      ubind (exec (lit ''sh'') [lit ''sh''] w) (\<lambda>_ w. exit 1 (uprintf (nl ''init: exec sh failed'') [] w))
    else ubind (init_wait pid w) (\<lambda>_ w. init_loop w))"
  by pat_completeness auto
termination
  by (relation "measure (\<lambda>w. length (replies w))") (auto dest!: syscall1_decreases init_wait_decreases)

declare init_loop.simps [simp del]

definition init_main :: "world \<Rightarrow> unit ures" where
  "init_main w =
    ubind (syscall1 (Open (lit ''console'') 2) w) (\<lambda>fd w.
    let w = (if fd < 0 then tell (Open (lit ''console'') 2) (tell (Mknod (lit ''console'') 1 0) w) else w) in
    init_loop (tell (Dup 0) (tell (Dup 0) w)))"

section \<open>zombie, forphan, dorphan\<close>

definition zombie_main :: "world \<Rightarrow> unit ures" where
  "zombie_main w = ubind (syscall1 Fork w) (\<lambda>pid w. exit 0 (if pid > 0 then tell (Pause 5) w else w))"

text \<open>\<^verbatim>\<open>for(;;) pause(1000);\<close> up to the pause from which no reply comes back.\<close>

function pause_forever :: "world \<Rightarrow> unit ures" where
  "pause_forever w = ubind (syscall1 (Pause 1000) w) (\<lambda>_ w. pause_forever w)"
  by pat_completeness auto
termination
  by (relation "measure (\<lambda>w. length (replies w))") (auto dest!: syscall1_decreases)

declare pause_forever.simps [simp del]

definition forphan_main :: "bytes list \<Rightarrow> world \<Rightarrow> unit ures" where
  "forphan_main argv w =
    (let s = str_arg (argv ! 0); ff = lit ''file0'' in
     ubind (syscall1 (Open ff 0x201) w) (\<lambda>fd w.
     if fd < 0 then exit 1 (uprintf (nl ''%s: open failed'') [s] w)
     else ubind (fstat fd w) (\<lambda>(r, st) w.
     if r < 0 then exit 1 (fprintf 2 (nl ''%s: cannot stat %s'') [s, str_arg (lit ''ff'')] w)
     else ubind (syscall1 (Unlink ff) w) (\<lambda>r w.
     if r < 0 then exit 1 (uprintf (nl ''%s: unlink failed'') [s] w)
     else ubind (syscall1 (Open ff 0) w) (\<lambda>fd w.
     if fd \<noteq> -1 then exit 1 (uprintf (nl ''%s: open successed'') [s] w)
     else pause_forever (uprintf (nl ''wait for kill and reclaim %d'') [VInt (of_nat (st_ino_of st))] w))))))"

definition dorphan_main :: "bytes list \<Rightarrow> world \<Rightarrow> unit ures" where
  "dorphan_main argv w =
    (let s = str_arg (argv ! 0) in
     ubind (syscall1 (Mkdir (lit ''dd'')) w) (\<lambda>r w.
     if r \<noteq> 0 then exit 1 (uprintf (nl ''%s: mkdir dd failed'') [s] w)
     else ubind (syscall1 (Chdir (lit ''dd'')) w) (\<lambda>r w.
     if r \<noteq> 0 then exit 1 (uprintf (nl ''%s: chdir dd failed'') [s] w)
     else ubind (syscall1 (Unlink (lit ''../dd'')) w) (\<lambda>r w.
     if r < 0 then exit 1 (uprintf (nl ''%s: unlink failed'') [s] w)
     else pause_forever (uprintf (nl ''wait for kill and reclaim'') [] w)))))"

section \<open>What the programs print\<close>

lemma observe_calls [simp]:
  "input_from fd (Write f bs # cs) = input_from fd cs"
  by simp

lemma syscall1_Ret: "syscall1 c w = Ret v w' \<Longrightarrow> calls w' = calls w @ [c]"
  by (auto simp: syscall1_def ask_def split: list.splits)

lemma cat_loop_run:
  "cat_loop fd w = Ret () w' \<Longrightarrow>
    \<exists>new. calls w' = calls w @ new \<and> output_to 1 new = input_from fd new \<and> new \<noteq> [] \<and> last new = Read fd 512 []"
proof (induction fd w rule: cat_loop.induct)
  case (1 fd w)
  from "1.prems" [unfolded cat_loop.simps [of fd w]] obtain r w1 where r: "read fd 512 w = Ret r w1"
    and rest: "(if fst r > 0 then ubind (syscall1 (Write 1 (snd r)) w1) (\<lambda>k w.
          if k \<noteq> fst r then exit 1 (fprintf 2 (nl ''cat: write error'') [] w) else cat_loop fd w)
      else if fst r < 0 then exit 1 (fprintf 2 (nl ''cat: read error'') [] w1) else Ret () w1) = Ret () w'"
    by (rule ubind_RetE)
  obtain n bs where rb: "r = (n, bs)" by (cases r)
  note c = read_Ret [OF r [unfolded rb]]
  show ?case
  proof (cases "n > 0")
    case False
    then show ?thesis using rest c(2,4) rb by (auto simp: exit_def split: if_splits)
  next
    case True
    with rest rb obtain k w2 where k: "syscall1 (Write 1 bs) w1 = Ret k w2"
      and more: "(if k \<noteq> n then exit 1 (fprintf 2 (nl ''cat: write error'') [] w2) else cat_loop fd w2) = Ret () w'"
      by auto
    then have l: "cat_loop fd w2 = Ret () w'" and kn: "\<not> k \<noteq> fst r" using rb by (auto simp: exit_def split: if_splits)
    obtain new where new: "calls w' = calls w2 @ new" "output_to 1 new = input_from fd new" "new \<noteq> []" "last new = Read fd 512 []"
      using "1.IH" [OF r, of k w2] True k kn l rb by auto
    then show ?thesis
      using c(4) syscall1_Ret [OF k] by (intro exI [of _ "Read fd 512 bs # Write 1 bs # new"]) auto
  qed
qed

definition blank :: "u8 \<Rightarrow> bool" where
  "blank b \<longleftrightarrow> b \<in> {32, 13, 9, 10, 11}"

lemma strchr_blanks: "strchr wc_blanks b = None \<longleftrightarrow> \<not> blank b"
proof -
  have "cstr wc_blanks = wc_blanks" by code_simp
  then show ?thesis by (auto simp: strchr_None wc_blanks_def blank_def)
qed

lemma wc_byte_eq:
  "wc_byte b s =
    (if blank b then s\<lparr>cc := cc s + 1, cl := cl s + of_bool (b = 10), inword := False\<rparr>
     else s\<lparr>cc := cc s + 1, cw := cw s + of_bool (\<not> inword s), inword := True\<rparr>)"
proof -
  have "blank 10" by (simp add: blank_def)
  then show ?thesis unfolding wc_byte_def Let_def strchr_blanks by (cases s) auto
qed

text \<open>The number of positions at which a word starts: a byte that is not blank with none or a blank one before it.\<close>

definition word_starts :: "bytes \<Rightarrow> nat" where
  "word_starts bs =
    length (filter (\<lambda>i. \<not> blank (bs ! i) \<and> (i = 0 \<or> blank (bs ! (i - 1)))) [0..<length bs])"

lemma word_starts_snoc:
  "word_starts (bs @ [b]) = word_starts bs + (if \<not> blank b \<and> (bs = [] \<or> blank (last bs)) then 1 else 0)"
proof -
  let ?s = "\<lambda>bs i. \<not> blank (bs ! i) \<and> (i = 0 \<or> blank (bs ! (i - 1)))"
  have "filter (?s (bs @ [b])) [0..<length bs] = filter (?s bs) [0..<length bs]"
    by (rule filter_cong) (auto simp: nth_append)
  moreover have "?s (bs @ [b]) (length bs) \<longleftrightarrow> \<not> blank b \<and> (bs = [] \<or> blank (last bs))"
    by (cases bs rule: rev_cases) (auto simp: nth_append)
  ultimately show ?thesis by (simp add: word_starts_def)
qed

lemma wc_bytes:
  "fold wc_byte bs \<lparr>cl = 0, cw = 0, cc = 0, inword = False\<rparr> =
    \<lparr>cl = of_nat (count_list bs 10), cw = of_nat (word_starts bs), cc = of_nat (length bs),
     inword = (bs \<noteq> [] \<and> \<not> blank (last bs))\<rparr>"
proof (induction bs rule: rev_induct)
  case Nil
  then show ?case by (simp add: word_starts_def)
next
  case (snoc b bs)
  have "\<not> blank b \<Longrightarrow> b \<noteq> 10" by (auto simp: blank_def)
  with snoc show ?case by (auto simp: wc_byte_eq word_starts_snoc)
qed

lemma wc_loop_run:
  "wc_loop fd s w = Ret s' w' \<Longrightarrow>
    \<exists>new. calls w' = calls w @ new \<and> s' = fold wc_byte (input_from fd new) s \<and> output_to 1 new = []"
proof (induction fd s w rule: wc_loop.induct)
  case (1 fd s w)
  from "1.prems" [unfolded wc_loop.simps [of fd s w]] obtain r w1 where r: "read fd 512 w = Ret r w1"
    and rest: "(if fst r > 0 then wc_loop fd (fold wc_byte (snd r) s) w1
      else if fst r < 0 then exit 1 (uprintf (nl ''wc: read error'') [] w1) else Ret s w1) = Ret s' w'"
    by (rule ubind_RetE)
  obtain n bs where rb: "r = (n, bs)" by (cases r)
  note c = read_Ret [OF r [unfolded rb]]
  show ?case
  proof (cases "n > 0")
    case False
    then show ?thesis using rest c(2,4) rb by (auto simp: exit_def split: if_splits)
  next
    case True
    then obtain new where "calls w' = calls w1 @ new" "s' = fold wc_byte (input_from fd new) (fold wc_byte bs s)"
        "output_to 1 new = []"
      using "1.IH" [OF r] rest rb by auto
    then show ?thesis using c(4) by (intro exI [of _ "Read fd 512 bs # new"]) auto
  qed
qed

section \<open>Properties\<close>

text \<open>
  When \<^verbatim>\<open>cat\<close> returns it has written to the standard output the bytes it read, in order, however they were cut
  into reads, and it has seen the end of the input.
\<close>

lemma cat_copies:
  assumes "cat fd \<lparr>replies = rs, calls = []\<rparr> = Ret () w"
  shows "output_to 1 (calls w) = input_from fd (calls w) \<and> last (calls w) = Read fd 512 []"
  using cat_loop_run [of fd "\<lparr>replies = rs, calls = []\<rparr>" w] assms by (auto simp: cat_def)

text \<open>
  (C37) \<^verbatim>\<open>wc\<close> prints the number of newlines, of words and of bytes of its input, counted modulo \<open>2 ^ 32\<close>, whatever the
  boundaries of the reads: a word split between two reads is one word.
\<close>

theorem wc_counts:
  assumes "wc fd name \<lparr>replies = rs, calls = []\<rparr> = Ret () w" and "d = input_from fd (calls w)"
  shows "output_to 1 (calls w) = the (vprintf False (nl ''%d %d %d %s'')
    [VInt (ucast (of_nat (count_list d 10) :: 32 word)), VInt (ucast (of_nat (word_starts d) :: 32 word)),
     VInt (ucast (of_nat (length d) :: 32 word)), VStr (Some name)])"
proof -
  obtain s w1 where l: "wc_loop fd \<lparr>cl = 0, cw = 0, cc = 0, inword = False\<rparr> \<lparr>replies = rs, calls = []\<rparr> = Ret s w1"
    and w: "w = uprintf (nl ''%d %d %d %s'') [VInt (ucast (cl s)), VInt (ucast (cw s)), VInt (ucast (cc s)), str_arg name] w1"
    using assms(1) by (auto simp: wc_def)
  from wc_loop_run [OF l] have s: "s = fold wc_byte (input_from fd (calls w1)) \<lparr>cl = 0, cw = 0, cc = 0, inword = False\<rparr>"
    and o: "output_to 1 (calls w1) = []" by auto
  have "input_from fd (calls w) = input_from fd (calls w1)" by (simp add: w uprintf_def calls_fprintf)
  then show ?thesis using o by (simp add: assms(2) w uprintf_def calls_fprintf s wc_bytes)
qed

theorem wc_counts_witness:
  "output_to 1 (calls (final_world (wc 0 [] \<lparr>replies = [(2, [97, 98]), (4, [99, 32, 100, 10]), (0, [])], calls = []\<rparr>))) =
    lit ''1 2 6 '' @ [10]"
proof -
  let ?w = "final_world (wc 0 [] \<lparr>replies = [(2, [97, 98]), (4, [99, 32, 100, 10]), (0, [])], calls = []\<rparr>)"
  have r: "wc 0 [] \<lparr>replies = [(2, [97, 98]), (4, [99, 32, 100, 10]), (0, [])], calls = []\<rparr> = Ret () ?w"
    and i: "input_from 0 (calls ?w) = [97, 98, 99, 32, 100, 10]"
    by code_simp+
  have "output_to 1 (calls ?w) = the (vprintf False (nl ''%d %d %d %s'')
    [VInt (ucast (of_nat (count_list [97, 98, 99, 32, 100, 10 :: u8] 10) :: 32 word)),
     VInt (ucast (of_nat (word_starts [97, 98, 99, 32, 100, 10]) :: 32 word)),
     VInt (ucast (of_nat (length [97, 98, 99, 32, 100, 10 :: u8]) :: 32 word)), VStr (Some [])])"
    using wc_counts [OF r i [symmetric]] .
  also have "\<dots> = lit ''1 2 6 '' @ [10]" by code_simp
  finally show ?thesis .
qed

end
