(* ===== verification/Fsinfo_Test.thy ===== *)
theory Fsinfo_Test
  imports Sysproc Uprogs
begin

text \<open>
  The program \<^verbatim>\<open>user/fsinfo_test.c\<close>, the user side of the added system call. What it prints is read back as the numbers
  of the \<^verbatim>\<open>struct fsinfo\<close> that \<open>sys_fsinfo\<close> copied out.
\<close>

definition info_line :: "string \<Rightarrow> nat \<Rightarrow> bytes \<Rightarrow> world \<Rightarrow> world" where
  "info_line label i info w = uprintf (nl (label @ '': %d'')) [VInt (of_nat (get32 i info))] w"

definition fsinfo_main :: "world \<Rightarrow> unit ures" where
  "fsinfo_main w =
    ubind (ask Fsinfo w) (\<lambda>(r, info) w.
    if r < 0 then exit 1 (uprintf (nl ''fsinfo failed'') [] w)
    else
      exit 0
        (info_line ''Free disk blocks   '' 3 info
        (info_line ''Allocated inodes   '' 2 info
        (info_line ''Total directories  '' 1 info
        (info_line ''Total files        '' 0 info
        (uprintf (nl ''------------------------------'') []
        (uprintf (nl ''File System Information'') [] w)))))))"

section \<open>What is printed\<close>

lemma vprintf_literal:
  "\<forall>c \<in> set bs. c \<noteq> 0 \<and> c \<noteq> 37 \<Longrightarrow> vprintf False (bs @ fmt) ap = map_option ((@) bs) (vprintf False fmt ap)"
proof (induction bs)
  case (Cons c bs)
  then show ?case by (cases "vprintf False fmt ap") (simp_all add: vprintf.simps [of False "c # _"])
next
  case Nil
  then show ?case by (cases "vprintf False fmt ap") simp_all
qed

lemma vprintf_newline: "vprintf False [10] ap = Some [10]" "vprintf False [] ap = Some []"
  by (simp_all add: vprintf.simps)

lemma vprintf_plain: "\<forall>c \<in> set bs. c \<noteq> 0 \<and> c \<noteq> 37 \<Longrightarrow> vprintf False bs ap = Some bs"
  using vprintf_literal [of bs "[]" ap] by (simp add: vprintf_newline)

lemma vprintf_decimal: "vprintf False [37, 100, 10] [VInt x] = map_option (\<lambda>ds. ds @ [10]) (uprintint (va_int x) 10 True)"
  by (cases "uprintint (va_int x) 10 True")
    (simp_all add: vprintf.simps [of False "37 # _"] vprintf.simps [of True "100 # _"] vprintf_conv_def vprintf_newline)

lemma digits_loop_decimal: "digits_loop udigits k x 10 = digits_loop digits k x 10"
proof (induction k arbitrary: x)
  case (Suc k)
  have "unat (x mod 10) < 10" by (simp add: unat_mod)
  then have "unat (x mod 10) \<in> {0, 1, 2, 3, 4, 5, 6, 7, 8, 9}" by auto
  then have "udigits ! unat (x mod 10) = digits ! unat (x mod 10)" by (auto simp: udigits_def digits_def)
  then show ?case using Suc by (simp add: Let_def)
qed simp

lemma uprintint_decimal: "uprintint x 10 sign = printint x 10 sign"
  by (simp add: uprintint_def printint_def digits_loop_decimal)

text \<open>A 32-bit field of the structure, printed with \<open>%d\<close>, reads back as the number it holds.\<close>

lemma va_int_field:
  assumes "v < 2 ^ 32"
  shows "sint (va_int (of_nat v)) = int_val v"
proof -
  have u: "uint (of_nat v :: 32 word) = int v" using assms by (simp add: uint_nat unsigned_of_nat take_bit_nat_eq_self)
  have "(ucast (of_nat v :: u64) :: 32 word) = of_nat v"
    using assms by (simp add: unsigned_of_nat take_bit_nat_eq_self)
  then have "sint (va_int (of_nat v)) = sint (of_nat v :: 32 word)"
    by (simp add: va_int_def sint_up_scast is_up)
  also have "\<dots> = take_bit 32 (int v) - 2 ^ 32 * of_bool (bit (int v) 31)"
    using signed_take_bit_eq_take_bit_minus [of 31 "int v"] by (simp add: sint_uint u)
  also have "take_bit 32 (int v) = int v" using assms by (simp add: take_bit_int_eq_self)
  also have "bit (int v) 31 \<longleftrightarrow> \<not> v < 2 ^ 31"
  proof (cases "v < 2 ^ 31")
    case False
    then have "v div 2 ^ 31 = 1" using assms by (intro div_nat_eqI) simp_all
    then have "int v div 2 ^ 31 = 1" by (metis of_nat_1 of_nat_numeral of_nat_power zdiv_int)
    then show ?thesis using False by (simp add: bit_iff_odd)
  qed (simp add: bit_iff_odd)
  also have "int v - 2 ^ 32 * of_bool (\<not> v < 2 ^ 31) = int_val v" by (simp add: int_val_def)
  finally show ?thesis .
qed

lemma info_line_calls:
  assumes "\<forall>c \<in> set (lit label). c \<noteq> 0 \<and> c \<noteq> 37" and "4 * i + 4 \<le> length info"
  shows "\<exists>ds. calls (info_line label i info w) = calls w @ map (\<lambda>c. Write 1 [c]) (lit label @ lit '': '' @ ds @ [10]) \<and>
    int_value 10 ds = int_val (get32 i info)"
proof -
  let ?x = "of_nat (get32 i info)"
  obtain ds where ds: "printint (va_int ?x) 10 True = Some ds" "int_value 10 ds = sint (va_int ?x)"
    using printint_correct [of 10 True "va_int ?x"] by auto
  have v: "get32 i info < 2 ^ 32" using get32_bound [OF assms(2)] .
  have f: "nl (label @ '': %d'') = (lit label @ lit '': '') @ [37, 100, 10]" by (simp add: nl_def lit_def)
  have l: "\<forall>c \<in> set (lit label @ lit '': ''). c \<noteq> 0 \<and> c \<noteq> 37" using assms(1) by (auto simp: lit_def)
  have "vprintf False (nl (label @ '': %d'')) [VInt ?x] = Some (lit label @ lit '': '' @ ds @ [10])"
    unfolding f vprintf_literal [OF l] vprintf_decimal uprintint_decimal ds(1) by simp
  then show ?thesis
    using ds(2) va_int_field [OF v] by (intro exI [of _ ds]) (simp add: info_line_def uprintf_def calls_fprintf)
qed

lemma get32_fsinfo:
  "get32 0 (fsinfo_bytes info) = int_pat (total_files info)" "get32 1 (fsinfo_bytes info) = int_pat (total_dirs info)"
  "get32 2 (fsinfo_bytes info) = int_pat (total_inodes info)" "get32 3 (fsinfo_bytes info) = int_pat (free_blocks info)"
proof -
  have b: "int_pat x < 256 ^ 4" for x by (simp add: int_pat_def nat_less_iff)
  show "get32 0 (fsinfo_bytes info) = int_pat (total_files info)" "get32 1 (fsinfo_bytes info) = int_pat (total_dirs info)"
    "get32 2 (fsinfo_bytes info) = int_pat (total_inodes info)" "get32 3 (fsinfo_bytes info) = int_pat (free_blocks info)"
    using b by (simp_all add: get32_def get_at_def fsinfo_bytes_def le_val_bytes)
qed

definition in_int :: "int \<Rightarrow> bool" where
  "in_int x \<longleftrightarrow> - (2 ^ 31) \<le> x \<and> x < 2 ^ 31"

section \<open>Properties\<close>

text \<open>
  (C36) When the system call succeeds with the structure \<open>info\<close>, the program prints its two heading lines and then the
  four numbers of the structure in decimal under their labels, and exits with status 0: what the kernel counted is what
  the user reads.
\<close>

theorem fsinfo_test_prints:
  assumes "in_int (total_files info)" and "in_int (total_dirs info)" and "in_int (total_inodes info)" and "in_int (free_blocks info)"
  shows "\<exists>w f d i b. fsinfo_main \<lparr>replies = [(0, fsinfo_bytes info)], calls = []\<rparr> = Exited 0 w \<and>
    output_to 1 (calls w) = lit ''File System Information'' @ [10] @ lit ''------------------------------'' @ [10] @
      lit ''Total files        : '' @ f @ [10] @ lit ''Total directories  : '' @ d @ [10] @
      lit ''Allocated inodes   : '' @ i @ [10] @ lit ''Free disk blocks   : '' @ b @ [10] \<and>
    int_value 10 f = total_files info \<and> int_value 10 d = total_dirs info \<and>
    int_value 10 i = total_inodes info \<and> int_value 10 b = free_blocks info"
proof -
  let ?b = "fsinfo_bytes info"
  have len: "length ?b = 16" by (simp add: fsinfo_bytes_def)
  define w0 where "w0 = \<lparr>replies = [], calls = [Fsinfo]\<rparr>"
  define w2 where "w2 = uprintf (nl ''------------------------------'') [] (uprintf (nl ''File System Information'') [] w0)"
  have w2: "output_to 1 (calls w2) = lit ''File System Information'' @ [10] @ lit ''------------------------------'' @ [10]"
    by (simp add: w2_def w0_def uprintf_def calls_fprintf vprintf_plain nl_def lit_def output_to_def)
  let ?w3 = "info_line ''Total files        '' 0 ?b w2" let ?w4 = "info_line ''Total directories  '' 1 ?b ?w3"
  let ?w5 = "info_line ''Allocated inodes   '' 2 ?b ?w4" let ?w6 = "info_line ''Free disk blocks   '' 3 ?b ?w5"
  obtain f where f: "calls ?w3 = calls w2 @ map (\<lambda>c. Write 1 [c]) (lit ''Total files        '' @ lit '': '' @ f @ [10])"
      "int_value 10 f = int_val (get32 0 ?b)"
    using info_line_calls [of "''Total files        ''" 0 ?b w2] len by (auto simp: lit_def)
  obtain d where d: "calls ?w4 = calls ?w3 @ map (\<lambda>c. Write 1 [c]) (lit ''Total directories  '' @ lit '': '' @ d @ [10])"
      "int_value 10 d = int_val (get32 1 ?b)"
    using info_line_calls [of "''Total directories  ''" 1 ?b ?w3] len by (auto simp: lit_def)
  obtain i where i: "calls ?w5 = calls ?w4 @ map (\<lambda>c. Write 1 [c]) (lit ''Allocated inodes   '' @ lit '': '' @ i @ [10])"
      "int_value 10 i = int_val (get32 2 ?b)"
    using info_line_calls [of "''Allocated inodes   ''" 2 ?b ?w4] len by (auto simp: lit_def)
  obtain b where b: "calls ?w6 = calls ?w5 @ map (\<lambda>c. Write 1 [c]) (lit ''Free disk blocks   '' @ lit '': '' @ b @ [10])"
      "int_value 10 b = int_val (get32 3 ?b)"
    using info_line_calls [of "''Free disk blocks   ''" 3 ?b ?w5] len by (auto simp: lit_def)
  have m: "fsinfo_main \<lparr>replies = [(0, ?b)], calls = []\<rparr> = Exited 0 (tell (Exit 0) ?w6)"
    by (simp add: fsinfo_main_def ask_def exit_def tell_def w2_def w0_def)
  have "output_to 1 (calls (tell (Exit 0) ?w6)) = output_to 1 (calls w2) @
      (lit ''Total files        '' @ lit '': '' @ f @ [10]) @ (lit ''Total directories  '' @ lit '': '' @ d @ [10]) @
      (lit ''Allocated inodes   '' @ lit '': '' @ i @ [10]) @ (lit ''Free disk blocks   '' @ lit '': '' @ b @ [10])"
    unfolding calls_tell b(1) i(1) d(1) f(1) output_to_append observe_writes by (simp add: output_to_def)
  then show ?thesis
    using m w2 f(2) d(2) i(2) b(2) assms unfolding get32_fsinfo in_int_def
    by (intro exI [of _ "tell (Exit 0) ?w6"] exI [of _ f] exI [of _ d] exI [of _ i] exI [of _ b]) (simp add: lit_def)
qed

theorem fsinfo_test_prints_witness:
  "\<exists>w f d i b. fsinfo_main \<lparr>replies = [(0, fsinfo_bytes \<lparr>total_files = 17, total_dirs = 1, total_inodes = 19, free_blocks = 1200\<rparr>)],
      calls = []\<rparr> = Exited 0 w \<and> output_to 1 (calls w) =
        lit ''File System Information'' @ [10] @ lit ''------------------------------'' @ [10] @
        lit ''Total files        : '' @ f @ [10] @ lit ''Total directories  : '' @ d @ [10] @
        lit ''Allocated inodes   : '' @ i @ [10] @ lit ''Free disk blocks   : '' @ b @ [10] \<and>
    int_value 10 f = 17 \<and> int_value 10 d = 1 \<and> int_value 10 i = 19 \<and> int_value 10 b = 1200"
  using fsinfo_test_prints [of "\<lparr>total_files = 17, total_dirs = 1, total_inodes = 19, free_blocks = 1200\<rparr>"]
  by (simp add: in_int_def)

end
