(* ===== verification/Sh.thy ===== *)
theory Sh
  imports Uprintf
begin

text \<open>
  The shell, \<^verbatim>\<open>user/sh.c\<close>. A pointer into the command line is the part of the line from there on, so \<^verbatim>\<open>es\<close> is the empty
  list and a token is the pair of its start \<^verbatim>\<open>q\<close> and its end \<^verbatim>\<open>eq\<close>. The recursive descent parser takes fuel, which
  \<open>parsecmd\<close> chooses large enough for every line. Memory for the command tree is taken to be available.
\<close>

section \<open>Commands\<close>

type_synonym token = "bytes \<times> bytes"

datatype cmd =
    EXEC "token list"
  | REDIR cmd token int int
  | PIPE cmd cmd
  | LIST cmd cmd
  | BACK cmd

text \<open>The redirections of a command in the order they were read, the last one outermost.\<close>

type_synonym redir = "token \<times> int \<times> int"

definition redirect :: "cmd \<Rightarrow> redir list \<Rightarrow> cmd" where
  "redirect c rs = foldl (\<lambda>c (f, mode, fd). REDIR c f mode fd) c rs"

section \<open>Tokens\<close>

text \<open>\<^verbatim>\<open>" \t\r\n\v"\<close> and \<^verbatim>\<open>"<|>&;()"\<close>\<close>

definition whitespace :: bytes where
  "whitespace = [32, 9, 13, 10, 11]"

definition symbols :: bytes where
  "symbols = [60, 124, 62, 38, 59, 40, 41]"

fun skip_white :: "bytes \<Rightarrow> bytes" where
  "skip_white [] = []"
| "skip_white (c # s) = (if strchr whitespace c \<noteq> None then skip_white s else c # s)"

fun skip_word :: "bytes \<Rightarrow> bytes" where
  "skip_word [] = []"
| "skip_word (c # s) = (if strchr whitespace c = None \<and> strchr symbols c = None then skip_word s else c # s)"

text \<open>The kind of the token, its start and end, and the line after it.\<close>

definition gettoken :: "bytes \<Rightarrow> u8 \<times> token \<times> bytes" where
  "gettoken ps =
    (let q = skip_white ps; c = chd q;
         (ret, eq) =
           (if c = 0 then (0, q)
            else if c \<in> {124, 40, 41, 59, 38, 60} then (c, tl q)
            else if c = 62 then (if chd (tl q) = 62 then (43, tl (tl q)) else (62, tl q))
            else (97, skip_word q)) in
     (ret, (q, eq), skip_white eq))"

definition peek :: "bytes \<Rightarrow> bytes \<Rightarrow> bool \<times> bytes" where
  "peek ps toks = (let s = skip_white ps in (chd s \<noteq> 0 \<and> strchr toks (chd s) \<noteq> None, s))"

section \<open>The parser\<close>

datatype 'a parse = Parsed 'a bytes | Panicked string | Out_of_fuel

fun pbind :: "'a parse \<Rightarrow> ('a \<Rightarrow> bytes \<Rightarrow> 'b parse) \<Rightarrow> 'b parse" where
  "pbind (Parsed x s) f = f x s"
| "pbind (Panicked m) f = Panicked m"
| "pbind Out_of_fuel f = Out_of_fuel"

lemma length_skip_white: "length (skip_white s) \<le> length s"
  by (induction s) auto

lemma length_skip_word: "length (skip_word s) \<le> length s"
  by (induction s) auto

lemma gettoken_le: "gettoken ps = (ret, t, s) \<Longrightarrow> length s \<le> length ps"
  using length_skip_white [of ps] length_skip_word [of "skip_white ps"] length_skip_white [of "snd t"]
  by (auto simp: gettoken_def Let_def split: if_splits prod.splits)

lemma gettoken_less:
  assumes "gettoken ps = (ret, t, s)" and "ret \<noteq> 0"
  shows "length s < length ps"
proof -
  let ?q = "skip_white ps"
  have q: "?q \<noteq> []" and nz: "chd ?q \<noteq> 0" using assms by (auto simp: gettoken_def Let_def split: if_splits prod.splits)
  then obtain c q' where cq: "?q = c # q'" by (cases ?q) auto
  have w: "strchr whitespace c = None" using cq by (induction ps) (auto split: if_splits)
  have "length (snd t) < length ?q"
    using assms w length_skip_word [of q']
    by (auto simp: gettoken_def cq Let_def symbols_def strchr_None cstr_Cons split: if_splits prod.splits)
  moreover have "s = skip_white (snd t)" using assms by (auto simp: gettoken_def Let_def split: prod.splits)
  ultimately show ?thesis using length_skip_white [of "snd t"] length_skip_white [of ps] by simp
qed

lemma peek_length: "length (snd (peek ps toks)) \<le> length ps"
  by (simp add: peek_def Let_def length_skip_white)

lemma skip_white_idem [simp]: "skip_white (skip_white s) = skip_white s"
  by (induction s) auto

lemma peek_gettoken: "gettoken (snd (peek ps toks)) = gettoken ps"
  by (simp add: peek_def gettoken_def Let_def)

lemma peek_nonzero: "fst (peek ps toks) \<Longrightarrow> fst (gettoken ps) \<noteq> 0"
  by (auto simp: peek_def gettoken_def Let_def split: prod.splits)

lemma peek_less: "fst (peek ps toks) \<Longrightarrow> length (snd (snd (gettoken (snd (peek ps toks))))) < length ps"
  using gettoken_less [of ps] peek_nonzero [of ps toks] by (simp add: peek_gettoken prod_eq_iff)

text \<open>\<^verbatim>\<open>O_RDONLY\<close>, \<^verbatim>\<open>O_WRONLY|O_CREATE|O_TRUNC\<close> and \<^verbatim>\<open>O_WRONLY|O_CREATE\<close>.\<close>

definition redir_of :: "u8 \<Rightarrow> token \<Rightarrow> redir list" where
  "redir_of tok f =
    (if tok = 60 then [(f, 0, 0)] else if tok = 62 then [(f, 0x601, 1)] else if tok = 43 then [(f, 0x201, 1)] else [])"

function parseredirs :: "redir list \<Rightarrow> bytes \<Rightarrow> redir list parse" where
  "parseredirs rs ps =
    (let (b, s) = peek ps [60, 62] in
     if b then
       let (tok, _, s1) = gettoken s; (a, f, s2) = gettoken s1 in
       if a \<noteq> 97 then Panicked ''missing file for redirection''
       else parseredirs (rs @ redir_of tok f) s2
     else Parsed rs s)"
  by pat_completeness auto
termination
proof (relation "measure (\<lambda>(rs, ps). length ps)")
  fix rs :: "redir list" and ps x b s xa tok y t s1 xb a ya f s2
  assume *: "x = peek ps [60, 62]" "(b, s) = x" b "xa = gettoken s" "(tok, y) = xa" "(t, s1) = y"
    "xb = gettoken s1" "(a, ya) = xb" "(f, s2) = ya"
  have "length s1 < length ps" using peek_less [of ps "[60, 62]"] * by (auto simp: prod_eq_iff)
  moreover have "length s2 \<le> length s1" using gettoken_le [of s1 a f s2] * by simp
  ultimately show "((rs @ redir_of tok f, s2), rs, ps) \<in> measure (\<lambda>(rs, ps). length ps)" by simp
qed simp

declare parseredirs.simps [simp del]

lemma parseredirs_le: "parseredirs rs ps = Parsed rs' s' \<Longrightarrow> length s' \<le> length ps"
proof (induction rs ps rule: parseredirs.induct)
  case (1 rs ps)
  obtain b s where p: "peek ps [60, 62] = (b, s)" by fastforce
  show ?case
  proof (cases b)
    case False
    then show ?thesis using "1.prems" p peek_length [of ps "[60, 62]"] by (simp add: parseredirs.simps [of rs ps])
  next
    case True
    obtain tok t s1 where g1: "gettoken s = (tok, t, s1)" using prod_cases3 by blast
    obtain a f s2 where g2: "gettoken s1 = (a, f, s2)" using prod_cases3 by blast
    have "a = 97" and r: "parseredirs (rs @ redir_of tok f) s2 = Parsed rs' s'"
      using "1.prems" p True g1 g2 by (auto simp: parseredirs.simps [of rs ps] split: if_splits)
    then have "length s' \<le> length s2" using "1.IH" [OF p [symmetric] refl True g1 [symmetric] refl refl g2 [symmetric] refl refl] by simp
    then show ?thesis using gettoken_le [OF g1] gettoken_le [OF g2] peek_length [of ps "[60, 62]"] p by simp
  qed
qed

text \<open>The loop of \<^verbatim>\<open>parseexec\<close>; the \<^verbatim>\<open>struct execcmd\<close> being filled is inside the redirections read so far.\<close>

function parseexec_loop :: "token list \<Rightarrow> redir list \<Rightarrow> bytes \<Rightarrow> cmd parse" where
  "parseexec_loop argv rs ps =
    (let (b, s) = peek ps [124, 41, 38, 59] in
     if b then Parsed (redirect (EXEC argv) rs) s
     else
       let (tok, t, s1) = gettoken s in
       if tok = 0 then Parsed (redirect (EXEC argv) rs) s1
       else if tok \<noteq> 97 then Panicked ''syntax''
       else if length (argv @ [t]) \<ge> 10 then Panicked ''too many args''
       else
         case parseredirs rs s1 of
           Parsed rs' s2 \<Rightarrow> parseexec_loop (argv @ [t]) rs' s2
         | Panicked m \<Rightarrow> Panicked m
         | Out_of_fuel \<Rightarrow> Out_of_fuel)"
  by pat_completeness auto
termination
proof (relation "measure (\<lambda>(argv, rs, ps). length ps)")
  fix argv :: "token list" and rs ps x b s xa tok y t s1 rs' s2
  assume *: "x = peek ps [124, 41, 38, 59]" "(b, s) = x" "xa = gettoken s" "(tok, y) = xa" "(t, s1) = y" "tok \<noteq> 0"
    "parseredirs rs s1 = Parsed rs' s2"
  have "length s1 < length s" using gettoken_less [of s tok t s1] * by simp
  moreover have "length s \<le> length ps" using peek_length [of ps "[124, 41, 38, 59]"] * by (metis snd_conv)
  ultimately show "((argv @ [t], rs', s2), argv, rs, ps) \<in> measure (\<lambda>(argv, rs, ps). length ps)"
    using parseredirs_le [OF *(7)] by simp
qed simp

text \<open>\<^verbatim>\<open>while(peek(ps, es, "&"))\<close>\<close>

function back_loop :: "cmd \<Rightarrow> bytes \<Rightarrow> cmd \<times> bytes" where
  "back_loop c ps =
    (let (b, s) = peek ps [38] in
     if b then let (_, _, s1) = gettoken s in back_loop (BACK c) s1 else (c, s))"
  by pat_completeness auto
termination
proof (relation "measure (\<lambda>(c, ps). length ps)")
  fix c :: cmd and ps x b s xa tok y t s1
  assume "x = peek ps [38]" "(b, s) = x" b "xa = gettoken s" "(tok, y) = xa" "(t, s1) = y"
  then show "((BACK c, s1), c, ps) \<in> measure (\<lambda>(c, ps). length ps)"
    using peek_less [of ps "[38]"] by (auto simp: prod_eq_iff)
qed simp

declare parseexec_loop.simps [simp del] back_loop.simps [simp del]

fun parseline :: "nat \<Rightarrow> bytes \<Rightarrow> cmd parse" and parsepipe :: "nat \<Rightarrow> bytes \<Rightarrow> cmd parse"
  and parseexec :: "nat \<Rightarrow> bytes \<Rightarrow> cmd parse" and parseblock :: "nat \<Rightarrow> bytes \<Rightarrow> cmd parse" where
  "parseline 0 ps = Out_of_fuel"
| "parseline (Suc n) ps =
    pbind (parsepipe n ps) (\<lambda>c s.
    let (c, s) = back_loop c s; (b, s) = peek s [59] in
    if b then let (_, _, s) = gettoken s in pbind (parseline n s) (\<lambda>c' s. Parsed (LIST c c') s)
    else Parsed c s)"
| "parsepipe 0 ps = Out_of_fuel"
| "parsepipe (Suc n) ps =
    pbind (parseexec n ps) (\<lambda>c s.
    let (b, s) = peek s [124] in
    if b then let (_, _, s) = gettoken s in pbind (parsepipe n s) (\<lambda>c' s. Parsed (PIPE c c') s)
    else Parsed c s)"
| "parseexec 0 ps = Out_of_fuel"
| "parseexec (Suc n) ps =
    (let (b, s) = peek ps [40] in
     if b then parseblock n s
     else pbind (parseredirs [] s) (\<lambda>rs s. parseexec_loop [] rs s))"
| "parseblock 0 ps = Out_of_fuel"
| "parseblock (Suc n) ps =
    (let (b, s) = peek ps [40] in
     if \<not> b then Panicked ''parseblock''
     else
       let (_, _, s) = gettoken s in
       pbind (parseline n s) (\<lambda>c s.
       let (b, s) = peek s [41] in
       if \<not> b then Panicked ''syntax - missing )''
       else
         let (_, _, s) = gettoken s in
         pbind (parseredirs [] s) (\<lambda>rs s. Parsed (redirect c rs) s)))"

text \<open>The text left over after the command is an error; \<open>Inr\<close> has the command, \<open>Inl\<close> the two messages printed before exiting.\<close>

definition parsecmd :: "bytes \<Rightarrow> (bytes \<times> string) + cmd" where
  "parsecmd line =
    (let s = cstr line in
     case parseline (4 * length s + 4) s of
       Parsed c s \<Rightarrow> (let (_, s) = peek s [] in if s \<noteq> [] then Inl (s, ''syntax'') else Inr c)
     | Panicked m \<Rightarrow> Inl ([], m)
     | Out_of_fuel \<Rightarrow> Inl ([], ''''))"

text \<open>\<^verbatim>\<open>*eq = 0\<close> in a line of which \<open>eq\<close> is the end.\<close>

definition put_nul :: "bytes \<Rightarrow> bytes \<Rightarrow> bytes" where
  "put_nul buf eq = buf[length buf - length eq := 0]"

fun nulterminate :: "bytes \<Rightarrow> cmd \<Rightarrow> bytes" where
  "nulterminate buf (EXEC argv) = fold (\<lambda>(q, eq) buf. put_nul buf eq) argv buf"
| "nulterminate buf (REDIR c f mode fd) = put_nul (nulterminate buf c) (snd f)"
| "nulterminate buf (PIPE l r) = nulterminate (nulterminate buf l) r"
| "nulterminate buf (LIST l r) = nulterminate (nulterminate buf l) r"
| "nulterminate buf (BACK c) = nulterminate buf c"

section \<open>Running commands\<close>

definition sh_panic :: "bytes \<Rightarrow> world \<Rightarrow> 'a ures" where
  "sh_panic s w = exit 1 (fprintf 2 (lit ''%s'' @ [10]) [VStr (Some s)] w)"

definition fork1 :: "world \<Rightarrow> int ures" where
  "fork1 w = ubind (syscall1 Fork w) (\<lambda>pid w. if pid = -1 then sh_panic (lit ''fork'') w else Ret pid w)"

text \<open>The string a token points to in the line, once it is terminated.\<close>

definition token_str :: "bytes \<Rightarrow> token \<Rightarrow> bytes" where
  "token_str buf t = cstr (drop (length buf - length (fst t)) buf)"

fun runcmd :: "bytes \<Rightarrow> cmd \<Rightarrow> world \<Rightarrow> unit ures" where
  "runcmd buf (EXEC argv) w =
    (if argv = [] then exit 1 w
     else
       let args = map (token_str buf) argv in
       ubind (exec (args ! 0) args w) (\<lambda>_ w.
       exit 0 (fprintf 2 (lit ''exec %s failed'' @ [10]) [VStr (Some (args ! 0))] w)))"
| "runcmd buf (REDIR c f mode fd) w =
    ubind (syscall1 (Open (token_str buf f) mode) (tell (Close fd) w)) (\<lambda>r w.
    if r < 0 then exit 1 (fprintf 2 (lit ''open %s failed'' @ [10]) [VStr (Some (token_str buf f))] w)
    else runcmd buf c w)"
| "runcmd buf (LIST l r) w =
    ubind (fork1 w) (\<lambda>pid w. if pid = 0 then runcmd buf l w else runcmd buf r (tell Wait w))"
| "runcmd buf (PIPE l r) w =
    ubind (ask Pipe w) (\<lambda>(v, p) w.
    let p0 = int_val (get32 0 p); p1 = int_val (get32 1 p) in
    if v < 0 then sh_panic (lit ''pipe'') w
    else
      ubind (fork1 w) (\<lambda>pid w.
      if pid = 0 then runcmd buf l (fold tell [Close 1, Dup p1, Close p0, Close p1] w)
      else
        ubind (fork1 w) (\<lambda>pid w.
        if pid = 0 then runcmd buf r (fold tell [Close 0, Dup p0, Close p0, Close p1] w)
        else exit 0 (fold tell [Close p0, Close p1, Wait, Wait] w))))"
| "runcmd buf (BACK c) w = ubind (fork1 w) (\<lambda>pid w. if pid = 0 then runcmd buf c w else exit 0 w)"

definition run_line :: "bytes \<Rightarrow> world \<Rightarrow> unit ures" where
  "run_line line w =
    (case parsecmd line of
       Inr c \<Rightarrow> runcmd (nulterminate (cstr line) c) c w
     | Inl (s, m) \<Rightarrow> sh_panic (lit m) (if s \<noteq> [] then fprintf 2 (lit ''leftovers: %s'' @ [10]) [VStr (Some s)] w else w))"

text \<open>The contents of the buffer; the end of the input shows as an empty line.\<close>

definition getcmd :: "nat \<Rightarrow> world \<Rightarrow> bytes ures" where
  "getcmd nbuf w = gets nbuf (tell (Write 2 (lit ''$ '')) w)"

fun skip_blanks :: "bytes \<Rightarrow> bytes" where
  "skip_blanks [] = []"
| "skip_blanks (c # s) = (if c = 32 \<or> c = 9 then skip_blanks s else c # s)"

function open_console :: "world \<Rightarrow> unit ures" where
  "open_console w =
    ubind (syscall1 (Open (lit ''console'') 2) w) (\<lambda>fd w.
    if fd \<ge> 0 then (if fd \<ge> 3 then Ret () (tell (Close fd) w) else open_console w) else Ret () w)"
  by pat_completeness auto
termination
  by (relation "measure (\<lambda>w. length (replies w))") (auto dest!: syscall1_decreases)

declare open_console.simps [simp del]

lemma gets_loop_le: "gets_loop n buf w = Ret buf' w' \<Longrightarrow> length (replies w') \<le> length (replies w)"
proof (induction n buf w rule: gets_loop.induct)
  case (1 n buf w)
  show ?case
  proof (cases "length buf + 1 < n")
    case True
    with "1.prems" obtain k cs w1 where r: "read 0 1 w = Ret (k, cs) w1"
      and rest: "(if k < 1 then Ret buf w1 else if chd cs = 10 \<or> chd cs = 13 then Ret (buf @ [chd cs]) w1
        else gets_loop n (buf @ [chd cs]) w1) = Ret buf' w'"
      by (subst (asm) gets_loop.simps) auto
    have "length (replies w') \<le> length (replies w1)"
      using "1.IH" [OF True r refl, of w1] rest by (auto split: if_splits)
    then show ?thesis using read_decreases [OF r] by simp
  qed (use "1.prems" in \<open>simp add: gets_loop.simps [of n buf]\<close>)
qed

lemma gets_loop_less:
  assumes "gets_loop n buf w = Ret buf' w'" and "length buf + 1 < n"
  shows "length (replies w') < length (replies w)"
proof -
  from assms obtain k cs w1 where r: "read 0 1 w = Ret (k, cs) w1"
    and rest: "(if k < 1 then Ret buf w1 else if chd cs = 10 \<or> chd cs = 13 then Ret (buf @ [chd cs]) w1
      else gets_loop n (buf @ [chd cs]) w1) = Ret buf' w'"
    by (subst (asm) gets_loop.simps) auto
  then have "length (replies w') \<le> length (replies w1)"
    using gets_loop_le [of n "buf @ [chd cs]" w1 buf' w'] by (auto split: if_splits)
  then show ?thesis using read_decreases [OF r] by simp
qed

lemma getcmd_decreases: "getcmd nbuf w = Ret buf w' \<Longrightarrow> 1 < nbuf \<Longrightarrow> length (replies w') < length (replies w)"
  by (auto simp: getcmd_def gets_def dest!: gets_loop_less)

lemma fork1_decreases: "fork1 w = Ret pid w' \<Longrightarrow> length (replies w') < length (replies w)"
  by (auto simp: fork1_def sh_panic_def exit_def dest!: syscall1_decreases split: if_splits)

function sh_loop :: "world \<Rightarrow> unit ures" where
  "sh_loop w =
    ubind (getcmd 100 w) (\<lambda>buf w.
    if chd buf = 0 then exit 0 w
    else
      let line = skip_blanks buf in
      if chd line = 10 then sh_loop w
      else if chd line = 99 \<and> chd (tl line) = 100 \<and> chd (tl (tl line)) = 32 then
        let dir = drop 3 (take (strlen line - 1) line) in
        ubind (syscall1 (Chdir dir) w) (\<lambda>r w.
        sh_loop (if r < 0 then fprintf 2 (lit ''cannot cd %s'' @ [10]) [VStr (Some dir)] w else w))
      else
        ubind (fork1 w) (\<lambda>pid w.
        if pid = 0 then run_line line w else sh_loop (tell Wait w)))"
  by pat_completeness auto
termination
  by (relation "measure (\<lambda>w. length (replies w))") (auto dest!: getcmd_decreases syscall1_decreases fork1_decreases)

declare sh_loop.simps [simp del]

definition sh_main :: "world \<Rightarrow> unit ures" where
  "sh_main w = ubind (open_console w) (\<lambda>_ w. sh_loop w)"

section \<open>The parser returns\<close>

text \<open>A parse that leaves at most \<open>k\<close> bytes of the line and runs out of fuel only if \<open>short\<close>.\<close>

definition upto :: "bool \<Rightarrow> nat \<Rightarrow> 'a parse \<Rightarrow> bool" where
  "upto short k m \<longleftrightarrow> (case m of Parsed c s \<Rightarrow> length s \<le> k | Panicked e \<Rightarrow> True | Out_of_fuel \<Rightarrow> short)"

lemma upto_simps [simp]:
  "upto short k (Parsed c s) \<longleftrightarrow> length s \<le> k"
  "upto short k (Panicked e)"
  "upto short k Out_of_fuel \<longleftrightarrow> short"
  by (simp_all add: upto_def)

lemma upto_weaken: "upto short k m \<Longrightarrow> (short \<Longrightarrow> short') \<Longrightarrow> k \<le> k' \<Longrightarrow> upto short' k' m"
  by (cases m) auto

lemma upto_bind:
  "upto short k m \<Longrightarrow> (\<And>x s. length s \<le> k \<Longrightarrow> upto short' k' (f x s)) \<Longrightarrow> (short \<Longrightarrow> short') \<Longrightarrow> upto short' k' (pbind m f)"
  by (cases m) auto

lemma parseredirs_fuel: "parseredirs rs ps \<noteq> Out_of_fuel"
  by (induction rs ps rule: parseredirs.induct) (subst parseredirs.simps, auto simp: Let_def split: prod.splits)

lemma parseexec_loop_le:
  "(parseexec_loop argv rs ps = Parsed c s' \<longrightarrow> length s' \<le> length ps) \<and> parseexec_loop argv rs ps \<noteq> Out_of_fuel"
proof (induction argv rs ps rule: parseexec_loop.induct)
  case (1 argv rs ps)
  obtain b s where p: "peek ps [124, 41, 38, 59] = (b, s)" by fastforce
  obtain tok t s1 where g: "gettoken s = (tok, t, s1)" using prod_cases3 by blast
  have le: "length s \<le> length ps" "length s1 \<le> length s"
    using peek_length [of ps "[124, 41, 38, 59]"] p gettoken_le [OF g] by simp_all
  show ?case
  proof (cases "b \<or> tok = 0 \<or> tok \<noteq> 97 \<or> length (argv @ [t]) \<ge> 10")
    case True
    then show ?thesis using p g le by (auto simp: parseexec_loop.simps [of argv rs ps])
  next
    case False
    then have e: "parseexec_loop argv rs ps = (case parseredirs rs s1 of Parsed rs' s2 \<Rightarrow> parseexec_loop (argv @ [t]) rs' s2
        | Panicked m \<Rightarrow> Panicked m | Out_of_fuel \<Rightarrow> Out_of_fuel)"
      using p g by (auto simp: parseexec_loop.simps [of argv rs ps])
    show ?thesis
    proof (cases "parseredirs rs s1")
      case (Parsed rs' s2)
      have "(parseexec_loop (argv @ [t]) rs' s2 = Parsed c s' \<longrightarrow> length s' \<le> length s2) \<and>
          parseexec_loop (argv @ [t]) rs' s2 \<noteq> Out_of_fuel"
        using "1.IH" [OF p [symmetric] refl _ g [symmetric] refl refl _ _ _ Parsed] False by auto
      then show ?thesis using e Parsed parseredirs_le [OF Parsed] le by auto
    qed (use e parseredirs_fuel in auto)
  qed
qed

lemma back_loop_le: "back_loop c ps = (c', s') \<Longrightarrow> length s' \<le> length ps"
proof (induction c ps rule: back_loop.induct)
  case (1 c ps)
  obtain b s where p: "peek ps [38] = (b, s)" by fastforce
  obtain tok q eq s1 where g: "gettoken s = (tok, (q, eq), s1)" by (metis surj_pair)
  have "length s' \<le> length s1" if b
    using "1.IH" [OF p [symmetric] refl that g [symmetric]] "1.prems" p g that by (auto simp: back_loop.simps [of c ps])
  then show ?case
    using "1.prems" p g gettoken_le [OF g] peek_length [of ps "[38]"]
    by (cases b) (auto simp: back_loop.simps [of c ps])
qed

lemma parseredirs_upto: "upto False (length ps) (parseredirs rs ps)"
  using parseredirs_fuel [of rs ps] parseredirs_le [of rs ps] by (cases "parseredirs rs ps") auto

lemma parseexec_loop_upto: "upto False (length ps) (parseexec_loop argv rs ps)"
  using parseexec_loop_le [of argv rs ps] by (cases "parseexec_loop argv rs ps") auto

lemma parseline_upto:
  assumes line: "\<And>ps. upto (n < 4 * length ps + 4) (length ps) (parseline n ps)"
    and pipe: "\<And>ps. upto (n < 4 * length ps + 3) (length ps) (parsepipe n ps)"
  shows "upto (Suc n < 4 * length ps + 4) (length ps) (parseline (Suc n) ps)"
  unfolding parseline.simps
proof (rule upto_bind [OF pipe])
  fix c and s :: bytes
  assume s: "length s \<le> length ps"
  obtain c1 s1 where bl: "back_loop c s = (c1, s1)" by fastforce
  obtain b s2 where p: "peek s1 [59] = (b, s2)" by fastforce
  obtain tok t s3 where g: "gettoken s2 = (tok, t, s3)" using prod_cases3 by blast
  have s2: "length s2 \<le> length ps" using peek_length [of s1 "[59]"] p back_loop_le [OF bl] s by simp
  have s3: "length s3 < length ps" if b using peek_less [of s1 "[59]"] p g that back_loop_le [OF bl] s by simp
  have "upto (Suc n < 4 * length ps + 4) (length ps) (pbind (parseline n s3) (\<lambda>c' s. Parsed (LIST c1 c') s))" if b
    by (rule upto_bind [OF line]) (use s3 [OF that] in auto)
  then show "upto (Suc n < 4 * length ps + 4) (length ps)
      (let (c, s) = back_loop c s; (b, s) = peek s [59] in
       if b then let (_, _, s) = gettoken s in pbind (parseline n s) (\<lambda>c' s. Parsed (LIST c c') s) else Parsed c s)"
    using bl p g s2 by simp
qed simp

lemma parsepipe_upto:
  assumes pipe: "\<And>ps. upto (n < 4 * length ps + 3) (length ps) (parsepipe n ps)"
    and exec: "\<And>ps. upto (n < 4 * length ps + 2) (length ps) (parseexec n ps)"
  shows "upto (Suc n < 4 * length ps + 3) (length ps) (parsepipe (Suc n) ps)"
  unfolding parsepipe.simps
proof (rule upto_bind [OF exec])
  fix c and s :: bytes
  assume s: "length s \<le> length ps"
  obtain b s2 where p: "peek s [124] = (b, s2)" by fastforce
  obtain tok t s3 where g: "gettoken s2 = (tok, t, s3)" using prod_cases3 by blast
  have s2: "length s2 \<le> length ps" using peek_length [of s "[124]"] p s by simp
  have s3: "length s3 < length ps" if b using peek_less [of s "[124]"] p g that s by simp
  have "upto (Suc n < 4 * length ps + 3) (length ps) (pbind (parsepipe n s3) (\<lambda>c' s. Parsed (PIPE c c') s))" if b
    by (rule upto_bind [OF pipe]) (use s3 [OF that] in auto)
  then show "upto (Suc n < 4 * length ps + 3) (length ps)
      (let (b, s) = peek s [124] in
       if b then let (_, _, s) = gettoken s in pbind (parsepipe n s) (\<lambda>c' s. Parsed (PIPE c c') s) else Parsed c s)"
    using p g s2 by simp
qed simp

lemma parseexec_upto:
  assumes block: "\<And>ps. upto (n < 4 * length ps + 1) (length ps) (parseblock n ps)"
  shows "upto (Suc n < 4 * length ps + 2) (length ps) (parseexec (Suc n) ps)"
proof -
  obtain b s where p: "peek ps [40] = (b, s)" by fastforce
  have s: "length s \<le> length ps" using peek_length [of ps "[40]"] p by simp
  have "upto (Suc n < 4 * length ps + 2) (length ps) (parseblock n s)"
    by (rule upto_weaken [OF block]) (use s in auto)
  moreover have "upto (Suc n < 4 * length ps + 2) (length ps) (pbind (parseredirs [] s) (\<lambda>rs s. parseexec_loop [] rs s))"
    by (rule upto_bind [OF parseredirs_upto], rule upto_weaken [OF parseexec_loop_upto]) (use s in auto)
  ultimately show ?thesis using p by simp
qed

lemma parseblock_upto:
  assumes line: "\<And>ps. upto (n < 4 * length ps + 4) (length ps) (parseline n ps)"
  shows "upto (Suc n < 4 * length ps + 1) (length ps) (parseblock (Suc n) ps)"
proof -
  obtain b s where p: "peek ps [40] = (b, s)" by fastforce
  obtain tok t s1 where g: "gettoken s = (tok, t, s1)" using prod_cases3 by blast
  have "upto (Suc n < 4 * length ps + 1) (length ps) (pbind (parseline n s1) (\<lambda>c s.
     let (b, s) = peek s [41] in
     if \<not> b then Panicked ''syntax - missing )''
     else let (_, _, s) = gettoken s in pbind (parseredirs [] s) (\<lambda>rs s. Parsed (redirect c rs) s)))" if b
  proof (rule upto_bind [OF line])
    have s1: "length s1 < length ps" using peek_less [of ps "[40]"] p g that by simp
    then show "Suc n < 4 * length ps + 1" if "n < 4 * length s1 + 4" using that by simp
    fix c and s2 :: bytes
    assume s2: "length s2 \<le> length s1"
    obtain b' s3 where p': "peek s2 [41] = (b', s3)" by fastforce
    obtain tok' t' s4 where g': "gettoken s3 = (tok', t', s4)" using prod_cases3 by blast
    have "length s4 \<le> length ps" using peek_length [of s2 "[41]"] p' gettoken_le [OF g'] s1 s2 by simp
    then have "upto (Suc n < 4 * length ps + 1) (length ps) (pbind (parseredirs [] s4) (\<lambda>rs s. Parsed (redirect c rs) s))"
      by (intro upto_bind [OF parseredirs_upto]) auto
    then show "upto (Suc n < 4 * length ps + 1) (length ps) (let (b, s) = peek s2 [41] in
       if \<not> b then Panicked ''syntax - missing )''
       else let (_, _, s) = gettoken s in pbind (parseredirs [] s) (\<lambda>rs s. Parsed (redirect c rs) s))"
      using p' g' by simp
  qed
  then show ?thesis using p g by simp
qed

lemma parse_upto:
  "upto (n < 4 * length ps + 4) (length ps) (parseline n ps) \<and>
   upto (n < 4 * length ps + 3) (length ps) (parsepipe n ps) \<and>
   upto (n < 4 * length ps + 2) (length ps) (parseexec n ps) \<and>
   upto (n < 4 * length ps + 1) (length ps) (parseblock n ps)"
proof (induction n arbitrary: ps)
  case (Suc n)
  then show ?case using parseline_upto [of n ps] parsepipe_upto [of n ps] parseexec_upto [of n ps] parseblock_upto [of n ps] by blast
qed simp_all

text \<open>More fuel gives the same result.\<close>

definition more_fuel :: "'a parse \<Rightarrow> 'a parse \<Rightarrow> bool" where
  "more_fuel m m' \<longleftrightarrow> m = Out_of_fuel \<or> m' = m"

lemma more_fuel_refl [simp]: "more_fuel m m"
  by (simp add: more_fuel_def)

lemma more_fuel_bind:
  "more_fuel m m' \<Longrightarrow> (\<And>x s. more_fuel (f x s) (f' x s)) \<Longrightarrow> more_fuel (pbind m f) (pbind m' f')"
  by (cases m) (auto simp: more_fuel_def)

lemma parse_Suc:
  "more_fuel (parseline n ps) (parseline (Suc n) ps) \<and> more_fuel (parsepipe n ps) (parsepipe (Suc n) ps) \<and>
   more_fuel (parseexec n ps) (parseexec (Suc n) ps) \<and> more_fuel (parseblock n ps) (parseblock (Suc n) ps)"
proof (induction n arbitrary: ps)
  case 0
  then show ?case by (simp add: more_fuel_def)
next
  case (Suc n)
  have line: "more_fuel (parseline n ps) (parseline (Suc n) ps)" and pipe: "more_fuel (parsepipe n ps) (parsepipe (Suc n) ps)"
    and exec: "more_fuel (parseexec n ps) (parseexec (Suc n) ps)"
    and block: "more_fuel (parseblock n ps) (parseblock (Suc n) ps)" for ps
    using Suc [of ps] by blast+
  have "more_fuel (parseline (Suc n) ps) (parseline (Suc (Suc n)) ps)"
    by (subst (1 2) parseline.simps(2))
      (auto intro!: more_fuel_bind pipe line simp: Let_def simp del: parseline.simps parsepipe.simps split: prod.splits)
  moreover have "more_fuel (parsepipe (Suc n) ps) (parsepipe (Suc (Suc n)) ps)"
    by (subst (1 2) parsepipe.simps(2))
      (auto intro!: more_fuel_bind pipe exec simp: Let_def simp del: parseexec.simps parsepipe.simps split: prod.splits)
  moreover have "more_fuel (parseexec (Suc n) ps) (parseexec (Suc (Suc n)) ps)"
    by (subst (1 2) parseexec.simps(2))
      (auto intro!: block simp: Let_def simp del: parseblock.simps split: prod.splits)
  moreover have "more_fuel (parseblock (Suc n) ps) (parseblock (Suc (Suc n)) ps)"
    by (subst (1 2) parseblock.simps(2))
      (auto intro!: more_fuel_bind line simp: Let_def simp del: parseline.simps split: prod.splits)
  ultimately show ?case by blast
qed

lemma parse_more_fuel: "n \<le> m \<Longrightarrow> more_fuel (parseline n ps) (parseline m ps)"
proof (induction m rule: dec_induct)
  case (step m)
  then show ?case using parse_Suc [of m ps] unfolding more_fuel_def by metis
qed simp

text \<open>Parses with enough fuel, and rules to put them together.\<close>

definition line_parses :: "bytes \<Rightarrow> cmd \<Rightarrow> bytes \<Rightarrow> bool" where
  "line_parses ps c s \<longleftrightarrow> (\<exists>n. \<forall>m \<ge> n. parseline m ps = Parsed c s)"

definition pipe_parses :: "bytes \<Rightarrow> cmd \<Rightarrow> bytes \<Rightarrow> bool" where
  "pipe_parses ps c s \<longleftrightarrow> (\<exists>n. \<forall>m \<ge> n. parsepipe m ps = Parsed c s)"

definition exec_parses :: "bytes \<Rightarrow> cmd \<Rightarrow> bytes \<Rightarrow> bool" where
  "exec_parses ps c s \<longleftrightarrow> (\<exists>n. \<forall>m \<ge> n. parseexec m ps = Parsed c s)"

lemma enough_Suc: "(\<exists>n. \<forall>m \<ge> n. P m) \<Longrightarrow> (\<And>m. P m \<Longrightarrow> Q (Suc m)) \<Longrightarrow> \<exists>n. \<forall>m \<ge> n. Q m" for P Q :: "nat \<Rightarrow> bool"
proof -
  assume "\<exists>n. \<forall>m \<ge> n. P m" and step: "\<And>m. P m \<Longrightarrow> Q (Suc m)"
  then obtain n where n: "\<forall>m \<ge> n. P m" by blast
  have "\<forall>m \<ge> Suc n. Q m"
  proof (intro allI impI)
    fix m assume "Suc n \<le> m"
    then obtain k where "m = Suc k" "n \<le> k" by (cases m) auto
    with n step show "Q m" by simp
  qed
  then show ?thesis by blast
qed

lemma enough_conj: "(\<exists>n. \<forall>m \<ge> n. P m) \<Longrightarrow> (\<exists>n. \<forall>m \<ge> n. P' m) \<Longrightarrow> \<exists>n. \<forall>m \<ge> n. P m \<and> P' m" for P P' :: "nat \<Rightarrow> bool"
  by (meson nat_le_linear order_trans)

definition after :: "bytes \<Rightarrow> bytes" where
  "after s = snd (snd (gettoken s))"

lemma pipe_plain:
  assumes "exec_parses ps c s" and "\<not> fst (peek s [124])"
  shows "pipe_parses ps c (skip_white s)"
  using assms unfolding exec_parses_def pipe_parses_def
  by (elim enough_Suc) (auto simp: peek_def Let_def)

lemma pipe_pipe:
  assumes "exec_parses ps c s" and "fst (peek s [124])" and "pipe_parses (after s) c' s'"
  shows "pipe_parses ps (PIPE c c') s'"
  using enough_conj [OF assms(1)[unfolded exec_parses_def] assms(3)[unfolded pipe_parses_def]] assms(2)
    peek_gettoken [of s "[124]"] unfolding pipe_parses_def
  by (elim enough_Suc) (auto simp: Let_def after_def case_prod_beta)

lemma line_plain:
  assumes "pipe_parses ps c s" and "back_loop c s = (c', s')" and "\<not> fst (peek s' [59])"
  shows "line_parses ps c' (skip_white s')"
  using assms unfolding pipe_parses_def line_parses_def
  by (elim enough_Suc) (auto simp: peek_def Let_def)

lemma line_list:
  assumes "pipe_parses ps c s" and "back_loop c s = (c', s')" and "fst (peek s' [59])" and "line_parses (after s') d t"
  shows "line_parses ps (LIST c' d) t"
  using enough_conj [OF assms(1)[unfolded pipe_parses_def] assms(4)[unfolded line_parses_def]] assms(2,3)
    peek_gettoken [of s' "[59]"] unfolding line_parses_def
  by (elim enough_Suc) (auto simp: Let_def after_def case_prod_beta)

lemma exec_words:
  assumes "\<not> fst (peek ps [40])" and "parseredirs [] (skip_white ps) = Parsed rs s" and "parseexec_loop [] rs s = Parsed c t"
  shows "exec_parses ps c t"
  unfolding exec_parses_def using assms by (intro exI [of _ 1] allI impI) (auto simp: peek_def Let_def Suc_le_eq gr0_conv_Suc)

lemma exec_block:
  assumes "fst (peek ps [40])" and "line_parses (after ps) c s" and "fst (peek s [41])"
    and "parseredirs [] (after s) = Parsed rs t"
  shows "exec_parses ps (redirect c rs) t"
proof -
  have a: "gettoken (skip_white ps) = gettoken ps" "gettoken (skip_white s) = gettoken s" by (simp_all add: gettoken_def)
  have "\<exists>n. \<forall>m \<ge> n. parseblock m (skip_white ps) = Parsed (redirect c rs) t"
    using assms(2) unfolding line_parses_def
    by (rule enough_Suc) (use assms(1,3,4) a in \<open>auto simp: peek_def Let_def after_def case_prod_beta\<close>)
  then show ?thesis
    unfolding exec_parses_def by (rule enough_Suc) (use assms(1) in \<open>auto simp: peek_def Let_def\<close>)
qed


end
