(* ===== verification/Sh_Text.thy ===== *)
theory Sh_Text
  imports Sh "HOL-Library.Sublist"
begin

text \<open>
  Reading back what the shell is given: every command tree, written out as a user would type it, is parsed to that tree,
  and the strings the shell passes to the system calls after \<^verbatim>\<open>nulterminate\<close> are the words of the line.
\<close>

section \<open>Commands as text\<close>

text \<open>Commands with their strings in place of pointers, and the text a user types for one.\<close>

datatype xcmd =
    XEXEC "bytes list"
  | XREDIR xcmd bytes int int
  | XPIPE xcmd xcmd
  | XLIST xcmd xcmd
  | XBACK xcmd

definition redir_text :: "bytes \<times> int \<times> int \<Rightarrow> bytes" where
  "redir_text = (\<lambda>(f, mode, fd). (if mode = 0 then [60] else if mode = 0x601 then [62] else [62, 62]) @ f @ [32])"

definition paren :: "bool \<Rightarrow> bytes \<Rightarrow> bytes" where
  "paren b s = (if b then [40] @ s @ [41] else s)"

text \<open>The level is 0 for a line, 1 for what can precede \<open>&\<close>, 2 for a pipeline and 3 for one of its commands.\<close>

fun command_text :: "nat \<Rightarrow> xcmd \<Rightarrow> bytes" where
  "command_text lev (XEXEC ws) = concat (map (\<lambda>w. w @ [32]) ws)"
| "command_text lev (XREDIR c f mode fd) = command_text 3 c @ redir_text (f, mode, fd)"
| "command_text lev (XPIPE l r) = paren (lev > 2) (command_text 3 l @ [124] @ command_text 2 r)"
| "command_text lev (XBACK c) = paren (lev > 1) (command_text 1 c @ [38])"
| "command_text lev (XLIST l r) = paren (lev > 0) (command_text 1 l @ [59] @ command_text 0 r)"

definition wordchar :: "u8 \<Rightarrow> bool" where
  "wordchar c \<longleftrightarrow> c \<noteq> 0 \<and> c \<notin> set whitespace \<and> c \<notin> set symbols"

definition is_word :: "bytes \<Rightarrow> bool" where
  "is_word w \<longleftrightarrow> w \<noteq> [] \<and> (\<forall>c \<in> set w. wordchar c)"

definition is_redir :: "bytes \<times> int \<times> int \<Rightarrow> bool" where
  "is_redir = (\<lambda>(f, m). is_word f \<and> m \<in> {(0, 0), (0x601, 1), (0x201, 1)})"

text \<open>A command a user can type: at most 9 words per program, and redirections of the three kinds the shell has.\<close>

fun typable :: "xcmd \<Rightarrow> bool" where
  "typable (XEXEC ws) \<longleftrightarrow> length ws \<le> 9 \<and> (\<forall>w \<in> set ws. is_word w)"
| "typable (XREDIR c f mode fd) \<longleftrightarrow> typable c \<and> is_redir (f, mode, fd)"
| "typable (XPIPE l r) \<longleftrightarrow> typable l \<and> typable r"
| "typable (XLIST l r) \<longleftrightarrow> typable l \<and> typable r"
| "typable (XBACK c) \<longleftrightarrow> typable c"

text \<open>The text of a token, and of the tokens of a command.\<close>

definition token_text :: "token \<Rightarrow> bytes" where
  "token_text t = take (length (fst t) - length (snd t)) (fst t)"

fun shown :: "(token \<Rightarrow> bytes) \<Rightarrow> cmd \<Rightarrow> xcmd" where
  "shown f (EXEC argv) = XEXEC (map f argv)"
| "shown f (REDIR c t mode fd) = XREDIR (shown f c) (f t) mode fd"
| "shown f (PIPE l r) = XPIPE (shown f l) (shown f r)"
| "shown f (LIST l r) = XLIST (shown f l) (shown f r)"
| "shown f (BACK c) = XBACK (shown f c)"

section \<open>Reading the text back\<close>

lemma strchr_sets: "strchr whitespace c = None \<longleftrightarrow> c \<notin> set whitespace" "strchr symbols c = None \<longleftrightarrow> c \<notin> set symbols"
proof -
  have "cstr whitespace = whitespace" "cstr symbols = symbols" by code_simp+
  then show "strchr whitespace c = None \<longleftrightarrow> c \<notin> set whitespace" "strchr symbols c = None \<longleftrightarrow> c \<notin> set symbols"
    by (simp_all add: strchr_None)
qed

lemma skip_white_Cons: "skip_white (c # s) = (if c \<in> set whitespace then skip_white s else c # s)"
  using strchr_sets(1) [of c] by (cases "strchr whitespace c") auto

lemma skip_word_Cons: "skip_word (c # s) = (if c \<notin> set whitespace \<and> c \<notin> set symbols then skip_word s else c # s)"
  using strchr_sets [of c] by simp

declare skip_white.simps(2) [simp del] skip_word.simps(2) [simp del]

lemma skip_white_blank [simp]: "skip_white (32 # s) = skip_white s"
  by (simp add: skip_white_Cons whitespace_def)

lemma skip_white_head: "c \<notin> set whitespace \<Longrightarrow> skip_white (c # s) = c # s"
  by (simp add: skip_white_Cons)

lemma skip_word_word: "\<forall>c \<in> set w. wordchar c \<Longrightarrow> skip_word (w @ 32 # s) = 32 # s"
  by (induction w) (auto simp: skip_word_Cons wordchar_def whitespace_def)

lemma wordE:
  assumes "is_word w"
  obtains c v where "w = c # v" and "c \<noteq> 0" and "c \<notin> set whitespace" and "c \<notin> set symbols"
  using assms by (cases w) (auto simp: is_word_def wordchar_def)

lemma skip_white_word [simp]: "is_word w \<Longrightarrow> skip_white (w @ s) = w @ s"
  by (erule wordE) (simp add: skip_white_Cons)

lemma gettoken_word: "is_word w \<Longrightarrow> gettoken (w @ 32 # s) = (97, (w @ 32 # s, 32 # s), skip_white s)"
proof -
  assume w: "is_word w"
  then obtain c v where c: "w = c # v" "c \<noteq> 0" "c \<notin> set whitespace" "c \<notin> set symbols" by (rule wordE)
  have "skip_word (w @ 32 # s) = 32 # s" using w by (intro skip_word_word) (simp add: is_word_def)
  moreover have "chd (w @ 32 # s) = c" using c by simp
  ultimately show ?thesis
    using c w unfolding gettoken_def Let_def skip_white_word [OF w]
    by (auto simp: symbols_def)
qed

lemma token_text_word [simp]: "token_text (w @ s, s) = w"
  by (simp add: token_text_def)

lemma peek_iff: "fst (peek s toks) \<longleftrightarrow> (\<exists>c r. skip_white s = c # r \<and> c \<noteq> 0 \<and> c \<in> set (cstr toks))"
  by (cases "skip_white s") (auto simp: peek_def Let_def not_None_eq [symmetric] strchr_None simp del: not_None_eq)

lemma snd_peek [simp]: "snd (peek s toks) = skip_white s"
  by (simp add: peek_def Let_def)

lemma gettoken_symbol:
  assumes "c \<in> {124, 40, 41, 59, 38, 60}"
  shows "gettoken (c # s) = (c, (c # s, s), skip_white s)"
proof -
  have "c \<notin> set whitespace" "c \<noteq> 0" using assms by (auto simp: whitespace_def)
  then show ?thesis using assms by (auto simp: gettoken_def skip_white_head)
qed

lemma redir_token:
  assumes "is_redir (f, mode, fd)"
  shows "\<exists>tok t. gettoken (redir_text (f, mode, fd) @ rest) = (tok, t, f @ 32 # rest) \<and> (\<forall>u. redir_of tok u = [(u, mode, fd)])"
    and "fst (peek (redir_text (f, mode, fd) @ rest) [60, 62])"
    and "skip_white (redir_text (f, mode, fd) @ rest) = redir_text (f, mode, fd) @ rest"
proof -
  have f: "is_word f" and m: "(mode, fd) \<in> {(0, 0), (0x601, 1), (0x201, 1)}" using assms by (auto simp: is_redir_def)
  obtain c v where c: "f = c # v" "c \<noteq> 0" "c \<notin> set whitespace" "c \<notin> set symbols" using f by (rule wordE)
  have nw: "skip_white (60 # s) = 60 # s" "skip_white (62 # s) = 62 # s" for s
    by (simp_all add: skip_white_Cons whitespace_def)
  have c62: "c \<noteq> 62" using c(4) by (auto simp: symbols_def)
  have fw: "skip_white (f @ s) = f @ s" for s using f by simp
  show s: "skip_white (redir_text (f, mode, fd) @ rest) = redir_text (f, mode, fd) @ rest"
    by (simp add: redir_text_def nw)
  have "cstr [60, 62 :: u8] = [60, 62]" by code_simp
  then show "fst (peek (redir_text (f, mode, fd) @ rest) [60, 62])"
    unfolding peek_iff s by (simp add: redir_text_def)
  show "\<exists>tok t. gettoken (redir_text (f, mode, fd) @ rest) = (tok, t, f @ 32 # rest) \<and> (\<forall>u. redir_of tok u = [(u, mode, fd)])"
    unfolding gettoken_def s Let_def
    using m c c62 fw [of "32 # rest"] by (auto simp: redir_text_def redir_of_def nw)
qed

lemma parseredirs_text:
  assumes "\<forall>r \<in> set xs. is_redir r" and "\<not> fst (peek s [60, 62])"
  shows "\<exists>rs'. parseredirs rs (concat (map redir_text xs) @ s) = Parsed (rs @ rs') (skip_white s) \<and>
    map (apfst token_text) rs' = xs"
  using assms(1)
proof (induction xs arbitrary: rs)
  case Nil
  have "peek s [60, 62] = (False, skip_white s)" using assms(2) by (simp add: prod_eq_iff)
  then show ?case by (simp add: parseredirs.simps [of rs s])
next
  case (Cons x xs)
  obtain f mode fd where x: "x = (f, mode, fd)" by (cases x)
  let ?more = "concat (map redir_text xs) @ s" let ?s = "redir_text x @ ?more"
  have r: "is_redir (f, mode, fd)" using Cons.prems x by simp
  obtain tok t where g: "gettoken ?s = (tok, t, f @ 32 # ?more)" and tok: "redir_of tok u = [(u, mode, fd)]" for u
    using redir_token(1) [OF r, of ?more] x by auto
  have p: "peek ?s [60, 62] = (True, ?s)"
    using redir_token(2,3) [OF r, of ?more] unfolding x by (simp add: prod_eq_iff)
  have w: "gettoken (f @ 32 # ?more) = (97, (f @ 32 # ?more, 32 # ?more), skip_white ?more)"
    using r by (intro gettoken_word) (simp add: is_redir_def)
  have sk: "parseredirs rs (skip_white ?more) = parseredirs rs ?more" for rs
    by (simp add: parseredirs.simps [of rs "skip_white ?more"] parseredirs.simps [of rs ?more] peek_def)
  obtain rs' where rs': "parseredirs (rs @ [((f @ 32 # ?more, 32 # ?more), mode, fd)]) ?more =
      Parsed ((rs @ [((f @ 32 # ?more, 32 # ?more), mode, fd)]) @ rs') (skip_white s)" "map (apfst token_text) rs' = xs"
    using Cons.IH [of "rs @ [((f @ 32 # ?more, 32 # ?more), mode, fd)]"] Cons.prems by auto
  have "parseredirs rs ?s = parseredirs (rs @ [((f @ 32 # ?more, 32 # ?more), mode, fd)]) (skip_white ?more)"
    using p g w tok by (simp add: parseredirs.simps [of rs ?s])
  then show ?case
    using rs' sk x by (intro exI [of _ "((f @ 32 # ?more, 32 # ?more), mode, fd) # rs'"]) simp
qed

text \<open>What may follow a command of a pipeline: the end of the line or one of the characters \<open>|)&;\<close>.\<close>

definition stops :: "bytes \<Rightarrow> bytes \<Rightarrow> bool" where
  "stops toks s \<longleftrightarrow> skip_white s = [] \<or> fst (peek s toks)"

lemma parseexec_stop:
  assumes "stops [124, 41, 38, 59] s"
  shows "parseexec_loop argv rs s = Parsed (redirect (EXEC argv) rs) (skip_white s)"
proof (cases "fst (peek s [124, 41, 38, 59])")
  case True
  then have "peek s [124, 41, 38, 59] = (True, skip_white s)" by (simp add: prod_eq_iff)
  then show ?thesis by (simp add: parseexec_loop.simps [of argv rs s])
next
  case False
  then have "skip_white s = []" using assms by (simp add: stops_def)
  moreover have "peek s [124, 41, 38, 59] = (False, skip_white s)" using False by (simp add: prod_eq_iff)
  moreover have "gettoken [] = (0, ([], []), [])" by (simp add: gettoken_def)
  ultimately show ?thesis by (simp add: parseexec_loop.simps [of argv rs s])
qed

lemma stops_no_redir: "stops [124, 41, 38, 59] s \<Longrightarrow> \<not> fst (peek s [60, 62])"
  by (auto simp: stops_def peek_iff cstr_Cons)

lemma word_no_symbol:
  assumes "is_word w" and "set (cstr toks) \<subseteq> set symbols"
  shows "\<not> fst (peek (w @ s) toks)"
  using assms by (auto simp: peek_iff elim!: wordE)

lemma cstr_toks: "set (cstr [124, 41, 38, 59]) \<subseteq> set symbols" "set (cstr [60, 62]) \<subseteq> set symbols" "set (cstr [40]) \<subseteq> set symbols"
  by code_simp+

lemma parseexec_text:
  assumes "\<forall>w \<in> set (w # ws). is_word w" and "length argv + length (w # ws) \<le> 9"
    and "\<forall>r \<in> set xs. is_redir r" and "stops [124, 41, 38, 59] s"
  shows "\<exists>argv' rs'. parseexec_loop argv rs (concat (map (\<lambda>w. w @ [32]) (w # ws)) @ concat (map redir_text xs) @ s) =
    Parsed (redirect (EXEC (argv @ argv')) (rs @ rs')) (skip_white s) \<and>
    map token_text argv' = w # ws \<and> map (apfst token_text) rs' = xs"
  using assms(1,2)
proof (induction ws arbitrary: w argv rs)
  case Nil
  let ?more = "concat (map redir_text xs) @ s"
  let ?t = "(w @ 32 # ?more, 32 # ?more)"
  have w: "is_word w" using Nil.prems by simp
  have p: "peek (w @ 32 # ?more) [124, 41, 38, 59] = (False, w @ 32 # ?more)"
    using word_no_symbol [OF w cstr_toks(1)] w by (simp add: prod_eq_iff)
  obtain rs' where rs': "parseredirs rs ?more = Parsed (rs @ rs') (skip_white s)" "map (apfst token_text) rs' = xs"
    using parseredirs_text [OF assms(3) stops_no_redir [OF assms(4)]] by blast
  have sk: "parseredirs rs (skip_white ?more) = parseredirs rs ?more"
    by (simp add: parseredirs.simps [of rs "skip_white ?more"] parseredirs.simps [of rs ?more] peek_def)
  have st: "stops [124, 41, 38, 59] (skip_white s)" using assms(4) by (simp add: stops_def peek_def)
  have "parseexec_loop argv rs (w @ 32 # ?more) = Parsed (redirect (EXEC (argv @ [?t])) (rs @ rs')) (skip_white s)"
    using p gettoken_word [OF w, of ?more] rs'(1) sk Nil.prems(2) parseexec_stop [OF st]
    by (simp add: parseexec_loop.simps [of argv rs "w @ 32 # ?more"])
  then show ?case using rs'(2) by (intro exI [of _ "[?t]"] exI [of _ rs']) simp
next
  case (Cons v ws)
  let ?more = "concat (map (\<lambda>w. w @ [32]) (v # ws)) @ concat (map redir_text xs) @ s"
  let ?t = "(w @ 32 # ?more, 32 # ?more)"
  have w: "is_word w" and v: "is_word v" using Cons.prems by simp_all
  have p: "peek (w @ 32 # ?more) [124, 41, 38, 59] = (False, w @ 32 # ?more)"
    using word_no_symbol [OF w cstr_toks(1)] w by (simp add: prod_eq_iff)
  have sw: "skip_white ?more = ?more" using v by simp
  have "peek ?more [60, 62] = (False, ?more)"
    using word_no_symbol [OF v cstr_toks(2)] sw by (simp add: prod_eq_iff)
  then have pr: "parseredirs rs ?more = Parsed rs ?more" by (subst parseredirs.simps) simp
  obtain argv' rs' where ih: "parseexec_loop (argv @ [?t]) rs ?more =
      Parsed (redirect (EXEC ((argv @ [?t]) @ argv')) (rs @ rs')) (skip_white s)"
      "map token_text argv' = v # ws" "map (apfst token_text) rs' = xs"
    using Cons.IH [of v "argv @ [?t]" rs] Cons.prems by auto
  have "parseexec_loop argv rs (w @ 32 # ?more) = parseexec_loop (argv @ [?t]) rs ?more"
    using p gettoken_word [OF w, of ?more] pr sw Cons.prems(2)
    by (subst parseexec_loop.simps) simp
  then show ?case using ih by (intro exI [of _ "?t # argv'"] exI [of _ rs']) simp
qed

lemma shown_redirect:
  "shown f (redirect c rs) = foldl (\<lambda>x (w, mode, fd). XREDIR x w mode fd) (shown f c) (map (apfst f) rs)"
  unfolding redirect_def by (induction rs arbitrary: c) (auto simp: case_prod_beta)

text \<open>A command under its redirections, and under its trailing ampersands.\<close>

fun redir_base :: "xcmd \<Rightarrow> xcmd" where
  "redir_base (XREDIR c f mode fd) = redir_base c"
| "redir_base c = c"

fun redirs_of :: "xcmd \<Rightarrow> (bytes \<times> int \<times> int) list" where
  "redirs_of (XREDIR c f mode fd) = redirs_of c @ [(f, mode, fd)]"
| "redirs_of c = []"

lemma redirs_of_foldl: "foldl (\<lambda>x (w, mode, fd). XREDIR x w mode fd) (redir_base x) (redirs_of x) = x"
  by (induction x) auto

lemma redirs_text: "command_text 3 x = command_text 3 (redir_base x) @ concat (map redir_text (redirs_of x))"
  by (induction x) auto

lemma redirs_typable: "typable x \<longleftrightarrow> typable (redir_base x) \<and> (\<forall>r \<in> set (redirs_of x). is_redir r)"
  by (induction x) auto

lemma redir_base_not: "redir_base x \<noteq> XREDIR c f mode fd"
  by (induction x) auto

lemma size_redir_base: "size (redir_base x) \<le> size x"
  by (induction x) auto

fun back_base :: "xcmd \<Rightarrow> xcmd" where
  "back_base (XBACK c) = back_base c"
| "back_base c = c"

fun backs :: "xcmd \<Rightarrow> nat" where
  "backs (XBACK c) = Suc (backs c)"
| "backs c = 0"

lemma backs_text: "command_text (Suc 0) x = command_text 2 (back_base x) @ replicate (backs x) 38"
proof (induction x)
  case (XBACK x)
  then show ?case by (simp add: paren_def replicate_append_same)
qed (simp_all add: paren_def)

lemma backs_power: "(XBACK ^^ backs x) (back_base x) = x"
  by (induction x) auto

lemma back_base_facts: "size (back_base x) \<le> size x" "typable (back_base x) \<longleftrightarrow> typable x" "back_base x \<noteq> XBACK c"
  by (induction x) auto

lemma back_loop_text:
  assumes "\<not> fst (peek s [38])"
  shows "back_loop c (replicate k 38 @ s) = ((BACK ^^ k) c, skip_white s)"
proof (induction k arbitrary: c)
  case 0
  have "peek s [38] = (False, skip_white s)" using assms by (simp add: prod_eq_iff)
  then show ?case by (simp add: back_loop.simps [of c s])
next
  case (Suc k)
  let ?s = "replicate k 38 @ s"
  have w: "skip_white (38 # ?s) = 38 # ?s" by (simp add: skip_white_Cons whitespace_def)
  then have p: "peek (38 # ?s) [38] = (True, 38 # ?s)" by (simp add: prod_eq_iff peek_iff cstr_Cons)
  have sk: "back_loop d (skip_white ?s) = back_loop d ?s" for d
    by (simp add: back_loop.simps [of d "skip_white ?s"] back_loop.simps [of d ?s] peek_def)
  have "back_loop c (38 # ?s) = back_loop (BACK c) ?s"
    using p gettoken_symbol [of 38 ?s] sk by (simp add: back_loop.simps [of c "38 # ?s"])
  then show ?case using Suc by (simp add: funpow_swap1)
qed

lemma shown_back: "shown f ((BACK ^^ k) c) = (XBACK ^^ k) (shown f c)"
  by (induction k) simp_all

lemma peek_symbol: "c \<in> set symbols \<Longrightarrow> fst (peek (c # s) toks) \<longleftrightarrow> c \<in> set (cstr toks)"
  by (auto simp: peek_iff skip_white_Cons symbols_def whitespace_def)

lemma after_symbol: "c \<in> {124, 40, 41, 59, 38, 60} \<Longrightarrow> after (c # s) = skip_white s"
  by (simp add: after_def gettoken_symbol)

text \<open>Blanks before a command make no difference.\<close>

lemma gettoken_skip: "gettoken (skip_white s) = gettoken s"
  by (simp add: gettoken_def)

lemma peek_skip: "peek (skip_white s) toks = peek s toks"
  by (simp add: peek_def)

lemma exec_parses_skip: "exec_parses (skip_white s) c t \<longleftrightarrow> exec_parses s c t"
proof -
  have "parseexec m (skip_white s) = parseexec m s" for m by (cases m) (simp_all add: peek_skip)
  then show ?thesis by (simp add: exec_parses_def)
qed

lemma pipe_parses_skip: "pipe_parses (skip_white s) c t \<longleftrightarrow> pipe_parses s c t"
proof -
  have "parsepipe m (skip_white s) = parsepipe m s" for m
  proof (cases m)
    case (Suc k)
    have "parseexec k (skip_white s) = parseexec k s" by (cases k) (simp_all add: peek_skip)
    then show ?thesis using Suc by simp
  qed simp
  then show ?thesis by (simp add: pipe_parses_def)
qed

lemma line_parses_skip: "line_parses (skip_white s) c t \<longleftrightarrow> line_parses s c t"
proof -
  have "parseline m (skip_white s) = parseline m s" for m
  proof (cases m)
    case (Suc k)
    have "parsepipe k (skip_white s) = parsepipe k s"
    proof (cases k)
      case (Suc j)
      have "parseexec j (skip_white s) = parseexec j s" by (cases j) (simp_all add: peek_skip)
      then show ?thesis using Suc by simp
    qed simp
    then show ?thesis using Suc by simp
  qed simp
  then show ?thesis by (simp add: line_parses_def)
qed

text \<open>The three levels of the grammar.\<close>

definition exec_ok :: "xcmd \<Rightarrow> bool" where
  "exec_ok x \<longleftrightarrow> (\<forall>s. stops [124, 41, 38, 59] s \<longrightarrow>
    (\<exists>c. exec_parses (command_text 3 x @ s) c (skip_white s) \<and> shown token_text c = x))"

definition pipe_ok :: "xcmd \<Rightarrow> bool" where
  "pipe_ok x \<longleftrightarrow> (\<forall>s. stops [41, 38, 59] s \<longrightarrow>
    (\<exists>c. pipe_parses (command_text 2 x @ s) c (skip_white s) \<and> shown token_text c = x))"

definition line_ok :: "xcmd \<Rightarrow> bool" where
  "line_ok x \<longleftrightarrow> (\<forall>s. stops [41] s \<longrightarrow>
    (\<exists>c. line_parses (command_text 0 x @ s) c (skip_white s) \<and> shown token_text c = x))"

lemma stops_mono: "stops toks s \<Longrightarrow> set (cstr toks) \<subseteq> set (cstr toks') \<Longrightarrow> stops toks' s"
  by (auto simp: stops_def peek_iff)

lemma parseredirs_skip: "parseredirs rs (skip_white s) = parseredirs rs s"
  by (simp add: parseredirs.simps [of rs "skip_white s"] parseredirs.simps [of rs s] peek_skip)

lemma stops_skip: "stops toks (skip_white s) \<longleftrightarrow> stops toks s"
  by (simp add: stops_def peek_skip)

lemma redirs_no_paren:
  assumes "\<forall>r \<in> set xs. is_redir r" and "stops [124, 41, 38, 59] s"
  shows "\<not> fst (peek (concat (map redir_text xs) @ s) [40])"
proof (cases xs)
  case Nil
  then show ?thesis using assms(2) by (auto simp: stops_def peek_iff cstr_Cons)
next
  case (Cons x ys)
  obtain f mode fd where x: "x = (f, mode, fd)" by (cases x)
  have "is_redir (f, mode, fd)" using assms(1) Cons x by simp
  from redir_token(3) [OF this, of "concat (map redir_text ys) @ s"] show ?thesis
    using Cons x by (auto simp: peek_iff cstr_Cons redir_text_def split: if_splits)
qed

lemma exec_ok_words:
  assumes "typable (XEXEC ws)" and "\<forall>r \<in> set xs. is_redir r" and "stops [124, 41, 38, 59] s"
  shows "\<exists>c. exec_parses (command_text 3 (XEXEC ws) @ concat (map redir_text xs) @ s) c (skip_white s) \<and>
    shown token_text c = foldl (\<lambda>x (w, mode, fd). XREDIR x w mode fd) (XEXEC ws) xs"
proof (cases ws)
  case Nil
  obtain rs where rs: "parseredirs [] (concat (map redir_text xs) @ s) = Parsed rs (skip_white s)" "map (apfst token_text) rs = xs"
    using parseredirs_text [OF assms(2) stops_no_redir [OF assms(3)], of "[]"] by auto
  have "parseexec_loop [] rs (skip_white s) = Parsed (redirect (EXEC []) rs) (skip_white s)"
    using parseexec_stop [of "skip_white s"] assms(3) by (simp add: stops_skip)
  then have "exec_parses (concat (map redir_text xs) @ s) (redirect (EXEC []) rs) (skip_white s)"
    using exec_words [OF redirs_no_paren [OF assms(2,3)]] rs(1) by (simp add: parseredirs_skip)
  then show ?thesis using Nil rs(2) by (auto simp: shown_redirect)
next
  case (Cons w vs)
  let ?t = "command_text 3 (XEXEC ws) @ concat (map redir_text xs) @ s"
  have w: "is_word w" using assms(1) Cons by simp
  have t: "?t = w @ 32 # concat (map (\<lambda>w. w @ [32]) vs) @ concat (map redir_text xs) @ s" using Cons by simp
  have sw: "skip_white ?t = ?t" unfolding t using w by simp
  have np: "\<not> fst (peek ?t [40])" "\<not> fst (peek ?t [60, 62])"
    unfolding t using word_no_symbol [OF w cstr_toks(3)] word_no_symbol [OF w cstr_toks(2)] by auto
  have "peek ?t [60, 62] = (False, ?t)" using np(2) sw by (simp add: prod_eq_iff)
  then have pr: "parseredirs [] ?t = Parsed [] ?t" by (subst parseredirs.simps) simp
  obtain argv rs where l: "parseexec_loop [] [] ?t = Parsed (redirect (EXEC argv) rs) (skip_white s)"
      "map token_text argv = ws" "map (apfst token_text) rs = xs"
    using parseexec_text [of w vs "[]" xs s "[]"] assms Cons by auto
  have "exec_parses ?t (redirect (EXEC argv) rs) (skip_white s)"
    using exec_words [OF np(1) _ l(1)] pr sw by simp
  then show ?thesis using l(2,3) by (auto simp: shown_redirect)
qed

lemma exec_ok_block:
  assumes "line_ok x" and "\<forall>r \<in> set xs. is_redir r" and "stops [124, 41, 38, 59] s"
  shows "\<exists>c. exec_parses (([40] @ command_text 0 x @ [41]) @ concat (map redir_text xs) @ s) c (skip_white s) \<and>
    shown token_text c = foldl (\<lambda>x (w, mode, fd). XREDIR x w mode fd) x xs"
proof -
  let ?r = "concat (map redir_text xs) @ s"
  have w41: "skip_white (41 # ?r) = 41 # ?r" by (simp add: skip_white_Cons whitespace_def)
  have "stops [41] (41 # ?r)" by (simp add: stops_def peek_symbol symbols_def cstr_Cons)
  then obtain c where c: "line_parses (command_text 0 x @ 41 # ?r) c (41 # ?r)" "shown token_text c = x"
    using assms(1) w41 unfolding line_ok_def by metis
  obtain rs where rs: "parseredirs [] ?r = Parsed rs (skip_white s)" "map (apfst token_text) rs = xs"
    using parseredirs_text [OF assms(2) stops_no_redir [OF assms(3)], of "[]"] by auto
  have "exec_parses (40 # command_text 0 x @ 41 # ?r) (redirect c rs) (skip_white s)"
  proof (rule exec_block)
    show "fst (peek (40 # command_text 0 x @ 41 # ?r) [40])" by (simp add: peek_symbol symbols_def cstr_Cons)
    show "line_parses (after (40 # command_text 0 x @ 41 # ?r)) c (41 # ?r)"
      using c(1) by (simp add: after_symbol line_parses_skip)
    show "fst (peek (41 # ?r) [41])" by (simp add: peek_symbol symbols_def cstr_Cons)
    show "parseredirs [] (after (41 # ?r)) = Parsed rs (skip_white s)"
      using rs(1) by (simp add: after_symbol parseredirs_skip)
  qed
  then show ?thesis using c(2) rs(2) by (intro exI [of _ "redirect c rs"]) (simp add: shown_redirect)
qed

lemma pipe_from_exec:
  assumes "exec_ok x" and "command_text 2 x = command_text 3 x"
  shows "pipe_ok x"
  unfolding pipe_ok_def
proof (intro allI impI)
  fix s assume s: "stops [41, 38, 59] s"
  then have s': "stops [124, 41, 38, 59] s" by (rule stops_mono) (auto simp: cstr_Cons)
  obtain c where c: "exec_parses (command_text 3 x @ s) c (skip_white s)" "shown token_text c = x"
    using assms(1) s' by (auto simp: exec_ok_def)
  have "\<not> fst (peek (skip_white s) [124])" using s by (auto simp: stops_def peek_iff cstr_Cons)
  from pipe_plain [OF c(1) this] c(2) assms(2) show "\<exists>c. pipe_parses (command_text 2 x @ s) c (skip_white s) \<and> shown token_text c = x"
    by auto
qed

lemma pipe_ok_PIPE:
  assumes "exec_ok l" and "pipe_ok r"
  shows "pipe_ok (XPIPE l r)"
  unfolding pipe_ok_def
proof (intro allI impI)
  fix s assume s: "stops [41, 38, 59] s"
  let ?r = "command_text 2 r @ s"
  have w: "skip_white (124 # ?r) = 124 # ?r" by (simp add: skip_white_Cons whitespace_def)
  have "stops [124, 41, 38, 59] (124 # ?r)" by (simp add: stops_def peek_symbol symbols_def cstr_Cons)
  then obtain c where c: "exec_parses (command_text 3 l @ 124 # ?r) c (124 # ?r)" "shown token_text c = l"
    using assms(1) w unfolding exec_ok_def by metis
  obtain d where d: "pipe_parses ?r d (skip_white s)" "shown token_text d = r" using assms(2) s by (auto simp: pipe_ok_def)
  have "pipe_parses (command_text 3 l @ 124 # ?r) (PIPE c d) (skip_white s)"
    by (rule pipe_pipe [OF c(1)])
      (use d(1) in \<open>simp_all add: peek_symbol symbols_def cstr_Cons after_symbol pipe_parses_skip\<close>)
  then show "\<exists>c. pipe_parses (command_text 2 (XPIPE l r) @ s) c (skip_white s) \<and> shown token_text c = XPIPE l r"
    using c(2) d(2) by (intro exI [of _ "PIPE c d"]) (simp add: paren_def)
qed

lemma line_from_pipe:
  assumes "pipe_ok (back_base x)" and "command_text 0 x = command_text 1 x"
  shows "line_ok x"
  unfolding line_ok_def
proof (intro allI impI)
  fix s assume s: "stops [41] s"
  let ?r = "replicate (backs x) 38 @ s"
  have "stops [41, 38, 59] ?r"
  proof (cases "backs x")
    case 0
    then show ?thesis using s by (auto intro: stops_mono simp: cstr_Cons)
  qed (simp add: stops_def peek_symbol symbols_def cstr_Cons)
  then obtain c where c: "pipe_parses (command_text 2 (back_base x) @ ?r) c (skip_white ?r)" "shown token_text c = back_base x"
    using assms(1) by (auto simp: pipe_ok_def)
  have n: "\<not> fst (peek s [38])" "\<not> fst (peek (skip_white s) [59])" using s by (auto simp: stops_def peek_iff cstr_Cons)
  have "back_loop c (skip_white ?r) = ((BACK ^^ backs x) c, skip_white s)"
    using back_loop_text [OF n(1), of c "backs x"]
    by (simp add: back_loop.simps [of c "skip_white ?r"] back_loop.simps [of c ?r] peek_skip)
  from line_plain [OF c(1) this n(2)] show "\<exists>c. line_parses (command_text 0 x @ s) c (skip_white s) \<and> shown token_text c = x"
    using assms(2) c(2) by (intro exI [of _ "(BACK ^^ backs x) c"]) (simp add: backs_text shown_back backs_power)
qed

lemma line_ok_LIST:
  assumes "pipe_ok (back_base l)" and "line_ok r"
  shows "line_ok (XLIST l r)"
  unfolding line_ok_def
proof (intro allI impI)
  fix s assume s: "stops [41] s"
  let ?t = "59 # command_text 0 r @ s" let ?r = "replicate (backs l) 38 @ ?t"
  have w: "skip_white ?t = ?t" by (simp add: skip_white_Cons whitespace_def)
  have "stops [41, 38, 59] ?r" by (cases "backs l") (simp_all add: stops_def peek_symbol symbols_def cstr_Cons)
  then obtain c where c: "pipe_parses (command_text 2 (back_base l) @ ?r) c (skip_white ?r)" "shown token_text c = back_base l"
    using assms(1) by (auto simp: pipe_ok_def)
  have n: "\<not> fst (peek ?t [38])" by (simp add: peek_symbol symbols_def cstr_Cons)
  have b: "back_loop c (skip_white ?r) = ((BACK ^^ backs l) c, ?t)"
    using back_loop_text [OF n, of c "backs l"] w
    by (simp add: back_loop.simps [of c "skip_white ?r"] back_loop.simps [of c ?r] peek_skip)
  obtain d where d: "line_parses (command_text 0 r @ s) d (skip_white s)" "shown token_text d = r"
    using assms(2) s by (auto simp: line_ok_def)
  have "line_parses (command_text 2 (back_base l) @ ?r) (LIST ((BACK ^^ backs l) c) d) (skip_white s)"
    by (rule line_list [OF c(1) b])
      (use d(1) in \<open>simp_all add: peek_symbol symbols_def cstr_Cons after_symbol line_parses_skip\<close>)
  then show "\<exists>c. line_parses (command_text 0 (XLIST l r) @ s) c (skip_white s) \<and> shown token_text c = XLIST l r"
    using c(2) d(2) by (intro exI [of _ "LIST ((BACK ^^ backs l) c) d"])
      (simp add: paren_def backs_text shown_back backs_power)
qed

lemma commands_ok: "typable x \<Longrightarrow> exec_ok x \<and> pipe_ok x \<and> line_ok x"
proof (induction "size x" arbitrary: x rule: less_induct)
  case less
  note ih = less.hyps
  have exec_block: "exec_ok x" if "line_ok x" and "command_text 3 x = [40] @ command_text 0 x @ [41]"
    using exec_ok_block [OF that(1), of "[]"] that(2) unfolding exec_ok_def by simp
  show ?case
  proof (cases x)
    case (XEXEC ws)
    have "exec_ok x" using exec_ok_words [of ws "[]"] less.prems XEXEC unfolding exec_ok_def by simp
    moreover from this have "pipe_ok x" using XEXEC by (intro pipe_from_exec) simp_all
    ultimately show ?thesis using line_from_pipe [of x] XEXEC by simp
  next
    case (XREDIR y f mode fd)
    let ?b = "redir_base x" let ?xs = "redirs_of x"
    have t: "typable ?b" "\<forall>r \<in> set ?xs. is_redir r" using less.prems redirs_typable by blast+
    have "size ?b < size x" using size_redir_base [of y] XREDIR by simp
    then have l: "line_ok ?b" using ih t(1) by blast
    have "exec_ok x"
      unfolding exec_ok_def
    proof (intro allI impI)
      fix s assume s: "stops [124, 41, 38, 59] s"
      show "\<exists>c. exec_parses (command_text 3 x @ s) c (skip_white s) \<and> shown token_text c = x"
      proof (cases ?b)
        case (XEXEC ws)
        then show ?thesis using exec_ok_words [of ws, OF _ t(2) s] t(1) redirs_of_foldl [of x] by (simp add: redirs_text [of x])
      next
        case (XREDIR c f mode fd)
        then show ?thesis using redir_base_not by blast
      qed (use exec_ok_block [OF l t(2) s] redirs_of_foldl [of x] in \<open>simp_all add: redirs_text [of x] paren_def\<close>)
    qed
    moreover from this have "pipe_ok x" using XREDIR by (intro pipe_from_exec) simp_all
    ultimately show ?thesis using line_from_pipe [of x] XREDIR by simp
  next
    case (XPIPE l r)
    then have "pipe_ok x" using ih [of l] ih [of r] less.prems pipe_ok_PIPE by simp
    moreover from this have "line_ok x" using line_from_pipe [of x] XPIPE by (simp add: paren_def)
    moreover from this have "exec_ok x" using XPIPE by (intro exec_block) (simp_all add: paren_def)
    ultimately show ?thesis by blast
  next
    case (XLIST l r)
    have "pipe_ok (back_base l)" using ih [of "back_base l"] back_base_facts(1,2) [of l] less.prems XLIST by simp
    then have "line_ok x" using ih [of r] less.prems XLIST line_ok_LIST by simp
    moreover from this have "exec_ok x" using XLIST by (intro exec_block) (simp_all add: paren_def)
    moreover from this have "pipe_ok x" using XLIST by (intro pipe_from_exec) (simp_all add: paren_def)
    ultimately show ?thesis by blast
  next
    case (XBACK y)
    have "pipe_ok (back_base x)" using ih [of "back_base y"] back_base_facts(1,2) [of y] less.prems XBACK by simp
    then have "line_ok x" using XBACK by (intro line_from_pipe) (simp_all add: paren_def)
    moreover from this have "exec_ok x" using XBACK by (intro exec_block) (simp_all add: paren_def)
    moreover from this have "pipe_ok x" using XBACK by (intro pipe_from_exec) (simp_all add: paren_def)
    ultimately show ?thesis by blast
  qed
qed


section \<open>The tokens of a command\<close>

text \<open>
  A token of the line \<open>line\<close>: a word that ends where the line ends or before a character that is not part of words.
\<close>

definition token_of :: "bytes \<Rightarrow> token \<Rightarrow> bool" where
  "token_of line t \<longleftrightarrow> suffix (fst t) line \<and> (\<exists>w. fst t = w @ snd t \<and> is_word w) \<and>
    (snd t = [] \<or> \<not> wordchar (hd (snd t)))"

fun tokens :: "cmd \<Rightarrow> token list" where
  "tokens (EXEC argv) = argv"
| "tokens (REDIR c t mode fd) = tokens c @ [t]"
| "tokens (PIPE l r) = tokens l @ tokens r"
| "tokens (LIST l r) = tokens l @ tokens r"
| "tokens (BACK c) = tokens c"

definition cmd_of :: "bytes \<Rightarrow> cmd \<Rightarrow> bool" where
  "cmd_of line c \<longleftrightarrow> typable (shown token_text c) \<and> (\<forall>t \<in> set (tokens c). token_of line t)"

definition redir_ok :: "bytes \<Rightarrow> redir \<Rightarrow> bool" where
  "redir_ok line r \<longleftrightarrow> token_of line (fst r) \<and> snd r \<in> {(0, 0), (0x601, 1), (0x201, 1)}"

lemma token_of_word: "token_of line t \<Longrightarrow> is_word (token_text t)"
  by (cases t) (auto simp: token_of_def token_text_def)

lemma redirect_of:
  "cmd_of line c \<Longrightarrow> \<forall>r \<in> set rs. redir_ok line r \<Longrightarrow> cmd_of line (redirect c rs)"
  unfolding redirect_def
proof (induction rs arbitrary: c)
  case (Cons r rs)
  obtain t mode fd where r: "r = (t, mode, fd)" by (cases r)
  then have "cmd_of line (REDIR c t mode fd)"
    using Cons.prems token_of_word [of line t] by (auto simp: cmd_of_def redir_ok_def is_redir_def)
  then show ?case using Cons r by simp
qed simp

lemma suffix_skip_white: "suffix (skip_white s) s"
  by (induction s) (auto simp: skip_white_Cons intro: suffix_ConsI)

lemma skip_word_split: "\<exists>w. s = w @ skip_word s \<and> (\<forall>c \<in> set w. c \<notin> set whitespace \<and> c \<notin> set symbols) \<and>
    (skip_word s = [] \<or> hd (skip_word s) \<in> set whitespace \<union> set symbols)"
proof (induction s)
  case (Cons c s)
  then obtain w where w: "s = w @ skip_word s" "\<forall>c \<in> set w. c \<notin> set whitespace \<and> c \<notin> set symbols"
      "skip_word s = [] \<or> hd (skip_word s) \<in> set whitespace \<union> set symbols" by blast
  show ?case
  proof (cases "c \<notin> set whitespace \<and> c \<notin> set symbols")
    case True
    then show ?thesis using w by (intro exI [of _ "c # w"]) (auto simp: skip_word_Cons)
  next
    case False
    then show ?thesis by (intro exI [of _ "[]"]) (auto simp: skip_word_Cons)
  qed
qed simp

lemma skip_white_nonblank: "skip_white s = c # r \<Longrightarrow> c \<notin> set whitespace"
  by (induction s) (auto simp: skip_white_Cons split: if_splits)

lemma gettoken_of:
  assumes "gettoken ps = (ret, t, s)" and "suffix ps line" and "0 \<notin> set line"
  shows "suffix s line" and "ret = 97 \<Longrightarrow> token_of line t"
proof -
  let ?q = "skip_white ps"
  have q: "suffix ?q line" using suffix_skip_white assms(2) by (rule suffix_order.trans)
  have s: "s = skip_white (snd t)" using assms(1) by (auto simp: gettoken_def Let_def split: prod.splits)
  have "suffix (snd t) ?q"
  proof -
    obtain w where "?q = w @ skip_word ?q" using skip_word_split [of ?q] by blast
    then have "suffix (skip_word ?q) ?q" by (metis suffixI)
    moreover have "suffix (tl ?q) ?q" "suffix (tl (tl ?q)) ?q"
      using suffix_tl suffix_order.trans by blast+
    ultimately show ?thesis using assms(1) by (auto simp: gettoken_def Let_def split: if_splits)
  qed
  then show "suffix s line" using s suffix_skip_white q by (metis suffix_order.trans)
  assume "ret = 97"
  then have e: "t = (?q, skip_word ?q)" and ne: "chd ?q \<noteq> 0" "chd ?q \<notin> set symbols"
    using assms(1) by (auto simp: gettoken_def Let_def symbols_def split: if_splits)
  then obtain c r where cr: "?q = c # r" by (cases ?q) auto
  obtain w where w: "?q = w @ skip_word ?q" "\<forall>c \<in> set w. c \<notin> set whitespace \<and> c \<notin> set symbols"
      "skip_word ?q = [] \<or> hd (skip_word ?q) \<in> set whitespace \<union> set symbols" using skip_word_split [of ?q] by blast
  have "skip_word ?q \<noteq> ?q"
    using cr ne skip_white_nonblank [OF cr] length_skip_word [of r] by (auto simp: skip_word_Cons dest!: arg_cong [of _ _ length])
  then have "w \<noteq> []" using w(1) by auto
  moreover have "0 \<notin> set w" using q assms(3) w(1) by (metis UnCI set_append suffix_def)
  ultimately have "is_word w" using w(2) by (auto simp: is_word_def wordchar_def)
  then show "token_of line t" using e q w(1,3) by (auto simp: token_of_def wordchar_def)
qed

text \<open>A parse of part of \<open>line\<close>: what is left is an end of the line, and the result satisfies \<open>P\<close>.\<close>

definition parse_of :: "bytes \<Rightarrow> ('a \<Rightarrow> bool) \<Rightarrow> 'a parse \<Rightarrow> bool" where
  "parse_of line P m \<longleftrightarrow> (case m of Parsed x s \<Rightarrow> suffix s line \<and> P x | _ \<Rightarrow> True)"

lemma parse_of_simps [simp]:
  "parse_of line P (Parsed x s) \<longleftrightarrow> suffix s line \<and> P x"
  "parse_of line P (Panicked e)"
  "parse_of line P Out_of_fuel"
  by (simp_all add: parse_of_def)

lemma parse_of_bind:
  "parse_of line P m \<Longrightarrow> (\<And>x s. suffix s line \<Longrightarrow> P x \<Longrightarrow> parse_of line Q (f x s)) \<Longrightarrow> parse_of line Q (pbind m f)"
  by (cases m) auto

text \<open>A line without NUL characters, as \<^verbatim>\<open>es\<close> bounds it.\<close>

locale command_line =
  fixes line :: bytes
  assumes no_nul: "0 \<notin> set line"
begin

lemma peek_suffix: "suffix s line \<Longrightarrow> peek s toks = (b, s') \<Longrightarrow> suffix s' line"
  using suffix_skip_white [of s] by (auto simp: peek_def Let_def intro: suffix_order.trans)

lemma parseredirs_of:
  "suffix ps line \<Longrightarrow> \<forall>r \<in> set rs. redir_ok line r \<Longrightarrow> parse_of line (\<lambda>rs. \<forall>r \<in> set rs. redir_ok line r) (parseredirs rs ps)"
proof (induction rs ps rule: parseredirs.induct)
  case (1 rs ps)
  obtain b s where p: "peek ps [60, 62] = (b, s)" by fastforce
  obtain tok q eq s1 where g1: "gettoken s = (tok, (q, eq), s1)" by (metis surj_pair)
  obtain a f s2 where g2: "gettoken s1 = (a, f, s2)" using prod_cases3 by blast
  have s: "suffix s line" using peek_suffix [OF "1.prems"(1) p] .
  note s1 = gettoken_of(1) [OF g1 s no_nul]
  note s2 = gettoken_of [OF g2 s1 no_nul]
  show ?case
  proof (cases "b \<and> a = 97")
    case True
    then have "\<forall>r \<in> set (rs @ redir_of tok f). redir_ok line r"
      using "1.prems"(2) s2(2) by (auto simp: redir_of_def redir_ok_def)
    then have "parse_of line (\<lambda>rs. \<forall>r \<in> set rs. redir_ok line r) (parseredirs (rs @ redir_of tok f) s2)"
      using "1.IH" [OF p [symmetric] refl _ g1 [symmetric] refl refl g2 [symmetric] refl refl _ s2(1)] True by simp
    then show ?thesis using p g1 g2 True by (simp add: parseredirs.simps [of rs ps])
  next
    case False
    then show ?thesis using p g1 g2 s "1.prems"(2) by (auto simp: parseredirs.simps [of rs ps])
  qed
qed

lemma parseexec_loop_of:
  "suffix ps line \<Longrightarrow> \<forall>r \<in> set rs. redir_ok line r \<Longrightarrow> cmd_of line (EXEC argv) \<Longrightarrow> parse_of line (cmd_of line) (parseexec_loop argv rs ps)"
proof (induction argv rs ps rule: parseexec_loop.induct)
  case (1 argv rs ps)
  obtain b s where p: "peek ps [124, 41, 38, 59] = (b, s)" by fastforce
  obtain tok t s1 where g: "gettoken s = (tok, t, s1)" using prod_cases3 by blast
  have s: "suffix s line" using peek_suffix [OF "1.prems"(1) p] .
  note s1 = gettoken_of [OF g s no_nul]
  note r = redirect_of [OF "1.prems"(3,2)]
  show ?case
  proof (cases "b \<or> tok = 0 \<or> tok \<noteq> 97 \<or> length (argv @ [t]) \<ge> 10")
    case True
    then show ?thesis using p g s s1 r by (auto simp: parseexec_loop.simps [of argv rs ps])
  next
    case False
    then have e: "parseexec_loop argv rs ps = (case parseredirs rs s1 of Parsed rs' s2 \<Rightarrow> parseexec_loop (argv @ [t]) rs' s2
        | Panicked m \<Rightarrow> Panicked m | Out_of_fuel \<Rightarrow> Out_of_fuel)"
      using p g by (auto simp: parseexec_loop.simps [of argv rs ps])
    have t: "cmd_of line (EXEC (argv @ [t]))"
      using "1.prems"(3) s1(2) token_of_word [of line t] False by (auto simp: cmd_of_def)
    show ?thesis
    proof (cases "parseredirs rs s1")
      case (Parsed rs' s2)
      have "suffix s2 line" "\<forall>r \<in> set rs'. redir_ok line r"
        using parseredirs_of [OF s1(1) "1.prems"(2)] Parsed by simp_all
      then have "parse_of line (cmd_of line) (parseexec_loop (argv @ [t]) rs' s2)"
        using "1.IH" [OF p [symmetric] refl _ g [symmetric] refl refl _ _ _ Parsed _ _ t] False by auto
      then show ?thesis using e Parsed by simp
    qed (use e in auto)
  qed
qed

lemma back_loop_of: "suffix ps line \<Longrightarrow> cmd_of line c \<Longrightarrow> back_loop c ps = (c', s') \<Longrightarrow> suffix s' line \<and> cmd_of line c'"
proof (induction c ps rule: back_loop.induct)
  case (1 c ps)
  obtain b s where p: "peek ps [38] = (b, s)" by fastforce
  obtain tok q eq s1 where g: "gettoken s = (tok, (q, eq), s1)" by (metis surj_pair)
  have s: "suffix s line" using peek_suffix [OF "1.prems"(1) p] .
  have c: "cmd_of line (BACK c)" using "1.prems"(2) by (simp add: cmd_of_def)
  show ?case
  proof (cases b)
    case True
    then have "back_loop (BACK c) s1 = (c', s')" using "1.prems"(3) p g by (simp add: back_loop.simps [of c ps])
    then show ?thesis
      using "1.IH" [OF p [symmetric] refl True g [symmetric]] gettoken_of(1) [OF g s no_nul] c by auto
  qed (use "1.prems" p s in \<open>auto simp: back_loop.simps [of c ps]\<close>)
qed

lemma next_token_of: "suffix s line \<Longrightarrow> suffix (snd (snd (gettoken s))) line"
  using gettoken_of(1) [of s "fst (gettoken s)" "fst (snd (gettoken s))" "snd (snd (gettoken s))"] no_nul by simp

lemma next_peek_of: "suffix s line \<Longrightarrow> suffix (skip_white s) line"
  using suffix_skip_white by (rule suffix_order.trans)

lemma parse_tokens:
  "suffix ps line \<longrightarrow> parse_of line (cmd_of line) (parseline n ps) \<and> parse_of line (cmd_of line) (parsepipe n ps) \<and>
    parse_of line (cmd_of line) (parseexec n ps) \<and> parse_of line (cmd_of line) (parseblock n ps)"
proof (induction n arbitrary: ps)
  case (Suc n)
  have line: "parse_of line (cmd_of line) (parseline n ps)" and pipe: "parse_of line (cmd_of line) (parsepipe n ps)"
    and exec: "parse_of line (cmd_of line) (parseexec n ps)" and block: "parse_of line (cmd_of line) (parseblock n ps)"
    if "suffix ps line" for ps
    using Suc [of ps] that by blast+
  have two: "cmd_of line c \<Longrightarrow> cmd_of line d \<Longrightarrow> cmd_of line (LIST c d) \<and> cmd_of line (PIPE c d)" for c d
    by (auto simp: cmd_of_def)
  note steps = peek_def Let_def case_prod_beta next_peek_of next_token_of two
  have "parse_of line (cmd_of line) (parseline (Suc n) ps)" if s: "suffix ps line"
    unfolding parseline.simps
  proof (rule parse_of_bind [OF pipe [OF s]])
    fix c s
    assume "suffix s line" "cmd_of line c"
    then have b: "suffix (snd (back_loop c s)) line" "cmd_of line (fst (back_loop c s))"
      using back_loop_of [of s c "fst (back_loop c s)" "snd (back_loop c s)"] by simp_all
    then show "parse_of line (cmd_of line) (let (c, s) = back_loop c s; (b, s) = peek s [59] in
         if b then let (_, _, s) = gettoken s in pbind (parseline n s) (\<lambda>c' s. Parsed (LIST c c') s) else Parsed c s)"
      by (auto simp: steps intro!: parse_of_bind [OF line])
  qed
  moreover have "parse_of line (cmd_of line) (parsepipe (Suc n) ps)" if s: "suffix ps line"
    unfolding parsepipe.simps
    by (rule parse_of_bind [OF exec [OF s]]) (auto simp: steps intro!: parse_of_bind [OF pipe])
  moreover have "parse_of line (cmd_of line) (parseexec (Suc n) ps)" if s: "suffix ps line"
  proof -
    have "parse_of line (cmd_of line) (pbind (parseredirs [] (skip_white ps)) (\<lambda>rs s. parseexec_loop [] rs s))"
      by (rule parse_of_bind [OF parseredirs_of]) (use s in \<open>auto simp: next_peek_of cmd_of_def intro!: parseexec_loop_of\<close>)
    then show ?thesis using block [of "skip_white ps"] s by (simp add: steps)
  qed
  moreover have "parse_of line (cmd_of line) (parseblock (Suc n) ps)" if s: "suffix ps line"
    unfolding parseblock.simps
    using s by (auto simp: steps redirect_of intro!: parse_of_bind [OF line] parse_of_bind [OF parseredirs_of])
  ultimately show ?case by blast
qed simp

end

interpretation typed: command_line "cstr s" for s
  by unfold_locales (auto dest: cstr_nonzero)

section \<open>The terminated line\<close>

definition ends :: "bytes \<Rightarrow> cmd \<Rightarrow> nat set" where
  "ends buf c = (\<lambda>t. length buf - length (snd t)) ` set (tokens c)"

lemma length_nulterminate [simp]: "length (nulterminate buf c) = length buf"
proof (induction c arbitrary: buf)
  case (EXEC argv)
  show ?case by (induction argv arbitrary: buf) (auto simp: put_nul_def)
qed (simp_all add: put_nul_def)

lemma ends_length: "length buf = length buf' \<Longrightarrow> ends buf c = ends buf' c"
  by (simp add: ends_def)

lemma ends_simps [simp]:
  "ends buf (EXEC []) = {}"
  "ends buf (EXEC (t # argv)) = insert (length buf - length (snd t)) (ends buf (EXEC argv))"
  "ends buf (REDIR c t mode fd) = insert (length buf - length (snd t)) (ends buf c)"
  "ends buf (PIPE l r) = ends buf l \<union> ends buf r"
  "ends buf (LIST l r) = ends buf l \<union> ends buf r"
  "ends buf (BACK c) = ends buf c"
  by (auto simp: ends_def)

lemma nth_nulterminate:
  "i < length buf \<Longrightarrow> nulterminate buf c ! i = (if i \<in> ends buf c then 0 else buf ! i)"
proof (induction c arbitrary: buf)
  case (EXEC argv)
  then show ?case
  proof (induction argv arbitrary: buf)
    case (Cons t argv)
    have l: "length (put_nul buf (snd t)) = length buf" by (simp add: put_nul_def)
    have "nulterminate (put_nul buf (snd t)) (EXEC argv) ! i =
        (if i \<in> ends buf (EXEC argv) then 0 else put_nul buf (snd t) ! i)"
      using Cons.IH [of "put_nul buf (snd t)"] Cons.prems l ends_length [OF l, of "EXEC argv"] by simp
    then show ?case using Cons.prems by (simp add: put_nul_def nth_list_update case_prod_beta)
  qed simp
next
  case (REDIR c t mode fd)
  then show ?case by (cases "i = length buf - length (snd t)") (simp_all add: put_nul_def)
qed (simp_all add: ends_length [OF length_nulterminate])

lemma cstr_prefix:
  assumes "k \<le> length xs" and "\<forall>i<k. xs ! i \<noteq> 0" and "k < length xs \<longrightarrow> xs ! k = 0"
  shows "cstr xs = take k xs"
  unfolding cstr_def
proof (rule takeWhile_eq_take_P_nth)
  show "\<And>i. i < k \<Longrightarrow> i < length xs \<Longrightarrow> xs ! i \<noteq> 0" using assms(2) by blast
  show "k < length xs \<Longrightarrow> \<not> xs ! k \<noteq> 0" using assms(3) by simp
qed

text \<open>No end of a token lies inside a token, so the zeros cut the line exactly at the ends of the tokens.\<close>

lemma token_str_nulterminate:
  assumes "\<forall>t \<in> set (tokens c). token_of line t" and "t \<in> set (tokens c)"
  shows "token_str (nulterminate line c) t = token_text t"
proof -
  obtain w where t: "fst t = w @ snd t" "is_word w" and "suffix (fst t) line" using assms by (auto simp: token_of_def)
  then obtain pre where line: "line = pre @ w @ snd t" by (auto simp: suffix_def)
  let ?b = "nulterminate line c" let ?x = "drop (length pre) ?b"
  have at: "i \<in> ends line c \<Longrightarrow> i < length line \<Longrightarrow> \<not> wordchar (line ! i)" for i
  proof -
    assume "i \<in> ends line c" and i: "i < length line"
    then obtain u where u: "u \<in> set (tokens c)" "i = length line - length (snd u)" by (auto simp: ends_def)
    obtain v p where uv: "fst u = v @ snd u" "line = p @ fst u" and h: "snd u = [] \<or> \<not> wordchar (hd (snd u))"
      using assms(1) u(1) by (force simp: token_of_def suffix_def)
    have "snd u \<noteq> []" using u(2) i by auto
    moreover have "line ! i = hd (snd u)" using uv u(2) \<open>snd u \<noteq> []\<close> by (simp add: nth_append hd_conv_nth)
    ultimately show "\<not> wordchar (line ! i)" using h by simp
  qed
  have len: "length ?x = length w + length (snd t)" using line by simp
  have inside: "?x ! i = w ! i" if "i < length w" for i
  proof -
    have j: "length pre + i < length line" and lj: "line ! (length pre + i) = w ! i" using line that by (simp_all add: nth_append)
    have "wordchar (w ! i)" using t(2) that by (simp add: is_word_def)
    then have "length pre + i \<notin> ends line c" using at [OF _ j] lj by auto
    then show ?thesis using j lj nth_nulterminate [OF j, of c] by simp
  qed
  have fin: "?x ! length w = 0" if "length w < length ?x"
  proof -
    have j: "length pre + length w < length line" using that line len by simp
    have "length pre + length w = length line - length (snd t)" using line by simp
    then have "length pre + length w \<in> ends line c" using assms(2) by (auto simp: ends_def)
    then show ?thesis using nth_nulterminate [OF j, of c] j by simp
  qed
  have nz: "w ! i \<noteq> 0" if "i < length w" for i
    using t(2) that nth_mem [OF that] by (auto simp: is_word_def wordchar_def)
  have "cstr ?x = take (length w) ?x"
  proof (rule cstr_prefix)
    show "length w \<le> length ?x" using len by simp
    show "\<forall>i<length w. ?x ! i \<noteq> 0" using inside nz by metis
    show "length w < length ?x \<longrightarrow> ?x ! length w = 0" by (rule impI) (rule fin)
  qed
  also have "\<dots> = w"
  proof (rule nth_equalityI)
    show "length (take (length w) ?x) = length w" using len by simp
    show "take (length w) ?x ! i = w ! i" if "i < length (take (length w) ?x)" for i
      using that inside by (simp only: length_take min_less_iff_conj nth_take)
  qed
  finally have "cstr ?x = w" .
  moreover have "length line - length (fst t) = length pre" using line t(1) by simp
  moreover have "token_text t = w" using t(1) by (simp add: token_text_def)
  ultimately show ?thesis by (simp add: token_str_def)
qed

lemma shown_cong: "(\<And>t. t \<in> set (tokens c) \<Longrightarrow> f t = g t) \<Longrightarrow> shown f c = shown g c"
  by (induction c) auto

lemma parsecmd_of:
  assumes "parsecmd line = Inr c"
  shows "cmd_of (cstr line) c"
  using assms typed.parse_tokens [of "cstr line" line "4 * length (cstr line) + 4"]
  by (auto simp: parsecmd_def Let_def split: parse.splits prod.splits if_splits)

lemma parsecmd_shown:
  assumes "parsecmd line = Inr c"
  shows "shown (token_str (nulterminate (cstr line) c)) c = shown token_text c"
  using parsecmd_of [OF assms] by (intro shown_cong token_str_nulterminate) (auto simp: cmd_of_def)

lemma is_word_no_nul: "is_word w \<Longrightarrow> 0 \<notin> set w"
  by (auto simp: is_word_def wordchar_def)

lemma text_no_nul: "typable x \<Longrightarrow> 0 \<notin> set (command_text lev x)"
proof (induction x arbitrary: lev)
  case (XEXEC ws)
  then show ?case using is_word_no_nul by auto
next
  case (XREDIR x f mode fd)
  then show ?case using is_word_no_nul [of f] by (auto simp: redir_text_def is_redir_def)
qed (auto simp: paren_def)

lemma line_parses_fuel: "line_parses s c t \<Longrightarrow> parseline (4 * length s + 4) s = Parsed c t"
proof -
  assume "line_parses s c t"
  then obtain n where n: "\<forall>m \<ge> n. parseline m s = Parsed c t" by (auto simp: line_parses_def)
  let ?k = "4 * length s + 4"
  have "parseline ?k s \<noteq> Out_of_fuel" using parse_upto [of ?k s] by auto
  then have "parseline (max n ?k) s = parseline ?k s" using parse_more_fuel [of ?k "max n ?k" s] by (auto simp: more_fuel_def)
  then show ?thesis using n by simp
qed

section \<open>Properties\<close>

text \<open>
  (C16) Typing a command and having the shell parse it gives the command back: for every command tree, the text a user
  writes for it, with parentheses where a command is not at its level of the grammar, is accepted, and the command found, with
  its strings read from the line after \<^verbatim>\<open>nulterminate\<close> has put its zeros there, is the tree.
\<close>

theorem sh_parses_text:
  assumes "typable x"
  shows "\<exists>c. parsecmd (command_text 0 x) = Inr c \<and>
    shown (token_str (nulterminate (command_text 0 x) c)) c = x"
proof -
  have z: "cstr (command_text 0 x) = command_text 0 x"
    using text_no_nul [OF assms, of 0] by (auto simp: cstr_def takeWhile_eq_all_conv)
  have "stops [41] []" by (simp add: stops_def)
  then obtain c where c: "line_parses (command_text 0 x @ []) c (skip_white [])" "shown token_text c = x"
    using commands_ok [OF assms] unfolding line_ok_def by blast
  have "parsecmd (command_text 0 x) = Inr c"
    using line_parses_fuel [OF c(1)] z by (simp add: parsecmd_def peek_def)
  then show ?thesis using parsecmd_shown [of "command_text 0 x" c] c(2) z by auto
qed

theorem sh_parses_text_witness:
  "command_text 0 (XLIST (XBACK (XPIPE (XEXEC [[97], [98]]) (XREDIR (XEXEC [[99]]) [100] 0x601 1))) (XEXEC [[101]])) =
     lit ''a b |c >d &;e '' \<and>
   (\<exists>c. parsecmd (lit ''a b |c >d &;e '') = Inr c \<and> shown (token_str (nulterminate (lit ''a b |c >d &;e '') c)) c =
     XLIST (XBACK (XPIPE (XEXEC [[97], [98]]) (XREDIR (XEXEC [[99]]) [100] 0x601 1))) (XEXEC [[101]]))"
proof -
  let ?x = "XLIST (XBACK (XPIPE (XEXEC [[97], [98]]) (XREDIR (XEXEC [[99]]) [100] 0x601 1))) (XEXEC [[101]])"
  have t: "command_text 0 ?x = lit ''a b |c >d &;e ''" by code_simp
  have "typable ?x" by code_simp
  from sh_parses_text [OF this] show ?thesis unfolding t by simp
qed

text \<open>
  (C32) Every command the shell goes on to run is well formed, whatever the line: between no and nine nonempty arguments
  without blanks or symbols for each program, and redirections to a nonempty file name in one of the three modes.
\<close>

theorem sh_commands_well_formed:
  assumes "parsecmd line = Inr c"
  shows "typable (shown (token_str (nulterminate (cstr line) c)) c)"
  using parsecmd_of [OF assms] parsecmd_shown [OF assms] by (simp add: cmd_of_def)

theorem sh_commands_well_formed_witness:
  "\<exists>c. parsecmd (lit ''>f ls ) '') = Inl (lit '') '', ''syntax'') \<and> parsecmd (lit ''>f ls'') = Inr c \<and>
    typable (shown (token_str (nulterminate (lit ''>f ls'') c)) c)"
proof -
  have "cstr (lit ''>f ls'') = lit ''>f ls''" and "parsecmd (lit ''>f ls ) '') = Inl (lit '') '', ''syntax'')" by code_simp+
  moreover have c: "parsecmd (lit ''>f ls'') = Inr (REDIR (EXEC [(lit ''ls'', [])]) (lit ''f ls'', lit '' ls'') 0x601 1)"
    by code_simp
  ultimately show ?thesis using sh_commands_well_formed [OF c] by auto
qed

text \<open>
  (C33) The recursive descent terminates: with fuel linear in the length of the line the parser returns a command or an error, and
  more fuel changes nothing.
\<close>

theorem sh_parser_terminates:
  assumes "4 * length s + 4 \<le> n"
  shows "parseline n s = parseline (4 * length s + 4) s \<and> parseline n s \<noteq> Out_of_fuel"
proof -
  have "parseline (4 * length s + 4) s \<noteq> Out_of_fuel" using parse_upto [of "4 * length s + 4" s] by auto
  then show ?thesis using parse_more_fuel [OF assms, of s] by (auto simp: more_fuel_def)
qed

theorem sh_parser_terminates_witness:
  "parseline 100 (lit ''((a'') = Panicked ''syntax - missing )'' \<and> parseline 16 (lit ''((a'') = Panicked ''syntax - missing )''"
proof -
  have l: "4 * length (lit ''((a'') + 4 \<le> 100" and k: "4 * length (lit ''((a'') + 4 = 16"
    and p: "parseline 16 (lit ''((a'') = Panicked ''syntax - missing )''" by code_simp+
  show ?thesis using sh_parser_terminates [OF l] p unfolding k by simp
qed


end
