(* ===== verification/Spec2Isabelle.thy ===== *)
theory Spec2Isabelle
  imports Boot Mkfs_Image Bcache_List Spinlock Umalloc Fs_Entries Console_Line Proc_Table Grep Fsinfo_Test Sh_Text
begin

text \<open>
  A verification development of \<^verbatim>\<open>src/xv6\<close>: the xv6 kernel for RISC-V with the added system call \<^verbatim>\<open>fsinfo\<close>, its
  user programs and the program that builds the file system image. The report about the added call and the build files
  are not code of the system.

  \<^bold>\<open>The program and its parts.\<close> \<^verbatim>\<open>kernel/start.c\<close> and \<^verbatim>\<open>main.c\<close> boot the machine and initialise every other part. Pages of
  physical memory come from \<^verbatim>\<open>kalloc.c\<close>; \<^verbatim>\<open>vm.c\<close> builds page tables of them; \<^verbatim>\<open>proc.c\<close> keeps the processes, which run
  user programs through \<^verbatim>\<open>exec.c\<close> and enter the kernel through \<^verbatim>\<open>trap.c\<close> and \<^verbatim>\<open>syscall.c\<close>. The file system is a stack:
  \<^verbatim>\<open>virtio_disk.c\<close> moves blocks, \<^verbatim>\<open>bio.c\<close> caches them, \<^verbatim>\<open>log.c\<close> groups their writes into transactions, \<^verbatim>\<open>fs.c\<close> makes inodes,
  files, directories and paths of them, \<^verbatim>\<open>file.c\<close> and \<^verbatim>\<open>pipe.c\<close> are what a file descriptor names, and \<^verbatim>\<open>sysfile.c\<close> has the
  system calls. \<^verbatim>\<open>mkfs\<close> writes the image the stack starts from, and the programs in \<^verbatim>\<open>user/\<close> use it all through the calls
  of \<^verbatim>\<open>usys.pl\<close>.

  \<^bold>\<open>How code becomes definitions.\<close> A kernel function takes its arguments and the state and gives an outcome (\<open>kout\<close> in
  theory \<open>Prelude\<close>): it returns, it goes to sleep, or it panics. \<open>kbind\<close> composes outcomes, \<open>kfor\<close> is a counting loop.
  A function that the code resumes after a sleep in the middle of its work (reading and writing pipes and the console) is
  split there: its loop gives \<open>Block\<close> with the loop variables, from which it goes on. The state is a chain of records, each
  extending the one below it: \<open>kmem_state\<close> (\<open>Kalloc\<close>), \<open>proc_state\<close> (\<open>Proc_Core\<close>), \<open>bio_state\<close> (\<open>Bio\<close>), \<open>log_state\<close> (\<open>Log\<close>),
  \<open>fs_state\<close> (\<open>Fs_Base\<close>), \<open>cons_state\<close> (\<open>Console\<close>), \<open>file_state\<close> (\<open>File\<close>), \<open>kern_state\<close> (\<open>Proc\<close>), \<open>trap_state\<close> (\<open>Trap\<close>);
  an operation is polymorphic in what is above its own record, so a call from a higher layer needs no translation. Machine
  integers are words where they can wrap around (addresses, page-table entries, ring counters, \<^verbatim>\<open>ticks\<close>); sizes and block
  numbers are natural numbers with the reductions the code's \<^verbatim>\<open>uint\<close> has written out where they can be reached. Blocks,
  strings and pages are lists or functions of bytes with the layouts of the C structures. A function of the code keeps its
  name; a loop of it has the suffix \<open>_loop\<close>, and a name that two files define carries a prefix (\<open>umemset\<close>, \<open>sh_main\<close>).

  \<^bold>\<open>Theories.\<close>
  \<^item> \<open>Prelude\<close>, \<open>Ring_Buffer\<close>, \<open>Bytes\<close>: outcomes, byte encodings and the rings with free-running counters; no code of their own.
  \<^item> \<open>Layout\<close>: the constants and macros of the headers. \<open>Cstring\<close>: \<^verbatim>\<open>kernel/string.c\<close>; \<^verbatim>\<open>memmove\<close> is the simultaneous copy,
    \<^verbatim>\<open>safestrcpy\<close> stays in its bounds and terminates the string.
  \<^item> \<open>Kalloc\<close>: \<^verbatim>\<open>kalloc.c\<close>. The locale \<open>page_pool\<close> is what clients rely on; its interpretation \<open>kpool\<close> gives that no page is
    handed out twice.
  \<^item> \<open>Proc_Core\<close>, \<open>Proc\<close>: \<^verbatim>\<open>proc.c\<close> and \<^verbatim>\<open>sleeplock.c\<close>. \<open>Vm_Frame\<close> shows what page operations leave alone, and \<open>Proc_Table\<close> has
    the steps of the system, the invariant of the process table in all their interleavings, and the fairness of the
    scheduler.
  \<^item> \<open>Vm\<close>, \<open>Vm_Map\<close>, \<open>Vm_Copy\<close>: \<^verbatim>\<open>vm.c\<close>; a page table is a tree of pages, mapping changes the entries of its range only, and
    copies to and from user memory are inverse to each other.
  \<^item> \<open>Virtio\<close>: \<^verbatim>\<open>virtio_disk.c\<close>. The device is a parameter; \<open>serves\<close> is what the virtio specification says of it, and under it
    the driver refines the disk operation that \<open>Bio\<close> uses.
  \<^item> \<open>Bio\<close>, \<open>Bcache_List\<close>: \<^verbatim>\<open>bio.c\<close>, with the list of buffers in the order of their use, and the linked list that implements it.
  \<^item> \<open>Log\<close>, \<open>Log_Crash\<close>: \<^verbatim>\<open>log.c\<close>, crashes at any disk write of a commit or a recovery, durability, and the space in the log.
  \<^item> \<open>Block_Store\<close>: the locale \<open>block_store\<close> between \<open>fs.c\<close> and the two layers below, interpreted on them (\<open>store\<close>).
  \<^item> \<open>Fs_Base\<close>, \<open>Fs_Blocks\<close>, \<open>Fs_Inode\<close>, \<open>Fs_Map\<close>, \<open>Fs_Data\<close>, \<open>Fs_Rw\<close>, \<open>Fs_Dir\<close>, \<open>Fs_Entries\<close>: \<^verbatim>\<open>fs.c\<close> from the free map to path names;
    the allocator, the block map, the contents of files and the entries of directories are verified.
  \<^item> \<open>Mkfs\<close>, \<open>Mkfs_Image\<close>: \<^verbatim>\<open>mkfs/mkfs.c\<close> and the image it builds, read with the kernel's own definitions.
  \<^item> \<open>Printf\<close>, \<open>Console\<close>, \<open>Console_Line\<close>: \<^verbatim>\<open>printf.c\<close>, \<^verbatim>\<open>console.c\<close>, \<^verbatim>\<open>uart.c\<close>; the interrupt handler is a line editor.
  \<^item> \<open>File\<close>, \<open>Pipe\<close>: \<^verbatim>\<open>file.c\<close> and \<^verbatim>\<open>pipe.c\<close>. The locale \<open>bounded_queue\<close> of \<open>Ring_Buffer\<close> is interpreted on the ring of a pipe
    (\<open>pq\<close>) and on the console's (\<open>cq\<close>).
  \<^item> \<open>Exec\<close>, \<open>Sysfile\<close>, \<open>Sysproc\<close>, \<open>Syscall\<close>, \<open>Trap\<close>, \<open>Boot\<close>: \<^verbatim>\<open>exec.c\<close>, \<^verbatim>\<open>sysfile.c\<close>, \<^verbatim>\<open>sysproc.c\<close> with \<^verbatim>\<open>sys_fsinfo\<close>, \<^verbatim>\<open>syscall.c\<close>,
    \<^verbatim>\<open>trap.c\<close> with \<^verbatim>\<open>plic.c\<close>, \<^verbatim>\<open>start.c\<close> and \<^verbatim>\<open>main.c\<close>. They are translated in full; of \<^verbatim>\<open>sys_fsinfo\<close> it is proved that it delivers the
    counts of the disk.
  \<^item> \<open>Spinlock\<close>: \<^verbatim>\<open>spinlock.c\<close> on any number of CPUs, one step per access to the lock; mutual exclusion.
  \<^item> \<open>Usys\<close>, \<open>Ulib\<close>, \<open>Umalloc\<close>, \<open>Uprintf\<close>, \<open>Uprogs\<close>, \<open>Fsinfo_Test\<close>, \<open>Grep\<close>, \<open>Sh\<close>, \<open>Sh_Text\<close>: the user side. A program is a function of the
    answers of its system calls, over which the theorems quantify. The locale \<open>mem_copier\<close> is interpreted on both \<^verbatim>\<open>memmove\<close>s, and
    \<open>command_line\<close> on the lines the shell reads. \<open>Umalloc\<close> shows that the blocks \<^verbatim>\<open>malloc\<close> gives out never overlap and that none is lost.

  \<^bold>\<open>Bounds and fuel.\<close> Loops are structural recursion or functions with a termination proof. The loops of user programs that
  may run forever consume the answers of the kernel and wait in a call when none is left; those of \<^verbatim>\<open>malloc\<close> and \<^verbatim>\<open>free\<close>, which
  end only on an intact list, are partial functions, and it is proved that they return. The shell's parser takes fuel; \<^verbatim>\<open>parsecmd\<close>
  gives it \<open>4 * length + 4\<close>, and theorem \<open>sh_parser_terminates\<close> shows that it never runs out. \<^verbatim>\<open>freewalk\<close> has the depth of the tables it
  is called on, three, as its bound: deeper recursion is a panic of the model. The search through the linked buffers takes
  the number of buffers, with which it is shown to reach the head. The constants are those of \<^verbatim>\<open>param.h\<close> and \<^verbatim>\<open>fs.h\<close>.

  \<^bold>\<open>What is assumed.\<close> Outside \<open>Spinlock\<close> a critical section is one step, and in \<open>Proc_Table\<close> one CPU takes the steps. A block write of the
  disk is atomic and writes reach the disk in the order in which the driver waits for them. The files that \<^verbatim>\<open>mkfs\<close> copies and the
  answers of the kernel to a user program are arguments. The shell's command trees are values, with memory available for them.

  \<^bold>\<open>Not modelled.\<close> The assembly files (\<^verbatim>\<open>entry.S\<close>, \<^verbatim>\<open>kernelvec.S\<close>, \<^verbatim>\<open>swtch.S\<close>, \<^verbatim>\<open>trampoline.S\<close>) and the single-instruction wrappers of
  \<^verbatim>\<open>riscv.h\<close>: what they do to registers appears as fields of \<open>trap_state\<close> and as the trapframe. The test programs (\<^verbatim>\<open>usertests.c\<close>,
  \<^verbatim>\<open>grind.c\<close>, \<^verbatim>\<open>forktest.c\<close>, \<^verbatim>\<open>stressfs.c\<close>, \<^verbatim>\<open>logstress.c\<close>), which exercise the kernel and have no behaviour to specify. The messages that recovery and \<^verbatim>\<open>mkfs\<close> print.
\<close>

end
